(* ===== verification/Prelude.thy ===== *)
theory Prelude
  imports Main "HOL-Library.Word"
begin

text \<open>
  Shared material of the development: the theorem collections, the C locale character
  functions and the decimal conversions that the C++ sources use from their standard library
  (\<open>std::isupper\<close>, \<open>std::tolower\<close>, \<open>std::isdigit\<close>, \<open>std::isspace\<close>, \<open>std::to_string\<close>,
  \<open>std::istringstream >> int\<close>), and the generic lemmas on lists, options and exclusive-or sums
  that several components use.
\<close>

unbundle bit_operations_syntax

named_theorems flag_simps \<open>the bit tests of move flags and castling rights\<close>
named_theorems room_simps \<open>what each game room operation leaves unchanged\<close>

section \<open>Characters of the C locale\<close>

abbreviation byte_of :: "char \<Rightarrow> nat" where
  "byte_of c \<equiv> of_char c"

definition char_val :: "char \<Rightarrow> int" where
  \<comment> \<open>the value of a \<open>char\<close> promoted to \<open>int\<close> (\<open>char\<close> is signed on the platforms of the build)\<close>
  "char_val c = (if byte_of c < 128 then int (byte_of c) else int (byte_of c) - 256)"

definition char_of_int :: "int \<Rightarrow> char" where
  \<comment> \<open>\<open>static_cast<char>\<close> of an \<open>int\<close>\<close>
  "char_of_int i = char_of (nat (i mod 256))"

definition c_isupper :: "char \<Rightarrow> bool" where
  "c_isupper c \<longleftrightarrow> 65 \<le> byte_of c \<and> byte_of c \<le> 90"

definition c_tolower :: "char \<Rightarrow> char" where
  "c_tolower c = (if c_isupper c then char_of (byte_of c + 32) else c)"

definition c_isdigit :: "char \<Rightarrow> bool" where
  "c_isdigit c \<longleftrightarrow> 48 \<le> byte_of c \<and> byte_of c \<le> 57"

definition c_isspace :: "char \<Rightarrow> bool" where
  "c_isspace c \<longleftrightarrow> byte_of c = 32 \<or> (9 \<le> byte_of c \<and> byte_of c \<le> 13)"

lemma byte_of_less: "byte_of c < 256"
  using of_char_mod_256 [of c, where 'a = nat] by (metis mod_less_divisor zero_less_numeral)

lemma char_val_bounds: "-128 \<le> char_val c \<and> char_val c < 128"
  using byte_of_less [of c] unfolding char_val_def by arith

lemma char_of_numeral_eq [simp]:
  "char_of (numeral n :: nat) = c \<longleftrightarrow> (numeral n :: nat) mod 256 = byte_of c"
  by (simp only: char_of_eq_iff take_bit_eq_mod) simp

lemma byte_of_char_of_int: "0 \<le> i \<Longrightarrow> i < 256 \<Longrightarrow> byte_of (char_of_int i) = nat i"
  by (simp add: char_of_int_def)

lemma char_val_char_of_int [simp]: "0 \<le> i \<Longrightarrow> i < 128 \<Longrightarrow> char_val (char_of_int i) = i"
  by (simp add: char_val_def byte_of_char_of_int)

lemma char_of_int_char_val: "0 \<le> char_val c \<Longrightarrow> char_of_int (char_val c) = c"
  by (simp add: char_val_def char_of_int_def split: if_splits)

section \<open>Decimal numbers\<close>

definition dec_digit :: "nat \<Rightarrow> char" where
  "dec_digit d = char_of (48 + d)"

fun dec_nat :: "nat \<Rightarrow> string" where
  "dec_nat n = (if n < 10 then [dec_digit n] else dec_nat (n div 10) @ [dec_digit (n mod 10)])"

declare dec_nat.simps [simp del]

definition dec_int :: "int \<Rightarrow> string" where
  \<comment> \<open>\<open>std::to_string\<close> of an \<open>int\<close>\<close>
  "dec_int i = (if i < 0 then CHR ''-'' # dec_nat (nat (- i)) else dec_nat (nat i))"

fun digits_val :: "string \<Rightarrow> int \<Rightarrow> int" where
  "digits_val [] acc = acc"
| "digits_val (c # cs) acc = digits_val cs (acc * 10 + (char_val c - 48))"

definition skip_space :: "string \<Rightarrow> string" where
  "skip_space s = dropWhile c_isspace s"

definition read_token :: "string \<Rightarrow> (string \<times> string) option" where
  \<comment> \<open>\<open>stream >> std::string\<close>: the next run of non-blank characters, None at the end\<close>
  "read_token s =
     (let t = skip_space s
      in if t = [] then None
         else Some (takeWhile (\<lambda>c. \<not> c_isspace c) t, dropWhile (\<lambda>c. \<not> c_isspace c) t))"

definition read_int :: "string \<Rightarrow> (int \<times> string) option" where
  \<comment> \<open>\<open>stream >> int\<close>: optional sign, at least one digit, a value that fits 32 bits\<close>
  "read_int s =
     (let t = skip_space s;
          neg = (t \<noteq> [] \<and> hd t = CHR ''-'');
          body = (if t \<noteq> [] \<and> (hd t = CHR ''-'' \<or> hd t = CHR ''+'') then tl t else t);
          ds = takeWhile c_isdigit body;
          v = (if neg then - digits_val ds 0 else digits_val ds 0)
      in if ds = [] \<or> v < - (2 ^ 31) \<or> 2 ^ 31 \<le> v then None
         else Some (v, dropWhile c_isdigit body))"

lemma byte_of_dec_digit: "d < 10 \<Longrightarrow> byte_of (dec_digit d) = 48 + d"
  by (simp add: dec_digit_def)

lemma dec_digit_isdigit [simp]: "d < 10 \<Longrightarrow> c_isdigit (dec_digit d)"
  by (simp add: c_isdigit_def byte_of_dec_digit)

lemma char_val_dec_digit [simp]: "d < 10 \<Longrightarrow> char_val (dec_digit d) = 48 + int d"
  by (simp add: char_val_def byte_of_dec_digit)

lemma digits_val_append: "digits_val (xs @ ys) acc = digits_val ys (digits_val xs acc)"
  by (induction xs acc rule: digits_val.induct) auto

lemma dec_nat_nonempty [simp]: "dec_nat n \<noteq> []"
  by (subst dec_nat.simps) simp

lemma dec_nat_digits: "\<forall>c \<in> set (dec_nat n). c_isdigit c"
proof (induction n rule: dec_nat.induct)
  case (1 n)
  then show ?case
    by (cases "n < 10") (auto simp: dec_nat.simps [of n])
qed

lemma digits_val_dec_nat: "digits_val (dec_nat n) 0 = int n"
proof (induction n rule: dec_nat.induct)
  case (1 n)
  show ?case
  proof (cases "n < 10")
    case True
    then show ?thesis by (simp add: dec_nat.simps [of n])
  next
    case False
    then have "digits_val (dec_nat n) 0 = int (n div 10) * 10 + int (n mod 10)"
      using 1 by (simp add: dec_nat.simps [of n] digits_val_append)
    then show ?thesis by (metis div_mult_mod_eq of_nat_add of_nat_mult of_nat_numeral)
  qed
qed

lemma digit_not_space: "c_isdigit c \<Longrightarrow> \<not> c_isspace c"
  by (auto simp: c_isdigit_def c_isspace_def)

lemma digit_not_sign: "c_isdigit c \<Longrightarrow> c \<noteq> CHR ''-'' \<and> c \<noteq> CHR ''+'' \<and> c \<noteq> CHR ''/''"
  by (auto simp: c_isdigit_def)

lemma read_token_append:
  assumes "t \<noteq> []" and "\<forall>c \<in> set t. \<not> c_isspace c" and "c_isspace w"
  shows "read_token (t @ w # rest) = Some (t, w # rest)"
proof -
  have "dropWhile c_isspace (t @ w # rest) = t @ w # rest"
    using assms by (cases t) auto
  then show ?thesis
    using assms by (simp add: read_token_def skip_space_def Let_def takeWhile_append dropWhile_append)
qed

lemma read_token_blank: "c_isspace w \<Longrightarrow> read_token (w # s) = read_token s"
  by (simp add: read_token_def skip_space_def)

lemma read_int_blank: "c_isspace w \<Longrightarrow> read_int (w # s) = read_int s"
  by (simp add: read_int_def skip_space_def)

lemma read_int_dec_nat:
  assumes "int n < 2 ^ 31" and "rest = [] \<or> \<not> c_isdigit (hd rest)"
  shows "read_int (dec_nat n @ rest) = Some (int n, rest)"
proof -
  obtain d ds where ds: "dec_nat n = d # ds"
    using dec_nat_nonempty [of n] by (cases "dec_nat n") auto
  have d: "c_isdigit d"
    using dec_nat_digits [of n] ds by simp
  have all: "\<forall>c \<in> set (dec_nat n). c_isdigit c"
    by (rule dec_nat_digits)
  have skip: "dropWhile c_isspace (dec_nat n @ rest) = dec_nat n @ rest"
    using ds d by (simp add: digit_not_space)
  have tw: "takeWhile c_isdigit (dec_nat n @ rest) = dec_nat n"
    using all assms(2) by (cases rest) (simp_all add: takeWhile_append)
  have dw: "dropWhile c_isdigit (dec_nat n @ rest) = rest"
    using all assms(2) by (cases rest) (simp_all add: dropWhile_append)
  have hd: "hd (dec_nat n @ rest) = d" using ds by simp
  show ?thesis
    using assms(1) digit_not_sign [OF d] skip tw dw hd
    by (simp add: read_int_def skip_space_def Let_def digits_val_dec_nat)
qed

section \<open>Loops over a list\<close>

lemma foldl_invariant:
  \<comment> \<open>a loop that keeps an invariant, only moves along \<open>R\<close>, and does \<open>D j\<close> at each element, which later steps keep\<close>
  assumes "I s"
    and "\<And>s j. j \<in> set js \<Longrightarrow> I s \<Longrightarrow> I (f s j) \<and> R s (f s j) \<and> D j (f s j)"
    and "\<And>s. R s s" and "\<And>a b c. R a b \<Longrightarrow> R b c \<Longrightarrow> R a c" and "\<And>j a b. D j a \<Longrightarrow> R a b \<Longrightarrow> D j b"
  shows "I (foldl f s js) \<and> R s (foldl f s js) \<and> (\<forall>j \<in> set js. D j (foldl f s js))"
  using assms(1,2)
proof (induction js arbitrary: s)
  case Nil
  then show ?case using assms(3) by simp
next
  case (Cons j js)
  have step: "I (f s j)" "R s (f s j)" "D j (f s j)" using Cons.prems by auto
  have "I (foldl f (f s j) js) \<and> R (f s j) (foldl f (f s j) js) \<and> (\<forall>k \<in> set js. D k (foldl f (f s j) js))"
    using Cons.prems(2) by (intro Cons.IH step(1)) simp
  then show ?case using step(2,3) assms(4,5) by auto
qed

end
