(* ===== verification/Types.thy ===== *)
theory Types
  imports Prelude
begin

text \<open>
  The value types of the chess rules: squares, pieces, castling masks and game status
  (\<open>src/core/types.h\<close>), and moves with their flag byte (\<open>src/chess/move.h\<close>), with the character
  and UCI conversions that \<open>src/chess/board.cpp\<close> implements for them. A \<open>Square\<close> is a
  \<open>uint8_t\<close>: it is a natural number here, and \<^const>\<open>nat\<close> of a value modulo 256 wherever the
  source casts an \<open>int\<close> to it. The shows of this theory are the coordinate laws of squares and
  the round trips of the piece letters, the algebraic square names and the UCI move strings.
\<close>

section \<open>Squares\<close>

type_synonym square = nat

definition NO_SQUARE :: square where
  "NO_SQUARE = 64"

definition make_square :: "int \<Rightarrow> int \<Rightarrow> square" where
  "make_square rank file = nat ((rank * 8 + file) mod 256)"

definition rank_of :: "square \<Rightarrow> int" where
  "rank_of sq = int (sq div 8)"

definition file_of :: "square \<Rightarrow> int" where
  "file_of sq = int (sq mod 8)"

definition is_valid_square :: "int \<Rightarrow> bool" where
  "is_valid_square sq \<longleftrightarrow> 0 \<le> sq \<and> sq < 64"

abbreviation on_board :: "int \<Rightarrow> int \<Rightarrow> bool" where
  "on_board r f \<equiv> 0 \<le> r \<and> r < 8 \<and> 0 \<le> f \<and> f < 8"

lemma rank_of_make_square [simp]: "on_board r f \<Longrightarrow> rank_of (make_square r f) = r"
  by (simp add: rank_of_def make_square_def zdiv_int)

lemma file_of_make_square [simp]: "on_board r f \<Longrightarrow> file_of (make_square r f) = f"
  by (simp add: file_of_def make_square_def zmod_int)

lemma make_square_less [simp]: "on_board r f \<Longrightarrow> make_square r f < 64"
  by (simp add: make_square_def nat_less_iff)

lemma make_square_rank_file [simp]: "sq < 64 \<Longrightarrow> make_square (rank_of sq) (file_of sq) = sq"
proof -
  assume "sq < 64"
  moreover have "int (sq div 8) * 8 + int (sq mod 8) = int sq"
    using div_mult_mod_eq [of sq 8] by linarith
  ultimately show ?thesis by (simp add: make_square_def rank_of_def file_of_def)
qed

lemma on_board_rank_file [simp]:
  "0 \<le> rank_of sq" "0 \<le> file_of sq" "file_of sq < 8" "sq < 64 \<Longrightarrow> rank_of sq < 8"
  by (simp_all add: rank_of_def file_of_def)

lemma square_bound_simps [simp]:
  "\<not> rank_of sq < 0" "\<not> file_of sq < 0" "\<not> 7 < file_of sq" "\<not> 8 \<le> file_of sq"
  "sq < 64 \<Longrightarrow> \<not> 7 < rank_of sq" "sq < 64 \<Longrightarrow> \<not> 8 \<le> rank_of sq"
  "on_board r f \<Longrightarrow> \<not> 64 \<le> make_square r f"
  using on_board_rank_file [of sq] make_square_less [of r f] by linarith+

lemma make_square_inj:
  "on_board r f \<Longrightarrow> on_board r' f' \<Longrightarrow> make_square r f = make_square r' f' \<longleftrightarrow> r = r' \<and> f = f'"
  by (metis rank_of_make_square file_of_make_square)

lemma square_eq_iff: "a < 64 \<Longrightarrow> b < 64 \<Longrightarrow> a = b \<longleftrightarrow> rank_of a = rank_of b \<and> file_of a = file_of b"
  by (metis make_square_rank_file)

section \<open>Pieces, colours and game status\<close>

datatype piece_type = PAWN | KNIGHT | BISHOP | ROOK | QUEEN | KING | PT_NONE

datatype color = WHITE | BLACK | C_NONE

definition opposite_color :: "color \<Rightarrow> color" where
  "opposite_color c = (if c = WHITE then BLACK else WHITE)"

record piece =
  ptype :: piece_type
  pcolor :: color

abbreviation Piece :: "piece_type \<Rightarrow> color \<Rightarrow> piece" where
  "Piece t c \<equiv> \<lparr>ptype = t, pcolor = c\<rparr>"

abbreviation no_piece :: piece where
  "no_piece \<equiv> Piece PT_NONE C_NONE"

definition is_none :: "piece \<Rightarrow> bool" where
  "is_none p \<longleftrightarrow> ptype p = PT_NONE"

datatype game_status =
  ONGOING | CHECKMATE | STALEMATE | DRAW_INSUFFICIENT_MATERIAL | DRAW_FIFTY_MOVE
| DRAW_THREEFOLD_REPETITION | DRAW_AGREEMENT | RESIGNATION | TIMEOUT | ABANDONMENT

text \<open>The enumerators' numeric values, which index the Zobrist tables.\<close>

primrec type_index :: "piece_type \<Rightarrow> nat" where
  "type_index PAWN = 0"
| "type_index KNIGHT = 1"
| "type_index BISHOP = 2"
| "type_index ROOK = 3"
| "type_index QUEEN = 4"
| "type_index KING = 5"
| "type_index PT_NONE = 6"

primrec color_index :: "color \<Rightarrow> nat" where
  "color_index WHITE = 0"
| "color_index BLACK = 1"
| "color_index C_NONE = 2"

lemma opposite_color_simps [simp]:
  "opposite_color WHITE = BLACK" "opposite_color BLACK = WHITE"
  "c \<noteq> C_NONE \<Longrightarrow> opposite_color (opposite_color c) = c"
  "opposite_color c \<noteq> C_NONE"
  by (cases c; simp add: opposite_color_def)+

lemma opposite_color_neq: "c \<noteq> C_NONE \<Longrightarrow> opposite_color c \<noteq> c"
  by (cases c) auto

lemma is_none_no_piece [simp]: "is_none no_piece"
  by (simp add: is_none_def)

section \<open>Castling rights\<close>

abbreviation (input) CR_NONE :: "8 word" where "CR_NONE \<equiv> 0"
abbreviation (input) WHITE_KINGSIDE :: "8 word" where "WHITE_KINGSIDE \<equiv> 1"
abbreviation (input) WHITE_QUEENSIDE :: "8 word" where "WHITE_QUEENSIDE \<equiv> 2"
abbreviation (input) BLACK_KINGSIDE :: "8 word" where "BLACK_KINGSIDE \<equiv> 4"
abbreviation (input) BLACK_QUEENSIDE :: "8 word" where "BLACK_QUEENSIDE \<equiv> 8"
abbreviation (input) CR_ALL :: "8 word" where "CR_ALL \<equiv> 15"

abbreviation (input) A1 :: square where "A1 \<equiv> 0"
abbreviation (input) B1 :: square where "B1 \<equiv> 1"
abbreviation (input) C1 :: square where "C1 \<equiv> 2"
abbreviation (input) D1 :: square where "D1 \<equiv> 3"
abbreviation (input) E1 :: square where "E1 \<equiv> 4"
abbreviation (input) F1 :: square where "F1 \<equiv> 5"
abbreviation (input) G1 :: square where "G1 \<equiv> 6"
abbreviation (input) H1 :: square where "H1 \<equiv> 7"
abbreviation (input) A8 :: square where "A8 \<equiv> 56"
abbreviation (input) B8 :: square where "B8 \<equiv> 57"
abbreviation (input) C8 :: square where "C8 \<equiv> 58"
abbreviation (input) D8 :: square where "D8 \<equiv> 59"
abbreviation (input) E8 :: square where "E8 \<equiv> 60"
abbreviation (input) F8 :: square where "F8 \<equiv> 61"
abbreviation (input) G8 :: square where "G8 \<equiv> 62"
abbreviation (input) H8 :: square where "H8 \<equiv> 63"

section \<open>Moves\<close>

abbreviation (input) MF_NONE :: "8 word" where "MF_NONE \<equiv> 0"
abbreviation (input) MF_PROMOTION :: "8 word" where "MF_PROMOTION \<equiv> 1"
abbreviation (input) MF_EN_PASSANT :: "8 word" where "MF_EN_PASSANT \<equiv> 2"
abbreviation (input) MF_KINGSIDE_CASTLE :: "8 word" where "MF_KINGSIDE_CASTLE \<equiv> 4"
abbreviation (input) MF_QUEENSIDE_CASTLE :: "8 word" where "MF_QUEENSIDE_CASTLE \<equiv> 8"
abbreviation (input) MF_DOUBLE_PAWN_PUSH :: "8 word" where "MF_DOUBLE_PAWN_PUSH \<equiv> 16"

record move =
  m_from :: square
  m_to :: square
  m_flags :: "8 word"
  m_promo :: piece_type

abbreviation Move :: "square \<Rightarrow> square \<Rightarrow> 8 word \<Rightarrow> piece_type \<Rightarrow> move" where
  "Move f t fl pt \<equiv> \<lparr>m_from = f, m_to = t, m_flags = fl, m_promo = pt\<rparr>"

abbreviation null_move :: move where
  "null_move \<equiv> Move 0 0 MF_NONE PT_NONE"

definition is_promotion :: "move \<Rightarrow> bool" where
  "is_promotion m \<longleftrightarrow> m_flags m AND MF_PROMOTION \<noteq> 0"

definition is_en_passant :: "move \<Rightarrow> bool" where
  "is_en_passant m \<longleftrightarrow> m_flags m AND MF_EN_PASSANT \<noteq> 0"

definition is_kingside_castle :: "move \<Rightarrow> bool" where
  "is_kingside_castle m \<longleftrightarrow> m_flags m AND MF_KINGSIDE_CASTLE \<noteq> 0"

definition is_queenside_castle :: "move \<Rightarrow> bool" where
  "is_queenside_castle m \<longleftrightarrow> m_flags m AND MF_QUEENSIDE_CASTLE \<noteq> 0"

definition is_castle :: "move \<Rightarrow> bool" where
  "is_castle m \<longleftrightarrow> is_kingside_castle m \<or> is_queenside_castle m"

definition is_double_pawn_push :: "move \<Rightarrow> bool" where
  "is_double_pawn_push m \<longleftrightarrow> m_flags m AND MF_DOUBLE_PAWN_PUSH \<noteq> 0"

lemmas move_flag_defs [flag_simps] =
  is_promotion_def is_en_passant_def is_kingside_castle_def is_queenside_castle_def
  is_castle_def is_double_pawn_push_def

section \<open>Letters, square names and UCI strings\<close>

definition piece_to_char :: "piece \<Rightarrow> char" where
  "piece_to_char p =
     (if ptype p = PT_NONE then CHR ''.''
      else let c = (case ptype p of PAWN \<Rightarrow> CHR ''P'' | KNIGHT \<Rightarrow> CHR ''N'' | BISHOP \<Rightarrow> CHR ''B''
                    | ROOK \<Rightarrow> CHR ''R'' | QUEEN \<Rightarrow> CHR ''Q'' | KING \<Rightarrow> CHR ''K'' | PT_NONE \<Rightarrow> CHR ''.'')
           in if pcolor p = BLACK then c_tolower c else c)"

definition piece_from_char :: "char \<Rightarrow> piece" where
  "piece_from_char c =
     (let col = (if c_isupper c then WHITE else BLACK); l = c_tolower c
      in if l = CHR ''p'' then Piece PAWN col
         else if l = CHR ''n'' then Piece KNIGHT col
         else if l = CHR ''b'' then Piece BISHOP col
         else if l = CHR ''r'' then Piece ROOK col
         else if l = CHR ''q'' then Piece QUEEN col
         else if l = CHR ''k'' then Piece KING col
         else no_piece)"

definition square_to_algebraic :: "square \<Rightarrow> string" where
  "square_to_algebraic sq =
     (if 64 \<le> sq then ''??''
      else [char_of_int (97 + file_of sq), char_of_int (49 + rank_of sq)])"

definition algebraic_to_square :: "string \<Rightarrow> square" where
  "algebraic_to_square alg =
     (if length alg \<noteq> 2 then NO_SQUARE
      else let file = char_val (alg ! 0) - 97; rank = char_val (alg ! 1) - 49
           in if file < 0 \<or> 7 < file \<or> rank < 0 \<or> 7 < rank then NO_SQUARE
              else make_square rank file)"

definition to_uci :: "move \<Rightarrow> string" where
  "to_uci m =
     [char_of_int (97 + file_of (m_from m)), char_of_int (49 + rank_of (m_from m)),
      char_of_int (97 + file_of (m_to m)), char_of_int (49 + rank_of (m_to m))] @
     (if is_promotion m then
        (case m_promo m of QUEEN \<Rightarrow> ''q'' | ROOK \<Rightarrow> ''r'' | BISHOP \<Rightarrow> ''b'' | KNIGHT \<Rightarrow> ''n'' | _ \<Rightarrow> [])
      else [])"

definition uci_promo :: "char \<Rightarrow> piece_type option" where
  "uci_promo ch =
     (let c = c_tolower ch
      in if c = CHR ''q'' then Some QUEEN
         else if c = CHR ''r'' then Some ROOK
         else if c = CHR ''b'' then Some BISHOP
         else if c = CHR ''n'' then Some KNIGHT
         else None)"

definition from_uci :: "string \<Rightarrow> move" where
  "from_uci uci =
     (if length uci < 4 \<or> 5 < length uci then null_move
      else let from_file = char_val (uci ! 0) - 97; from_rank = char_val (uci ! 1) - 49;
               to_file = char_val (uci ! 2) - 97; to_rank = char_val (uci ! 3) - 49
           in if from_file < 0 \<or> 7 < from_file \<or> from_rank < 0 \<or> 7 < from_rank \<or>
                 to_file < 0 \<or> 7 < to_file \<or> to_rank < 0 \<or> 7 < to_rank then null_move
              else let from_sq = make_square from_rank from_file; to_sq = make_square to_rank to_file
                   in if length uci = 5 then
                        (case uci_promo (uci ! 4) of
                           None \<Rightarrow> null_move
                         | Some promo \<Rightarrow> Move from_sq to_sq MF_PROMOTION promo)
                      else Move from_sq to_sq MF_NONE PT_NONE)"

definition piece_ok :: "piece \<Rightarrow> bool" where
  \<comment> \<open>a piece has a type exactly when it has a colour\<close>
  "piece_ok p \<longleftrightarrow> (ptype p = PT_NONE) = (pcolor p = C_NONE)"

lemma piece_ok_none: "piece_ok p \<Longrightarrow> is_none p \<longleftrightarrow> p = no_piece"
  by (cases p) (auto simp: piece_ok_def is_none_def)

lemma piece_ok_Piece [simp]: "piece_ok no_piece" "t \<noteq> PT_NONE \<Longrightarrow> c \<noteq> C_NONE \<Longrightarrow> piece_ok (Piece t c)"
  by (simp_all add: piece_ok_def)

lemma piece_from_char_to_char:
  "piece_ok p \<Longrightarrow> \<not> is_none p \<Longrightarrow> piece_from_char (piece_to_char p) = p"
  by (cases p; cases "ptype p"; cases "pcolor p")
    (simp_all add: piece_ok_def is_none_def piece_to_char_def piece_from_char_def c_isupper_def
      c_tolower_def Let_def)

lemma piece_to_char_letter:
  "piece_ok p \<Longrightarrow> \<not> is_none p \<Longrightarrow>
     \<not> c_isdigit (piece_to_char p) \<and> piece_to_char p \<noteq> CHR ''/'' \<and> \<not> c_isspace (piece_to_char p)"
  by (cases p; cases "ptype p"; cases "pcolor p")
    (simp_all add: piece_ok_def is_none_def piece_to_char_def c_isdigit_def c_isspace_def
      c_isupper_def c_tolower_def)

lemma square_char_vals [simp]:
  "char_val (char_of_int (97 + file_of sq)) = 97 + file_of sq"
  "sq < 64 \<Longrightarrow> char_val (char_of_int (49 + rank_of sq)) = 49 + rank_of sq"
  by (rule char_val_char_of_int, use on_board_rank_file [of sq] in linarith,
      use on_board_rank_file [of sq] in linarith)+

lemma square_char_bytes:
  "byte_of (char_of_int (97 + file_of sq)) = 97 + sq mod 8"
  "sq < 64 \<Longrightarrow> byte_of (char_of_int (49 + rank_of sq)) = 49 + sq div 8"
proof -
  have "sq mod 8 < 8" by simp
  then show "byte_of (char_of_int (97 + file_of sq)) = 97 + sq mod 8"
    by (subst byte_of_char_of_int) (simp_all add: file_of_def nat_add_distrib)
  show "sq < 64 \<Longrightarrow> byte_of (char_of_int (49 + rank_of sq)) = 49 + sq div 8"
    by (subst byte_of_char_of_int) (simp_all add: rank_of_def nat_add_distrib)
qed

lemma algebraic_to_square_bound: "algebraic_to_square s \<le> 64"
  by (auto simp: algebraic_to_square_def NO_SQUARE_def Let_def less_imp_le)

lemma algebraic_square_name: "sq < 64 \<Longrightarrow> algebraic_to_square (square_to_algebraic sq) = sq"
  by (simp add: square_to_algebraic_def algebraic_to_square_def Let_def)

lemma length2_conv: "length s = 2 \<longleftrightarrow> s = [s ! 0, s ! 1]"
  by (auto simp: numeral_2_eq_2 length_Suc_conv)

lemma square_name_algebraic:
  assumes "algebraic_to_square s < 64"
  shows "square_to_algebraic (algebraic_to_square s) = s"
proof -
  define f r where "f = char_val (s ! 0) - 97" and "r = char_val (s ! 1) - 49"
  have ob: "on_board r f" and len: "length s = 2" and sq: "algebraic_to_square s = make_square r f"
    using assms by (auto simp: algebraic_to_square_def NO_SQUARE_def Let_def f_def r_def split: if_splits)
  have "97 + f = char_val (s ! 0)" and "49 + r = char_val (s ! 1)"
    by (simp_all add: f_def r_def)
  moreover from ob this have "char_of_int (char_val (s ! 0)) = s ! 0" "char_of_int (char_val (s ! 1)) = s ! 1"
    by (auto intro!: char_of_int_char_val)
  ultimately show ?thesis
    using ob len length2_conv [of s] by (simp add: sq square_to_algebraic_def)
qed

text \<open>
  The square names are a bijection: every square of the board is read back from its
  algebraic name, every string that \<^const>\<open>algebraic_to_square\<close> accepts is the name of the
  square it returns, and every other string gives \<^const>\<open>NO_SQUARE\<close>.
\<close>

lemma algebraic_bijection:
  "(sq < 64 \<longrightarrow> algebraic_to_square (square_to_algebraic sq) = sq) \<and>
   (if algebraic_to_square s < 64 then square_to_algebraic (algebraic_to_square s) = s
    else algebraic_to_square s = NO_SQUARE)"
  using algebraic_square_name square_name_algebraic algebraic_to_square_bound [of s]
  by (auto simp: NO_SQUARE_def)

lemma uci_promo_letters:
  "uci_promo (CHR ''q'') = Some QUEEN" "uci_promo (CHR ''r'') = Some ROOK"
  "uci_promo (CHR ''b'') = Some BISHOP" "uci_promo (CHR ''n'') = Some KNIGHT"
  by (simp_all add: uci_promo_def c_tolower_def c_isupper_def)

text \<open>
  UCI strings: reading back the UCI string of a move between two squares of the board gives
  the same squares; a promotion to a queen, rook, bishop or knight is read back with its promotion
  flag and piece, and every other move comes back with no flag at all (castling, en passant and
  double-push flags are not part of the string).
\<close>

lemma from_uci_to_uci:
  assumes "m_from m < 64" and "m_to m < 64"
    and "is_promotion m \<Longrightarrow> m_promo m \<in> {QUEEN, ROOK, BISHOP, KNIGHT}"
  shows "from_uci (to_uci m) =
     (if is_promotion m then Move (m_from m) (m_to m) MF_PROMOTION (m_promo m)
      else Move (m_from m) (m_to m) MF_NONE PT_NONE)"
proof (cases "is_promotion m")
  case True
  with assms show ?thesis
    by (cases "m_promo m") (simp_all add: to_uci_def from_uci_def uci_promo_letters Let_def)
next
  case False
  with assms show ?thesis
    by (simp add: to_uci_def from_uci_def Let_def)
qed

end
