(* ===== verification/Zobrist.thy ===== *)
theory Zobrist
  imports Types
begin

text \<open>
  Zobrist hashing (\<open>src/chess/zobrist.h\<close>, \<open>src/chess/zobrist.cpp\<close>): the SplitMix64 generator, the
  table of keys it fills once at start-up, and the hash of a position computed from scratch. The
  hash takes the position's fields rather than a board, because the board record, whose
  constructor calls it, is declared in the theory \<open>Board\<close>. Shown here: the 793 keys are pairwise
  distinct, and how the hash changes when one square changes (the law behind the incremental
  update of \<open>Board::make_move\<close>).
\<close>

section \<open>The generator and the key table\<close>

definition prng_next :: "64 word \<Rightarrow> 64 word \<times> 64 word" where
  \<comment> \<open>\<open>PRNG64::next\<close>: the output and the new state\<close>
  "prng_next state =
     (let s = state + 0x9e3779b97f4a7c15;
          z1 = (s XOR drop_bit 30 s) * 0xbf58476d1ce4e5b9;
          z2 = (z1 XOR drop_bit 27 z1) * 0x94d049bb133111eb
      in (z2 XOR drop_bit 31 z2, s))"

record zobrist_keys =
  z_pieces :: "64 word list list list"
  z_side :: "64 word"
  z_castling :: "64 word list"
  z_en_passant :: "64 word list"

fun prng_fill :: "nat \<Rightarrow> 64 word \<Rightarrow> 64 word list \<times> 64 word" where
  \<comment> \<open>a loop that stores \<open>n\<close> successive outputs\<close>
  "prng_fill 0 s = ([], s)"
| "prng_fill (Suc n) s =
     (let (x, s1) = prng_next s; (xs, s2) = prng_fill n s1 in (x # xs, s2))"

fun prng_fill2 :: "nat \<Rightarrow> nat \<Rightarrow> 64 word \<Rightarrow> 64 word list list \<times> 64 word" where
  "prng_fill2 0 n s = ([], s)"
| "prng_fill2 (Suc m) n s =
     (let (xs, s1) = prng_fill n s; (xss, s2) = prng_fill2 m n s1 in (xs # xss, s2))"

fun prng_fill3 :: "nat \<Rightarrow> nat \<Rightarrow> nat \<Rightarrow> 64 word \<Rightarrow> 64 word list list list \<times> 64 word" where
  "prng_fill3 0 m n s = ([], s)"
| "prng_fill3 (Suc l) m n s =
     (let (xss, s1) = prng_fill2 m n s; (xsss, s2) = prng_fill3 l m n s1 in (xss # xsss, s2))"

definition init_keys :: zobrist_keys where
  "init_keys =
     (let (ps, s1) = prng_fill3 2 6 64 0x8A5CD7896342125;
          (sd, s2) = prng_next s1;
          (cr, s3) = prng_fill 16 s2;
          (ep, s4) = prng_fill 8 s3
      in \<lparr>z_pieces = ps, z_side = sd, z_castling = cr, z_en_passant = ep\<rparr>)"

definition get_keys :: zobrist_keys where
  "get_keys = init_keys"

definition piece_key :: "color \<Rightarrow> piece_type \<Rightarrow> square \<Rightarrow> 64 word" where
  \<comment> \<open>\<open>k.pieces[c][t][sq]\<close>; outside the table (a \<open>NONE\<close> colour or type) the read is unspecified\<close>
  "piece_key c t sq = z_pieces get_keys ! color_index c ! type_index t ! sq"

section \<open>The hash of a position\<close>

definition square_hash :: "piece list \<Rightarrow> nat \<Rightarrow> 64 word" where
  \<comment> \<open>what one iteration of the square loop of \<open>compute_hash\<close> contributes\<close>
  "square_hash sqs sq =
     (let p = sqs ! sq
      in if \<not> is_none p \<and> pcolor p \<noteq> C_NONE \<and> ptype p \<noteq> PT_NONE \<and>
            color_index (pcolor p) < 2 \<and> type_index (ptype p) < 6
         then piece_key (pcolor p) (ptype p) sq else 0)"

definition pieces_hash :: "piece list \<Rightarrow> 64 word" where
  "pieces_hash sqs = fold (\<lambda>sq h. h XOR square_hash sqs sq) [0..<64] 0"

definition ep_hash :: "square \<Rightarrow> 64 word" where
  "ep_hash ep =
     (if ep \<noteq> NO_SQUARE \<and> is_valid_square (int ep)
      then (if 0 \<le> file_of ep \<and> file_of ep < 8 then z_en_passant get_keys ! nat (file_of ep) else 0)
      else 0)"

definition compute_hash :: "piece list \<Rightarrow> color \<Rightarrow> 8 word \<Rightarrow> square \<Rightarrow> 64 word" where
  "compute_hash sqs side rights ep =
     (let h1 = pieces_hash sqs;
          h2 = (if side = BLACK then h1 XOR z_side get_keys else h1);
          h3 = h2 XOR (z_castling get_keys ! unat (rights AND CR_ALL))
      in h3 XOR ep_hash ep)"

section \<open>The hash as an exclusive-or sum\<close>

lemma fold_xor_shift:
  fixes h :: "64 word"
  shows "fold (\<lambda>x h. h XOR g x) xs h = h XOR fold (\<lambda>x h. h XOR g x) xs 0"
proof (induction xs arbitrary: h)
  case Nil
  show ?case by simp
next
  case (Cons a xs)
  show ?case
    using Cons [of "h XOR g a"] Cons [of "g a"] by (simp add: xor.assoc)
qed

lemma fold_xor_Cons:
  "fold (\<lambda>x h. h XOR g x) (a # xs) (0::64 word) = g a XOR fold (\<lambda>x h. h XOR g x) xs 0"
  using fold_xor_shift [of g xs "g a"] by simp

lemma fold_xor_cong:
  "(\<And>x. x \<in> set xs \<Longrightarrow> g x = g' x) \<Longrightarrow>
   fold (\<lambda>x h. h XOR g x) xs (0::64 word) = fold (\<lambda>x h. h XOR g' x) xs 0"
  by (rule fold_cong) auto

lemma fold_xor_change:
  assumes "distinct xs" and "i \<in> set xs" and "\<And>x. x \<noteq> i \<Longrightarrow> g' x = g x"
  shows "fold (\<lambda>x h. h XOR g' x) xs (0::64 word) =
         fold (\<lambda>x h. h XOR g x) xs 0 XOR g i XOR g' i"
  using assms(1,2)
proof (induction xs)
  case Nil
  then show ?case by simp
next
  case (Cons a xs)
  show ?case
  proof (cases "a = i")
    case True
    then have "i \<notin> set xs" using Cons.prems by simp
    then have same: "fold (\<lambda>x h. h XOR g' x) xs (0::64 word) = fold (\<lambda>x h. h XOR g x) xs 0"
      by (intro fold_xor_cong assms(3)) auto
    show ?thesis
      using True by (simp only: fold_xor_Cons same) (simp add: ac_simps)
  next
    case False
    then have "fold (\<lambda>x h. h XOR g' x) xs (0::64 word) =
               fold (\<lambda>x h. h XOR g x) xs 0 XOR g i XOR g' i"
      using Cons by simp
    then show ?thesis
      using False assms(3) [of a] by (simp only: fold_xor_Cons) (simp add: ac_simps)
  qed
qed

definition piece_hash :: "piece \<Rightarrow> square \<Rightarrow> 64 word" where
  "piece_hash p sq = (if is_none p then 0 else piece_key (pcolor p) (ptype p) sq)"

lemma piece_hash_none [simp]: "is_none p \<Longrightarrow> piece_hash p sq = 0"
  by (simp add: piece_hash_def)

lemma square_hash_piece: "piece_ok (sqs ! sq) \<Longrightarrow> square_hash sqs sq = piece_hash (sqs ! sq) sq"
  by (cases "ptype (sqs ! sq)"; cases "pcolor (sqs ! sq)")
    (simp_all add: square_hash_def piece_hash_def piece_ok_def is_none_def Let_def)

lemma pieces_hash_update:
  assumes "length sqs = 64" and "i < 64" and "list_all piece_ok sqs" and "piece_ok p"
  shows "pieces_hash (sqs[i := p]) = pieces_hash sqs XOR (piece_hash (sqs ! i) i XOR piece_hash p i)"
proof -
  have "square_hash (sqs[i := p]) x = square_hash sqs x" if "x \<noteq> i" for x
    using that by (simp add: square_hash_def)
  then have "pieces_hash (sqs[i := p]) =
      pieces_hash sqs XOR square_hash sqs i XOR square_hash (sqs[i := p]) i"
    unfolding pieces_hash_def using assms by (intro fold_xor_change) auto
  moreover have "piece_ok (sqs ! i)"
    using assms by (simp add: list_all_length)
  ultimately show ?thesis
    using assms by (simp add: square_hash_piece xor.assoc)
qed

lemma list_all_update: "list_all P xs \<Longrightarrow> P x \<Longrightarrow> list_all P (xs[i := x])"
  by (auto simp: list_all_iff dest: set_update_subset_insert [THEN subsetD])

section \<open>The keys are pairwise distinct\<close>

definition mix :: "64 word \<Rightarrow> 64 word" where
  "mix s =
     (let z1 = (s XOR drop_bit 30 s) * 0xbf58476d1ce4e5b9;
          z2 = (z1 XOR drop_bit 27 z1) * 0x94d049bb133111eb
      in z2 XOR drop_bit 31 z2)"

definition gamma :: "64 word" where
  "gamma = 0x9e3779b97f4a7c15"

lemma prng_next_mix: "prng_next s = (mix (s + gamma), s + gamma)"
  by (simp add: prng_next_def mix_def gamma_def Let_def)

lemma drop_bit_fixed_zero:
  fixes d :: "64 word"
  assumes "drop_bit k d = d" and "0 < k"
  shows "d = 0"
proof -
  have iter: "drop_bit (n * k) d = d" for n
  proof (induction n)
    case (Suc n)
    have "drop_bit (Suc n * k) d = drop_bit (n * k) (drop_bit k d)"
      by (simp add: add.commute)
    then show ?case using Suc assms(1) by simp
  qed simp
  have "drop_bit (64 * k) d = 0"
    using assms(2) by (intro bit_eqI) (simp add: bit_drop_bit_eq bit_word.rep_eq bit_imp_le_length)
  then show ?thesis using iter [of 64] by simp
qed

lemma xor_swap:
  fixes a b c d :: "64 word"
  shows "a XOR b = c XOR d \<Longrightarrow> b XOR d = a XOR c"
  unfolding bit_eq_iff bit_xor_iff by blast

lemma xor_zero_eq:
  fixes x y :: "64 word"
  shows "x XOR y = 0 \<Longrightarrow> x = y"
  unfolding bit_eq_iff bit_xor_iff bit_0_eq bot_fun_def bot_bool_def by blast

lemma xorshift_inj:
  fixes x y :: "64 word"
  assumes "x XOR drop_bit k x = y XOR drop_bit k y" and "0 < k"
  shows "x = y"
proof -
  have "drop_bit k (x XOR y) = drop_bit k x XOR drop_bit k y"
    by (rule drop_bit_xor)
  also have "\<dots> = x XOR y"
    using assms(1) by (rule xor_swap)
  finally have "x XOR y = 0"
    using assms(2) by (rule drop_bit_fixed_zero)
  then show ?thesis by (rule xor_zero_eq)
qed

lemma mult_inverse_inj:
  fixes x y a b :: "64 word"
  assumes "x * a = y * a" and "a * b = 1"
  shows "x = y"
proof -
  have "x = x * a * b" using assms(2) by (simp add: mult.assoc)
  also have "\<dots> = y * a * b" using assms(1) by simp
  also have "\<dots> = y" using assms(2) by (simp add: mult.assoc)
  finally show ?thesis .
qed

lemma mix_inj: "mix x = mix y \<Longrightarrow> x = y"
proof -
  define u v where "u = (x XOR drop_bit 30 x) * 0xbf58476d1ce4e5b9"
    and "v = (y XOR drop_bit 30 y) * 0xbf58476d1ce4e5b9"
  define u' v' where "u' = (u XOR drop_bit 27 u) * 0x94d049bb133111eb"
    and "v' = (v XOR drop_bit 27 v) * 0x94d049bb133111eb"
  assume "mix x = mix y"
  then have "u' XOR drop_bit 31 u' = v' XOR drop_bit 31 v'"
    by (simp add: mix_def u_def v_def u'_def v'_def Let_def)
  then have "u' = v'" by (rule xorshift_inj) simp
  then have "u XOR drop_bit 27 u = v XOR drop_bit 27 v"
    unfolding u'_def v'_def by (rule mult_inverse_inj [where b = "0x319642b2d24d8ec3"]) simp
  then have "u = v" by (rule xorshift_inj) simp
  then have "x XOR drop_bit 30 x = y XOR drop_bit 30 y"
    unfolding u_def v_def by (rule mult_inverse_inj [where b = "0x96de1b173f119089"]) simp
  then show "x = y" by (rule xorshift_inj) simp
qed

definition outputs :: "64 word \<Rightarrow> nat \<Rightarrow> 64 word list" where
  "outputs s n = map (\<lambda>i. mix (s + of_nat (Suc i) * gamma)) [0..<n]"

lemma outputs_Suc: "outputs s (Suc n) = mix (s + gamma) # outputs (s + gamma) n"
  by (simp add: outputs_def upt_conv_Cons map_Suc_upt [symmetric] algebra_simps del: upt_Suc)

lemma outputs_add: "outputs s (m + n) = outputs s m @ outputs (s + of_nat m * gamma) n"
  by (induction m arbitrary: s) (simp_all add: outputs_Suc algebra_simps outputs_def [of _ 0])

lemma prng_fill_outputs: "prng_fill n s = (outputs s n, s + of_nat n * gamma)"
  by (induction n arbitrary: s)
    (simp_all add: outputs_Suc prng_next_mix algebra_simps outputs_def [of _ 0])

lemma prng_fill2_outputs:
  "concat (fst (prng_fill2 m n s)) = outputs s (m * n) \<and>
   snd (prng_fill2 m n s) = s + of_nat (m * n) * gamma"
proof (induction m arbitrary: s)
  case (Suc m)
  show ?case
    using Suc [of "s + of_nat n * gamma"]
    by (auto simp: prng_fill_outputs outputs_add split: prod.splits) (simp add: algebra_simps)
qed (simp add: outputs_def)

lemma prng_fill3_outputs:
  "concat (concat (fst (prng_fill3 l m n s))) = outputs s (l * (m * n)) \<and>
   snd (prng_fill3 l m n s) = s + of_nat (l * (m * n)) * gamma"
proof (induction l arbitrary: s)
  case (Suc l)
  show ?case
    using prng_fill2_outputs [of m n s] Suc [of "s + of_nat (m * n) * gamma"]
    by (auto simp: outputs_add split: prod.splits) (simp add: algebra_simps)
qed (simp add: outputs_def)

lemma outputs_distinct: "n \<le> 2 ^ 32 \<Longrightarrow> distinct (outputs s n)"
  unfolding outputs_def distinct_map
proof (intro conjI inj_onI)
  fix i j
  assume n: "n \<le> 2 ^ 32" and ij: "i \<in> set [0..<n]" "j \<in> set [0..<n]"
    and "mix (s + of_nat (Suc i) * gamma) = mix (s + of_nat (Suc j) * gamma)"
  then have "of_nat (Suc i) * gamma = of_nat (Suc j) * gamma"
    using mix_inj by fastforce
  then have eq: "(of_nat (Suc i) :: 64 word) = of_nat (Suc j)"
    unfolding gamma_def by (rule mult_inverse_inj [where b = "0xf1de83e19937733d"]) simp
  have "Suc i < 2 ^ LENGTH(64)" "Suc j < 2 ^ LENGTH(64)"
    using n ij by simp_all
  then have "Suc i = Suc j"
    using eq by (metis unat_of_nat mod_less)
  then show "i = j" by simp
qed simp

definition all_keys :: "zobrist_keys \<Rightarrow> 64 word list" where
  "all_keys k = concat (concat (z_pieces k)) @ z_side k # z_castling k @ z_en_passant k"

text \<open>
  The 793 Zobrist keys (768 piece-square keys, one side key, 16 castling keys and 8 en passant
  keys) that the generator stores are pairwise distinct.
\<close>

lemma zobrist_keys_distinct: "distinct (all_keys get_keys) \<and> length (all_keys get_keys) = 793"
proof -
  let ?s = "0x8A5CD7896342125 :: 64 word"
  obtain ps s1 where ps: "prng_fill3 2 6 64 ?s = (ps, s1)" by fastforce
  then have cps: "concat (concat ps) = outputs ?s 768" and s1: "s1 = ?s + of_nat 768 * gamma"
    using prng_fill3_outputs [of 2 6 64 ?s] by simp_all
  have "all_keys get_keys = outputs ?s 768 @ outputs s1 (1 + (16 + 8))"
    by (simp only: get_keys_def init_keys_def ps all_keys_def outputs_add prng_next_mix
        prng_fill_outputs Let_def case_prod_conv zobrist_keys.select_convs cps [symmetric])
      (simp add: outputs_Suc outputs_def [of _ 0])
  then have "all_keys get_keys = outputs ?s (768 + (1 + (16 + 8)))"
    unfolding outputs_add [of ?s 768] s1 .
  then show ?thesis
    using outputs_distinct [of 793 ?s] by (simp add: outputs_def)
qed

end
