(* ===== verification/Fen.thy ===== *)
theory Fen
  imports Board
begin

text \<open>
  FEN import and export (\<open>Board::set_from_fen\<close>, \<open>Board::to_fen\<close>, \<open>Board::starting_position\<close> of
  \<open>src/chess/board.cpp\<close>). The import returns the boolean of the source together with the board it
  leaves behind, which on failure is the partly filled one, or \<open>Fen_UB\<close> when the piece loop would
  store outside the 64 squares. Shown: a board is read back from its FEN string, and when the
  import stays within the array.
\<close>

section \<open>Export\<close>

fun fen_row :: "piece list \<Rightarrow> nat \<Rightarrow> string" where
  \<comment> \<open>the file loop of one rank, with its counter of empty squares\<close>
  "fen_row [] gap = (if gap > 0 then dec_nat gap else [])"
| "fen_row (p # ps) gap =
     (if is_none p then fen_row ps (gap + 1)
      else (if gap > 0 then dec_nat gap else []) @ piece_to_char p # fen_row ps 0)"

definition rank_pieces :: "piece list \<Rightarrow> nat \<Rightarrow> piece list" where
  "rank_pieces sqs r = map (\<lambda>f. sqs ! make_square (int r) (int f)) [0..<8]"

fun fen_ranks :: "piece list \<Rightarrow> nat \<Rightarrow> string" where
  \<comment> \<open>the rank loop, from the given rank down to rank 0\<close>
  "fen_ranks sqs 0 = fen_row (rank_pieces sqs 0) 0"
| "fen_ranks sqs (Suc r) = fen_row (rank_pieces sqs (Suc r)) 0 @ CHR ''/'' # fen_ranks sqs r"

definition fen_castling :: "8 word \<Rightarrow> string" where
  "fen_castling cr =
     (if cr = CR_NONE then ''-''
      else (if cr AND WHITE_KINGSIDE \<noteq> 0 then ''K'' else []) @
           (if cr AND WHITE_QUEENSIDE \<noteq> 0 then ''Q'' else []) @
           (if cr AND BLACK_KINGSIDE \<noteq> 0 then ''k'' else []) @
           (if cr AND BLACK_QUEENSIDE \<noteq> 0 then ''q'' else []))"

definition to_fen :: "board \<Rightarrow> string" where
  "to_fen b =
     fen_ranks (squares b) 7 @
     (if side_to_move b = WHITE then '' w '' else '' b '') @
     fen_castling (castling_rights b) @
     '' '' @ (if en_passant_sq b = NO_SQUARE then ''-'' else square_to_algebraic (en_passant_sq b)) @
     '' '' @ dec_int (halfmove_clock b) @
     '' '' @ dec_int (fullmove_number b)"

section \<open>Import\<close>

datatype placement = P_UB | P_Fail "piece list" | P_End int int "piece list"

fun place_pieces :: "string \<Rightarrow> int \<Rightarrow> int \<Rightarrow> piece list \<Rightarrow> placement" where
  "place_pieces [] rank file sqs = P_End rank file sqs"
| "place_pieces (c # cs) rank file sqs =
     (if c = CHR ''/'' then
        (if file \<noteq> 8 then P_Fail sqs else place_pieces cs (rank - 1) 0 sqs)
      else if c_isdigit c then
        (let n = char_val c - 48
         in if n < 1 \<or> 8 < n then P_Fail sqs
            else if 8 < file + n then P_Fail sqs
            else place_pieces cs rank (file + n) sqs)
      else
        (let p = piece_from_char c
         in if is_none p then P_Fail sqs
            else if 8 \<le> file then P_Fail sqs
            else if make_square rank file < 64
            then place_pieces cs rank (file + 1) (sqs[make_square rank file := p])
            else P_UB))"

fun parse_castling :: "string \<Rightarrow> 8 word \<Rightarrow> 8 word + 8 word" where
  \<comment> \<open>\<open>Inl\<close>: stopped at an invalid letter, with the mask built so far\<close>
  "parse_castling [] cr = Inr cr"
| "parse_castling (c # cs) cr =
     (if c = CHR ''K'' then parse_castling cs (cr OR WHITE_KINGSIDE)
      else if c = CHR ''Q'' then parse_castling cs (cr OR WHITE_QUEENSIDE)
      else if c = CHR ''k'' then parse_castling cs (cr OR BLACK_KINGSIDE)
      else if c = CHR ''q'' then parse_castling cs (cr OR BLACK_QUEENSIDE)
      else Inl cr)"

definition fen_fields ::
  "string \<Rightarrow> (string \<times> string \<times> string \<times> string \<times> int \<times> int) option" where
  \<comment> \<open>the six extractions from the string stream\<close>
  "fen_fields s =
     (case read_token s of None \<Rightarrow> None | Some (pieces, s1) \<Rightarrow>
     (case read_token s1 of None \<Rightarrow> None | Some (side, s2) \<Rightarrow>
     (case read_token s2 of None \<Rightarrow> None | Some (castling, s3) \<Rightarrow>
     (case read_token s3 of None \<Rightarrow> None | Some (ep, s4) \<Rightarrow>
     (case read_int s4 of None \<Rightarrow> None | Some (halfmove, s5) \<Rightarrow>
     (case read_int s5 of None \<Rightarrow> None | Some (fullmove, s6) \<Rightarrow>
        Some (pieces, side, castling, ep, halfmove, fullmove)))))))"

datatype fen_outcome = Fen_UB | Fen_Return bool board

definition fen_state :: "string \<Rightarrow> string \<Rightarrow> string \<Rightarrow> int \<Rightarrow> int \<Rightarrow> board \<Rightarrow> fen_outcome" where
  \<comment> \<open>fields 2 to 6, on a board whose pieces are placed\<close>
  "fen_state side castling ep halfmove fullmove b =
     (if side \<noteq> ''w'' \<and> side \<noteq> ''b'' then Fen_Return False b
      else let b1 = b\<lparr>side_to_move := (if side = ''w'' then WHITE else BLACK)\<rparr>
           in case (if castling = ''-'' then Inr CR_NONE else parse_castling castling CR_NONE) of
                Inl cr \<Rightarrow> Fen_Return False (b1\<lparr>castling_rights := cr\<rparr>)
              | Inr cr \<Rightarrow>
                  (let b2 = b1\<lparr>castling_rights := cr\<rparr>;
                       sq = (if ep = ''-'' then NO_SQUARE else algebraic_to_square ep);
                       b3 = b2\<lparr>en_passant_sq := sq\<rparr>
                   in if ep \<noteq> ''-'' \<and> sq = NO_SQUARE then Fen_Return False b3
                      else if halfmove < 0 \<or> fullmove < 1 then Fen_Return False b3
                      else Fen_Return True (recompute_zobrist_key
                             (b3\<lparr>halfmove_clock := halfmove, fullmove_number := fullmove\<rparr>))))"

definition set_from_fen :: "string \<Rightarrow> fen_outcome" where
  "set_from_fen fen =
     (case fen_fields fen of
        None \<Rightarrow> Fen_Return False clear_board
      | Some (pieces, side, castling, ep, halfmove, fullmove) \<Rightarrow>
          (case place_pieces pieces 7 0 (squares clear_board) of
             P_UB \<Rightarrow> Fen_UB
           | P_Fail sqs \<Rightarrow> Fen_Return False (clear_board\<lparr>squares := sqs\<rparr>)
           | P_End rank file sqs \<Rightarrow>
               (let b = clear_board\<lparr>squares := sqs\<rparr>
                in if rank \<noteq> 0 \<or> file \<noteq> 8 then Fen_Return False b
                   else fen_state side castling ep halfmove fullmove b)))"

definition STARTING_FEN :: string where
  "STARTING_FEN = ''rnbqkbnr/pppppppp/8/8/8/8/PPPPPPPP/RNBQKBNR w KQkq - 0 1''"

definition starting_position :: board where
  \<comment> \<open>\<open>Board::starting_position\<close> ignores the result of the import\<close>
  "starting_position =
     (case set_from_fen STARTING_FEN of Fen_Return _ b \<Rightarrow> b | Fen_UB \<Rightarrow> clear_board)"

section \<open>Placing the pieces of an exported board\<close>

fun write_row :: "piece list \<Rightarrow> int \<Rightarrow> int \<Rightarrow> piece list \<Rightarrow> piece list" where
  "write_row sqs r f [] = sqs"
| "write_row sqs r f (p # ps) =
     write_row (if is_none p then sqs else sqs[make_square r f := p]) r (f + 1) ps"

lemma length_write_row [simp]: "length (write_row sqs r f ps) = length sqs"
  by (induction sqs r f ps rule: write_row.induct) auto

lemma dec_nat_digit: "0 < n \<Longrightarrow> n < 10 \<Longrightarrow> dec_nat n = [dec_digit n]"
  by (simp add: dec_nat.simps)

lemma place_digit:
  assumes "0 < n" and "n \<le> 8" and "file + int n \<le> 8"
  shows "place_pieces (dec_nat n @ rest) rank file sqs = place_pieces rest rank (file + int n) sqs"
proof -
  have "dec_digit n \<noteq> CHR ''/''"
    using assms dec_digit_isdigit [of n] by (auto simp: c_isdigit_def)
  then show ?thesis
    using assms by (simp add: dec_nat_digit Let_def)
qed

lemma place_row:
  assumes "list_all piece_ok ps" and "0 \<le> rank" "rank < 8"
    and "int e \<le> f" and "f + int (length ps) = 8"
  shows "place_pieces (fen_row ps e @ rest) rank (f - int e) sqs =
         place_pieces rest rank 8 (write_row sqs rank f ps)"
  using assms(1,4,5)
proof (induction ps arbitrary: e f sqs)
  case Nil
  then show ?case
    using place_digit [of e "8 - int e" rest rank sqs] by auto
next
  case (Cons p ps)
  show ?case
  proof (cases "is_none p")
    case True
    then show ?thesis
      using Cons.IH [of "e + 1" "f + 1" sqs] Cons.prems by (simp add: algebra_simps)
  next
    case False
    have f: "0 \<le> f" "f < 8" using Cons.prems by auto
    have gap: "place_pieces ((if e > 0 then dec_nat e else []) @ xs) rank (f - int e) sqs =
        place_pieces xs rank f sqs" for xs
      using place_digit [of e "f - int e" xs rank sqs] f Cons.prems by auto
    have ok: "piece_ok p" using Cons.prems by simp
    have step: "place_pieces (piece_to_char p # xs) rank f sqs =
        place_pieces xs rank (f + 1) (sqs[make_square rank f := p])" for xs
      using piece_to_char_letter [OF ok False] piece_from_char_to_char [OF ok False] f assms(2,3) False
      by (simp add: Let_def)
    show ?thesis
      using Cons.IH [of 0 "f + 1" "sqs[make_square rank f := p]"] Cons.prems False gap step
      by (simp add: algebra_simps)
  qed
qed

fun write_ranks :: "piece list \<Rightarrow> piece list \<Rightarrow> nat \<Rightarrow> piece list" where
  "write_ranks src sqs 0 = write_row sqs 0 0 (rank_pieces src 0)"
| "write_ranks src sqs (Suc r) = write_ranks src (write_row sqs (int (Suc r)) 0 (rank_pieces src (Suc r))) r"

lemma rank_pieces_ok:
  "length sqs = 64 \<Longrightarrow> list_all piece_ok sqs \<Longrightarrow> r < 8 \<Longrightarrow> list_all piece_ok (rank_pieces sqs r)"
  by (simp add: list_all_iff rank_pieces_def)

lemma length_rank_pieces [simp]: "length (rank_pieces sqs r) = 8"
  by (simp add: rank_pieces_def)

lemma place_ranks:
  assumes "length src = 64" and "list_all piece_ok src" and "r < 8"
  shows "place_pieces (fen_ranks src r) (int r) 0 sqs = P_End 0 8 (write_ranks src sqs r)"
  using assms(3)
proof (induction r arbitrary: sqs)
  case 0
  then show ?case
    using place_row [of "rank_pieces src 0" 0 0 0 "[]" sqs] rank_pieces_ok [OF assms(1,2), of 0] by simp
next
  case (Suc r)
  then show ?case
    using place_row [of "rank_pieces src (Suc r)" "int (Suc r)" 0 0 "CHR ''/'' # fen_ranks src r" sqs]
      rank_pieces_ok [OF assms(1,2), of "Suc r"]
    by simp
qed

lemma nth_write_row:
  assumes "length sqs = 64" and "0 \<le> r" "r < 8" "0 \<le> f" "f + int (length ps) \<le> 8" and "sq < 64"
  shows "write_row sqs r f ps ! sq =
    (if rank_of sq = r \<and> f \<le> file_of sq \<and> file_of sq < f + int (length ps) \<and>
        \<not> is_none (ps ! nat (file_of sq - f))
     then ps ! nat (file_of sq - f) else sqs ! sq)"
  using assms(1,4,5)
proof (induction ps arbitrary: f sqs)
  case Nil
  then show ?case by auto
next
  case (Cons p ps)
  have upd: "sqs[make_square r f := p] ! sq = (if rank_of sq = r \<and> file_of sq = f then p else sqs ! sq)"
    using Cons.prems assms(2,3,6) by (auto simp: nth_list_update)
  have shift: "f < file_of sq \<Longrightarrow> (p # ps) ! nat (file_of sq - f) = ps ! nat (file_of sq - (f + 1))"
  proof -
    assume "f < file_of sq"
    then have "nat (file_of sq - f) = Suc (nat (file_of sq - (f + 1)))" by linarith
    then show ?thesis by simp
  qed
  show ?case
    using Cons.IH [of _ "f + 1"] Cons.prems upd shift by (cases "file_of sq = f") auto
qed

lemma length_write_ranks [simp]: "length (write_ranks src sqs r) = length sqs"
  by (induction src sqs r rule: write_ranks.induct) auto

lemma nth_write_ranks:
  assumes "length sqs = 64" and "sq < 64" and "r < 8" and "length src = 64" and "list_all piece_ok src"
    and "rank_of sq \<le> int r \<Longrightarrow> sqs ! sq = no_piece"
  shows "write_ranks src sqs r ! sq = (if rank_of sq \<le> int r then src ! sq else sqs ! sq)"
  using assms(1,3,6)
proof (induction r arbitrary: sqs)
  have row: "write_row sqs (int r) 0 (rank_pieces src r) ! sq =
      (if rank_of sq = int r then src ! sq else sqs ! sq)"
    if "length sqs = 64" "r < 8" "rank_of sq = int r \<Longrightarrow> sqs ! sq = no_piece" for sqs r
  proof -
    have at: "rank_of sq = int r \<Longrightarrow> rank_pieces src r ! nat (file_of sq) = src ! sq"
      using assms(2) by (metis (no_types, lifting) add_0 diff_zero int_nat_eq length_map
          make_square_rank_file nat_less_iff nth_map nth_upt of_nat_numeral on_board_rank_file(2,3)
          rank_pieces_def length_upt)
    have ok: "piece_ok (src ! sq)"
      using assms(2,4,5) by (simp add: list_all_length)
    show ?thesis
      using nth_write_row [OF that(1), of "int r" 0 "rank_pieces src r" sq] that assms(2) at
        piece_ok_none [OF ok] by auto
  qed
  {
    case 0
    have "rank_of sq \<le> 0 \<longleftrightarrow> rank_of sq = 0" by (simp add: eq_iff)
    with 0 show ?case using row [of sqs 0] by simp
  next
    case (Suc r)
    let ?s = "write_row sqs (int (Suc r)) 0 (rank_pieces src (Suc r))"
    have "?s ! sq = (if rank_of sq = int (Suc r) then src ! sq else sqs ! sq)"
      using Suc.prems by (intro row) auto
    then show ?case
      using Suc.IH [of ?s] Suc.prems by auto
  }
qed

lemma place_fen_ranks:
  assumes "length src = 64" and "list_all piece_ok src"
  shows "place_pieces (fen_ranks src 7) 7 0 (replicate 64 no_piece) = P_End 0 8 src"
proof -
  have "write_ranks src (replicate 64 no_piece) 7 = src"
    using assms on_board_rank_file(4)
    by (intro nth_equalityI) (auto simp: nth_write_ranks dest: on_board_rank_file(4))
  then show ?thesis
    using place_ranks [OF assms, of 7 "replicate 64 no_piece"] by simp
qed

section \<open>The round trip\<close>

lemma fen_row_chars:
  assumes "list_all piece_ok ps"
  shows "\<forall>c \<in> set (fen_row ps e). \<not> c_isspace c"
  using assms
proof (induction ps e rule: fen_row.induct)
  case (1 e)
  then show ?case using dec_nat_digits [of e] by (auto simp: digit_not_space)
next
  case (2 p ps e)
  then show ?case
    using dec_nat_digits [of e] piece_to_char_letter [of p] by (auto simp: digit_not_space)
qed

lemma fen_ranks_chars:
  assumes "length sqs = 64" and "list_all piece_ok sqs" and "r < 8"
  shows "\<forall>c \<in> set (fen_ranks sqs r). \<not> c_isspace c"
  using assms(3)
proof (induction r)
  case 0
  then show ?case using fen_row_chars [OF rank_pieces_ok [OF assms(1,2), of 0]] by simp
next
  case (Suc r)
  then show ?case
    using fen_row_chars [OF rank_pieces_ok [OF assms(1,2), of "Suc r"]] by (auto simp: c_isspace_def)
qed

lemma fen_ranks_nonempty: "fen_ranks sqs 7 \<noteq> []"
  by (simp add: numeral_eq_Suc)

lemma castling_mask_cases:
  "(cr :: 8 word) AND 15 = cr \<Longrightarrow> cr \<in> {0, 1, 2, 3, 4, 5, 6, 7, 8, 9, 10, 11, 12, 13, 14, 15}"
proof -
  assume "cr AND 15 = cr"
  then have "cr \<le> 15" by (metis word_and_le1)
  then have "unat cr \<le> 15" by (simp add: word_le_nat_alt)
  then have "unat cr \<in> {0, 1, 2, 3, 4, 5, 6, 7, 8, 9, 10, 11, 12, 13, 14, 15}"
    by (simp add: numeral_eq_Suc le_Suc_eq)
  then have "word_of_nat (unat cr) \<in> (word_of_nat :: nat \<Rightarrow> 8 word) `
      {0, 1, 2, 3, 4, 5, 6, 7, 8, 9, 10, 11, 12, 13, 14, 15}"
    by (rule imageI)
  then show ?thesis by simp
qed

lemma castling_round_trip:
  assumes "cr AND CR_ALL = cr"
  shows "(if fen_castling cr = ''-'' then Inr CR_NONE else parse_castling (fen_castling cr) CR_NONE) =
           Inr cr \<and>
         fen_castling cr \<noteq> [] \<and> (\<forall>c \<in> set (fen_castling cr). \<not> c_isspace c)"
  using castling_mask_cases [OF assms]
  by (elim insertE) (simp_all add: fen_castling_def c_isspace_def)

lemma square_name_chars:
  "sq < 64 \<Longrightarrow> square_to_algebraic sq \<noteq> [] \<and> square_to_algebraic sq \<noteq> ''-'' \<and>
     (\<forall>c \<in> set (square_to_algebraic sq). \<not> c_isspace c)"
  by (auto simp: square_to_algebraic_def c_isspace_def square_char_bytes)

definition fen_ready :: "board \<Rightarrow> bool" where
  \<comment> \<open>a represented position whose castling mask has no stray bits and whose counters fit an \<open>int\<close>\<close>
  "fen_ready b \<longleftrightarrow> board_rep b \<and> castling_rights b AND CR_ALL = castling_rights b \<and>
     0 \<le> halfmove_clock b \<and> halfmove_clock b < 2 ^ 31 \<and>
     1 \<le> fullmove_number b \<and> fullmove_number b < 2 ^ 31"

lemma fen_fields_to_fen:
  assumes "fen_ready b"
  shows "fen_fields (to_fen b) =
     Some (fen_ranks (squares b) 7, (if side_to_move b = WHITE then ''w'' else ''b''),
       fen_castling (castling_rights b),
       (if en_passant_sq b = NO_SQUARE then ''-'' else square_to_algebraic (en_passant_sq b)),
       halfmove_clock b, fullmove_number b)"
proof -
  have rep: "length (squares b) = 64" "list_all piece_ok (squares b)" "en_passant_sq b \<le> 64"
    using assms by (auto simp: fen_ready_def board_rep_def)
  let ?ep = "if en_passant_sq b = NO_SQUARE then ''-'' else square_to_algebraic (en_passant_sq b)"
  let ?side = "if side_to_move b = WHITE then ''w'' else ''b''"
  let ?hm = "dec_nat (nat (halfmove_clock b))" and ?fm = "dec_nat (nat (fullmove_number b))"
  have sp: "c_isspace (CHR '' '')" by (simp add: c_isspace_def)
  have fen: "to_fen b = fen_ranks (squares b) 7 @ CHR '' '' # ?side @ CHR '' '' #
      fen_castling (castling_rights b) @ CHR '' '' # ?ep @ CHR '' '' # ?hm @ CHR '' '' # ?fm"
    using assms by (simp add: to_fen_def dec_int_def fen_ready_def)
  have ep: "?ep \<noteq> [] \<and> (\<forall>c \<in> set ?ep. \<not> c_isspace c)"
    using rep(3) square_name_chars [of "en_passant_sq b"] by (auto simp: NO_SQUARE_def c_isspace_def)
  have cr: "fen_castling (castling_rights b) \<noteq> []"
    "\<forall>c \<in> set (fen_castling (castling_rights b)). \<not> c_isspace c"
    using castling_round_trip assms by (auto simp: fen_ready_def)
  note tok = read_token_append read_token_blank [OF sp] sp
  have t1: "read_token (to_fen b) = Some (fen_ranks (squares b) 7, CHR '' '' # ?side @ CHR '' '' #
      fen_castling (castling_rights b) @ CHR '' '' # ?ep @ CHR '' '' # ?hm @ CHR '' '' # ?fm)"
    unfolding fen using fen_ranks_nonempty fen_ranks_chars [OF rep(1,2), of 7] sp
    by (intro read_token_append) auto
  have t2: "read_token (CHR '' '' # ?side @ CHR '' '' # rest) = Some (?side, CHR '' '' # rest)" for rest
    unfolding read_token_blank [OF sp] using sp by (intro read_token_append) (auto simp: c_isspace_def)
  have t3: "read_token (CHR '' '' # fen_castling (castling_rights b) @ CHR '' '' # rest) =
      Some (fen_castling (castling_rights b), CHR '' '' # rest)" for rest
    unfolding read_token_blank [OF sp] using sp cr by (intro read_token_append) auto
  have t4: "read_token (CHR '' '' # ?ep @ CHR '' '' # rest) = Some (?ep, CHR '' '' # rest)" for rest
    unfolding read_token_blank [OF sp] using sp ep by (intro read_token_append) auto
  have t5: "read_int (CHR '' '' # ?hm @ CHR '' '' # rest) = Some (halfmove_clock b, CHR '' '' # rest)" for rest
    unfolding read_int_blank [OF sp] using assms
    by (subst read_int_dec_nat) (auto simp: fen_ready_def c_isdigit_def)
  have t6: "read_int (CHR '' '' # ?fm) = Some (fullmove_number b, [])"
    unfolding read_int_blank [OF sp] using assms read_int_dec_nat [of "nat (fullmove_number b)" "[]"]
    by (simp add: fen_ready_def)
  show ?thesis
    unfolding fen_fields_def t1 by (simp only: option.case prod.case t2 t3 t4 t5 t6)
qed

lemma board_hash_zobrist [simp]: "board_hash (b\<lparr>zobrist_key := z\<rparr>) = board_hash b"
  by (simp add: board_hash_def)

lemma fen_round_trip:
  assumes "fen_ready b"
  shows "set_from_fen (to_fen b) = Fen_Return True b"
proof -
  have rep: "length (squares b) = 64" "list_all piece_ok (squares b)" "side_to_move b \<noteq> C_NONE"
    "en_passant_sq b \<le> 64" "zobrist_key b = board_hash b"
    using assms by (auto simp: fen_ready_def board_rep_def)
  have pl: "place_pieces (fen_ranks (squares b) 7) 7 0 (squares clear_board) = P_End 0 8 (squares b)"
    using place_fen_ranks [OF rep(1,2)] by (simp add: clear_board_def recompute_zobrist_key_def)
  let ?ep = "if en_passant_sq b = NO_SQUARE then ''-'' else square_to_algebraic (en_passant_sq b)"
  have ep: "(if ?ep = ''-'' then NO_SQUARE else algebraic_to_square ?ep) = en_passant_sq b"
    "\<not> (?ep \<noteq> ''-'' \<and> en_passant_sq b = NO_SQUARE)"
    using rep(4) square_name_chars [of "en_passant_sq b"] algebraic_square_name [of "en_passant_sq b"]
    by (auto simp: NO_SQUARE_def)
  have cr: "(if fen_castling (castling_rights b) = ''-'' then Inr CR_NONE
      else parse_castling (fen_castling (castling_rights b)) CR_NONE) = Inr (castling_rights b)"
    using castling_round_trip assms by (simp add: fen_ready_def)
  have "fen_state (if side_to_move b = WHITE then ''w'' else ''b'') (fen_castling (castling_rights b))
      ?ep (halfmove_clock b) (fullmove_number b) (clear_board\<lparr>squares := squares b\<rparr>) = Fen_Return True b"
    unfolding fen_state_def cr sum.case Let_def ep
    using rep assms ep(2)
    by (cases "side_to_move b")
      (auto simp: fen_ready_def recompute_zobrist_key_def clear_board_def board_hash_def
        intro!: board.equality)
  then show ?thesis
    by (simp add: set_from_fen_def fen_fields_to_fen [OF assms] pl)
qed

section \<open>Bounds of the import\<close>

lemma place_pieces_safe:
  "0 \<le> f \<Longrightarrow> r < 8 \<Longrightarrow> int (count_list cs (CHR ''/'')) \<le> r \<Longrightarrow> place_pieces cs r f sqs \<noteq> P_UB"
  by (induction cs r f sqs rule: place_pieces.induct) (auto simp: Let_def)

text \<open>
  Bounds of the FEN import. When the piece field has at most seven rank separators the import
  never stores outside the 64 squares. Nothing in the code enforces that bound before the store:
  with eight separators the rank counter is negative and the piece is written at index 248, outside
  \<open>squares_\<close>.
\<close>

lemma set_from_fen_bounds:
  "(\<forall>fen fields. fen_fields fen = Some fields \<and> count_list (fst fields) (CHR ''/'') \<le> 7 \<longrightarrow>
      set_from_fen fen \<noteq> Fen_UB) \<and>
   set_from_fen ''8/8/8/8/8/8/8/8/K w - - 0 1'' = Fen_UB"
proof (intro conjI allI impI)
  fix fen fields
  assume "fen_fields fen = Some fields \<and> count_list (fst fields) (CHR ''/'') \<le> 7"
  then show "set_from_fen fen \<noteq> Fen_UB"
    using place_pieces_safe [of 0 7 "fst fields" "squares clear_board"]
    by (cases fields) (auto simp: set_from_fen_def fen_state_def Let_def split: placement.splits sum.splits)
next
  show "set_from_fen ''8/8/8/8/8/8/8/8/K w - - 0 1'' = Fen_UB"
    by (simp add: set_from_fen_def fen_fields_def read_token_def read_int_def skip_space_def
        c_isspace_def c_isdigit_def char_val_def piece_from_char_def c_tolower_def c_isupper_def
        make_square_def is_none_def Let_def)
qed

section \<open>The starting position\<close>

definition start_squares :: "piece list" where
  "start_squares =
     map (\<lambda>t. Piece t WHITE) [ROOK, KNIGHT, BISHOP, QUEEN, KING, BISHOP, KNIGHT, ROOK] @
     replicate 8 (Piece PAWN WHITE) @ replicate 32 no_piece @ replicate 8 (Piece PAWN BLACK) @
     map (\<lambda>t. Piece t BLACK) [ROOK, KNIGHT, BISHOP, QUEEN, KING, BISHOP, KNIGHT, ROOK]"

definition start_board :: board where
  "start_board = recompute_zobrist_key
     \<lparr>squares = start_squares, side_to_move = WHITE, castling_rights = CR_ALL,
      en_passant_sq = NO_SQUARE, halfmove_clock = 0, fullmove_number = 1, zobrist_key = 0\<rparr>"

lemma start_squares_list_all: "length start_squares = 64" "list_all piece_ok start_squares"
  by (simp_all add: start_squares_def piece_ok_def list_all_iff)

lemma fen_ready_start: "fen_ready start_board"
  by (simp add: fen_ready_def board_rep_def start_board_def recompute_zobrist_key_def
      start_squares_list_all NO_SQUARE_def board_hash_def)

lemma fen_ranks_start: "fen_ranks start_squares 7 = ''rnbqkbnr/pppppppp/8/8/8/8/PPPPPPPP/RNBQKBNR''"
  by code_simp

lemma to_fen_start: "to_fen start_board = STARTING_FEN"
  by (simp add: to_fen_def start_board_def recompute_zobrist_key_def fen_ranks_start fen_castling_def
      dec_int_def dec_nat.simps dec_digit_def STARTING_FEN_def)

lemma starting_position_board: "starting_position = start_board"
  using fen_round_trip [OF fen_ready_start]
  by (simp add: starting_position_def to_fen_start)

text \<open>
  C19. FEN round trip: exporting a position and importing the string gives back the same board,
  piece for piece, with its side, rights, en passant square, clocks and Zobrist key.
\<close>

theorem set_from_fen_to_fen: "fen_ready b \<Longrightarrow> set_from_fen (to_fen b) = Fen_Return True b"
  by (rule fen_round_trip)

theorem set_from_fen_to_fen_witness: "set_from_fen STARTING_FEN = Fen_Return True start_board"
  using set_from_fen_to_fen [OF fen_ready_start] by (simp add: to_fen_start)

end
