(* ===== verification/MoveGen.thy ===== *)
theory MoveGen
  imports Fen
begin

text \<open>
  Move generation and game status (\<open>src/chess/move_gen.cpp\<close>): the precomputed knight and king
  targets, attack detection, the pseudo-legal moves of every piece, the legal filter that makes and
  takes back each move on one mutable board, the game status and \<open>perft\<close>. The sliding loops run
  with a fuel of 8 squares, which the board's size makes enough. The consequences (moves fit the
  position, legal play keeps a position sound) are in the theory \<open>Rules\<close>.
\<close>

section \<open>Attack tables and attack detection\<close>

definition knight_offsets :: "(int \<times> int) list" where
  "knight_offsets = [(-2, -1), (-2, 1), (-1, -2), (-1, 2), (1, -2), (1, 2), (2, -1), (2, 1)]"

definition king_offsets :: "(int \<times> int) list" where
  "king_offsets = filter (\<lambda>d. d \<noteq> (0, 0)) (List.product [-1, 0, 1] [-1, 0, 1])"

definition offset_targets :: "(int \<times> int) list \<Rightarrow> square \<Rightarrow> square list" where
  "offset_targets offs sq =
     map (\<lambda>(dr, df). make_square (rank_of sq + dr) (file_of sq + df))
       (filter (\<lambda>(dr, df). on_board (rank_of sq + dr) (file_of sq + df)) offs)"

definition knight_targets :: "square \<Rightarrow> square list" where
  "knight_targets sq = offset_targets knight_offsets sq"

definition king_targets :: "square \<Rightarrow> square list" where
  "king_targets sq = offset_targets king_offsets sq"

definition ray_dirs :: "(int \<times> int) list" where
  \<comment> \<open>indices 0 to 3 are the rook directions, 4 to 7 the bishop directions\<close>
  "ray_dirs = [(-1, 0), (1, 0), (0, -1), (0, 1), (-1, -1), (-1, 1), (1, -1), (1, 1)]"

fun ray_attacked :: "nat \<Rightarrow> board \<Rightarrow> color \<Rightarrow> bool \<Rightarrow> int \<times> int \<Rightarrow> int \<Rightarrow> int \<Rightarrow> bool" where
  \<comment> \<open>the while loop along one ray of \<open>is_square_attacked\<close>\<close>
  "ray_attacked 0 b c diag d nr nf = False"
| "ray_attacked (Suc n) b c diag d nr nf =
     (if on_board nr nf then
        (let p = piece_at b (make_square nr nf)
         in if \<not> is_none p then
              pcolor p = c \<and>
              (ptype p = QUEEN \<or> (diag \<and> ptype p = BISHOP) \<or> (\<not> diag \<and> ptype p = ROOK))
            else ray_attacked n b c diag d (nr + fst d) (nf + snd d))
      else False)"

definition pawn_attacks :: "board \<Rightarrow> square \<Rightarrow> color \<Rightarrow> bool" where
  "pawn_attacks b sq c =
     (let r = rank_of sq; f = file_of sq; pawn_r = r + (if c = WHITE then -1 else 1)
      in 0 \<le> pawn_r \<and> pawn_r < 8 \<and>
         ((f > 0 \<and> (let p = piece_at b (make_square pawn_r (f - 1)) in ptype p = PAWN \<and> pcolor p = c)) \<or>
          (f < 7 \<and> (let p = piece_at b (make_square pawn_r (f + 1)) in ptype p = PAWN \<and> pcolor p = c))))"

definition is_square_attacked :: "board \<Rightarrow> square \<Rightarrow> color \<Rightarrow> bool" where
  "is_square_attacked b sq c \<longleftrightarrow>
     pawn_attacks b sq c \<or>
     list_ex (\<lambda>t. ptype (piece_at b t) = KNIGHT \<and> pcolor (piece_at b t) = c) (knight_targets sq) \<or>
     list_ex (\<lambda>t. ptype (piece_at b t) = KING \<and> pcolor (piece_at b t) = c) (king_targets sq) \<or>
     list_ex (\<lambda>i. ray_attacked 8 b c (4 \<le> i) (ray_dirs ! i)
                (rank_of sq + fst (ray_dirs ! i)) (file_of sq + snd (ray_dirs ! i))) [0..<8]"

definition is_in_check :: "board \<Rightarrow> color \<Rightarrow> bool" where
  "is_in_check b king_color =
     (let king_sq = find_king b king_color
      in if king_sq = NO_SQUARE then False
         else is_square_attacked b king_sq (opposite_color king_color))"

section \<open>Pseudo-legal moves\<close>

definition add_pawn_move :: "color \<Rightarrow> square \<Rightarrow> square \<Rightarrow> 8 word \<Rightarrow> move list" where
  "add_pawn_move c sq to flags =
     (if rank_of to = (if c = WHITE then 7 else 0)
      then map (Move sq to (flags OR MF_PROMOTION)) [QUEEN, ROOK, BISHOP, KNIGHT]
      else [Move sq to flags PT_NONE])"

definition pawn_pushes :: "board \<Rightarrow> square \<Rightarrow> color \<Rightarrow> move list" where
  "pawn_pushes b sq c =
     (let r = rank_of sq; f = file_of sq; dir = (if c = WHITE then 1 else -1);
          forward_r = r + dir
      in if 0 \<le> forward_r \<and> forward_r < 8 then
           (let forward_sq = make_square forward_r f
            in if is_none (piece_at b forward_sq) then
                 add_pawn_move c sq forward_sq MF_NONE @
                 (if r = (if c = WHITE then 1 else 6) then
                    (let double_sq = make_square (r + 2 * dir) f
                     in if is_none (piece_at b double_sq)
                        then [Move sq double_sq MF_DOUBLE_PAWN_PUSH PT_NONE] else [])
                  else [])
               else [])
         else [])"

definition pawn_captures :: "board \<Rightarrow> square \<Rightarrow> color \<Rightarrow> int \<Rightarrow> move list" where
  "pawn_captures b sq c df =
     (let forward_r = rank_of sq + (if c = WHITE then 1 else -1); cap_f = file_of sq + df
      in if 0 \<le> cap_f \<and> cap_f < 8 \<and> 0 \<le> forward_r \<and> forward_r < 8 then
           (let cap_sq = make_square forward_r cap_f; target = piece_at b cap_sq
            in if \<not> is_none target \<and> pcolor target \<noteq> c then add_pawn_move c sq cap_sq MF_NONE
               else if cap_sq = en_passant_sq b then add_pawn_move c sq cap_sq MF_EN_PASSANT
               else [])
         else [])"

definition generate_pawn_moves :: "board \<Rightarrow> square \<Rightarrow> color \<Rightarrow> move list" where
  "generate_pawn_moves b sq c =
     pawn_pushes b sq c @ pawn_captures b sq c (-1) @ pawn_captures b sq c 1"

definition step_moves :: "board \<Rightarrow> square \<Rightarrow> color \<Rightarrow> square list \<Rightarrow> move list" where
  \<comment> \<open>the loop over a precomputed target list\<close>
  "step_moves b sq c targets =
     map (\<lambda>to. Move sq to MF_NONE PT_NONE)
       (filter (\<lambda>to. is_none (piece_at b to) \<or> pcolor (piece_at b to) \<noteq> c) targets)"

definition generate_knight_moves :: "board \<Rightarrow> square \<Rightarrow> color \<Rightarrow> move list" where
  "generate_knight_moves b sq c = step_moves b sq c (knight_targets sq)"

fun ray_moves :: "nat \<Rightarrow> board \<Rightarrow> square \<Rightarrow> color \<Rightarrow> int \<times> int \<Rightarrow> int \<Rightarrow> int \<Rightarrow> move list" where
  "ray_moves 0 b sq c d nr nf = []"
| "ray_moves (Suc n) b sq c d nr nf =
     (if on_board nr nf then
        (let to_sq = make_square nr nf; target = piece_at b to_sq
         in if is_none target
            then Move sq to_sq MF_NONE PT_NONE # ray_moves n b sq c d (nr + fst d) (nf + snd d)
            else if pcolor target \<noteq> c then [Move sq to_sq MF_NONE PT_NONE]
            else [])
      else [])"

definition generate_ray_moves :: "board \<Rightarrow> square \<Rightarrow> color \<Rightarrow> bool \<Rightarrow> bool \<Rightarrow> move list" where
  "generate_ray_moves b sq c orthogonal diagonal =
     concat (map (\<lambda>i. ray_moves 8 b sq c (ray_dirs ! i)
                        (rank_of sq + fst (ray_dirs ! i)) (file_of sq + snd (ray_dirs ! i)))
               [(if orthogonal then 0 else 4)..<(if diagonal then 8 else 4)])"

definition castle_move ::
  "board \<Rightarrow> color \<Rightarrow> 8 word \<Rightarrow> square list \<Rightarrow> square list \<Rightarrow> square \<Rightarrow> square \<Rightarrow> 8 word \<Rightarrow> move list" where
  \<comment> \<open>one of the four castling blocks: the right, the squares that must be empty, the squares that
      must not be attacked\<close>
  "castle_move b c right gap safe from to flag =
     (if castling_rights b AND right \<noteq> 0 \<and> list_all (\<lambda>sq. is_none (piece_at b sq)) gap \<and>
         list_all (\<lambda>sq. \<not> is_square_attacked b sq (opposite_color c)) safe
      then [Move from to flag PT_NONE] else [])"

definition castling_moves :: "board \<Rightarrow> color \<Rightarrow> move list" where
  "castling_moves b c =
     (if c = WHITE then
        castle_move b c WHITE_KINGSIDE [F1, G1] [E1, F1] E1 G1 MF_KINGSIDE_CASTLE @
        castle_move b c WHITE_QUEENSIDE [D1, C1, B1] [E1, D1] E1 C1 MF_QUEENSIDE_CASTLE
      else
        castle_move b c BLACK_KINGSIDE [F8, G8] [E8, F8] E8 G8 MF_KINGSIDE_CASTLE @
        castle_move b c BLACK_QUEENSIDE [D8, C8, B8] [E8, D8] E8 C8 MF_QUEENSIDE_CASTLE)"

definition generate_king_moves :: "board \<Rightarrow> square \<Rightarrow> color \<Rightarrow> move list" where
  "generate_king_moves b sq c = step_moves b sq c (king_targets sq) @ castling_moves b c"

definition square_moves :: "board \<Rightarrow> square \<Rightarrow> move list" where
  \<comment> \<open>one iteration of the square loop of \<open>generate_pseudo_legal_moves\<close>\<close>
  "square_moves b sq =
     (let c = side_to_move b; p = piece_at b sq
      in if is_none p \<or> pcolor p \<noteq> c then []
         else case ptype p of
             PAWN \<Rightarrow> generate_pawn_moves b sq c
           | KNIGHT \<Rightarrow> generate_knight_moves b sq c
           | BISHOP \<Rightarrow> generate_ray_moves b sq c False True
           | ROOK \<Rightarrow> generate_ray_moves b sq c True False
           | QUEEN \<Rightarrow> generate_ray_moves b sq c True True
           | KING \<Rightarrow> generate_king_moves b sq c
           | PT_NONE \<Rightarrow> [])"

definition generate_pseudo_legal_moves :: "board \<Rightarrow> move list" where
  "generate_pseudo_legal_moves b = concat (map (square_moves b) [0..<64])"

section \<open>Legal moves, game status and perft\<close>

fun legal_loop :: "board \<Rightarrow> color \<Rightarrow> move list \<Rightarrow> move list" where
  \<comment> \<open>the loop over the pseudo-legal moves, which makes and takes back each one on its board\<close>
  "legal_loop b c [] = []"
| "legal_loop b c (m # ms) =
     (let (undo, b1) = make_move b m; b2 = undo_move b1 m undo
      in if \<not> is_in_check b1 c then m # legal_loop b2 c ms else legal_loop b2 c ms)"

definition generate_legal_moves :: "board \<Rightarrow> move list" where
  "generate_legal_moves b = legal_loop b (side_to_move b) (generate_pseudo_legal_moves b)"

definition get_game_status :: "board \<Rightarrow> game_status" where
  "get_game_status b =
     (if 100 \<le> halfmove_clock b then DRAW_FIFTY_MOVE
      else if generate_legal_moves b = []
      then (if is_in_check b (side_to_move b) then CHECKMATE else STALEMATE)
      else ONGOING)"

fun perft :: "board \<Rightarrow> nat \<Rightarrow> 64 word \<times> board"
  and perft_loop :: "board \<Rightarrow> nat \<Rightarrow> move list \<Rightarrow> 64 word \<Rightarrow> 64 word \<times> board" where
  \<comment> \<open>the node count and the board the call leaves behind\<close>
  "perft b 0 = (1, b)"
| "perft b (Suc d) =
     (let moves = generate_legal_moves b
      in if d = 0 then (word_of_nat (length moves), b) else perft_loop b d moves 0)"
| "perft_loop b d [] nodes = (nodes, b)"
| "perft_loop b d (m # ms) nodes =
     (let (undo, b1) = make_move b m; (n, b2) = perft b1 d
      in perft_loop (undo_move b2 m undo) d ms (nodes + n))"

section \<open>The fuel of the sliding loops is enough\<close>

definition steps_left :: "int \<Rightarrow> int \<Rightarrow> nat" where
  \<comment> \<open>how many squares a coordinate can still take in a direction\<close>
  "steps_left d x = (if d = 1 then nat (8 - x) else if d = -1 then nat (x + 1) else 9)"

lemma ray_attacked_fuel:
  assumes "fst d \<in> {-1, 0, 1}" and "snd d \<in> {-1, 0, 1}" and "d \<noteq> (0, 0)"
    and "min (steps_left (fst d) nr) (steps_left (snd d) nf) \<le> n"
  shows "ray_attacked (n + k) b c diag d nr nf = ray_attacked n b c diag d nr nf"
  using assms(4)
proof (induction n arbitrary: nr nf)
  case 0
  then have "\<not> on_board nr nf"
    using assms(1-3) by (cases d) (auto simp: steps_left_def min_def split: if_splits)
  then show ?case by (cases k) auto
next
  case (Suc n)
  have "on_board nr nf \<Longrightarrow>
      min (steps_left (fst d) (nr + fst d)) (steps_left (snd d) (nf + snd d)) \<le> n"
    using Suc.prems assms(1-3) by (cases d) (auto simp: steps_left_def min_def split: if_splits)
  then show ?case using Suc.IH by (auto simp: Let_def)
qed

lemma ray_moves_fuel:
  assumes "fst d \<in> {-1, 0, 1}" and "snd d \<in> {-1, 0, 1}" and "d \<noteq> (0, 0)"
    and "min (steps_left (fst d) nr) (steps_left (snd d) nf) \<le> n"
  shows "ray_moves (n + k) b sq c d nr nf = ray_moves n b sq c d nr nf"
  using assms(4)
proof (induction n arbitrary: nr nf)
  case 0
  then have "\<not> on_board nr nf"
    using assms(1-3) by (cases d) (auto simp: steps_left_def min_def split: if_splits)
  then show ?case by (cases k) auto
next
  case (Suc n)
  have "on_board nr nf \<Longrightarrow>
      min (steps_left (fst d) (nr + fst d)) (steps_left (snd d) (nf + snd d)) \<le> n"
    using Suc.prems assms(1-3) by (cases d) (auto simp: steps_left_def min_def split: if_splits)
  then show ?case using Suc.IH by (auto simp: Let_def)
qed

lemma ray_dirs_units:
  "i < 8 \<Longrightarrow> fst (ray_dirs ! i) \<in> {-1, 0, 1} \<and> snd (ray_dirs ! i) \<in> {-1, 0, 1} \<and> ray_dirs ! i \<noteq> (0, 0)"
proof -
  have "\<forall>d \<in> set ray_dirs. fst d \<in> {-1, 0, 1} \<and> snd d \<in> {-1, 0, 1} \<and> d \<noteq> (0, 0)"
    by (simp add: ray_dirs_def)
  moreover have "length ray_dirs = 8" by (simp add: ray_dirs_def)
  ultimately show "i < 8 \<Longrightarrow> ?thesis" by (metis nth_mem)
qed

lemma steps_left_start:
  "0 \<le> x \<Longrightarrow> x < 8 \<Longrightarrow> e \<in> {-1, 1} \<Longrightarrow> steps_left e (x + e) \<le> 8"
  by (auto simp: steps_left_def)

text \<open>
  The sliding loops end on the edge of the board: started from a square of the board in any of
  the eight directions, more fuel than 8 iterations changes neither the attack test nor the list
  of moves of a ray, so the bounded loops of the model are the unbounded ones of the code.
\<close>

lemma ray_fuel_enough:
  assumes "sq < 64" and "i < 8"
  shows "ray_attacked (8 + k) b c diag (ray_dirs ! i)
           (rank_of sq + fst (ray_dirs ! i)) (file_of sq + snd (ray_dirs ! i)) =
         ray_attacked 8 b c diag (ray_dirs ! i)
           (rank_of sq + fst (ray_dirs ! i)) (file_of sq + snd (ray_dirs ! i)) \<and>
         ray_moves (8 + k) b sq c (ray_dirs ! i)
           (rank_of sq + fst (ray_dirs ! i)) (file_of sq + snd (ray_dirs ! i)) =
         ray_moves 8 b sq c (ray_dirs ! i)
           (rank_of sq + fst (ray_dirs ! i)) (file_of sq + snd (ray_dirs ! i))"
proof -
  obtain dr df where d: "ray_dirs ! i = (dr, df)" by fastforce
  have units: "dr \<in> {-1, 0, 1}" "df \<in> {-1, 0, 1}" "(dr, df) \<noteq> (0, 0)"
    using ray_dirs_units [OF assms(2)] d by auto
  have "dr \<in> {-1, 1} \<or> df \<in> {-1, 1}" using units by auto
  then have fuel: "min (steps_left dr (rank_of sq + dr)) (steps_left df (file_of sq + df)) \<le> 8"
    using steps_left_start [of "rank_of sq" dr] steps_left_start [of "file_of sq" df] assms(1)
    by (auto simp: min_le_iff_disj)
  show ?thesis
    unfolding d using units fuel by (intro conjI ray_attacked_fuel ray_moves_fuel) auto
qed

end
