(* ===== verification/MakeUndo.thy ===== *)
theory MakeUndo
  imports Prelude
begin

text \<open>
  The contract between a game tree and a search over it: a state on which moves are made, each with
  the record needed to take it back. \<open>Board::make_move\<close> and \<open>Board::undo_move\<close> provide it
  (\<open>src/chess/board.cpp\<close>); the legal filter, \<open>perft\<close> and the engine rely on it. The locale states what
  the provider promises, on states that satisfy an invariant and for the moves a generator lists
  there; its lemmas are what every client gets: the invariant holds along a line of play, a line
  taken back in reverse order restores the state, and a visit of one move leaves it unchanged.
\<close>

section \<open>Lines of play\<close>

inductive line_of_play :: "('s \<Rightarrow> 'm list) \<Rightarrow> ('s \<Rightarrow> 'm \<Rightarrow> 'u \<times> 's) \<Rightarrow> 's \<Rightarrow> 'm list \<Rightarrow> 's \<Rightarrow> bool"
  for moves make where
  \<comment> \<open>the listed moves, each generated in the state it is made in, lead from one state to another\<close>
  stop: "line_of_play moves make s [] s"
| step: "m \<in> set (moves s) \<Longrightarrow> line_of_play moves make (snd (make s m)) ms t \<Longrightarrow>
         line_of_play moves make s (m # ms) t"

inductive_simps line_of_play_simps [simp]:
  "line_of_play moves make s [] t" "line_of_play moves make s (m # ms) t"

lemma line_of_play_snoc:
  "line_of_play moves make s ms t \<Longrightarrow> m \<in> set (moves t) \<Longrightarrow> line_of_play moves make s (ms @ [m]) (snd (make t m))"
  by (induction rule: line_of_play.induct) (auto intro: line_of_play.intros)

primrec play_all :: "('s \<Rightarrow> 'm \<Rightarrow> 'u \<times> 's) \<Rightarrow> 'm list \<Rightarrow> 's \<Rightarrow> 'u list \<times> 's" where
  \<comment> \<open>making a list of moves; the undo records come back newest first\<close>
  "play_all make [] s = ([], s)"
| "play_all make (m # ms) s =
     (let (u, s1) = make s m; (us, s2) = play_all make ms s1 in (us @ [u], s2))"

primrec take_back_all :: "('s \<Rightarrow> 'm \<Rightarrow> 'u \<Rightarrow> 's) \<Rightarrow> ('m \<times> 'u) list \<Rightarrow> 's \<Rightarrow> 's" where
  "take_back_all undo [] s = s"
| "take_back_all undo (mu # mus) s = take_back_all undo mus (undo s (fst mu) (snd mu))"

primrec leaf_count :: "('s \<Rightarrow> 'm list) \<Rightarrow> ('s \<Rightarrow> 'm \<Rightarrow> 'u \<times> 's) \<Rightarrow> nat \<Rightarrow> 's \<Rightarrow> nat" where
  \<comment> \<open>the number of leaves of the move tree of a given depth\<close>
  "leaf_count moves make 0 s = 1"
| "leaf_count moves make (Suc d) s = sum_list (map (\<lambda>m. leaf_count moves make d (snd (make s m))) (moves s))"

lemma leaf_count_1: "leaf_count moves make (Suc 0) s = length (moves s)"
  by (simp add: sum_list_triv)

lemma take_back_all_append:
  "take_back_all undo (xs @ ys) s = take_back_all undo ys (take_back_all undo xs s)"
  by (induction xs arbitrary: s) simp_all

lemma length_play_all [simp]: "length (fst (play_all make ms s)) = length ms"
  by (induction ms arbitrary: s) (simp_all add: split_beta)

section \<open>The contract\<close>

locale make_undo =
  fixes moves :: "'s \<Rightarrow> 'm list"
    and make :: "'s \<Rightarrow> 'm \<Rightarrow> 'u \<times> 's"
    and undo :: "'s \<Rightarrow> 'm \<Rightarrow> 'u \<Rightarrow> 's"
    and ok :: "'s \<Rightarrow> bool"
  assumes undo_make: "ok s \<Longrightarrow> m \<in> set (moves s) \<Longrightarrow> undo (snd (make s m)) m (fst (make s m)) = s"
    and make_ok: "ok s \<Longrightarrow> m \<in> set (moves s) \<Longrightarrow> ok (snd (make s m))"
begin

lemma line_ok:
  assumes "line_of_play moves make s ms t" and "ok s"
  shows "ok t"
  using assms by (induction rule: line_of_play.induct) (auto intro: make_ok)

lemma line_play_all: "line_of_play moves make s ms t \<Longrightarrow> snd (play_all make ms s) = t"
  by (induction rule: line_of_play.induct) (simp_all add: split_beta)

lemma take_back_line:
  assumes "line_of_play moves make s ms t" and "ok s"
  shows "take_back_all undo (zip (rev ms) (fst (play_all make ms s))) t = s"
  using assms
proof (induction rule: line_of_play.induct)
  case (step m s ms t)
  obtain us where us: "fst (play_all make ms (snd (make s m))) = us" "length us = length ms"
    by simp
  have "take_back_all undo (zip (rev ms) us) t = snd (make s m)"
    using step.IH step.prems step.hyps(1) make_ok us(1) by simp
  then show ?case
    using us undo_make [OF step.prems step.hyps(1)]
    by (simp add: split_beta zip_append take_back_all_append)
qed simp

lemma visit_restores:
  assumes "ok s" and "m \<in> set (moves s)" and "snd (f (snd (make s m))) = snd (make s m)"
  shows "undo (snd (f (snd (make s m)))) m (fst (make s m)) = s"
  using assms undo_make by simp

end

end
