(* ===== verification/Rules.thy ===== *)
theory Rules
  imports MoveGen MakeUndo
begin

text \<open>
  The rules that move generation and move execution establish together
  (\<open>src/chess/move_gen.cpp\<close> over \<open>src/chess/board.cpp\<close>). A sound position has a represented board,
  one king per side, pawns off the first and last rank, castling rights and an en passant square
  that agree with the pieces, and a side not to move that is not in check. Shown: every generated
  move fits the position, a generated capture is an attack (so no king is ever captured), the legal
  filter is the reference filter, legal moves keep a position sound, and perft counts the tree of
  legal moves without changing the board.
\<close>

section \<open>Sound positions\<close>

definition castling_ok :: "board \<Rightarrow> bool" where
  "castling_ok b \<longleftrightarrow>
     castling_rights b AND CR_ALL = castling_rights b \<and>
     (castling_rights b AND WHITE_KINGSIDE \<noteq> 0 \<longrightarrow>
        squares b ! E1 = Piece KING WHITE \<and> squares b ! H1 = Piece ROOK WHITE) \<and>
     (castling_rights b AND WHITE_QUEENSIDE \<noteq> 0 \<longrightarrow>
        squares b ! E1 = Piece KING WHITE \<and> squares b ! A1 = Piece ROOK WHITE) \<and>
     (castling_rights b AND BLACK_KINGSIDE \<noteq> 0 \<longrightarrow>
        squares b ! E8 = Piece KING BLACK \<and> squares b ! H8 = Piece ROOK BLACK) \<and>
     (castling_rights b AND BLACK_QUEENSIDE \<noteq> 0 \<longrightarrow>
        squares b ! E8 = Piece KING BLACK \<and> squares b ! A8 = Piece ROOK BLACK)"

definition ep_ok :: "board \<Rightarrow> bool" where
  "ep_ok b \<longleftrightarrow>
     en_passant_sq b = NO_SQUARE \<or>
     (let ep = en_passant_sq b; s = side_to_move b
      in ep < 64 \<and> rank_of ep = (if s = WHITE then 5 else 2) \<and> is_none (squares b ! ep) \<and>
         squares b ! make_square (rank_of ep + (if s = WHITE then -1 else 1)) (file_of ep) =
           Piece PAWN (opposite_color s))"

definition pawns_ok :: "board \<Rightarrow> bool" where
  "pawns_ok b \<longleftrightarrow>
     list_all (\<lambda>sq. ptype (squares b ! sq) = PAWN \<longrightarrow> 1 \<le> rank_of sq \<and> rank_of sq \<le> 6) [0..<64]"

definition kings_ok :: "board \<Rightarrow> bool" where
  "kings_ok b \<longleftrightarrow>
     count_list (squares b) (Piece KING WHITE) = 1 \<and> count_list (squares b) (Piece KING BLACK) = 1"

definition position_ok :: "board \<Rightarrow> bool" where
  "position_ok b \<longleftrightarrow>
     board_rep b \<and> castling_ok b \<and> ep_ok b \<and> pawns_ok b \<and> kings_ok b \<and>
     0 \<le> halfmove_clock b \<and> 1 \<le> fullmove_number b \<and>
     \<not> is_in_check b (opposite_color (side_to_move b))"

section \<open>The shape of generated moves\<close>

lemma add_pawn_moveD:
  assumes "m \<in> set (add_pawn_move c sq to fl)"
  shows "m_from m = sq \<and> m_to m = to \<and>
    (if rank_of to = (if c = WHITE then 7 else 0)
     then m_flags m = fl OR MF_PROMOTION \<and> m_promo m \<in> {QUEEN, ROOK, BISHOP, KNIGHT}
     else m_flags m = fl \<and> m_promo m = PT_NONE)"
  using assms by (auto simp: add_pawn_move_def split: if_splits)

definition ray_clear :: "board \<Rightarrow> int \<times> int \<Rightarrow> int \<Rightarrow> int \<Rightarrow> nat \<Rightarrow> bool" where
  "ray_clear b d nr nf k \<longleftrightarrow>
     (\<forall>j<k. on_board (nr + int j * fst d) (nf + int j * snd d) \<and>
       is_none (piece_at b (make_square (nr + int j * fst d) (nf + int j * snd d))))"

lemma ray_clear_0 [simp]: "ray_clear b d nr nf 0"
  by (simp add: ray_clear_def)

lemma ray_clear_Suc:
  "ray_clear b d nr nf (Suc k) \<longleftrightarrow>
     on_board nr nf \<and> is_none (piece_at b (make_square nr nf)) \<and>
     ray_clear b d (nr + fst d) (nf + snd d) k"
  unfolding ray_clear_def All_less_Suc2 by (simp add: algebra_simps)

lemma ray_movesD:
  assumes "m \<in> set (ray_moves n b sq c d nr nf)"
  shows "\<exists>k. ray_clear b d nr nf k \<and> on_board (nr + int k * fst d) (nf + int k * snd d) \<and>
     m = Move sq (make_square (nr + int k * fst d) (nf + int k * snd d)) MF_NONE PT_NONE \<and>
     (is_none (piece_at b (m_to m)) \<or> pcolor (piece_at b (m_to m)) \<noteq> c) \<and> k < n"
  using assms
proof (induction n arbitrary: nr nf)
  case (Suc n)
  show ?case
  proof (cases "m \<in> set (ray_moves n b sq c d (nr + fst d) (nf + snd d)) \<and> on_board nr nf \<and>
      is_none (piece_at b (make_square nr nf))")
    case True
    then obtain k where k: "ray_clear b d (nr + fst d) (nf + snd d) k"
      "on_board (nr + fst d + int k * fst d) (nf + snd d + int k * snd d)"
      "m = Move sq (make_square (nr + fst d + int k * fst d) (nf + snd d + int k * snd d)) MF_NONE PT_NONE"
      "is_none (piece_at b (m_to m)) \<or> pcolor (piece_at b (m_to m)) \<noteq> c" "k < n"
      using Suc.IH by blast
    then show ?thesis
      using True by (intro exI [of _ "Suc k"]) (simp add: ray_clear_Suc algebra_simps)
  next
    case False
    then show ?thesis
      using Suc.prems by (intro exI [of _ 0]) (auto simp: Let_def split: if_splits)
  qed
qed simp

lemma ray_attackedI:
  assumes "ray_clear b d nr nf k" and "on_board (nr + int k * fst d) (nf + int k * snd d)" and "k < n"
    and "\<not> is_none p" and "p = piece_at b (make_square (nr + int k * fst d) (nf + int k * snd d))"
    and "pcolor p = c" and "ptype p = QUEEN \<or> (diag \<and> ptype p = BISHOP) \<or> (\<not> diag \<and> ptype p = ROOK)"
  shows "ray_attacked n b c diag d nr nf"
  using assms(1-3,5)
proof (induction n arbitrary: nr nf k)
  case (Suc n)
  show ?case
  proof (cases k)
    case 0
    then show ?thesis using Suc.prems assms(4,6,7) by (simp add: Let_def)
  next
    case (Suc j)
    have "ray_attacked n b c diag d (nr + fst d) (nf + snd d)"
      using Suc.prems Suc by (intro Suc.IH [of _ _ j]) (auto simp: ray_clear_Suc algebra_simps)
    then show ?thesis using Suc.prems Suc by (simp add: ray_clear_Suc Let_def)
  qed
qed simp

lemma ray_clear_reverse:
  assumes "ray_clear b (dr, df) (r + dr) (f + df) k"
  shows "ray_clear b (- dr, - df) (r + int k * dr) (f + int k * df) k"
  unfolding ray_clear_def
proof (intro allI impI)
  fix j
  assume "j < k"
  then have j: "k - Suc j < k" and k: "int (k - Suc j) = int k - int j - 1" by auto
  have "r + dr + int (k - Suc j) * dr = r + int k * dr + int j * (- dr)"
    "f + df + int (k - Suc j) * df = f + int k * df + int j * (- df)"
    by (simp_all add: k algebra_simps)
  then show "on_board (r + int k * dr + int j * fst (- dr, - df)) (f + int k * df + int j * snd (- dr, - df)) \<and>
      is_none (piece_at b (make_square (r + int k * dr + int j * fst (- dr, - df))
        (f + int k * df + int j * snd (- dr, - df))))"
    using assms j unfolding ray_clear_def by (metis fst_conv snd_conv)
qed

definition opposite_dir :: "nat \<Rightarrow> nat" where
  "opposite_dir i = [1, 0, 3, 2, 7, 6, 5, 4] ! i"

lemma less_8_cases: "i < 8 \<Longrightarrow> i = 0 \<or> i = 1 \<or> i = 2 \<or> i = 3 \<or> i = 4 \<or> i = 5 \<or> i = 6 \<or> i = (7::nat)"
  by linarith

lemma opposite_dir:
  assumes "i < 8" and "ray_dirs ! i = (dr, df)"
  shows "opposite_dir i < 8" "ray_dirs ! opposite_dir i = (- dr, - df)" "(4 \<le> opposite_dir i) = (4 \<le> i)"
  using assms less_8_cases [OF assms(1)] by (auto simp: opposite_dir_def ray_dirs_def)

lemma offset_targets_iff:
  "t \<in> set (offset_targets offs sq) \<longleftrightarrow>
     (\<exists>dr df. (dr, df) \<in> set offs \<and> on_board (rank_of sq + dr) (file_of sq + df) \<and>
        t = make_square (rank_of sq + dr) (file_of sq + df))"
  by (auto simp: offset_targets_def)

lemma offset_targets_sym:
  assumes "\<And>dr df. (dr, df) \<in> set offs \<Longrightarrow> (- dr, - df) \<in> set offs"
    and "t \<in> set (offset_targets offs sq)" and "sq < 64"
  shows "sq \<in> set (offset_targets offs t)"
proof -
  obtain dr df where "(dr, df) \<in> set offs" "on_board (rank_of sq + dr) (file_of sq + df)"
    "t = make_square (rank_of sq + dr) (file_of sq + df)"
    using assms(2) by (auto simp: offset_targets_iff)
  then show ?thesis
    unfolding offset_targets_iff using assms(1,3)
    by (intro exI [of _ "- dr"] exI [of _ "- df"]) auto
qed

lemma knight_offsets_sym: "(dr, df) \<in> set knight_offsets \<Longrightarrow> (- dr, - df) \<in> set knight_offsets"
  unfolding knight_offsets_def by (simp, elim disjE) simp_all

lemma king_offsets_sym: "(dr, df) \<in> set king_offsets \<Longrightarrow> (- dr, - df) \<in> set king_offsets"
  by (auto simp: king_offsets_def)

lemma knight_targets_sym: "t \<in> set (knight_targets sq) \<Longrightarrow> sq < 64 \<Longrightarrow> sq \<in> set (knight_targets t)"
  unfolding knight_targets_def by (rule offset_targets_sym [OF knight_offsets_sym])

lemma king_targets_sym: "t \<in> set (king_targets sq) \<Longrightarrow> sq < 64 \<Longrightarrow> sq \<in> set (king_targets t)"
  unfolding king_targets_def by (rule offset_targets_sym [OF king_offsets_sym])

lemma offset_targets_off:
  assumes "t \<in> set (offset_targets offs sq)" and "(0, 0) \<notin> set offs"
  shows "t < 64 \<and> t \<noteq> sq"
proof -
  obtain dr df where d: "(dr, df) \<in> set offs" "on_board (rank_of sq + dr) (file_of sq + df)"
    "t = make_square (rank_of sq + dr) (file_of sq + df)"
    using assms(1) by (auto simp: offset_targets_iff)
  then have "rank_of t = rank_of sq + dr" "file_of t = file_of sq + df" by simp_all
  then have "t = sq \<Longrightarrow> (dr, df) = (0, 0)" by simp
  then show ?thesis using d assms(2) by auto
qed

lemma knight_targets_off: "t \<in> set (knight_targets sq) \<Longrightarrow> t < 64 \<and> t \<noteq> sq"
  unfolding knight_targets_def by (rule offset_targets_off) (auto simp: knight_offsets_def)

lemma king_targets_off: "t \<in> set (king_targets sq) \<Longrightarrow> t < 64 \<and> t \<noteq> sq"
  unfolding king_targets_def by (rule offset_targets_off) (auto simp: king_offsets_def)


lemma pawn_move_cases:
  assumes "m \<in> set (generate_pawn_moves b sq c)" and "sq < 64"
  obtains (push) r where "r = rank_of sq + (if c = WHITE then 1 else -1)" "0 \<le> r" "r < 8"
      "is_none (piece_at b (make_square r (file_of sq)))"
      "m \<in> set (add_pawn_move c sq (make_square r (file_of sq)) MF_NONE)"
  | (double) r where "rank_of sq = (if c = WHITE then 1 else 6)" "r = (if c = WHITE then 3 else 4)"
      "is_none (piece_at b (make_square r (file_of sq)))"
      "is_none (piece_at b (make_square (if c = WHITE then 2 else 5) (file_of sq)))"
      "m = Move sq (make_square r (file_of sq)) MF_DOUBLE_PAWN_PUSH PT_NONE"
  | (capture) r f where "r = rank_of sq + (if c = WHITE then 1 else -1)"
      "f = file_of sq - 1 \<or> f = file_of sq + 1" "on_board r f"
      "\<not> is_none (piece_at b (make_square r f))" "pcolor (piece_at b (make_square r f)) \<noteq> c"
      "m \<in> set (add_pawn_move c sq (make_square r f) MF_NONE)"
  | (en_passant) r f where "r = rank_of sq + (if c = WHITE then 1 else -1)"
      "f = file_of sq - 1 \<or> f = file_of sq + 1" "on_board r f" "make_square r f = en_passant_sq b"
      "m \<in> set (add_pawn_move c sq (make_square r f) MF_EN_PASSANT)"
proof -
  consider "m \<in> set (pawn_pushes b sq c)" | "m \<in> set (pawn_captures b sq c (-1))"
    | "m \<in> set (pawn_captures b sq c 1)"
    using assms(1) by (auto simp: generate_pawn_moves_def)
  then show thesis
  proof cases
    case 1
    then show thesis
      using push double by (auto simp: pawn_pushes_def Let_def split: if_splits)
  next
    case 2
    then show thesis
      using capture [of _ "file_of sq - 1"] en_passant [of _ "file_of sq - 1"]
      by (auto simp: pawn_captures_def Let_def split: if_splits)
  next
    case 3
    then show thesis
      using capture [of _ "file_of sq + 1"] en_passant [of _ "file_of sq + 1"]
      by (auto simp: pawn_captures_def Let_def split: if_splits)
  qed
qed

lemma step_movesD:
  "m \<in> set (step_moves b sq c ts) \<Longrightarrow>
     m = Move sq (m_to m) MF_NONE PT_NONE \<and> m_to m \<in> set ts \<and>
     (is_none (piece_at b (m_to m)) \<or> pcolor (piece_at b (m_to m)) \<noteq> c)"
  by (auto simp: step_moves_def)

lemma generate_ray_movesD:
  assumes "m \<in> set (generate_ray_moves b sq c orth diag)" and "sq < 64"
  obtains i k dr df where "i < 8" "i < 4 \<longrightarrow> orth" "4 \<le> i \<longrightarrow> diag" "ray_dirs ! i = (dr, df)" "k < 8"
    "ray_clear b (dr, df) (rank_of sq + dr) (file_of sq + df) k"
    "on_board (rank_of sq + dr + int k * dr) (file_of sq + df + int k * df)"
    "m = Move sq (make_square (rank_of sq + dr + int k * dr) (file_of sq + df + int k * df)) MF_NONE PT_NONE"
    "is_none (piece_at b (m_to m)) \<or> pcolor (piece_at b (m_to m)) \<noteq> c"
proof -
  obtain i where i: "i \<in> set [(if orth then 0 else 4)..<(if diag then 8 else 4)]"
    "m \<in> set (ray_moves 8 b sq c (ray_dirs ! i)
       (rank_of sq + fst (ray_dirs ! i)) (file_of sq + snd (ray_dirs ! i)))"
    using assms(1) by (auto simp: generate_ray_moves_def)
  obtain dr df where d: "ray_dirs ! i = (dr, df)" by fastforce
  show thesis
    using ray_movesD [OF i(2)] i(1) d that [of i dr df] by (auto split: if_splits)
qed

lemma ray_move_attacks:
  assumes "m \<in> set (generate_ray_moves b sq c orth diag)" and "sq < 64" and "\<not> is_none (piece_at b sq)"
    and "pcolor (piece_at b sq) = c"
    and "ptype (piece_at b sq) = QUEEN \<or> (orth \<and> \<not> diag \<and> ptype (piece_at b sq) = ROOK) \<or>
         (diag \<and> \<not> orth \<and> ptype (piece_at b sq) = BISHOP)"
  shows "is_square_attacked b (m_to m) c"
proof -
  obtain i k dr df where r: "i < 8" "i < 4 \<longrightarrow> orth" "4 \<le> i \<longrightarrow> diag" "ray_dirs ! i = (dr, df)" "k < 8"
    "ray_clear b (dr, df) (rank_of sq + dr) (file_of sq + df) k"
    "on_board (rank_of sq + dr + int k * dr) (file_of sq + df + int k * df)"
    "m = Move sq (make_square (rank_of sq + dr + int k * dr) (file_of sq + df + int k * df)) MF_NONE PT_NONE"
    by (rule generate_ray_movesD [OF assms(1,2)])
  note o = opposite_dir [OF r(1,4)]
  have to: "rank_of (m_to m) - dr = rank_of sq + int k * dr" "file_of (m_to m) - df = file_of sq + int k * df"
    using r(7,8) by auto
  have "ray_attacked 8 b c (4 \<le> opposite_dir i) (- dr, - df) (rank_of (m_to m) - dr) (file_of (m_to m) - df)"
    unfolding to
  proof (rule ray_attackedI [where k = k and p = "piece_at b sq"])
    show "ray_clear b (- dr, - df) (rank_of sq + int k * dr) (file_of sq + int k * df) k"
      by (rule ray_clear_reverse [OF r(6)])
  qed (use assms(2-) r(2,3,5) o(3) in \<open>auto simp: algebra_simps\<close>)
  then show ?thesis
    unfolding is_square_attacked_def list_ex_iff using o
    by (intro disjI2) (auto intro!: bexI [of _ "opposite_dir i"])
qed

lemma pawn_attacksI:
  assumes "sq < 64" and "rank_of t = rank_of sq + (if c = WHITE then 1 else -1)"
    and "file_of t = file_of sq - 1 \<or> file_of t = file_of sq + 1"
    and "ptype (piece_at b sq) = PAWN" and "pcolor (piece_at b sq) = c"
  shows "is_square_attacked b t c"
proof -
  have sq: "make_square (rank_of t + (if c = WHITE then -1 else 1)) (file_of sq) = sq"
    using assms(1,2) by simp
  have "pawn_attacks b t c"
    using assms(3)
  proof
    assume f: "file_of t = file_of sq - 1"
    then have "file_of t + 1 = file_of sq" "file_of t < 7" using on_board_rank_file(3) [of sq] by linarith+
    then show ?thesis
      using assms sq on_board_rank_file(1,4) [of sq] by (auto simp: pawn_attacks_def Let_def)
  next
    assume f: "file_of t = file_of sq + 1"
    then have "file_of t - 1 = file_of sq" "0 < file_of t" using on_board_rank_file(2) [of sq] by linarith+
    then show ?thesis
      using assms sq on_board_rank_file(1,4) [of sq] by (auto simp: pawn_attacks_def Let_def)
  qed
  then show ?thesis by (simp add: is_square_attacked_def)
qed


lemma square_movesE:
  assumes "m \<in> set (square_moves b sq)"
  obtains (pawn) "ptype (piece_at b sq) = PAWN" "m \<in> set (generate_pawn_moves b sq (side_to_move b))"
      "\<not> is_none (piece_at b sq)" "pcolor (piece_at b sq) = side_to_move b"
  | (knight) "ptype (piece_at b sq) = KNIGHT" "m \<in> set (step_moves b sq (side_to_move b) (knight_targets sq))"
      "\<not> is_none (piece_at b sq)" "pcolor (piece_at b sq) = side_to_move b"
  | (slide) orth diag where "m \<in> set (generate_ray_moves b sq (side_to_move b) orth diag)"
      "ptype (piece_at b sq) = QUEEN \<or> (orth \<and> \<not> diag \<and> ptype (piece_at b sq) = ROOK) \<or>
         (diag \<and> \<not> orth \<and> ptype (piece_at b sq) = BISHOP)"
      "\<not> is_none (piece_at b sq)" "pcolor (piece_at b sq) = side_to_move b"
  | (king) "ptype (piece_at b sq) = KING" "m \<in> set (step_moves b sq (side_to_move b) (king_targets sq))"
      "\<not> is_none (piece_at b sq)" "pcolor (piece_at b sq) = side_to_move b"
  | (castle) "ptype (piece_at b sq) = KING" "m \<in> set (castling_moves b (side_to_move b))"
      "\<not> is_none (piece_at b sq)" "pcolor (piece_at b sq) = side_to_move b"
proof (cases "is_none (piece_at b sq) \<or> pcolor (piece_at b sq) \<noteq> side_to_move b")
  case True
  then show thesis using assms by (auto simp: square_moves_def Let_def)
next
  case False
  then show thesis
    using assms pawn knight slide king castle
    by (cases "ptype (piece_at b sq)")
      (auto simp: square_moves_def Let_def generate_knight_moves_def generate_king_moves_def)
qed

lemma castling_movesE:
  assumes "m \<in> set (castling_moves b c)" and "c \<noteq> C_NONE" and "castling_ok b"
  obtains (kingside) base where "base = (if c = WHITE then 0 else 56)"
      "m = Move (base + 4) (base + 6) MF_KINGSIDE_CASTLE PT_NONE"
      "squares b ! (base + 4) = Piece KING c" "squares b ! (base + 7) = Piece ROOK c"
      "is_none (squares b ! (base + 5))" "is_none (squares b ! (base + 6))"
  | (queenside) base where "base = (if c = WHITE then 0 else 56)"
      "m = Move (base + 4) (base + 2) MF_QUEENSIDE_CASTLE PT_NONE"
      "squares b ! (base + 4) = Piece KING c" "squares b ! base = Piece ROOK c"
      "is_none (squares b ! (base + 3))" "is_none (squares b ! (base + 2))" "is_none (squares b ! (base + 1))"
proof (cases c)
  case WHITE
  then show thesis
    using assms kingside [of 0] queenside [of 0]
    by (auto simp: castling_moves_def castle_move_def castling_ok_def piece_at_def numeral_2_eq_2 split: if_splits)
next
  case BLACK
  then show thesis
    using assms kingside [of 56] queenside [of 56]
    by (auto simp: castling_moves_def castle_move_def castling_ok_def piece_at_def numeral_2_eq_2 split: if_splits)
next
  case C_NONE
  then show thesis using assms(2) by simp
qed

lemma capture_attacks:
  assumes "board_rep b" and "castling_ok b" and "m \<in> set (square_moves b sq)" and "sq < 64"
    and "\<not> is_none (squares b ! m_to m)"
  shows "is_square_attacked b (m_to m) (side_to_move b)"
  using assms(3)
proof (cases rule: square_movesE)
  case pawn
  from pawn(2) assms(4) show ?thesis
  proof (cases rule: pawn_move_cases)
    case (capture r f)
    then show ?thesis using pawn(1,4) assms(4) add_pawn_moveD [OF capture(6)] by (intro pawn_attacksI) auto
  next
    case (en_passant r f)
    have "m_to m = make_square r f" using add_pawn_moveD [OF en_passant(5)] by simp
    then have "rank_of (m_to m) = r" "file_of (m_to m) = f" using en_passant(3) by simp_all
    then show ?thesis using pawn(1,4) assms(4) en_passant(1,2) by (intro pawn_attacksI) auto
  qed (use assms(5) in \<open>auto dest!: add_pawn_moveD simp: piece_at_def\<close>)
next
  case knight
  then show ?thesis
    using step_movesD [OF knight(2)] knight_targets_sym [of "m_to m" sq] assms(4)
    by (auto simp: is_square_attacked_def list_ex_iff)
next
  case king
  then show ?thesis
    using step_movesD [OF king(2)] king_targets_sym [of "m_to m" sq] assms(4)
    by (auto simp: is_square_attacked_def list_ex_iff)
next
  case (slide orth diag)
  show ?thesis by (rule ray_move_attacks [OF slide(1) assms(4) slide(3,4,2)])
next
  case castle
  have "side_to_move b \<noteq> C_NONE" using assms(1) by (simp add: board_rep_def)
  with castle(2) show ?thesis
    using assms(2,5) by (auto elim!: castling_movesE)
qed

section \<open>Generated moves fit the position\<close>

lemma make_square_neq: "on_board r f \<Longrightarrow> r \<noteq> rank_of sq \<or> f \<noteq> file_of sq \<Longrightarrow> make_square r f \<noteq> sq"
  by auto

lemma move_fits_plain:
  assumes "sq < 64" and "t < 64" and "t \<noteq> sq" and "\<not> is_none (squares b ! sq)"
    and "pcolor (squares b ! sq) = side_to_move b"
    and "is_none (squares b ! t) \<or> pcolor (squares b ! t) \<noteq> side_to_move b"
  shows "move_fits b (Move sq t MF_NONE PT_NONE)"
  using assms by (simp add: move_fits_def castle_rook_def flag_simps)

lemma add_pawn_move_fits:
  assumes "m \<in> set (add_pawn_move (side_to_move b) sq t MF_NONE)" and "sq < 64" and "t < 64" and "t \<noteq> sq"
    and "ptype (squares b ! sq) = PAWN" and "pcolor (squares b ! sq) = side_to_move b"
    and "is_none (squares b ! t) \<or> pcolor (squares b ! t) \<noteq> side_to_move b"
  shows "move_fits b m"
  using add_pawn_moveD [OF assms(1)] assms(2-)
  by (auto simp: move_fits_def castle_rook_def flag_simps is_none_def split: if_splits)

lemma generate_pawn_moves_fit:
  assumes "board_rep b" and "ep_ok b" and "sq < 64" and "ptype (squares b ! sq) = PAWN"
    and "pcolor (squares b ! sq) = side_to_move b" and "m \<in> set (generate_pawn_moves b sq (side_to_move b))"
  shows "move_fits b m"
  using assms(6,3)
proof (cases rule: pawn_move_cases)
  case (push r)
  have "make_square r (file_of sq) \<noteq> sq"
    by (rule make_square_neq) (use push(1-3) in auto)
  then show ?thesis
    using push assms(3-5) by (intro add_pawn_move_fits [OF push(5)]) (auto simp: piece_at_def)
next
  case (double r)
  have t: "rank_of (m_to m) = r" "file_of (m_to m) = file_of sq" "m_to m < 64" "m_from m = sq"
    "m_flags m = MF_DOUBLE_PAWN_PUSH"
    using double(2,5) by auto
  have "m_to m \<noteq> sq" using t double(1,2) by (auto split: if_splits)
  moreover have "behind_square (side_to_move b) m < 64"
    unfolding behind_square_def t using double(2) by (intro make_square_less) auto
  ultimately show ?thesis
    using double t assms(3-5)
    by (auto simp: move_fits_def castle_rook_def flag_simps is_none_def piece_at_def)
next
  case (capture r f)
  have "make_square r f \<noteq> sq"
    by (rule make_square_neq) (use capture(1,3) in auto)
  then show ?thesis
    using capture assms(3-5) by (intro add_pawn_move_fits [OF capture(6)]) (auto simp: piece_at_def)
next
  case (en_passant r f)
  let ?s = "side_to_move b" and ?ep = "en_passant_sq b"
  have s: "?s \<noteq> C_NONE" using assms(1) by (simp add: board_rep_def)
  have ep: "?ep < 64" "rank_of ?ep = r" "file_of ?ep = f"
    using en_passant(3,4) by (metis make_square_less rank_of_make_square file_of_make_square)+
  have ok: "r = (if ?s = WHITE then 5 else 2)" "is_none (squares b ! ?ep)"
    "squares b ! make_square (r + (if ?s = WHITE then -1 else 1)) f = Piece PAWN (opposite_color ?s)"
    using assms(2) ep by (auto simp: ep_ok_def Let_def NO_SQUARE_def)
  have m: "m_from m = sq" "m_to m = ?ep" "m_flags m = MF_EN_PASSANT"
    using add_pawn_moveD [OF en_passant(5)] ok(1) ep en_passant(4) by (auto split: if_splits)
  have cs: "behind_square ?s m = make_square (r + (if ?s = WHITE then -1 else 1)) f"
    by (simp add: behind_square_def m ep)
  have on: "on_board (r + (if ?s = WHITE then -1 else 1)) f" using ok(1) en_passant(3) by auto
  have "rank_of ?ep \<noteq> rank_of sq" using ep(2) en_passant(1) by auto
  then have ne: "sq \<noteq> ?ep" by auto
  have "rank_of (behind_square ?s m) \<noteq> rank_of ?ep" "file_of (behind_square ?s m) \<noteq> file_of sq"
    unfolding cs using on ep en_passant(2) by auto
  then have "behind_square ?s m \<noteq> ?ep" "behind_square ?s m \<noteq> sq" by auto
  then show ?thesis
    using m ep ok ne cs on assms(3-5) s
    by (auto simp: move_fits_def castle_rook_def flag_simps is_none_def Let_def)
qed


lemma castling_moves_fit:
  assumes "board_rep b" and "castling_ok b" and "m \<in> set (castling_moves b (side_to_move b))"
  shows "move_fits b m"
proof -
  have c: "side_to_move b \<noteq> C_NONE" using assms(1) by (simp add: board_rep_def)
  from assms(3) c assms(2) show ?thesis
  proof (cases rule: castling_movesE)
    case (kingside base)
    then show ?thesis
      by (cases "side_to_move b = WHITE")
        (auto simp: move_fits_def castle_rook_def flag_simps make_square_def rank_of_def is_none_def)
  next
    case (queenside base)
    then show ?thesis
      by (cases "side_to_move b = WHITE")
        (auto simp: move_fits_def castle_rook_def flag_simps make_square_def rank_of_def is_none_def numeral_2_eq_2)
  qed
qed

lemma generate_ray_moves_fit:
  assumes "m \<in> set (generate_ray_moves b sq (side_to_move b) orth diag)" and "sq < 64"
    and "\<not> is_none (squares b ! sq)" and "pcolor (squares b ! sq) = side_to_move b"
  shows "move_fits b m"
proof -
  obtain i k dr df where r: "i < 8" "ray_dirs ! i = (dr, df)"
    "on_board (rank_of sq + dr + int k * dr) (file_of sq + df + int k * df)"
    "m = Move sq (make_square (rank_of sq + dr + int k * dr) (file_of sq + df + int k * df)) MF_NONE PT_NONE"
    "is_none (piece_at b (m_to m)) \<or> pcolor (piece_at b (m_to m)) \<noteq> side_to_move b"
    by (rule generate_ray_movesD [OF assms(1,2)])
  have "dr \<noteq> 0 \<or> df \<noteq> 0" using ray_dirs_units [OF r(1)] r(2) by auto
  moreover have "e + int k * e = 0 \<Longrightarrow> e = 0" for e
  proof -
    assume "e + int k * e = 0"
    then have "e * (1 + int k) = 0" by (simp add: algebra_simps)
    then show "e = 0" by simp
  qed
  ultimately have "dr + int k * dr \<noteq> 0 \<or> df + int k * df \<noteq> 0" by blast
  then have "make_square (rank_of sq + dr + int k * dr) (file_of sq + df + int k * df) \<noteq> sq"
    by (intro make_square_neq [OF r(3)]) linarith
  then show ?thesis
    using r assms(2-4) by (auto simp: piece_at_def intro!: move_fits_plain)
qed

lemma square_moves_fit:
  assumes "board_rep b" and "castling_ok b" and "ep_ok b" and "m \<in> set (square_moves b sq)" and "sq < 64"
  shows "move_fits b m"
  using assms(4)
proof (cases rule: square_movesE)
  case pawn
  then show ?thesis using assms by (intro generate_pawn_moves_fit [of b sq]) (auto simp: piece_at_def)
next
  case knight
  then have "move_fits b (Move sq (m_to m) MF_NONE PT_NONE)"
    using step_movesD [OF knight(2)] knight_targets_off [of "m_to m" sq] assms(5)
    by (intro move_fits_plain) (auto simp: piece_at_def)
  then show ?thesis using step_movesD [OF knight(2)] by simp
next
  case king
  then have "move_fits b (Move sq (m_to m) MF_NONE PT_NONE)"
    using step_movesD [OF king(2)] king_targets_off [of "m_to m" sq] assms(5)
    by (intro move_fits_plain) (auto simp: piece_at_def)
  then show ?thesis using step_movesD [OF king(2)] by simp
next
  case (slide orth diag)
  then show ?thesis using assms(5) by (intro generate_ray_moves_fit) (auto simp: piece_at_def)
next
  case castle
  then show ?thesis using assms by (intro castling_moves_fit) auto
qed

lemma pseudo_legal_iff:
  "m \<in> set (generate_pseudo_legal_moves b) \<longleftrightarrow> (\<exists>sq<64. m \<in> set (square_moves b sq))"
  by (auto simp: generate_pseudo_legal_moves_def)

lemma pseudo_legal_fits:
  "board_rep b \<Longrightarrow> castling_ok b \<Longrightarrow> ep_ok b \<Longrightarrow> m \<in> set (generate_pseudo_legal_moves b) \<Longrightarrow> move_fits b m"
  by (auto simp: pseudo_legal_iff square_moves_fit)

section \<open>The legal filter\<close>

lemma legal_loop_filter:
  assumes "board_rep b" and "\<And>m. m \<in> set ms \<Longrightarrow> move_fits b m"
  shows "legal_loop b c ms = filter (\<lambda>m. \<not> is_in_check (snd (make_move b m)) c) ms"
  using assms(2)
proof (induction ms)
  case (Cons m ms)
  then have "undo_move (snd (make_move b m)) m (fst (make_move b m)) = b"
    by (simp add: undo_make_move assms(1))
  then show ?case using Cons by (simp add: split_beta)
qed simp

lemma legal_moves_filter:
  "board_rep b \<Longrightarrow> castling_ok b \<Longrightarrow> ep_ok b \<Longrightarrow>
     generate_legal_moves b =
       filter (\<lambda>m. \<not> is_in_check (snd (make_move b m)) (side_to_move b)) (generate_pseudo_legal_moves b)"
  unfolding generate_legal_moves_def by (rule legal_loop_filter) (auto simp: pseudo_legal_fits)


section \<open>Kings\<close>

lemma piece_eq: "p = Piece t c \<longleftrightarrow> ptype p = t \<and> pcolor p = c"
  by (cases p) auto

definition king_at :: "board \<Rightarrow> color \<Rightarrow> square \<Rightarrow> bool" where
  \<comment> \<open>the king of a colour stands on this square and on no other one\<close>
  "king_at b c k \<longleftrightarrow> k < 64 \<and> (\<forall>i<64. squares b ! i = Piece KING c \<longleftrightarrow> i = k)"

lemma count_list_one:
  "count_list xs x = 1 \<longleftrightarrow> (\<exists>k<length xs. \<forall>i<length xs. xs ! i = x \<longleftrightarrow> i = k)"
proof -
  have "count_list xs x = card {i. i < length xs \<and> xs ! i = x}"
    by (simp add: count_list_eq_length_filter length_filter_conv_card eq_commute)
  moreover have "(\<exists>k. {i. i < length xs \<and> xs ! i = x} = {k}) \<longleftrightarrow>
      (\<exists>k<length xs. \<forall>i<length xs. xs ! i = x \<longleftrightarrow> i = k)"
    by (auto simp: set_eq_iff)
  ultimately show ?thesis by (simp add: card_1_singleton_iff)
qed

lemma kings_ok_king_at:
  "length (squares b) = 64 \<Longrightarrow> kings_ok b \<longleftrightarrow> (\<exists>k. king_at b WHITE k) \<and> (\<exists>k. king_at b BLACK k)"
  unfolding kings_ok_def count_list_one king_at_def by auto

lemma find_king_from_skip:
  "\<forall>i<length ps. ps ! i \<noteq> Piece KING c \<Longrightarrow> find_king_from (ps @ qs) c n = find_king_from qs c (n + length ps)"
proof (induction ps arbitrary: n)
  case (Cons p ps)
  have "p \<noteq> Piece KING c" "\<forall>i<length ps. ps ! i \<noteq> Piece KING c" using Cons.prems by auto
  then show ?case using Cons.IH by (auto simp: piece_eq)
qed simp

lemma find_king_at:
  assumes "length (squares b) = 64" and "king_at b c k"
  shows "find_king b c = k"
proof -
  have k: "k < 64" "squares b ! k = Piece KING c" "\<forall>i<k. squares b ! i \<noteq> Piece KING c"
    using assms by (auto simp: king_at_def)
  have "squares b = take k (squares b) @ Piece KING c # drop (Suc k) (squares b)"
    using k assms(1) by (metis id_take_nth_drop)
  then show ?thesis
    unfolding find_king_def
    using find_king_from_skip [of "take k (squares b)" c "Piece KING c # drop (Suc k) (squares b)" 0] k assms(1)
    by simp
qed

lemma no_king_captured:
  assumes "position_ok b" and "m \<in> set (generate_pseudo_legal_moves b)"
  shows "ptype (squares b ! m_to m) \<noteq> KING"
proof
  assume king: "ptype (squares b ! m_to m) = KING"
  let ?o = "opposite_color (side_to_move b)"
  have ok: "board_rep b" "castling_ok b" "ep_ok b" "kings_ok b" "\<not> is_in_check b ?o"
    and len: "length (squares b) = 64" and side: "side_to_move b \<noteq> C_NONE"
    using assms(1) by (auto simp: position_ok_def board_rep_def)
  have fits: "move_fits b m" by (rule pseudo_legal_fits [OF ok(1-3) assms(2)])
  have "piece_ok (squares b ! m_to m)" using fits ok(1) by (simp add: board_rep_piece_ok move_fits_def)
  then have "pcolor (squares b ! m_to m) = ?o"
    using fits king side
    by (cases "side_to_move b"; cases "pcolor (squares b ! m_to m)") (auto simp: move_fits_def piece_ok_def is_none_def)
  then have p: "squares b ! m_to m = Piece KING ?o" using king by (simp add: piece_eq)
  obtain k where k: "king_at b ?o k"
    using ok(4) len side by (cases "side_to_move b") (auto simp: kings_ok_king_at)
  then have "m_to m = k" using p fits by (auto simp: king_at_def move_fits_def)
  moreover have "is_square_attacked b (m_to m) (side_to_move b)"
    using assms(2) ok p by (auto simp: pseudo_legal_iff is_none_def intro: capture_attacks)
  ultimately have "is_in_check b ?o"
    using find_king_at [OF len k] k side by (auto simp: is_in_check_def king_at_def NO_SQUARE_def)
  then show False using ok(5) by simp
qed

section \<open>The board after a fitting move\<close>

lemma make_move_nth:
  assumes "board_rep b" and "move_fits b m" and "i < 64"
  shows "squares (snd (make_move b m)) ! i =
    (if i = m_to m then
       (if is_promotion m then Piece (m_promo m) (side_to_move b) else squares b ! m_from m)
     else if i = m_from m \<or> (is_en_passant m \<and> i = behind_square (side_to_move b) m) then no_piece
     else case castle_rook m of
         None \<Rightarrow> squares b ! i
       | Some (rf, rt) \<Rightarrow> if i = rf then no_piece else if i = rt then Piece ROOK (side_to_move b) else squares b ! i)"
proof -
  have len: "length (squares b) = 64" using assms(1) by (simp add: board_rep_def)
  note fits = assms(2) [unfolded move_fits_def Let_def]
  have c: "pcolor (squares b ! m_from m) = side_to_move b" "m_from m \<noteq> m_to m" "m_from m < 64" "m_to m < 64"
    using fits by auto
  show ?thesis
  proof (cases "castle_rook m")
    case None
    then show ?thesis
      using c len assms(3) by (auto simp: make_move_squares Let_def nth_list_update)
  next
    case (Some r)
    then obtain rf rt where r: "castle_rook m = Some (rf, rt)" by (cases r) auto
    then have ep: "\<not> is_en_passant m" and d: "rf \<noteq> rt" "squares b ! rf = Piece ROOK (side_to_move b)"
      using fits by auto
    show ?thesis
      using c d ep r len assms(3) by (simp add: make_move_squares Let_def nth_list_update)
  qed
qed

lemma make_move_halfmove:
  "halfmove_clock (snd (make_move b m)) =
     (if ptype (squares b ! m_from m) = PAWN \<or> \<not> is_none (u_captured (fst (make_move b m)))
      then 0 else halfmove_clock b + 1)"
  by (simp add: make_move_defs split: prod.splits)

lemma make_move_rep:
  assumes "board_rep b" and "move_fits b m"
  shows "board_rep (snd (make_move b m))"
proof -
  have ok: "piece_ok (squares (snd (make_move b m)) ! i)" if i: "i < 64" for i
  proof -
    have side: "side_to_move b \<noteq> C_NONE" using assms(1) by (simp add: board_rep_def)
    then show ?thesis
      using assms(2) board_rep_piece_ok [OF assms(1)] i
      by (cases "castle_rook m")
        (auto simp: make_move_nth [OF assms i] move_fits_def piece_ok_def split: prod.splits)
  qed
  have c: "pcolor (squares b ! m_from m) = side_to_move b"
    "is_double_pawn_push m \<Longrightarrow> behind_square (side_to_move b) m < 64"
    using assms(2) by (auto simp: move_fits_def)
  then show ?thesis
    unfolding board_rep_def using assms(1) ok make_move_zobrist [OF assms]
    by (auto simp: list_all_length board_rep_def NO_SQUARE_def)
qed


section \<open>Special moves\<close>

inductive move_kind :: "board \<Rightarrow> move \<Rightarrow> bool" for b where
  \<comment> \<open>what a generated move does, by kind\<close>
  plain: "m_flags m = MF_NONE \<Longrightarrow> ptype (squares b ! m_from m) \<noteq> PAWN \<Longrightarrow> move_kind b m"
| pawn_step: "ptype (squares b ! m_from m) = PAWN \<Longrightarrow>
     rank_of (m_to m) = rank_of (m_from m) + (if side_to_move b = WHITE then 1 else -1) \<Longrightarrow>
     rank_of (m_to m) \<noteq> (if side_to_move b = WHITE then 7 else 0) \<Longrightarrow> m_flags m = MF_NONE \<Longrightarrow> move_kind b m"
| promotion: "ptype (squares b ! m_from m) = PAWN \<Longrightarrow>
     rank_of (m_to m) = (if side_to_move b = WHITE then 7 else 0) \<Longrightarrow> m_flags m = MF_PROMOTION \<Longrightarrow>
     m_promo m \<in> {QUEEN, ROOK, BISHOP, KNIGHT} \<Longrightarrow> move_kind b m"
| double_push: "ptype (squares b ! m_from m) = PAWN \<Longrightarrow>
     rank_of (m_from m) = (if side_to_move b = WHITE then 1 else 6) \<Longrightarrow>
     rank_of (m_to m) = (if side_to_move b = WHITE then 3 else 4) \<Longrightarrow>
     file_of (m_to m) = file_of (m_from m) \<Longrightarrow>
     is_none (squares b ! make_square (if side_to_move b = WHITE then 2 else 5) (file_of (m_to m))) \<Longrightarrow>
     m_flags m = MF_DOUBLE_PAWN_PUSH \<Longrightarrow> move_kind b m"
| en_passant: "ptype (squares b ! m_from m) = PAWN \<Longrightarrow>
     rank_of (m_to m) = (if side_to_move b = WHITE then 5 else 2) \<Longrightarrow>
     squares b ! behind_square (side_to_move b) m = Piece PAWN (opposite_color (side_to_move b)) \<Longrightarrow>
     m_flags m = MF_EN_PASSANT \<Longrightarrow> move_kind b m"
| kingside: "base = (if side_to_move b = WHITE then 0 else 56) \<Longrightarrow>
     m = Move (base + 4) (base + 6) MF_KINGSIDE_CASTLE PT_NONE \<Longrightarrow>
     squares b ! (base + 4) = Piece KING (side_to_move b) \<Longrightarrow> move_kind b m"
| queenside: "base = (if side_to_move b = WHITE then 0 else 56) \<Longrightarrow>
     m = Move (base + 4) (base + 2) MF_QUEENSIDE_CASTLE PT_NONE \<Longrightarrow>
     squares b ! (base + 4) = Piece KING (side_to_move b) \<Longrightarrow> move_kind b m"

lemma add_pawn_move_kind:
  assumes "m \<in> set (add_pawn_move (side_to_move b) sq t MF_NONE)" and "ptype (squares b ! sq) = PAWN"
    and "rank_of t = rank_of sq + (if side_to_move b = WHITE then 1 else -1)"
  shows "move_kind b m"
proof (cases "rank_of t = (if side_to_move b = WHITE then 7 else 0)")
  case True
  show ?thesis
    using add_pawn_moveD [OF assms(1)] assms(2) True by (intro move_kind.promotion) auto
next
  case False
  show ?thesis
    using add_pawn_moveD [OF assms(1)] assms(2,3) False by (intro move_kind.pawn_step) auto
qed

lemma generate_pawn_moves_kind:
  assumes "ep_ok b" and "sq < 64" and "ptype (squares b ! sq) = PAWN"
    and "m \<in> set (generate_pawn_moves b sq (side_to_move b))"
  shows "move_kind b m"
  using assms(4,2)
proof (cases rule: pawn_move_cases)
  case (push r)
  then show ?thesis using assms(3) by (intro add_pawn_move_kind [OF push(5)]) auto
next
  case (capture r f)
  then show ?thesis using assms(3) by (intro add_pawn_move_kind [OF capture(6)]) auto
next
  case (double r)
  then have "rank_of (m_to m) = r" "file_of (m_to m) = file_of sq" by auto
  then show ?thesis
    using double assms(3) by (intro move_kind.double_push) (auto simp: piece_at_def)
next
  case (en_passant r f)
  let ?s = "side_to_move b" and ?ep = "en_passant_sq b"
  have ep: "?ep < 64" "rank_of ?ep = r" "file_of ?ep = f"
    using en_passant(3,4) by (metis make_square_less rank_of_make_square file_of_make_square)+
  have ok: "r = (if ?s = WHITE then 5 else 2)"
    "squares b ! make_square (r + (if ?s = WHITE then -1 else 1)) f = Piece PAWN (opposite_color ?s)"
    using assms(1) ep by (auto simp: ep_ok_def Let_def NO_SQUARE_def)
  have m: "m_from m = sq" "m_to m = ?ep" "m_flags m = MF_EN_PASSANT"
    using add_pawn_moveD [OF en_passant(5)] ok(1) ep en_passant(4) by (auto split: if_splits)
  show ?thesis
    using m ep ok assms(3) by (intro move_kind.en_passant) (auto simp: behind_square_def)
qed

lemma pseudo_legal_kind:
  assumes "board_rep b" and "castling_ok b" and "ep_ok b" and "m \<in> set (generate_pseudo_legal_moves b)"
  shows "move_kind b m"
proof -
  have side: "side_to_move b \<noteq> C_NONE" using assms(1) by (simp add: board_rep_def)
  obtain sq where sq: "sq < 64" "m \<in> set (square_moves b sq)" using assms(4) by (auto simp: pseudo_legal_iff)
  from sq(2) show ?thesis
  proof (cases rule: square_movesE)
    case pawn
    then show ?thesis using sq(1) assms(3) by (intro generate_pawn_moves_kind) (auto simp: piece_at_def)
  next
    case knight
    have "m_flags m = MF_NONE" "m_from m = sq" using step_movesD [OF knight(2)] by (metis move.select_convs)+
    then show ?thesis using knight(1) by (intro plain) (auto simp: piece_at_def)
  next
    case king
    have "m_flags m = MF_NONE" "m_from m = sq" using step_movesD [OF king(2)] by (metis move.select_convs)+
    then show ?thesis using king(1) by (intro plain) (auto simp: piece_at_def)
  next
    case (slide orth diag)
    have "m_flags m = MF_NONE" "m_from m = sq"
      by (rule generate_ray_movesD [OF slide(1) sq(1)], simp)+
    then show ?thesis using slide(2) by (intro plain) (auto simp: piece_at_def)
  next
    case castle
    from castle(2) side assms(2) show ?thesis
      by (cases rule: castling_movesE) (auto intro: move_kind.kingside move_kind.queenside)
  qed
qed

inductive_cases move_kindE: "move_kind b m"


section \<open>Legal moves keep a position sound\<close>

lemma king_at_make_move:
  assumes "board_rep b" and "move_fits b m" and "king_at b c k" and "ptype (squares b ! m_to m) \<noteq> KING"
    and "move_kind b m"
  shows "king_at (snd (make_move b m)) c (if k = m_from m then m_to m else k)"
proof -
  note fits = assms(2) [unfolded move_fits_def Let_def]
  have k: "k < 64" "squares b ! k = Piece KING c" "\<And>i. i < 64 \<Longrightarrow> squares b ! i = Piece KING c \<longleftrightarrow> i = k"
    using assms(3) by (auto simp: king_at_def)
  have to: "k \<noteq> m_to m" using assms(4) k(2) by auto
  have "from": "squares b ! m_from m = Piece KING c \<longleftrightarrow> m_from m = k" using k(3) fits by blast
  have promo: "is_promotion m \<Longrightarrow> m_promo m \<noteq> KING \<and> k \<noteq> m_from m"
    using assms(5) k(2) by (auto elim!: move_kindE simp: flag_simps)
  have ep: "is_en_passant m \<Longrightarrow> k \<noteq> behind_square (side_to_move b) m"
    using assms(5) k(2) by (auto elim!: move_kindE simp: flag_simps)
  have rook: "castle_rook m = Some (rf, rt) \<Longrightarrow> k \<noteq> rf \<and> k \<noteq> rt" for rf rt
    using fits k(2) by (auto simp: is_none_def)
  show ?thesis
    unfolding king_at_def
  proof (intro conjI allI impI)
    show "(if k = m_from m then m_to m else k) < 64" using fits k(1) by simp
    show "squares (snd (make_move b m)) ! i = Piece KING c \<longleftrightarrow> i = (if k = m_from m then m_to m else k)"
      if i: "i < 64" for i
    proof (cases "i = m_to m")
      case True
      then show ?thesis using make_move_nth [OF assms(1,2) i] "from" promo to by auto
    next
      case False
      then show ?thesis
        using make_move_nth [OF assms(1,2) i] k(3) [OF i] ep rook
        by (cases "castle_rook m") (auto split: if_splits)
    qed
  qed
qed


lemma right_bit:
  "x AND WHITE_KINGSIDE \<noteq> 0 \<longleftrightarrow> bit x 0" "x AND WHITE_QUEENSIDE \<noteq> 0 \<longleftrightarrow> bit x (Suc 0)"
  "x AND BLACK_KINGSIDE \<noteq> 0 \<longleftrightarrow> bit x 2" "x AND BLACK_QUEENSIDE \<noteq> 0 \<longleftrightarrow> bit x 3"
  for x :: "8 word"
  using and_exp_eq_0_iff_not_bit [of x 0] and_exp_eq_0_iff_not_bit [of x 1]
    and_exp_eq_0_iff_not_bit [of x 2] and_exp_eq_0_iff_not_bit [of x 3] by simp_all

lemma update_castling_bits:
  "bit (update_castling_rights cr f t) 0 \<longleftrightarrow> bit cr 0 \<and> f \<noteq> E1 \<and> f \<noteq> H1 \<and> t \<noteq> H1"
  "bit (update_castling_rights cr f t) (Suc 0) \<longleftrightarrow> bit cr (Suc 0) \<and> f \<noteq> E1 \<and> f \<noteq> A1 \<and> t \<noteq> A1"
  "bit (update_castling_rights cr f t) 2 \<longleftrightarrow> bit cr 2 \<and> f \<noteq> E8 \<and> f \<noteq> H8 \<and> t \<noteq> H8"
  "bit (update_castling_rights cr f t) 3 \<longleftrightarrow> bit cr 3 \<and> f \<noteq> E8 \<and> f \<noteq> A8 \<and> t \<noteq> A8"
  by (simp_all add: update_castling_rights_def Let_def bit_simps)

lemma mask_keep: "x AND CR_ALL = x \<Longrightarrow> (x AND y) AND CR_ALL = x AND y" for x :: "8 word"
  by (metis and.assoc and.commute)

lemma update_castling_mask:
  "cr AND CR_ALL = cr \<Longrightarrow> update_castling_rights cr f t AND CR_ALL = update_castling_rights cr f t"
  unfolding update_castling_rights_def Let_def by (simp add: mask_keep)

lemma castle_rook_kind:
  assumes "move_kind b m" and "castle_rook m = Some (rf, rt)"
  obtains base where "base = (if side_to_move b = WHITE then 0 else 56)" "m_from m = base + 4"
    "(rf, rt) = (base + 7, base + 5) \<or> (rf, rt) = (base, base + 3)"
  using assms(1)
proof cases
  case (kingside base)
  then show thesis
    using assms(2) by (intro that [of base]) (auto simp: castle_rook_def flag_simps make_square_def rank_of_def)
next
  case (queenside base)
  then show thesis
    using assms(2) by (intro that [of base]) (auto simp: castle_rook_def flag_simps make_square_def rank_of_def)
qed (use assms(2) in \<open>simp_all add: castle_rook_def flag_simps\<close>)

lemma castling_corner_kept:
  assumes "board_rep b" and "move_fits b m" and "move_kind b m" and "ptype (squares b ! m_to m) \<noteq> KING"
    and "c \<noteq> C_NONE" and "base = (if c = WHITE then 0 else 56)"
    and "squares b ! (base + 4) = Piece KING c" and "rook = base \<or> rook = base + 7"
    and "squares b ! rook = Piece ROOK c"
    and "m_from m \<noteq> base + 4" and "m_from m \<noteq> rook" and "m_to m \<noteq> rook"
  shows "squares (snd (make_move b m)) ! (base + 4) = Piece KING c \<and>
         squares (snd (make_move b m)) ! rook = Piece ROOK c"
proof -
  have lt: "base + 4 < 64" "rook < 64" using assms(6,8) by auto
  have to: "base + 4 \<noteq> m_to m" using assms(4,7) by auto
  have ep: "is_en_passant m \<Longrightarrow> behind_square (side_to_move b) m \<noteq> base + 4 \<and>
      behind_square (side_to_move b) m \<noteq> rook"
    using assms(3,7,9) by (auto elim!: move_kindE simp: flag_simps)
  have corner: "castle_rook m = Some (rf, rt) \<Longrightarrow> base + 4 \<notin> {rf, rt} \<and> rook \<notin> {rf, rt}" for rf rt
    using assms(5,6,8,10) by (auto elim!: castle_rook_kind [OF assms(3)] split: if_splits)
  show ?thesis
    using make_move_nth [OF assms(1,2) lt(1)] make_move_nth [OF assms(1,2) lt(2)] to ep corner assms(7,9-12)
    by (cases "castle_rook m") auto
qed


lemma make_move_castling_ok:
  assumes "board_rep b" and "castling_ok b" and "move_fits b m" and "move_kind b m"
    and "ptype (squares b ! m_to m) \<noteq> KING"
  shows "castling_ok (snd (make_move b m))"
proof -
  let ?cr = "castling_rights b" and ?cr' = "castling_rights (snd (make_move b m))"
  note corner = castling_corner_kept [OF assms(1,3,4,5)]
  have "bit ?cr' 0 \<Longrightarrow> squares (snd (make_move b m)) ! E1 = Piece KING WHITE \<and>
      squares (snd (make_move b m)) ! H1 = Piece ROOK WHITE"
    using corner [of WHITE 0 7] assms(2) by (simp add: update_castling_bits castling_ok_def right_bit)
  moreover have "bit ?cr' (Suc 0) \<Longrightarrow> squares (snd (make_move b m)) ! E1 = Piece KING WHITE \<and>
      squares (snd (make_move b m)) ! A1 = Piece ROOK WHITE"
    using corner [of WHITE 0 0] assms(2) by (simp add: update_castling_bits castling_ok_def right_bit)
  moreover have "bit ?cr' 2 \<Longrightarrow> squares (snd (make_move b m)) ! E8 = Piece KING BLACK \<and>
      squares (snd (make_move b m)) ! H8 = Piece ROOK BLACK"
    using corner [of BLACK 56 63] assms(2) by (simp add: update_castling_bits castling_ok_def right_bit)
  moreover have "bit ?cr' 3 \<Longrightarrow> squares (snd (make_move b m)) ! E8 = Piece KING BLACK \<and>
      squares (snd (make_move b m)) ! A8 = Piece ROOK BLACK"
    using corner [of BLACK 56 56] assms(2) by (simp add: update_castling_bits castling_ok_def right_bit)
  moreover have "?cr' AND CR_ALL = ?cr'"
    using assms(2) by (simp add: castling_ok_def update_castling_mask)
  ultimately show ?thesis unfolding castling_ok_def right_bit by blast
qed

lemma make_move_ep_ok:
  assumes "board_rep b" and "move_fits b m" and "move_kind b m"
  shows "ep_ok (snd (make_move b m))"
proof (cases "is_double_pawn_push m")
  case False
  then show ?thesis by (simp add: ep_ok_def)
next
  case True
  let ?s = "side_to_move b" and ?b = "snd (make_move b m)"
  let ?r = "if ?s = WHITE then 2 else 5 :: int"
  note fits = assms(2) [unfolded move_fits_def Let_def]
  have s: "?s \<noteq> C_NONE" using assms(1) by (simp add: board_rep_def)
  have d: "ptype (squares b ! m_from m) = PAWN" "rank_of (m_from m) = (if ?s = WHITE then 1 else 6)"
    "rank_of (m_to m) = (if ?s = WHITE then 3 else 4)" "file_of (m_to m) = file_of (m_from m)"
    "is_none (squares b ! make_square ?r (file_of (m_to m)))" "m_flags m = MF_DOUBLE_PAWN_PUSH"
    using True assms(3) by (auto elim!: move_kindE simp: flag_simps)
  have plain: "castle_rook m = None" "\<not> is_en_passant m" "\<not> is_promotion m"
    by (simp_all add: castle_rook_def flag_simps d)
  define ep where "ep = make_square ?r (file_of (m_to m))"
  have ep: "ep < 64" "rank_of ep = ?r" "file_of ep = file_of (m_to m)"
    by (simp_all add: ep_def)
  have ep_sq: "en_passant_sq ?b = ep"
    using True fits d(3) by (simp add: behind_square_def ep_def)
  have ne: "ep \<noteq> m_to m" "ep \<noteq> m_from m" using ep d by (auto split: if_splits)
  have behind: "make_square (rank_of ep + (if opposite_color ?s = WHITE then -1 else 1)) (file_of ep) = m_to m"
    using ep d(3) s fits by (cases "?s") (simp_all add: square_eq_iff)
  have "is_none (squares ?b ! ep)"
    using make_move_nth [OF assms(1,2) ep(1)] ne plain d(5) by (simp add: ep_def)
  moreover have "squares ?b ! m_to m = Piece PAWN ?s"
    using make_move_nth [OF assms(1,2), of "m_to m"] fits plain d(1) by (simp add: piece_eq)
  ultimately show ?thesis
    unfolding ep_ok_def Let_def ep_sq make_move_fields(1) behind
    using ep s by (cases "?s") simp_all
qed

lemma make_move_pawns_ok:
  assumes "board_rep b" and "move_fits b m" and "move_kind b m" and "pawns_ok b"
  shows "pawns_ok (snd (make_move b m))"
proof -
  note fits = assms(2) [unfolded move_fits_def Let_def]
  have ok: "sq < 64 \<Longrightarrow> ptype (squares b ! sq) = PAWN \<Longrightarrow> 1 \<le> rank_of sq \<and> rank_of sq \<le> 6" for sq
    using assms(4) by (auto simp: pawns_ok_def list_all_iff)
  have "1 \<le> rank_of sq \<and> rank_of sq \<le> 6"
    if sq: "sq < 64" and p: "ptype (squares (snd (make_move b m)) ! sq) = PAWN" for sq
  proof (cases "sq = m_to m")
    case False
    then have "ptype (squares b ! sq) = PAWN"
      using p make_move_nth [OF assms(1,2) sq] by (auto split: if_splits option.splits prod.splits)
    then show ?thesis by (rule ok [OF sq])
  next
    case True
    have q: "ptype (if is_promotion m then Piece (m_promo m) (side_to_move b) else squares b ! m_from m) = PAWN"
      using p make_move_nth [OF assms(1,2) sq] True by simp
    from assms(3) show ?thesis
    proof cases
      case pawn_step
      then show ?thesis using ok [of "m_from m"] fits True by (auto split: if_splits)
    qed (use q True in \<open>auto simp: flag_simps split: if_splits\<close>)
  qed
  then show ?thesis by (auto simp: pawns_ok_def list_all_iff)
qed

lemma legal_move_position_ok:
  assumes "position_ok b" and "m \<in> set (generate_legal_moves b)"
  shows "position_ok (snd (make_move b m))"
proof -
  have ok: "board_rep b" "castling_ok b" "ep_ok b" "pawns_ok b" "kings_ok b" "0 \<le> halfmove_clock b"
    "1 \<le> fullmove_number b" and len: "length (squares b) = 64" and side: "side_to_move b \<noteq> C_NONE"
    using assms(1) by (auto simp: position_ok_def board_rep_def)
  have m: "m \<in> set (generate_pseudo_legal_moves b)" "\<not> is_in_check (snd (make_move b m)) (side_to_move b)"
    using assms(2) by (auto simp: legal_moves_filter [OF ok(1-3)])
  note fits = pseudo_legal_fits [OF ok(1-3) m(1)] and kind = pseudo_legal_kind [OF ok(1-3) m(1)]
    and king = no_king_captured [OF assms(1) m(1)]
  have "kings_ok (snd (make_move b m))"
    using ok(5) king_at_make_move [OF ok(1) fits _ king kind] len
    by (auto simp: kings_ok_king_at)
  then show ?thesis
    unfolding position_ok_def
    using make_move_rep [OF ok(1) fits] make_move_castling_ok [OF ok(1,2) fits kind king]
      make_move_ep_ok [OF ok(1) fits kind] make_move_pawns_ok [OF ok(1) fits kind ok(4)] ok(6,7) m(2) side
    by (simp add: make_move_halfmove)
qed


section \<open>The make and undo contract on boards\<close>

lemma position_ok_parts: "position_ok b \<Longrightarrow> board_rep b" "position_ok b \<Longrightarrow> castling_ok b" "position_ok b \<Longrightarrow> ep_ok b"
  by (simp_all add: position_ok_def)

lemma legal_pseudo:
  "position_ok b \<Longrightarrow> m \<in> set (generate_legal_moves b) \<Longrightarrow> m \<in> set (generate_pseudo_legal_moves b)"
  by (simp add: legal_moves_filter position_ok_parts)

lemma legal_fits: "position_ok b \<Longrightarrow> m \<in> set (generate_legal_moves b) \<Longrightarrow> move_fits b m"
  by (intro pseudo_legal_fits legal_pseudo) (auto simp: position_ok_parts)

interpretation rules: make_undo generate_legal_moves make_move undo_move position_ok
  by unfold_locales (simp_all add: undo_make_move legal_fits position_ok_parts legal_move_position_ok)

lemma perft_leaf_count:
  "position_ok b \<Longrightarrow> perft b d = (word_of_nat (leaf_count generate_legal_moves make_move d b), b)"
  "position_ok b \<Longrightarrow> set ms \<subseteq> set (generate_legal_moves b) \<Longrightarrow>
     perft_loop b d ms n =
       (n + word_of_nat (\<Sum>m\<leftarrow>ms. leaf_count generate_legal_moves make_move d (snd (make_move b m))), b)"
proof (induction b d and b d ms n rule: perft_perft_loop.induct)
  case (2 b d)
  then show ?case by (cases "d = 0") (simp_all add: Let_def sum_list_triv)
next
  case (4 b d m ms n)
  have m: "m \<in> set (generate_legal_moves b)" using "4.prems"(2) by simp
  have "perft (snd (make_move b m)) d =
      (word_of_nat (leaf_count generate_legal_moves make_move d (snd (make_move b m))), snd (make_move b m))"
    by (rule "4.IH"(1) [OF refl prod.collapse legal_move_position_ok [OF "4.prems"(1) m]])
  then show ?case
    using "4.IH"(2) [of "make_move b m" "fst (make_move b m)" "snd (make_move b m)" _ _ "snd (make_move b m)"]
      "4.prems" rules.undo_make [OF "4.prems"(1) m]
    by (simp add: split_beta add.assoc)
qed simp_all


section \<open>The starting position\<close>

text \<open>Move generation reads the pieces and the state of a board, never its key.\<close>

lemma piece_at_key [simp]: "piece_at (b\<lparr>zobrist_key := z\<rparr>) sq = piece_at b sq"
  by (simp add: piece_at_def)

lemma ray_attacked_key [simp]:
  "ray_attacked n (b\<lparr>zobrist_key := z\<rparr>) c diag d nr nf = ray_attacked n b c diag d nr nf"
  by (induction n arbitrary: nr nf) (simp_all add: Let_def)

lemma ray_moves_key [simp]: "ray_moves n (b\<lparr>zobrist_key := z\<rparr>) sq c d nr nf = ray_moves n b sq c d nr nf"
  by (induction n arbitrary: nr nf) (simp_all add: Let_def)

lemma is_square_attacked_key [simp]:
  "is_square_attacked (b\<lparr>zobrist_key := z\<rparr>) sq c = is_square_attacked b sq c"
  by (simp add: is_square_attacked_def pawn_attacks_def)

lemma is_in_check_key [simp]: "is_in_check (b\<lparr>zobrist_key := z\<rparr>) c = is_in_check b c"
  by (simp add: is_in_check_def find_king_def)

lemma key_fields:
  "en_passant_sq (b\<lparr>zobrist_key := z\<rparr>) = en_passant_sq b"
  "castling_rights (b\<lparr>zobrist_key := z\<rparr>) = castling_rights b"
  by simp_all

lemma piece_moves_key [simp]:
  "generate_pawn_moves (b\<lparr>zobrist_key := z\<rparr>) sq c = generate_pawn_moves b sq c"
  "generate_knight_moves (b\<lparr>zobrist_key := z\<rparr>) sq c = generate_knight_moves b sq c"
  "generate_king_moves (b\<lparr>zobrist_key := z\<rparr>) sq c = generate_king_moves b sq c"
  "generate_ray_moves (b\<lparr>zobrist_key := z\<rparr>) sq c orth diag = generate_ray_moves b sq c orth diag"
  unfolding generate_pawn_moves_def pawn_pushes_def pawn_captures_def generate_knight_moves_def
    generate_king_moves_def step_moves_def generate_ray_moves_def castling_moves_def castle_move_def
  by (simp_all only: piece_at_key key_fields is_square_attacked_key ray_moves_key)

lemma square_moves_key: "square_moves (b\<lparr>zobrist_key := z\<rparr>) = square_moves b"
proof
  fix sq
  show "square_moves (b\<lparr>zobrist_key := z\<rparr>) sq = square_moves b sq"
    by (cases "ptype (piece_at b sq)") (simp_all add: square_moves_def Let_def)
qed

lemma pseudo_key [simp]:
  "generate_pseudo_legal_moves (b\<lparr>zobrist_key := z\<rparr>) = generate_pseudo_legal_moves b"
  by (simp add: generate_pseudo_legal_moves_def square_moves_key)

lemma position_parts_key [simp]:
  "castling_ok (b\<lparr>zobrist_key := z\<rparr>) = castling_ok b" "ep_ok (b\<lparr>zobrist_key := z\<rparr>) = ep_ok b"
  "pawns_ok (b\<lparr>zobrist_key := z\<rparr>) = pawns_ok b" "kings_ok (b\<lparr>zobrist_key := z\<rparr>) = kings_ok b"
  by (simp_all add: castling_ok_def ep_ok_def pawns_ok_def kings_ok_def)

definition start_unkeyed :: board where
  "start_unkeyed = \<lparr>squares = start_squares, side_to_move = WHITE, castling_rights = CR_ALL,
     en_passant_sq = NO_SQUARE, halfmove_clock = 0, fullmove_number = 1, zobrist_key = 0\<rparr>"

lemma start_board_unkeyed: "start_board = start_unkeyed\<lparr>zobrist_key := board_hash start_unkeyed\<rparr>"
  by (simp add: start_board_def start_unkeyed_def recompute_zobrist_key_def)

lemma start_unkeyed_checks:
  "castling_ok start_unkeyed \<and> ep_ok start_unkeyed \<and> pawns_ok start_unkeyed \<and> kings_ok start_unkeyed \<and>
   \<not> is_in_check start_unkeyed BLACK"
  by code_simp

lemma position_ok_start: "position_ok start_board"
proof -
  have "board_rep start_board" using fen_ready_start by (simp add: fen_ready_def)
  moreover have "castling_ok start_board \<and> ep_ok start_board \<and> pawns_ok start_board \<and> kings_ok start_board"
    using start_unkeyed_checks by (simp add: start_board_unkeyed)
  moreover have "\<not> is_in_check start_board BLACK"
    using start_unkeyed_checks by (simp add: start_board_unkeyed)
  moreover have "side_to_move start_board = WHITE \<and> halfmove_clock start_board = 0 \<and>
      fullmove_number start_board = 1"
    by (simp add: start_board_unkeyed start_unkeyed_def)
  ultimately show ?thesis by (simp add: position_ok_def)
qed

lemma start_e2e4:
  "Move 12 28 MF_DOUBLE_PAWN_PUSH PT_NONE \<in> set (generate_pseudo_legal_moves start_unkeyed)"
  "\<not> is_in_check (start_unkeyed\<lparr>squares := start_squares[28 := Piece PAWN WHITE, 12 := no_piece]\<rparr>) WHITE"
  "start_squares ! 12 = Piece PAWN WHITE"
  by code_simp+

lemma is_in_check_squares:
  assumes "squares b = squares b'"
  shows "is_in_check b c = is_in_check b' c"
proof -
  have at: "piece_at b = piece_at b'" using assms by (simp add: piece_at_def fun_eq_iff)
  have ray: "ray_attacked n b c diag d nr nf = ray_attacked n b' c diag d nr nf" for n c diag d nr nf
    using at by (induction n arbitrary: nr nf) (simp_all add: Let_def)
  show ?thesis
    unfolding is_in_check_def is_square_attacked_def pawn_attacks_def find_king_def
    by (simp only: at ray assms)
qed

lemma e2e4_legal: "Move 12 28 MF_DOUBLE_PAWN_PUSH PT_NONE \<in> set (generate_legal_moves start_board)"
proof -
  let ?m = "Move 12 28 MF_DOUBLE_PAWN_PUSH PT_NONE"
  have "squares (snd (make_move start_board ?m)) =
      squares (start_unkeyed\<lparr>squares := start_squares[28 := Piece PAWN WHITE, 12 := no_piece]\<rparr>)"
    by (simp add: make_move_squares castle_rook_def flag_simps start_board_unkeyed start_unkeyed_def
        start_e2e4(3))
  then have "\<not> is_in_check (snd (make_move start_board ?m)) WHITE"
    using start_e2e4(2) is_in_check_squares by blast
  moreover have "side_to_move start_board = WHITE" by (simp add: start_board_unkeyed start_unkeyed_def)
  ultimately show ?thesis
    using start_e2e4(1) position_ok_start
    by (simp add: legal_moves_filter position_ok_parts) (simp add: start_board_unkeyed)
qed


section \<open>Properties\<close>

text \<open>
  C1. Taking a generated move back restores the exact board: on a sound position, \<open>undo_move\<close> with
  the record \<open>make_move\<close> returned gives back every square, the side, the rights, the en passant
  square, both clocks and the key, for every pseudo-legal move (castling, en passant, promotion
  and double pushes included).
\<close>

theorem undo_restores:
  assumes "position_ok b" and "m \<in> set (generate_pseudo_legal_moves b)"
  shows "undo_move (snd (make_move b m)) m (fst (make_move b m)) = b"
  using assms by (intro undo_make_move pseudo_legal_fits) (auto simp: position_ok_parts)

theorem undo_restores_witness:
  "undo_move (snd (make_move start_board (Move 12 28 MF_DOUBLE_PAWN_PUSH PT_NONE)))
     (Move 12 28 MF_DOUBLE_PAWN_PUSH PT_NONE)
     (fst (make_move start_board (Move 12 28 MF_DOUBLE_PAWN_PUSH PT_NONE))) = start_board"
  by (rule undo_restores [OF position_ok_start legal_pseudo [OF position_ok_start e2e4_legal]])

text \<open>
  C2. The incremental Zobrist key is the hash of the position: after a generated move of a sound
  position, the key that \<open>make_move\<close> updated by exclusive-ors equals the key computed from scratch
  for the new squares, side, castling rights and en passant square.
\<close>

theorem incremental_key_correct:
  assumes "position_ok b" and "m \<in> set (generate_pseudo_legal_moves b)"
  shows "zobrist_key (snd (make_move b m)) =
    compute_hash (squares (snd (make_move b m))) (side_to_move (snd (make_move b m)))
      (castling_rights (snd (make_move b m))) (en_passant_sq (snd (make_move b m)))"
  using make_move_zobrist pseudo_legal_fits [OF position_ok_parts [OF assms(1)] assms(2)] position_ok_parts(1) [OF assms(1)]
  by (simp add: board_hash_def)

theorem incremental_key_correct_witness:
  "zobrist_key (snd (make_move start_board (Move 12 28 MF_DOUBLE_PAWN_PUSH PT_NONE))) =
    (let b = snd (make_move start_board (Move 12 28 MF_DOUBLE_PAWN_PUSH PT_NONE))
     in compute_hash (squares b) (side_to_move b) (castling_rights b) (en_passant_sq b))"
  unfolding Let_def
  by (rule incremental_key_correct [OF position_ok_start legal_pseudo [OF position_ok_start e2e4_legal]])

text \<open>
  C3. The legal move list is exact: the loop that makes and takes back every pseudo-legal move on
  one mutable board returns, in order, precisely the pseudo-legal moves after which the mover's
  king is not attacked.
\<close>

theorem legal_moves_exact:
  assumes "position_ok b"
  shows "generate_legal_moves b =
    filter (\<lambda>m. \<not> is_in_check (snd (make_move b m)) (side_to_move b)) (generate_pseudo_legal_moves b)"
  using assms by (intro legal_moves_filter) (auto simp: position_ok_parts)

theorem legal_moves_exact_witness:
  "generate_legal_moves start_board =
    filter (\<lambda>m. \<not> is_in_check (snd (make_move start_board m)) (side_to_move start_board))
      (generate_pseudo_legal_moves start_board)"
  by (rule legal_moves_exact [OF position_ok_start])

text \<open>
  No king is ever captured: a generated move of a sound position never goes to a king's square
  (a capture is an attack, and the side not to move is not in check).
\<close>

lemma king_never_captured:
  assumes "position_ok b" and "m \<in> set (generate_pseudo_legal_moves b)"
  shows "ptype (piece_at b (m_to m)) \<noteq> KING"
  using no_king_captured [OF assms] by (simp add: piece_at_def)

text \<open>
  C4. Legal play keeps the position sound: every board reached from the starting position by legal
  moves has 64 well-formed squares, one king per side, no pawn on the first or last rank, castling
  rights only where king and rook stand at home, an en passant square behind a pawn that just
  moved, a key that is the hash of the position, and a side not to move that is not in check.
\<close>

theorem legal_play_sound:
  assumes "line_of_play generate_legal_moves make_move starting_position ms b"
  shows "position_ok b"
  using rules.line_ok [OF assms] position_ok_start by (simp add: starting_position_board)

theorem legal_play_sound_witness:
  "position_ok (snd (make_move starting_position (Move 12 28 MF_DOUBLE_PAWN_PUSH PT_NONE)))"
  by (rule legal_play_sound [of "[Move 12 28 MF_DOUBLE_PAWN_PUSH PT_NONE]"])
    (simp add: starting_position_board e2e4_legal)

text \<open>
  A whole line can be taken back: making any sequence of legal moves from a sound position and
  undoing them in reverse order with the recorded undo data restores the board the line began with.
\<close>

lemma line_taken_back:
  assumes "position_ok b" and "line_of_play generate_legal_moves make_move b ms b'"
  shows "take_back_all undo_move (zip (rev ms) (fst (play_all make_move ms b))) b' = b"
  by (rule rules.take_back_line [OF assms(2,1)])

text \<open>
  \<open>perft\<close> counts the move tree and leaves its board as it found it: on a sound position it
  returns the number of leaves of the tree of legal moves of that depth, modulo 2 to the 64, and
  the board it worked on in place is unchanged.
\<close>

lemma perft_counts_tree:
  assumes "position_ok b"
  shows "perft b d = (word_of_nat (leaf_count generate_legal_moves make_move d b), b)"
  by (rule perft_leaf_count(1) [OF assms])



end
