(* ===== verification/Notation.thy ===== *)
theory Notation
  imports Rules
begin

text \<open>
  Algebraic notation and game files (\<open>src/chess/notation.cpp\<close>): a move as a SAN string with
  disambiguation, capture, promotion and check marks, the parser that matches a SAN string against
  the legal moves, and the export and import of a game as PGN text with its tag lines, comments,
  variations and result. Shown: a legal move is parsed back from its SAN string, and an exported game
  is imported again with the same tags, moves and result.
\<close>

section \<open>A move is determined by its squares and its promotion piece\<close>

definition pawn_flags :: "board \<Rightarrow> color \<Rightarrow> square \<Rightarrow> square \<Rightarrow> 8 word" where
  "pawn_flags b c sq t =
     (if rank_of t = rank_of sq + (if c = WHITE then 2 else -2) then MF_DOUBLE_PAWN_PUSH
      else (if file_of t \<noteq> file_of sq \<and> is_none (piece_at b t) then MF_EN_PASSANT else MF_NONE) OR
           (if rank_of t = (if c = WHITE then 7 else 0) then MF_PROMOTION else MF_NONE))"

definition pawn_reach :: "board \<Rightarrow> color \<Rightarrow> square \<Rightarrow> square \<Rightarrow> bool" where
  "pawn_reach b c sq t \<longleftrightarrow>
     (let dir = (if c = WHITE then 1 else -1) in
      (file_of t = file_of sq \<and> is_none (piece_at b t) \<and>
        (rank_of t = rank_of sq + dir \<or>
         (rank_of t = rank_of sq + 2 * dir \<and> rank_of sq = (if c = WHITE then 1 else 6) \<and>
          is_none (piece_at b (make_square (rank_of sq + dir) (file_of sq)))))) \<or>
      ((file_of t = file_of sq - 1 \<or> file_of t = file_of sq + 1) \<and> rank_of t = rank_of sq + dir \<and>
        (\<not> is_none (piece_at b t) \<or> t = en_passant_sq b)))"

lemma pawn_move_signature:
  assumes "m \<in> set (generate_pawn_moves b sq c)" and "sq < 64" and "ep_ok b" and "c = side_to_move b"
  shows "m_from m = sq \<and> m_to m < 64 \<and> m_flags m = pawn_flags b c sq (m_to m) \<and>
    (is_promotion m \<longleftrightarrow> m_promo m \<noteq> PT_NONE) \<and> pawn_reach b c sq (m_to m)"
  using assms(1,2)
proof (cases rule: pawn_move_cases)
  case (push r)
  note add = add_pawn_moveD [OF push(5)]
  have "rank_of (m_to m) = r" "file_of (m_to m) = file_of sq" using add push(2,3) by auto
  then show ?thesis
    using add push(1-4) by (auto simp: pawn_flags_def pawn_reach_def flag_simps split: if_splits)
next
  case (double r)
  then have "rank_of (m_to m) = r" "file_of (m_to m) = file_of sq" by auto
  then show ?thesis
    using double by (auto simp: pawn_flags_def pawn_reach_def flag_simps split: if_splits)
next
  case (capture r f)
  note add = add_pawn_moveD [OF capture(6)]
  have "rank_of (m_to m) = r" "file_of (m_to m) = f" using add capture(3) by auto
  then show ?thesis
    using add capture(1-5) by (auto simp: pawn_flags_def pawn_reach_def flag_simps split: if_splits)
next
  case (en_passant r f)
  note add = add_pawn_moveD [OF en_passant(5)]
  have "m_to m = make_square r f" using add by simp
  then have "rank_of (m_to m) = r" "file_of (m_to m) = f" "m_to m < 64" using en_passant(3) by simp_all
  moreover have "m_to m = en_passant_sq b" using add en_passant(4) by simp
  ultimately have to: "rank_of (m_to m) = r" "file_of (m_to m) = f" "m_to m = en_passant_sq b" "m_to m < 64"
    by simp_all
  then have "is_none (piece_at b (m_to m))"
    using assms(3) by (auto simp: ep_ok_def Let_def NO_SQUARE_def piece_at_def)
  then show ?thesis
    using add to en_passant(1,2,4) by (auto simp: pawn_flags_def pawn_reach_def flag_simps split: if_splits)
qed

definition officer_flags :: "board \<Rightarrow> square \<Rightarrow> square \<Rightarrow> 8 word" where
  "officer_flags b sq t =
     (if ptype (piece_at b sq) = KING \<and> file_of t = file_of sq + 2 then MF_KINGSIDE_CASTLE
      else if ptype (piece_at b sq) = KING \<and> file_of t = file_of sq - 2 then MF_QUEENSIDE_CASTLE
      else MF_NONE)"

lemma king_step_near: "t \<in> set (king_targets sq) \<Longrightarrow> \<bar>file_of t - file_of sq\<bar> \<le> 1"
  by (auto simp: king_targets_def offset_targets_iff king_offsets_def)

lemma officer_move_signature:
  assumes "position_ok b" and "m \<in> set (square_moves b sq)" and "sq < 64" and "ptype (piece_at b sq) \<noteq> PAWN"
  shows "m_from m = sq \<and> m_flags m = officer_flags b sq (m_to m) \<and> m_promo m = PT_NONE"
  using assms(2)
proof (cases rule: square_movesE)
  case pawn
  then show ?thesis using assms(4) by simp
next
  case knight
  then show ?thesis using step_movesD [OF knight(2)] by (auto simp: officer_flags_def step_moves_def)
next
  case king
  have "m = Move sq (m_to m) MF_NONE PT_NONE" "\<bar>file_of (m_to m) - file_of sq\<bar> \<le> 1"
    using step_movesD [OF king(2)] king_step_near by auto
  then have "m_from m = sq" "m_flags m = MF_NONE" "m_promo m = PT_NONE" by (metis move.select_convs)+
  then show ?thesis using \<open>\<bar>file_of (m_to m) - file_of sq\<bar> \<le> 1\<close> by (auto simp: officer_flags_def)
next
  case (slide orth diag)
  have "m_from m = sq \<and> m_flags m = MF_NONE \<and> m_promo m = PT_NONE"
    by (rule generate_ray_movesD [OF slide(1) assms(3)]) simp
  then show ?thesis using slide(2) by (auto simp: officer_flags_def)
next
  case castle
  have side: "side_to_move b \<noteq> C_NONE" and len: "length (squares b) = 64" and kings: "kings_ok b"
    using assms(1) by (auto simp: position_ok_def board_rep_def)
  obtain k where k: "king_at b (side_to_move b) k"
    using kings len side by (cases "side_to_move b") (auto simp: kings_ok_king_at)
  have "squares b ! sq = Piece KING (side_to_move b)" using castle(1,4) by (simp add: piece_eq piece_at_def)
  then have sq: "sq = k" using k assms(3) by (simp add: king_at_def)
  from castle(2) side position_ok_parts(2) [OF assms(1)] show ?thesis
  proof (cases rule: castling_movesE)
    case (kingside base)
    then have "base + 4 = sq" using k sq by (auto simp: king_at_def split: if_splits)
    then show ?thesis
      using kingside castle(1) by (auto simp: officer_flags_def file_of_def split: if_splits)
  next
    case (queenside base)
    then have "base + 4 = sq" using k sq by (auto simp: king_at_def split: if_splits)
    then show ?thesis
      using queenside castle(1) by (auto simp: officer_flags_def file_of_def split: if_splits)
  qed
qed

lemma pseudo_legal_from:
  assumes "position_ok b" and "m \<in> set (generate_pseudo_legal_moves b)"
  shows "m \<in> set (square_moves b (m_from m)) \<and> m_from m < 64"
proof -
  obtain sq where sq: "sq < 64" "m \<in> set (square_moves b sq)" using assms(2) by (auto simp: pseudo_legal_iff)
  have "m_from m = sq"
  proof (cases "ptype (piece_at b sq) = PAWN")
    case True
    then have "m \<in> set (generate_pawn_moves b sq (side_to_move b))"
      using sq(2) by (auto simp: square_moves_def Let_def split: if_splits)
    then show ?thesis using pawn_move_signature sq(1) position_ok_parts(3) [OF assms(1)] by blast
  next
    case False
    then show ?thesis using officer_move_signature [OF assms(1) sq(2,1)] by simp
  qed
  then show ?thesis using sq by simp
qed

lemma pseudo_legal_pawn:
  assumes "position_ok b" and "m \<in> set (generate_pseudo_legal_moves b)" and "ptype (piece_at b (m_from m)) = PAWN"
  shows "m_flags m = pawn_flags b (side_to_move b) (m_from m) (m_to m) \<and>
    (is_promotion m \<longleftrightarrow> m_promo m \<noteq> PT_NONE) \<and> pawn_reach b (side_to_move b) (m_from m) (m_to m) \<and>
    pcolor (piece_at b (m_from m)) = side_to_move b \<and> m_from m < 64 \<and> m_to m < 64"
proof -
  have sq: "m \<in> set (square_moves b (m_from m))" "m_from m < 64"
    using pseudo_legal_from [OF assms(1,2)] by auto
  then have "m \<in> set (generate_pawn_moves b (m_from m) (side_to_move b))"
    "pcolor (piece_at b (m_from m)) = side_to_move b"
    using assms(3) by (auto simp: square_moves_def Let_def split: if_splits)
  then show ?thesis using pawn_move_signature [OF _ sq(2) position_ok_parts(3) [OF assms(1)]] sq(2) by blast
qed

lemma pseudo_legal_determined:
  assumes "position_ok b" and "m \<in> set (generate_pseudo_legal_moves b)" and "m' \<in> set (generate_pseudo_legal_moves b)"
    and "m_from m' = m_from m" and "m_to m' = m_to m" and "m_promo m' = m_promo m"
  shows "m' = m"
proof -
  have "m_flags m' = m_flags m"
  proof (cases "ptype (piece_at b (m_from m)) = PAWN")
    case True
    then show ?thesis using pseudo_legal_pawn [OF assms(1,2)] pseudo_legal_pawn [OF assms(1,3)] assms(4,5) by simp
  next
    case False
    then show ?thesis
      using officer_move_signature [OF assms(1)] pseudo_legal_from [OF assms(1,2)]
        pseudo_legal_from [OF assms(1,3)] assms(4,5) by metis
  qed
  then show ?thesis using assms(4-6) by (intro move.equality) simp_all
qed

section \<open>SAN strings\<close>

definition piece_to_san_char :: "piece_type \<Rightarrow> char" where
  "piece_to_san_char pt =
     (case pt of KNIGHT \<Rightarrow> CHR ''N'' | BISHOP \<Rightarrow> CHR ''B'' | ROOK \<Rightarrow> CHR ''R'' | QUEEN \<Rightarrow> CHR ''Q''
      | KING \<Rightarrow> CHR ''K'' | _ \<Rightarrow> CHR 0x00)"

definition file_char :: "square \<Rightarrow> char" where
  "file_char sq = char_of_int (97 + file_of sq)"

definition rank_char :: "square \<Rightarrow> char" where
  "rank_char sq = char_of_int (49 + rank_of sq)"

definition san_rival :: "board \<Rightarrow> move \<Rightarrow> move \<Rightarrow> bool" where
  \<comment> \<open>another piece of the same type that reaches the same square\<close>
  "san_rival b m other \<longleftrightarrow>
     m_from other \<noteq> m_from m \<and> m_to other = m_to m \<and>
     ptype (piece_at b (m_from other)) = ptype (piece_at b (m_from m))"

definition san_disambiguation :: "board \<Rightarrow> move \<Rightarrow> string" where
  "san_disambiguation b m =
     (let rivals = filter (san_rival b m) (generate_legal_moves b);
          need_rank = list_ex (\<lambda>other. file_of (m_from other) = file_of (m_from m)) rivals;
          need_file = list_ex (\<lambda>other. file_of (m_from other) \<noteq> file_of (m_from m)) rivals
      in (if need_file then [file_char (m_from m)] else []) @
         (if need_rank then [rank_char (m_from m)] else []))"

definition san_check_mark :: "board \<Rightarrow> move \<Rightarrow> string" where
  "san_check_mark b m =
     (let after = snd (make_move b m)
      in if is_in_check after (if side_to_move b = WHITE then BLACK else WHITE)
         then (if generate_legal_moves after = [] then ''#'' else ''+'')
         else [])"

definition move_to_san :: "board \<Rightarrow> move \<Rightarrow> string" where
  "move_to_san b m =
     (if is_kingside_castle m then ''O-O''
      else if is_queenside_castle m then ''O-O-O''
      else let moving = piece_at b (m_from m);
               capture = (\<not> is_none (piece_at b (m_to m)) \<or> is_en_passant m)
           in (if ptype moving \<noteq> PAWN
               then piece_to_san_char (ptype moving) # san_disambiguation b m
               else if capture then [file_char (m_from m)] else []) @
              (if capture then ''x'' else []) @
              square_to_algebraic (m_to m) @
              (if is_promotion m then [CHR ''='', piece_to_san_char (m_promo m)] else []) @
              san_check_mark b m)"

section \<open>Parsing SAN\<close>

definition strip_marks :: "string \<Rightarrow> string" where
  "strip_marks s = rev (dropWhile (\<lambda>c. c \<in> set ''+#!?'') (rev s))"

definition san_prefix :: "string \<Rightarrow> (piece_type \<times> nat) option" where
  \<comment> \<open>the piece type and the position after its letter, None for an unknown capital\<close>
  "san_prefix s =
     (if c_isupper (s ! 0) \<and> s ! 0 \<noteq> CHR ''O'' then
        (if s ! 0 = CHR ''N'' then Some (KNIGHT, 1)
         else if s ! 0 = CHR ''B'' then Some (BISHOP, 1)
         else if s ! 0 = CHR ''R'' then Some (ROOK, 1)
         else if s ! 0 = CHR ''Q'' then Some (QUEEN, 1)
         else if s ! 0 = CHR ''K'' then Some (KING, 1)
         else None)
      else Some (PAWN, 0))"

definition san_promotion :: "string \<Rightarrow> (piece_type \<times> string) option" where
  "san_promotion s =
     (if 2 \<le> length s \<and> s ! (length s - 2) = CHR ''='' then
        (let rest = take (length s - 2) s; c = last s
         in if c = CHR ''Q'' then Some (QUEEN, rest)
            else if c = CHR ''R'' then Some (ROOK, rest)
            else if c = CHR ''B'' then Some (BISHOP, rest)
            else if c = CHR ''N'' then Some (KNIGHT, rest)
            else None)
      else Some (PT_NONE, s))"

fun disambig :: "string \<Rightarrow> int \<Rightarrow> int \<Rightarrow> int \<times> int" where
  "disambig [] df dr = (df, dr)"
| "disambig (c # cs) df dr =
     (if 97 \<le> char_val c \<and> char_val c \<le> 104 then disambig cs (char_val c - 97) dr
      else if 49 \<le> char_val c \<and> char_val c \<le> 56 then disambig cs df (char_val c - 49)
      else disambig cs df dr)"

definition san_matches :: "board \<Rightarrow> piece_type \<Rightarrow> square \<Rightarrow> int \<Rightarrow> int \<Rightarrow> piece_type \<Rightarrow> move \<Rightarrow> bool" where
  "san_matches b pt to df dr promo cand \<longleftrightarrow>
     m_to cand = to \<and> ptype (piece_at b (m_from cand)) = pt \<and>
     (0 \<le> df \<longrightarrow> file_of (m_from cand) = df) \<and> (0 \<le> dr \<longrightarrow> rank_of (m_from cand) = dr) \<and>
     (if promo \<noteq> PT_NONE then is_promotion cand \<and> m_promo cand = promo else \<not> is_promotion cand)"

definition san_queening :: "board \<Rightarrow> square \<Rightarrow> int \<Rightarrow> move \<Rightarrow> bool" where
  \<comment> \<open>the second loop: a pawn promotion to a queen whose promotion piece was not written\<close>
  "san_queening b to df cand \<longleftrightarrow>
     m_to cand = to \<and> ptype (piece_at b (m_from cand)) = PAWN \<and>
     (0 \<le> df \<longrightarrow> file_of (m_from cand) = df) \<and> is_promotion cand \<and> m_promo cand = QUEEN"

definition san_lookup :: "board \<Rightarrow> piece_type \<Rightarrow> nat \<Rightarrow> piece_type \<Rightarrow> string \<Rightarrow> move" where
  \<comment> \<open>destination, disambiguation and the match against the legal moves\<close>
  "san_lookup b pt pos promo s =
     (if length s < pos + 2 then null_move
      else let n = length s; dest_file = char_val (s ! (n - 2)) - 97; dest_rank = char_val (s ! (n - 1)) - 49
           in if dest_file < 0 \<or> 7 < dest_file \<or> dest_rank < 0 \<or> 7 < dest_rank then null_move
              else let to = make_square dest_rank dest_file;
                       middle = filter (\<lambda>c. c \<noteq> CHR ''x'') (take (n - 2 - pos) (drop pos s));
                       (df, dr) = disambig middle (-1) (-1);
                       legal = generate_legal_moves b
                   in case find (san_matches b pt to df dr promo) legal of
                        Some cand \<Rightarrow> cand
                      | None \<Rightarrow>
                          if promo = PT_NONE \<and> pt = PAWN \<and>
                             dest_rank = (if side_to_move b = WHITE then 7 else 0)
                          then (case find (san_queening b to df) legal of
                                  Some cand \<Rightarrow> cand | None \<Rightarrow> null_move)
                          else null_move)"

definition san_to_move :: "board \<Rightarrow> string \<Rightarrow> move" where
  "san_to_move b san =
     (let king_sq = find_king b (side_to_move b)
      in if san = [] then null_move
         else if san \<in> {''O-O'', ''O-O+'', ''O-O#''}
         then Move king_sq (make_square (rank_of king_sq) 6) MF_KINGSIDE_CASTLE PT_NONE
         else if san \<in> {''O-O-O'', ''O-O-O+'', ''O-O-O#''}
         then Move king_sq (make_square (rank_of king_sq) 2) MF_QUEENSIDE_CASTLE PT_NONE
         else let s = strip_marks san
              in if s = [] then null_move
                 else case san_prefix s of
                        None \<Rightarrow> null_move
                      | Some (pt, pos) \<Rightarrow>
                          (case san_promotion s of
                             None \<Rightarrow> null_move
                           | Some (promo, s') \<Rightarrow> san_lookup b pt pos promo s'))"

section \<open>PGN export\<close>

record pgn_tag =
  tag_name :: string
  tag_value :: string

record pgn_game =
  pgn_tags :: "pgn_tag list"
  pgn_moves :: "move list"
  pgn_result :: string

abbreviation (input) newline :: char where "newline \<equiv> CHR 0x0A"
abbreviation (input) quote :: char where "quote \<equiv> CHR 0x22"

definition tag_line :: "pgn_tag \<Rightarrow> string" where
  "tag_line t = ''['' @ tag_name t @ '' '' @ [quote] @ tag_value t @ [quote] @ '']''"

fun pgn_movetext :: "board \<Rightarrow> nat \<Rightarrow> move list \<Rightarrow> string" where
  "pgn_movetext b i [] = []"
| "pgn_movetext b i (m # ms) =
     (if even i then dec_nat (i div 2 + 1) @ ''. '' else []) @ move_to_san b m @ '' '' @
     pgn_movetext (snd (make_move b m)) (Suc i) ms"

definition export_pgn :: "pgn_tag list \<Rightarrow> move list \<Rightarrow> string \<Rightarrow> string" where
  "export_pgn tags moves res =
     concat (map (\<lambda>t. tag_line t @ [newline]) tags) @ (if tags \<noteq> [] then [newline] else []) @
     pgn_movetext starting_position 0 moves @ res @ [newline]"

section \<open>PGN import\<close>

definition is_trim_char :: "char \<Rightarrow> bool" where
  "is_trim_char c \<longleftrightarrow> c \<in> {CHR '' '', CHR 0x09, CHR 0x0D, CHR 0x0A}"

definition trim :: "string \<Rightarrow> string" where
  "trim s = rev (dropWhile is_trim_char (rev (dropWhile is_trim_char s)))"

function split_lines :: "string \<Rightarrow> string list" where
  \<comment> \<open>the lines that successive calls of \<open>std::getline\<close> return\<close>
  "split_lines [] = []"
| "split_lines (c # cs) =
     takeWhile (\<lambda>d. d \<noteq> newline) (c # cs) # split_lines (tl (dropWhile (\<lambda>d. d \<noteq> newline) (c # cs)))"
  by pat_completeness auto

termination
proof (relation "measure length")
  fix c :: char and cs
  have "length (dropWhile (\<lambda>d. d \<noteq> newline) (c # cs)) \<le> length (c # cs)" by (rule length_dropWhile_le)
  then show "(tl (dropWhile (\<lambda>d. d \<noteq> newline) (c # cs)), c # cs) \<in> measure length"
    by simp
qed simp

definition parse_tag :: "string \<Rightarrow> pgn_tag option" where
  "parse_tag line =
     (if CHR '' '' \<notin> set (tl line) then None
      else let name = takeWhile (\<lambda>c. c \<noteq> CHR '' '') (tl line);
               rest = dropWhile (\<lambda>c. c \<noteq> CHR '' '') (tl line);
               val = dropWhile (\<lambda>c. c \<noteq> quote) rest
           in if quote \<notin> set (tl val) then None
              else Some \<lparr>tag_name = name, tag_value = rev (tl (dropWhile (\<lambda>c. c \<noteq> quote) (rev (tl val))))\<rparr>)"

fun read_tags :: "string list \<Rightarrow> string \<Rightarrow> bool \<Rightarrow> pgn_tag list \<times> string \<times> string list" where
  \<comment> \<open>the tag loop: the tags, the value of \<open>line\<close> when it ends, and the lines left; a failing
      \<open>getline\<close> clears \<open>line\<close> unless the end of the text was already reached\<close>
  "read_tags [] line unterminated = ([], (if unterminated then line else []), [])"
| "read_tags (l # ls) _ unterminated =
     (let line = trim l
      in if line = [] then read_tags ls line unterminated
         else if hd line \<noteq> CHR ''['' then ([], line, ls)
         else let (tags, last_line, rest) = read_tags ls line unterminated
              in (case parse_tag line of
                    None \<Rightarrow> (tags, last_line, rest)
                  | Some t \<Rightarrow> (t # tags, last_line, rest)))"

lemma read_token_shrinks: "read_token s = Some (t, rest) \<Longrightarrow> length rest < length s"
proof -
  assume "read_token s = Some (t, rest)"
  then have t: "skip_space s \<noteq> []" "rest = dropWhile (\<lambda>c. \<not> c_isspace c) (skip_space s)"
    by (auto simp: read_token_def Let_def split: if_splits)
  have "\<not> c_isspace (hd (skip_space s))"
    using t(1) hd_dropWhile [of c_isspace s] by (simp add: skip_space_def)
  then have "length rest < length (skip_space s)"
    using t length_dropWhile_le [of "\<lambda>c. \<not> c_isspace c" "tl (skip_space s)"] by (cases "skip_space s") auto
  moreover have "length (skip_space s) \<le> length s" by (simp add: skip_space_def length_dropWhile_le)
  ultimately show ?thesis by simp
qed

function tokens :: "string \<Rightarrow> string list" where
  \<comment> \<open>the words that \<open>move_stream >> token\<close> returns\<close>
  "tokens s = (case read_token s of None \<Rightarrow> [] | Some (t, rest) \<Rightarrow> t # tokens rest)"
  by pat_completeness auto

termination
  by (relation "measure length") (auto simp: read_token_shrinks)

declare tokens.simps [simp del]

fun paren_depth :: "string \<Rightarrow> int \<Rightarrow> int" where
  "paren_depth [] d = d"
| "paren_depth (c # cs) d =
     paren_depth cs (if c = CHR ''('' then d + 1 else if c = CHR '')'' then d - 1 else d)"

fun skip_variation :: "int \<Rightarrow> string list \<Rightarrow> string list" where
  "skip_variation d [] = []"
| "skip_variation d (t # ts) = (if 0 < d then skip_variation (paren_depth t d) ts else t # ts)"

definition skip_comment :: "string list \<Rightarrow> string list" where
  "skip_comment ts = tl (dropWhile (\<lambda>t. last t \<noteq> CHR ''}'') ts)"

lemma length_skip_variation: "length (skip_variation d ts) \<le> length ts"
  by (induction d ts rule: skip_variation.induct) auto

lemma length_skip_comment: "length (skip_comment ts) \<le> length ts"
  using length_dropWhile_le [of "\<lambda>t. last t \<noteq> CHR ''}''" ts] by (simp add: skip_comment_def)

definition is_move_number :: "string \<Rightarrow> bool" where
  "is_move_number t \<longleftrightarrow> c_isdigit (hd t) \<and> CHR ''.'' \<in> set t"

definition is_result :: "string \<Rightarrow> bool" where
  "is_result t \<longleftrightarrow> t \<in> {''1-0'', ''0-1'', ''1/2-1/2'', ''*''}"

function read_moves :: "board \<Rightarrow> string list \<Rightarrow> (move list \<times> string) option" where
  \<comment> \<open>the move text loop: the moves and the result string; None is an access outside the board
      (a castling token on a position without the king)\<close>
  "read_moves b [] = Some ([], [])"
| "read_moves b (t # ts) =
     (if is_move_number t then read_moves b ts
      else if is_result t then Some ([], t)
      else if hd t = CHR ''{'' then
        read_moves b (if last t \<noteq> CHR ''}'' then skip_comment ts else ts)
      else if hd t = CHR ''$'' then read_moves b ts
      else if hd t = CHR ''('' then read_moves b (skip_variation (paren_depth t 1 - 1) ts)
      else let m = san_to_move b t
           in if m_from m = 0 \<and> m_to m = 0 \<and> m_flags m = 0 then Some ([], [])
              else if 64 \<le> m_from m \<or> 64 \<le> m_to m then None
              else map_option (\<lambda>(ms, r). (m # ms, r)) (read_moves (snd (make_move b m)) ts))"
  by pat_completeness auto

termination
  by (relation "measure (\<lambda>(b, ts). length ts)")
    (auto simp: le_imp_less_Suc length_skip_variation length_skip_comment)

definition pgn_start :: "pgn_tag list \<Rightarrow> board option" where
  \<comment> \<open>the starting position, or whatever \<open>set_from_fen\<close> leaves for the first FEN tag\<close>
  "pgn_start tags =
     (case find (\<lambda>t. tag_name t = ''FEN'') tags of
        None \<Rightarrow> Some starting_position
      | Some t \<Rightarrow> (case set_from_fen (tag_value t) of Fen_UB \<Rightarrow> None | Fen_Return _ b \<Rightarrow> Some b))"

definition import_pgn :: "string \<Rightarrow> pgn_game option" where
  "import_pgn pgn =
     (let (tags, line, rest) = read_tags (split_lines pgn) [] (pgn \<noteq> [] \<and> last pgn \<noteq> newline);
          movetext = line @ concat (map (\<lambda>l. '' '' @ l) rest)
      in case pgn_start tags of
           None \<Rightarrow> None
         | Some b \<Rightarrow>
             (case read_moves b (tokens movetext) of
                None \<Rightarrow> None
              | Some (ms, r) \<Rightarrow> Some \<lparr>pgn_tags = tags, pgn_moves = ms, pgn_result = r\<rparr>))"


section \<open>The SAN round trip\<close>

lemma char_val_simps [simp]:
  "char_val (file_char sq) = 97 + file_of sq" "sq < 64 \<Longrightarrow> char_val (rank_char sq) = 49 + rank_of sq"
  using on_board_rank_file [of sq] unfolding file_char_def rank_char_def
  by (subst char_val_char_of_int; linarith)+

lemma char_neq: "char_val c \<noteq> char_val d \<Longrightarrow> c \<noteq> d"
  by auto

lemma file_char_neq:
  "file_char sq \<noteq> CHR ''x''" "file_char sq \<noteq> CHR ''O''" "file_char sq \<noteq> CHR ''=''" "\<not> c_isupper (file_char sq)"
proof -
  have "char_val (file_char sq) \<in> {97..104}"
    using on_board_rank_file(2,3) [of sq] unfolding char_val_simps atLeastAtMost_iff by linarith
  then show "file_char sq \<noteq> CHR ''x''" "file_char sq \<noteq> CHR ''O''" "file_char sq \<noteq> CHR ''=''"
    by (auto simp: char_val_def split: if_splits)
  show "\<not> c_isupper (file_char sq)"
    using \<open>char_val (file_char sq) \<in> {97..104}\<close> by (auto simp: c_isupper_def char_val_def split: if_splits)
qed

lemma rank_char_neq: "sq < 64 \<Longrightarrow> rank_char sq \<noteq> CHR ''x'' \<and> rank_char sq \<noteq> CHR ''='' \<and> rank_char sq \<notin> set ''+#!?''"
proof -
  assume "sq < 64"
  then have "char_val (rank_char sq) \<in> {49..56}"
    using on_board_rank_file(1,4) [of sq] unfolding char_val_simps(2) [OF \<open>sq < 64\<close>] atLeastAtMost_iff by linarith
  then show ?thesis by (auto simp: char_val_def split: if_splits)
qed

lemma square_to_algebraic_chars: "sq < 64 \<Longrightarrow> square_to_algebraic sq = [file_char sq, rank_char sq]"
  by (simp add: square_to_algebraic_def file_char_def rank_char_def)

lemma strip_marks_append:
  assumes "body \<noteq> []" and "last body \<notin> set ''+#!?''" and "set marks \<subseteq> set ''+#!?''"
  shows "strip_marks (body @ marks) = body"
proof -
  let ?P = "\<lambda>c. c \<in> set ''+#!?''"
  have "dropWhile ?P (rev marks @ rev body) = dropWhile ?P (rev body)"
    using assms(3) by (intro dropWhile_append2) auto
  also have "\<dots> = rev body"
    using assms(1,2) by (cases "rev body") (auto simp: hd_rev [symmetric])
  finally show ?thesis by (simp add: strip_marks_def)
qed

definition san_suffix :: "piece_type \<Rightarrow> string" where
  "san_suffix promo = (if promo \<noteq> PT_NONE then [CHR ''='', piece_to_san_char promo] else [])"

definition san_letter :: "piece_type \<Rightarrow> string" where
  "san_letter pt = (if pt \<noteq> PAWN then [piece_to_san_char pt] else [])"

lemma san_lookup_found:
  assumes "t < 64" and "disambig (filter (\<lambda>c. c \<noteq> CHR ''x'') mid) (-1) (-1) = (df, dr)"
    and "find (san_matches b pt t df dr promo) (generate_legal_moves b) = Some m"
  shows "san_lookup b pt (length pre) promo (pre @ mid @ [file_char t, rank_char t]) = m"
proof -
  let ?s = "pre @ mid @ [file_char t, rank_char t]"
  have n: "length ?s = length pre + length mid + 2" by simp
  have at: "?s ! (length ?s - 2) = file_char t" "?s ! (length ?s - 1) = rank_char t"
    by (simp_all add: nth_append)
  have mid: "take (length ?s - 2 - length pre) (drop (length pre) ?s) = mid" by simp
  have sq: "make_square (char_val (rank_char t) - 49) (char_val (file_char t) - 97) = t"
    using assms(1) by simp
  show ?thesis
    unfolding san_lookup_def Let_def at mid sq assms(2)
    using assms(1,3) on_board_rank_file [of t] by simp
qed

lemma san_to_move_found:
  assumes "t < 64" and "disambig (filter (\<lambda>c. c \<noteq> CHR ''x'') mid) (-1) (-1) = (df, dr)"
    and "find (san_matches b pt t df dr promo) (generate_legal_moves b) = Some m"
    and "pt \<in> {PAWN, KNIGHT, BISHOP, ROOK, QUEEN, KING}" and "promo \<in> {PT_NONE, QUEEN, ROOK, BISHOP, KNIGHT}"
    and "pt = PAWN \<Longrightarrow> mid = [] \<or> (\<exists>sq. hd mid = file_char sq)" and "set marks \<subseteq> set ''+#!?''"
  shows "san_to_move b (san_letter pt @ mid @ [file_char t, rank_char t] @ san_suffix promo @ marks) = m"
proof -
  let ?core = "san_letter pt @ mid @ [file_char t, rank_char t]"
  let ?body = "?core @ san_suffix promo"
  have body: "?body \<noteq> []" by simp
  have last: "last ?body \<notin> set ''+#!?''"
    using assms(5) rank_char_neq [OF assms(1)] by (auto simp: san_suffix_def piece_to_san_char_def)
  have first: "pt = PAWN \<Longrightarrow> \<exists>sq. ?body ! 0 = file_char sq"
    using assms(6) by (cases mid) (auto simp: san_letter_def)
  have hd_letter: "pt \<noteq> PAWN \<Longrightarrow> ?body ! 0 = piece_to_san_char pt" by (simp add: san_letter_def)
  have not_O: "?body ! 0 \<noteq> CHR ''O''"
  proof (cases "pt = PAWN")
    case True
    then show ?thesis using first file_char_neq(2) by metis
  next
    case False
    then show ?thesis using hd_letter assms(4) by (auto simp: piece_to_san_char_def)
  qed
  have prefix: "san_prefix ?body = Some (pt, length (san_letter pt))"
  proof (cases "pt = PAWN")
    case True
    then show ?thesis using first file_char_neq(4) by (auto simp: san_prefix_def san_letter_def)
  next
    case False
    then show ?thesis
      using hd_letter assms(4) by (auto simp: san_prefix_def san_letter_def piece_to_san_char_def c_isupper_def)
  qed
  have promo: "san_promotion ?body = Some (promo, ?core)"
    using assms(5) file_char_neq(3)
    by (auto simp: san_promotion_def san_suffix_def piece_to_san_char_def nth_append Let_def)
  have strip: "strip_marks (?body @ marks) = ?body" by (rule strip_marks_append [OF body last assms(7)])
  have hd: "hd (?body @ marks) = ?body ! 0"
    using body by (metis hd_append2 hd_conv_nth)
  have "?body @ marks \<notin> {''O-O'', ''O-O+'', ''O-O#''} \<and> ?body @ marks \<notin> {''O-O-O'', ''O-O-O+'', ''O-O-O#''} \<and>
      ?body @ marks \<noteq> []"
    using hd not_O by (metis body append_is_Nil_conv empty_iff insert_iff list.sel(1))
  then have "san_to_move b (?body @ marks) = m"
    unfolding san_to_move_def Let_def strip prefix promo
    using body by (simp only: option.case prod.case if_False san_lookup_found [OF assms(1-3)])
  then show ?thesis by simp
qed


lemma find_unique:
  assumes "m \<in> set xs" and "P m" and "\<And>m'. m' \<in> set xs \<Longrightarrow> P m' \<Longrightarrow> m' = m"
  shows "find P xs = Some m"
proof -
  obtain y where y: "find P xs = Some y"
    using assms(1,2) by (cases "find P xs") (auto simp: find_None_iff)
  then have "y \<in> set xs" "P y" by (auto simp: find_Some_iff)
  then show ?thesis using y assms(3) by metis
qed

lemma san_check_mark_marks: "set (san_check_mark b m) \<subseteq> set ''+#!?''"
  by (auto simp: san_check_mark_def Let_def split: if_splits)

lemma disambig_letters:
  assumes "sq < 64" and "cap = [] \<or> cap = ''x''"
  shows "disambig (filter (\<lambda>c. c \<noteq> CHR ''x'')
      (((if nf then [file_char sq] else []) @ (if nr then [rank_char sq] else [])) @ cap)) (-1) (-1) =
    (if nf then file_of sq else -1, if nr then rank_of sq else -1)"
proof -
  have "file_of sq \<le> 7" "rank_of sq \<le> 7" "rank_of sq < 48"
    using on_board_rank_file [of sq] assms(1) by linarith+
  then show ?thesis
    using assms file_char_neq(1) [of sq] rank_char_neq [OF assms(1)] by (auto simp: char_val_simps)
qed

lemma officer_san:
  assumes "position_ok b" and "m \<in> set (generate_legal_moves b)" and "ptype (piece_at b (m_from m)) \<noteq> PAWN"
    and "m_flags m = MF_NONE"
  shows "san_to_move b (move_to_san b m) = m"
proof -
  let ?pt = "ptype (piece_at b (m_from m))"
  let ?rivals = "filter (san_rival b m) (generate_legal_moves b)"
  let ?nf = "list_ex (\<lambda>other. file_of (m_from other) \<noteq> file_of (m_from m)) ?rivals"
  let ?nr = "list_ex (\<lambda>other. file_of (m_from other) = file_of (m_from m)) ?rivals"
  let ?cap = "if \<not> is_none (piece_at b (m_to m)) then ''x'' else []"
  have fits: "move_fits b m" by (rule legal_fits [OF assms(1,2)])
  then have sq: "m_from m < 64" "m_to m < 64" "?pt \<noteq> PT_NONE" by (auto simp: move_fits_def is_none_def piece_at_def)
  have sig: "m_promo m' = PT_NONE" "m_from m' < 64"
    if "m' \<in> set (generate_legal_moves b)" "ptype (piece_at b (m_from m')) \<noteq> PAWN" for m'
    using that legal_pseudo [OF assms(1)] pseudo_legal_from [OF assms(1)] officer_move_signature [OF assms(1)] by blast+
  have "find (san_matches b ?pt (m_to m) (if ?nf then file_of (m_from m) else -1)
      (if ?nr then rank_of (m_from m) else -1) PT_NONE) (generate_legal_moves b) = Some m"
  proof (rule find_unique [OF assms(2)])
    show "san_matches b ?pt (m_to m) (if ?nf then file_of (m_from m) else -1)
        (if ?nr then rank_of (m_from m) else -1) PT_NONE m"
      using assms(4) by (simp add: san_matches_def flag_simps)
  next
    fix m'
    assume m': "m' \<in> set (generate_legal_moves b)"
      "san_matches b ?pt (m_to m) (if ?nf then file_of (m_from m) else -1)
        (if ?nr then rank_of (m_from m) else -1) PT_NONE m'"
    then have same: "m_to m' = m_to m" "ptype (piece_at b (m_from m')) = ?pt"
      and nf: "?nf \<Longrightarrow> file_of (m_from m') = file_of (m_from m)"
      and nr: "?nr \<Longrightarrow> rank_of (m_from m') = rank_of (m_from m)"
      by (auto simp: san_matches_def)
    have "m_from m' = m_from m"
    proof (rule ccontr)
      assume ne: "m_from m' \<noteq> m_from m"
      then have rival: "m' \<in> set ?rivals" using m'(1) same by (simp add: san_rival_def)
      then have "file_of (m_from m') = file_of (m_from m)" using nf by (auto simp: list_ex_iff)
      moreover have "rank_of (m_from m') = rank_of (m_from m)"
        using rival calculation nr by (auto simp: list_ex_iff)
      ultimately show False using ne square_eq_iff sq(1) sig(2) [OF m'(1)] same(2) assms(3) by metis
    qed
    then show "m' = m"
      using pseudo_legal_determined [OF assms(1) legal_pseudo [OF assms(1,2)] legal_pseudo [OF assms(1) m'(1)]]
        same sig(1) [OF m'(1)] sig(1) [OF assms(2)] assms(3) by simp
  qed
  then have "san_to_move b (san_letter ?pt @ (san_disambiguation b m @ ?cap) @
      [file_char (m_to m), rank_char (m_to m)] @ san_suffix PT_NONE @ san_check_mark b m) = m"
    using sq assms(3) san_check_mark_marks disambig_letters [OF sq(1), of ?cap ?nf ?nr]
    by (intro san_to_move_found) (cases ?pt; auto simp: san_disambiguation_def Let_def)+
  moreover have "move_to_san b m = san_letter ?pt @ (san_disambiguation b m @ ?cap) @
      [file_char (m_to m), rank_char (m_to m)] @ san_suffix PT_NONE @ san_check_mark b m"
    using assms(3,4) sq
    by (simp add: move_to_san_def flag_simps san_letter_def san_suffix_def square_to_algebraic_chars Let_def)
  ultimately show ?thesis by simp
qed


lemma pawn_capture_iff:
  assumes "position_ok b" and "m \<in> set (generate_pseudo_legal_moves b)" and "ptype (piece_at b (m_from m)) = PAWN"
  shows "(\<not> is_none (piece_at b (m_to m)) \<or> is_en_passant m) \<longleftrightarrow> file_of (m_to m) \<noteq> file_of (m_from m)"
  using pseudo_legal_pawn [OF assms]
  by (auto simp: pawn_flags_def pawn_reach_def flag_simps Let_def split: if_splits)

lemma pawn_origin_straight:
  assumes "position_ok b" and "pawn_reach b (side_to_move b) sq t" and "pawn_reach b (side_to_move b) sq' t"
    and "sq < 64" and "sq' < 64" and "squares b ! sq = Piece PAWN (side_to_move b)"
    and "squares b ! sq' = Piece PAWN (side_to_move b)" and "file_of t = file_of sq" and "t < 64"
  shows "sq' = sq"
proof -
  let ?s = "side_to_move b" and ?dir = "if side_to_move b = WHITE then 1 else -1 :: int"
  have ep: "ep_ok b" and side: "?s \<noteq> C_NONE" using assms(1) by (auto simp: position_ok_def board_rep_def)
  have none: "is_none (piece_at b t)" using assms(2,8) by (auto simp: pawn_reach_def Let_def)
  have sq_at: "make_square (rank_of sq) (file_of sq) = sq" "make_square (rank_of sq') (file_of sq') = sq'"
    using assms(4,5) by simp_all
  have "t \<noteq> en_passant_sq b"
  proof
    assume t: "t = en_passant_sq b"
    then have r: "rank_of t = (if ?s = WHITE then 5 else 2)"
      and p: "squares b ! make_square (rank_of t - ?dir) (file_of t) = Piece PAWN (opposite_color ?s)"
      using ep assms(9) by (auto simp: ep_ok_def Let_def NO_SQUARE_def)
    then have "rank_of t = rank_of sq + ?dir"
      using assms(2,8) by (auto simp: pawn_reach_def Let_def split: if_splits)
    then show False using p assms(6,8) sq_at(1) opposite_color_neq [OF side] by auto
  qed
  then have f: "file_of sq' = file_of sq" using assms(3,8) none by (auto simp: pawn_reach_def Let_def)
  have step: "rank_of t = rank_of x + ?dir \<or>
      (rank_of t = rank_of x + 2 * ?dir \<and> is_none (piece_at b (make_square (rank_of x + ?dir) (file_of x))))"
    if "pawn_reach b ?s x t" "file_of t = file_of x" for x
    using that by (auto simp: pawn_reach_def Let_def)
  have clash: "False"
    if "rank_of x = rank_of y + ?dir" "file_of x = file_of y" "x < 64" "ptype (squares b ! x) = PAWN"
      "is_none (piece_at b (make_square (rank_of y + ?dir) (file_of y)))" for x y
  proof -
    have "make_square (rank_of y + ?dir) (file_of y) = x" using that(1-3) by (metis make_square_rank_file)
    then show False using that(4,5) by (simp add: piece_at_def is_none_def)
  qed
  have "rank_of sq' = rank_of sq"
  proof (rule ccontr)
    assume "rank_of sq' \<noteq> rank_of sq"
    then consider "rank_of sq = rank_of sq' + ?dir" "is_none (piece_at b (make_square (rank_of sq' + ?dir) (file_of sq')))"
      | "rank_of sq' = rank_of sq + ?dir" "is_none (piece_at b (make_square (rank_of sq + ?dir) (file_of sq)))"
      using step [OF assms(2,8)] step [OF assms(3)] f assms(8) by fastforce
    then show False using clash [of sq sq'] clash [of sq' sq] f assms(4-7) by cases auto
  qed
  then show ?thesis using f assms(4,5) square_eq_iff by blast
qed

lemma pawn_origin_diagonal:
  assumes "pawn_reach b c sq t" and "pawn_reach b c sq' t" and "sq < 64" and "sq' < 64"
    and "file_of t \<noteq> file_of sq" and "file_of sq' = file_of sq"
  shows "sq' = sq"
proof -
  have "rank_of sq' = rank_of sq" using assms by (auto simp: pawn_reach_def Let_def)
  then show ?thesis using assms(3,4,6) square_eq_iff by blast
qed

lemma pawn_san:
  assumes "position_ok b" and "m \<in> set (generate_legal_moves b)" and "ptype (piece_at b (m_from m)) = PAWN"
  shows "san_to_move b (move_to_san b m) = m"
proof -
  let ?cap = "file_of (m_to m) \<noteq> file_of (m_from m)"
  let ?df = "if ?cap then file_of (m_from m) else -1"
  note pseudo = legal_pseudo [OF assms(1)]
  note sig = pseudo_legal_pawn [OF assms(1)]
  have m: "m_flags m = pawn_flags b (side_to_move b) (m_from m) (m_to m)"
    "is_promotion m \<longleftrightarrow> m_promo m \<noteq> PT_NONE" "pawn_reach b (side_to_move b) (m_from m) (m_to m)"
    "squares b ! m_from m = Piece PAWN (side_to_move b)" "m_from m < 64" "m_to m < 64"
    using sig [OF pseudo [OF assms(2)] assms(3)] assms(3) by (auto simp: piece_at_def piece_eq)
  have promo: "m_promo m \<in> {PT_NONE, QUEEN, ROOK, BISHOP, KNIGHT}"
    using pseudo_legal_kind [OF position_ok_parts [OF assms(1)] pseudo [OF assms(2)]] m(2)
    by (auto elim!: move_kindE simp: flag_simps)
  have "find (san_matches b PAWN (m_to m) ?df (-1) (m_promo m)) (generate_legal_moves b) = Some m"
  proof (rule find_unique [OF assms(2)])
    show "san_matches b PAWN (m_to m) ?df (-1) (m_promo m) m"
      using assms(3) m(2) by (auto simp: san_matches_def)
  next
    fix m'
    assume m': "m' \<in> set (generate_legal_moves b)" "san_matches b PAWN (m_to m) ?df (-1) (m_promo m) m'"
    then have same: "m_to m' = m_to m" "ptype (piece_at b (m_from m')) = PAWN"
      and files: "?cap \<Longrightarrow> file_of (m_from m') = file_of (m_from m)"
      by (auto simp: san_matches_def split: if_splits)
    note sig' = sig [OF pseudo [OF m'(1)] same(2)]
    have piece: "squares b ! m_from m' = Piece PAWN (side_to_move b)"
      using sig' same(2) by (simp add: piece_at_def piece_eq)
    have "m_promo m' = m_promo m"
      using m'(2) sig' m(2) by (auto simp: san_matches_def split: if_splits)
    moreover have "m_from m' = m_from m"
    proof (cases ?cap)
      case True
      then show ?thesis using pawn_origin_diagonal [OF m(3)] sig' same m(5) files by simp
    next
      case False
      then show ?thesis
        using pawn_origin_straight [OF assms(1) m(3) _ m(5) _ m(4) piece] sig' same m(6) by simp
    qed
    ultimately show "m' = m"
      using pseudo_legal_determined [OF assms(1) pseudo [OF assms(2)] pseudo [OF m'(1)]] same by simp
  qed
  moreover have "disambig (filter (\<lambda>c. c \<noteq> CHR ''x'') (if ?cap then [file_char (m_from m), CHR ''x''] else []))
      (-1) (-1) = (?df, -1)"
    using disambig_letters [OF m(5), of "''x''" True False] by auto
  ultimately have "san_to_move b (san_letter PAWN @ (if ?cap then [file_char (m_from m), CHR ''x''] else []) @
      [file_char (m_to m), rank_char (m_to m)] @ san_suffix (m_promo m) @ san_check_mark b m) = m"
    using m(6) promo san_check_mark_marks by (intro san_to_move_found) auto
  moreover have "\<not> is_kingside_castle m \<and> \<not> is_queenside_castle m"
    by (simp add: flag_simps m(1) pawn_flags_def)
  ultimately show ?thesis
    using assms(3) m(2,6) pawn_capture_iff [OF assms(1) pseudo [OF assms(2)] assms(3)]
    by (auto simp: move_to_san_def san_letter_def san_suffix_def square_to_algebraic_chars Let_def)
qed

lemma castling_san:
  assumes "position_ok b" and "m \<in> set (generate_legal_moves b)" and "is_kingside_castle m \<or> is_queenside_castle m"
  shows "san_to_move b (move_to_san b m) = m"
proof -
  have side: "side_to_move b \<noteq> C_NONE" and len: "length (squares b) = 64" and kings: "kings_ok b"
    using assms(1) by (auto simp: position_ok_def board_rep_def)
  obtain k where k: "king_at b (side_to_move b) k"
    using kings len side by (cases "side_to_move b") (auto simp: kings_ok_king_at)
  have king: "squares b ! i = Piece KING (side_to_move b) \<Longrightarrow> i < 64 \<Longrightarrow> find_king b (side_to_move b) = i" for i
    using find_king_at [OF len k] k by (simp add: king_at_def)
  from pseudo_legal_kind [OF position_ok_parts [OF assms(1)] legal_pseudo [OF assms(1,2)]] show ?thesis
  proof cases
    case (kingside base)
    then have "find_king b (side_to_move b) = base + 4" by (intro king) auto
    then show ?thesis
      using kingside by (simp add: move_to_san_def san_to_move_def flag_simps make_square_def rank_of_def)
  next
    case (queenside base)
    then have "find_king b (side_to_move b) = base + 4" by (intro king) auto
    then show ?thesis
      using queenside by (simp add: move_to_san_def san_to_move_def flag_simps make_square_def rank_of_def)
  qed (use assms(3) in \<open>simp_all add: flag_simps\<close>)
qed

lemma san_round_trip:
  assumes "position_ok b" and "m \<in> set (generate_legal_moves b)"
  shows "san_to_move b (move_to_san b m) = m"
proof (cases "ptype (piece_at b (m_from m)) = PAWN")
  case True
  then show ?thesis by (rule pawn_san [OF assms])
next
  case False
  have "m_flags m = officer_flags b (m_from m) (m_to m)"
    using officer_move_signature [OF assms(1)] pseudo_legal_from [OF assms(1) legal_pseudo [OF assms]] False by blast
  then consider "m_flags m = MF_NONE" | "is_kingside_castle m \<or> is_queenside_castle m"
    by (auto simp: officer_flags_def flag_simps split: if_splits)
  then show ?thesis by cases (use officer_san [OF assms False] castling_san [OF assms] in auto)
qed


section \<open>The PGN round trip\<close>

lemma tokens_word:
  assumes "t \<noteq> []" and "\<forall>c \<in> set t. \<not> c_isspace c"
  shows "tokens t = [t]" and "c_isspace w \<Longrightarrow> tokens (t @ w # rest) = t # tokens (w # rest)"
proof -
  have skip: "dropWhile c_isspace t = t" using assms by (cases t) auto
  have "takeWhile (\<lambda>c. \<not> c_isspace c) t = t" "dropWhile (\<lambda>c. \<not> c_isspace c) t = []"
    using assms(2) by (simp_all add: takeWhile_eq_all_conv dropWhile_eq_Nil_conv)
  then have "read_token t = Some (t, [])"
    using assms(1) by (simp add: read_token_def skip_space_def Let_def skip)
  moreover have "read_token [] = None" by (simp add: read_token_def skip_space_def)
  ultimately show "tokens t = [t]" by (simp add: tokens.simps [of t] tokens.simps [of "[]"])
  show "tokens (t @ w # rest) = t # tokens (w # rest)" if "c_isspace w"
    by (simp add: tokens.simps [of "t @ w # rest"] read_token_append [OF assms that])
qed

lemma tokens_blank: "c_isspace w \<Longrightarrow> tokens (w # s) = tokens s"
  by (simp add: tokens.simps [of "w # s"] tokens.simps [of s] read_token_blank)

lemma tokens_word_space: "t \<noteq> [] \<Longrightarrow> \<forall>c \<in> set t. \<not> c_isspace c \<Longrightarrow> tokens (t @ '' '' @ rest) = t # tokens rest"
  using tokens_word(2) [of t "CHR '' ''" rest] by (simp add: tokens_blank c_isspace_def)

definition san_chars :: string where
  "san_chars = ''NBRQKO-abcdefgh12345678x=+#''"

lemma less_8_int:
  "0 \<le> x \<Longrightarrow> x < 8 \<Longrightarrow> x = 0 \<or> x = 1 \<or> x = 2 \<or> x = 3 \<or> x = 4 \<or> x = 5 \<or> x = 6 \<or> x = (7::int)"
  by linarith

lemma file_char_in: "file_char sq \<in> set ''abcdefgh''"
proof -
  have "0 \<le> file_of sq" "file_of sq < 8" by simp_all
  then show ?thesis
    using less_8_int [of "file_of sq"] by (auto simp: file_char_def char_of_int_def)
qed

lemma rank_char_in: "sq < 64 \<Longrightarrow> rank_char sq \<in> set ''12345678''"
proof -
  assume "sq < 64"
  then have "0 \<le> rank_of sq" "rank_of sq < 8" by simp_all
  then show ?thesis
    using less_8_int [of "rank_of sq"] by (auto simp: rank_char_def char_of_int_def)
qed

lemma officer_char_in:
  "pt \<in> {KNIGHT, BISHOP, ROOK, QUEEN, KING} \<Longrightarrow> piece_to_san_char pt \<in> set ''NBRQK''"
  by (auto simp: piece_to_san_char_def)

lemma move_to_san_chars:
  assumes "position_ok b" and "m \<in> set (generate_legal_moves b)"
  shows "set (move_to_san b m) \<subseteq> set san_chars \<and> move_to_san b m \<noteq> [] \<and>
    hd (move_to_san b m) \<in> set ''NBRQKOabcdefgh''"
proof -
  have "move_fits b m" by (rule legal_fits [OF assms])
  then have sq: "m_from m < 64" "m_to m < 64" "ptype (piece_at b (m_from m)) \<noteq> PT_NONE"
    by (auto simp: move_fits_def is_none_def piece_at_def)
  have promo: "is_promotion m \<Longrightarrow> m_promo m \<in> {KNIGHT, BISHOP, ROOK, QUEEN, KING}"
    using pseudo_legal_kind [OF position_ok_parts [OF assms(1)] legal_pseudo [OF assms]]
    by (auto elim!: move_kindE simp: flag_simps)
  have letter: "ptype (piece_at b (m_from m)) \<noteq> PAWN \<Longrightarrow>
      piece_to_san_char (ptype (piece_at b (m_from m))) \<in> set ''NBRQK''"
    using sq(3) by (intro officer_char_in) (cases "ptype (piece_at b (m_from m))"; simp)
  have sub: "set ''NBRQK'' \<subseteq> set san_chars" "set ''abcdefgh'' \<subseteq> set san_chars" "set ''12345678'' \<subseteq> set san_chars"
    by (simp_all add: san_chars_def)
  have chars: "file_char (m_from m) \<in> set san_chars" "file_char (m_to m) \<in> set san_chars"
    "rank_char (m_from m) \<in> set san_chars" "rank_char (m_to m) \<in> set san_chars"
    using sub file_char_in rank_char_in sq(1,2) by (meson subsetD)+
  have "set (san_disambiguation b m) \<subseteq> set san_chars"
    using chars by (auto simp: san_disambiguation_def Let_def)
  moreover have "set (san_check_mark b m) \<subseteq> set san_chars"
    by (auto simp: san_check_mark_def san_chars_def Let_def split: if_splits)
  moreover have "is_promotion m \<Longrightarrow> piece_to_san_char (m_promo m) \<in> set san_chars"
    using officer_char_in [OF promo] sub(1) by blast
  moreover have "set ''O-O'' \<subseteq> set san_chars" "set ''O-O-O'' \<subseteq> set san_chars" "CHR ''x'' \<in> set san_chars"
    "CHR ''='' \<in> set san_chars"
    by (simp_all add: san_chars_def)
  moreover have "ptype (piece_at b (m_from m)) \<noteq> PAWN \<Longrightarrow>
      piece_to_san_char (ptype (piece_at b (m_from m))) \<in> set san_chars"
    using letter sub(1) by blast
  ultimately have "set (move_to_san b m) \<subseteq> set san_chars"
    using chars unfolding move_to_san_def Let_def square_to_algebraic_chars [OF sq(2)] by auto
  moreover define H where "H = set ''NBRQKOabcdefgh''"
  have H: "set ''NBRQK'' \<subseteq> H" "set ''abcdefgh'' \<subseteq> H" "CHR ''O'' \<in> H" by (simp_all add: H_def)
  have "ptype (piece_at b (m_from m)) \<noteq> PAWN \<Longrightarrow> piece_to_san_char (ptype (piece_at b (m_from m))) \<in> H"
    "file_char (m_from m) \<in> H" "file_char (m_to m) \<in> H"
    using letter file_char_in H(1,2) by blast+
  then have "move_to_san b m \<noteq> [] \<and> hd (move_to_san b m) \<in> H"
    using H(3) unfolding move_to_san_def Let_def square_to_algebraic_chars [OF sq(2)] by simp
  ultimately show ?thesis unfolding H_def by blast
qed

lemma san_chars_not_space: "c \<in> set san_chars \<Longrightarrow> \<not> c_isspace c"
  by (auto simp: san_chars_def c_isspace_def)

lemma san_head:
  assumes "hd t \<in> set ''NBRQKOabcdefgh''" and "t \<noteq> []"
  shows "\<not> is_move_number t \<and> \<not> is_result t \<and> hd t \<noteq> CHR ''{'' \<and> hd t \<noteq> CHR ''$'' \<and> hd t \<noteq> CHR ''(''"
  using assms by (auto simp: is_move_number_def is_result_def c_isdigit_def)

lemma result_nonblank: "is_result r \<Longrightarrow> r \<noteq> [] \<and> (\<forall>c \<in> set r. \<not> c_isspace c)"
  by (auto simp: is_result_def c_isspace_def)

lemma move_number_word:
  "is_move_number (dec_nat n @ ''.'') \<and> (\<forall>c \<in> set (dec_nat n @ ''.''). \<not> c_isspace c)"
proof -
  have "c_isdigit (hd (dec_nat n))" using dec_nat_digits [of n] by (cases "dec_nat n") auto
  then show ?thesis
    using dec_nat_digits [of n] digit_not_space by (auto simp: is_move_number_def hd_append c_isspace_def [of "CHR ''.''"])
qed

lemma read_moves_text:
  assumes "position_ok b" and "line_of_play generate_legal_moves make_move b ms b'" and "is_result r"
  shows "read_moves b (tokens (pgn_movetext b i ms @ r)) = Some (ms, r)"
  using assms(1,2)
proof (induction ms arbitrary: b i)
  case Nil
  have "\<not> is_move_number r" using assms(3) by (auto simp: is_move_number_def is_result_def)
  then show ?case using result_nonblank [OF assms(3)] assms(3) by (simp add: tokens_word)
next
  case (Cons m ms)
  let ?rest = "pgn_movetext (snd (make_move b m)) (Suc i) ms @ r" and ?san = "move_to_san b m"
  have legal: "m \<in> set (generate_legal_moves b)"
    "line_of_play generate_legal_moves make_move (snd (make_move b m)) ms b'"
    using Cons.prems(2) by auto
  have san: "?san \<noteq> []" "\<forall>c \<in> set ?san. \<not> c_isspace c" "hd ?san \<in> set ''NBRQKOabcdefgh''"
    using move_to_san_chars [OF Cons.prems(1) legal(1)] san_chars_not_space by auto
  have fits: "m_from m < 64" "m_to m < 64" "m_from m \<noteq> m_to m"
    using legal_fits [OF Cons.prems(1) legal(1)] by (auto simp: move_fits_def)
  have "read_moves b (?san # tokens ?rest) = map_option (\<lambda>(ms, r). (m # ms, r)) (read_moves (snd (make_move b m)) (tokens ?rest))"
    using san_head [OF san(3,1)] fits san_round_trip [OF Cons.prems(1) legal(1)] by (auto simp: Let_def)
  also have "\<dots> = Some (m # ms, r)"
    using Cons.IH [OF legal_move_position_ok [OF Cons.prems(1) legal(1)] legal(2)] by simp
  finally have main: "read_moves b (tokens (?san @ '' '' @ ?rest)) = Some (m # ms, r)"
    by (simp only: tokens_word_space [OF san(1,2)])
  show ?case
  proof (cases "even i")
    case True
    let ?n = "dec_nat (i div 2 + 1) @ ''.''"
    have "tokens (pgn_movetext b i (m # ms) @ r) = tokens (?n @ '' '' @ (?san @ '' '' @ ?rest))"
      using True by simp
    also have "\<dots> = ?n # tokens (?san @ '' '' @ ?rest)"
      using move_number_word by (intro tokens_word_space) auto
    finally show ?thesis using main move_number_word by (simp only: read_moves.simps if_True)
  next
    case False
    then show ?thesis using main by simp
  qed
qed


lemma split_lines_line: "newline \<notin> set l \<Longrightarrow> split_lines (l @ newline # rest) = l # split_lines rest"
proof (cases l)
  case Nil
  then show ?thesis by simp
next
  case (Cons c cs)
  assume l: "newline \<notin> set l"
  then have "takeWhile (\<lambda>d. d \<noteq> newline) (l @ newline # rest) = l"
    "dropWhile (\<lambda>d. d \<noteq> newline) (l @ newline # rest) = newline # rest"
    by (auto simp: takeWhile_append dropWhile_append)
  then show ?thesis
    using split_lines.simps(2) [of c "cs @ newline # rest"] Cons by simp
qed

lemma trim_id: "s \<noteq> [] \<Longrightarrow> \<not> is_trim_char (hd s) \<Longrightarrow> \<not> is_trim_char (last s) \<Longrightarrow> trim s = s"
proof -
  assume s: "s \<noteq> []" "\<not> is_trim_char (hd s)" "\<not> is_trim_char (last s)"
  have "dropWhile is_trim_char s = s" using s(1,2) by (cases s) auto
  moreover have "dropWhile is_trim_char (rev s) = rev s"
    using s(1,3) by (cases "rev s") (auto simp: hd_rev [symmetric])
  ultimately show ?thesis by (simp add: trim_def)
qed

definition tag_ok :: "pgn_tag \<Rightarrow> bool" where
  "tag_ok t \<longleftrightarrow> CHR '' '' \<notin> set (tag_name t) \<and> newline \<notin> set (tag_name t) \<and> newline \<notin> set (tag_value t)"

lemma parse_tag_line:
  assumes "tag_ok t"
  shows "parse_tag (tag_line t) = Some t"
proof -
  let ?body = "tag_name t @ CHR '' '' # quote # tag_value t @ [quote, CHR '']'']"
  have line: "tag_line t = CHR ''['' # ?body" by (simp add: tag_line_def)
  have sp: "\<forall>c \<in> set (tag_name t). c \<noteq> CHR '' ''" using assms by (auto simp: tag_ok_def)
  then have "takeWhile (\<lambda>c. c \<noteq> CHR '' '') ?body = tag_name t"
    "dropWhile (\<lambda>c. c \<noteq> CHR '' '') ?body = CHR '' '' # quote # tag_value t @ [quote, CHR '']'']"
    by (auto simp: takeWhile_append dropWhile_append)
  then show ?thesis by (simp add: parse_tag_def line Let_def)
qed

lemma read_tags_line:
  assumes "tag_ok t"
  shows "read_tags (tag_line t # ls) l u = (let (tags, line, rest) = read_tags ls (tag_line t) u in (t # tags, line, rest))"
proof -
  have "trim (tag_line t) = tag_line t"
    by (rule trim_id) (simp_all add: tag_line_def is_trim_char_def)
  moreover have "tag_line t \<noteq> []" "hd (tag_line t) = CHR ''[''" by (simp_all add: tag_line_def)
  ultimately show ?thesis by (simp add: parse_tag_line [OF assms] split_beta Let_def)
qed

lemma read_tags_text:
  assumes "\<forall>t \<in> set tags. tag_ok t" and "text \<noteq> []" and "trim text = text" and "hd text \<noteq> CHR ''[''"
  shows "read_tags (map tag_line tags @ (if blank then [[]] else []) @ [text]) l u = (tags, text, [])"
  using assms(1)
proof (induction tags arbitrary: l)
  case Nil
  have "trim [] = []" by (simp add: trim_def)
  then show ?case using assms(2-4) by simp
next
  case (Cons t ts)
  then have "read_tags (tag_line t # map tag_line ts @ (if blank then [[]] else []) @ [text]) l u = (t # ts, text, [])"
    by (subst read_tags_line) auto
  then show ?case by simp
qed

lemma tag_line_no_newline: "tag_ok t \<Longrightarrow> newline \<notin> set (tag_line t)"
  by (auto simp: tag_ok_def tag_line_def)

lemma split_lines_tags:
  assumes "\<forall>t \<in> set tags. tag_ok t"
  shows "split_lines (concat (map (\<lambda>t. tag_line t @ [newline]) tags) @ rest) = map tag_line tags @ split_lines rest"
  using assms
proof (induction tags)
  case (Cons t ts)
  then show ?case using split_lines_line [OF tag_line_no_newline, of t] by simp
qed simp

lemma movetext_chars:
  assumes "position_ok b" and "line_of_play generate_legal_moves make_move b ms b'"
  shows "newline \<notin> set (pgn_movetext b i ms)"
  using assms
proof (induction ms arbitrary: b i)
  case (Cons m ms)
  have legal: "m \<in> set (generate_legal_moves b)"
    "line_of_play generate_legal_moves make_move (snd (make_move b m)) ms b'"
    using Cons.prems(2) by auto
  have "newline \<notin> set (move_to_san b m)"
    using move_to_san_chars [OF Cons.prems(1) legal(1)] by (auto simp: san_chars_def)
  moreover have "newline \<notin> set (dec_nat n)" for n
    using dec_nat_digits [of n] by (auto simp: c_isdigit_def)
  ultimately show ?case
    using Cons.IH [OF legal_move_position_ok [OF Cons.prems(1) legal(1)] legal(2)] by simp
qed simp

lemma movetext_ends:
  assumes "is_result r"
  shows "\<not> is_trim_char (hd (pgn_movetext b 0 ms @ r)) \<and> \<not> is_trim_char (last (pgn_movetext b 0 ms @ r)) \<and>
    hd (pgn_movetext b 0 ms @ r) \<noteq> CHR ''['' \<and> newline \<notin> set r"
proof -
  have "dec_nat (Suc 0) = ''1''" by (simp add: dec_nat.simps dec_digit_def)
  then have "hd (pgn_movetext b 0 ms @ r) \<in> set ''10*''"
    using assms by (cases ms) (auto simp: is_result_def)
  moreover have "r \<noteq> []" "last r \<in> set ''102*''" "newline \<notin> set r" using assms by (auto simp: is_result_def)
  ultimately show ?thesis by (auto simp: is_trim_char_def)
qed

lemma pgn_round_trip:
  assumes "line_of_play generate_legal_moves make_move starting_position ms b'" and "is_result r"
    and "\<forall>t \<in> set tags. tag_ok t \<and> tag_name t \<noteq> ''FEN''"
  shows "import_pgn (export_pgn tags ms r) = Some \<lparr>pgn_tags = tags, pgn_moves = ms, pgn_result = r\<rparr>"
proof -
  let ?text = "pgn_movetext starting_position 0 ms @ r"
  have ok: "position_ok starting_position" using position_ok_start by (simp add: starting_position_board)
  have tags: "\<forall>t \<in> set tags. tag_ok t" using assms(3) by blast
  have mtext: "?text \<noteq> []" "trim ?text = ?text" "hd ?text \<noteq> CHR ''[''" "newline \<notin> set ?text"
    using movetext_ends [OF assms(2), of starting_position ms] movetext_chars [OF ok assms(1)]
      result_nonblank [OF assms(2)] by (auto intro: trim_id)
  have "split_lines (export_pgn tags ms r) =
      map tag_line tags @ (if tags \<noteq> [] then [[]] else []) @ [?text]"
    using split_lines_line [OF mtext(4), of "[]"] split_lines_line [of "[]" "?text @ [newline]"]
    unfolding export_pgn_def split_lines_tags [OF tags] by simp
  then have "read_tags (split_lines (export_pgn tags ms r)) [] u = (tags, ?text, [])" for u
    using read_tags_text [OF tags mtext(1-3)] by simp
  moreover have "pgn_start tags = Some starting_position"
    using assms(3) by (cases "find (\<lambda>t. tag_name t = ''FEN'') tags") (auto simp: pgn_start_def find_Some_iff)
  ultimately show ?thesis
    using read_moves_text [OF ok assms(1,2)] by (simp add: import_pgn_def)
qed


section \<open>Properties\<close>

text \<open>
  C17. SAN round trip: in a sound position, the SAN string of a legal move (with its disambiguation,
  capture, promotion and check marks, or a castling string) is parsed back to that very move.
\<close>

theorem san_to_move_move_to_san:
  assumes "position_ok b" and "m \<in> set (generate_legal_moves b)"
  shows "san_to_move b (move_to_san b m) = m"
  by (rule san_round_trip [OF assms])

theorem san_to_move_move_to_san_witness:
  "san_to_move start_board (move_to_san start_board (Move 12 28 MF_DOUBLE_PAWN_PUSH PT_NONE)) =
     Move 12 28 MF_DOUBLE_PAWN_PUSH PT_NONE"
  by (rule san_to_move_move_to_san [OF position_ok_start e2e4_legal])

text \<open>
  C16. PGN round trip: a game of legal moves from the starting position, exported with tags whose
  names have no blank and whose values are single lines and with one of the four result strings, is
  imported again with exactly those tags, moves and that result.
\<close>

theorem import_pgn_export_pgn:
  assumes "line_of_play generate_legal_moves make_move starting_position ms b'" and "is_result r"
    and "\<forall>t \<in> set tags. tag_ok t \<and> tag_name t \<noteq> ''FEN''"
  shows "import_pgn (export_pgn tags ms r) = Some \<lparr>pgn_tags = tags, pgn_moves = ms, pgn_result = r\<rparr>"
  by (rule pgn_round_trip [OF assms])

theorem import_pgn_export_pgn_witness:
  "import_pgn (export_pgn [\<lparr>tag_name = ''Event'', tag_value = ''Online Game''\<rparr>]
       [Move 12 28 MF_DOUBLE_PAWN_PUSH PT_NONE] ''1-0'') =
   Some \<lparr>pgn_tags = [\<lparr>tag_name = ''Event'', tag_value = ''Online Game''\<rparr>],
         pgn_moves = [Move 12 28 MF_DOUBLE_PAWN_PUSH PT_NONE], pgn_result = ''1-0''\<rparr>"
  by (rule import_pgn_export_pgn [of _ "snd (make_move starting_position (Move 12 28 MF_DOUBLE_PAWN_PUSH PT_NONE))"])
    (simp_all add: starting_position_board e2e4_legal is_result_def tag_ok_def)

text \<open>
  A castling string is not checked: \<open>san_to_move\<close> answers a castling token with a king move in
  every position, whether or not castling is legal; in the starting position, where no legal move
  castles, it returns a castling move of the king over its own pieces, and on a board without the
  king of the side to move it returns a move from outside the board.
\<close>

lemma san_castling_unchecked:
  "san_to_move start_board ''O-O'' = Move E1 G1 MF_KINGSIDE_CASTLE PT_NONE \<and>
   Move E1 G1 MF_KINGSIDE_CASTLE PT_NONE \<notin> set (generate_legal_moves start_board) \<and>
   m_from (san_to_move clear_board ''O-O'') = NO_SQUARE"
proof -
  have "find_king_from (replicate n no_piece) c k = NO_SQUARE" for n c k
    by (induction n arbitrary: k) simp_all
  then have "find_king clear_board WHITE = NO_SQUARE"
    by (simp add: find_king_def clear_board_def recompute_zobrist_key_def)
  moreover have "side_to_move clear_board = WHITE" by (simp add: clear_board_def recompute_zobrist_key_def)
  moreover have "find_king start_unkeyed WHITE = E1" "side_to_move start_unkeyed = WHITE"
    "Move E1 G1 MF_KINGSIDE_CASTLE PT_NONE \<notin> set (generate_pseudo_legal_moves start_unkeyed)"
    by code_simp+
  then have "find_king start_board WHITE = E1" "side_to_move start_board = WHITE"
    "Move E1 G1 MF_KINGSIDE_CASTLE PT_NONE \<notin> set (generate_pseudo_legal_moves start_board)"
    by (simp_all add: start_board_unkeyed find_king_def)
  ultimately show ?thesis
    using legal_pseudo [OF position_ok_start]
    by (auto simp: san_to_move_def make_square_def rank_of_def)
qed

end
