(* ===== verification/Refinement.thy ===== *)
theory Refinement
  imports Prelude
begin

text \<open>
  Components as machines that serve calls: a call takes the state to an output and a new state, and a
  run is a list of calls. The locale is the contract of a refinement: an invariant that every call
  keeps and an abstraction under which every call is a step of an abstract machine. Its lemmas carry
  abstract invariants and reachability over to runs. The game room is an interpretation of it.
\<close>

primrec run_all :: "('op \<Rightarrow> 's \<Rightarrow> 'o \<times> 's) \<Rightarrow> 'op list \<Rightarrow> 's \<Rightarrow> 'o list \<times> 's" where
  \<comment> \<open>a sequence of calls: the output of each and the state they leave\<close>
  "run_all step [] s = ([], s)"
| "run_all step (p # ps) s =
     (let (out, s1) = step p s; (outs, s2) = run_all step ps s1 in (out # outs, s2))"

lemma run_all_append:
  "run_all step (ps @ qs) s =
     (let (outs, s1) = run_all step ps s; (outs', s2) = run_all step qs s1 in (outs @ outs', s2))"
  by (induction ps arbitrary: s) (simp_all add: split_beta Let_def)

lemma length_run_all [simp]: "length (fst (run_all step ps s)) = length ps"
  by (induction ps arbitrary: s) (simp_all add: split_beta Let_def)

locale refinement =
  fixes step :: "'op \<Rightarrow> 's \<Rightarrow> 'o \<times> 's"
    and abst :: "'s \<Rightarrow> 'a"
    and astep :: "'a \<Rightarrow> 'a \<Rightarrow> bool"
    and ok :: "'s \<Rightarrow> bool"
  assumes ok_step: "ok s \<Longrightarrow> ok (snd (step p s))"
    and simulates: "ok s \<Longrightarrow> astep (abst s) (abst (snd (step p s)))"
begin

lemma run_ok: "ok s \<Longrightarrow> ok (snd (run_all step ps s))"
  by (induction ps arbitrary: s) (simp_all add: split_beta ok_step)

lemma run_simulates: "ok s \<Longrightarrow> astep\<^sup>*\<^sup>* (abst s) (abst (snd (run_all step ps s)))"
proof (induction ps arbitrary: s)
  case (Cons p ps)
  have "astep (abst s) (abst (snd (step p s)))" by (rule simulates [OF Cons.prems])
  moreover have "astep\<^sup>*\<^sup>* (abst (snd (step p s))) (abst (snd (run_all step ps (snd (step p s)))))"
    by (rule Cons.IH [OF ok_step [OF Cons.prems]])
  ultimately show ?case by (simp add: split_beta converse_rtranclp_into_rtranclp)
qed simp

lemma run_invariant:
  assumes "\<And>a b. astep a b \<Longrightarrow> I a \<Longrightarrow> I b" and "ok s" and "I (abst s)"
  shows "I (abst (snd (run_all step ps s)))"
  using run_simulates [OF assms(2), of ps] assms(3)
  by (induction rule: rtranclp_induct) (auto intro: assms(1))

end

end
