(* ===== verification/GameRoom.thy ===== *)
theory GameRoom
  imports Notation Refinement "HOL-Library.Signed_Division"
begin

text \<open>
  A game room (\<open>src/game/game_room.h\<close>, \<open>src/game/game_room.cpp\<close>, with the snapshot and event types of
  \<open>game_snapshot.h\<close> and \<open>game_events.h\<close> and the difficulty names of \<open>ai_player.cpp\<close>): the authoritative
  state of one game from its creation to its result. Every public method is one operation on the
  room record; what it reads from outside (the steady and the system clock, a fresh identifier) is
  its \<open>env\<close> argument, and what it sends to listeners after the lock is released is its output.
  Steady and system times are nanoseconds. Arithmetic on milliseconds is on integers; the cast of
  an elapsed time to a 32-bit \<open>int\<close> wraps.
\<close>

section \<open>State\<close>

datatype room_state = WAITING | IN_PROGRESS | FINISHED

record time_control =
  base_time_ms :: int
  increment_ms :: int

record player_slot =
  connection_fd :: int
  connection_generation :: nat
  player_id :: nat
  db_player_id :: int
  username :: string
  elo :: int
  remaining_ms :: int
  connected :: bool
  tournament_checked_in :: bool
  disconnected_at :: int
  clock_start :: int

definition empty_slot :: player_slot where
  "empty_slot = \<lparr>connection_fd = -1, connection_generation = 0, player_id = 0, db_player_id = 0,
     username = [], elo = 1200, remaining_ms = 0, connected = False, tournament_checked_in = False,
     disconnected_at = 0, clock_start = 0\<rparr>"

record move_record =
  mr_move :: move
  mr_san :: string
  mr_think_ms :: int

datatype ai_difficulty = EASY | MEDIUM | HARD | MAX_LEVEL

definition difficulty_name :: "ai_difficulty \<Rightarrow> string" where
  "difficulty_name d = (case d of EASY \<Rightarrow> ''Easy'' | MEDIUM \<Rightarrow> ''Medium'' | HARD \<Rightarrow> ''Hard'' | MAX_LEVEL \<Rightarrow> ''Max'')"

definition parse_difficulty :: "string \<Rightarrow> ai_difficulty" where
  "parse_difficulty s =
     (if s = ''easy'' then EASY else if s = ''medium'' then MEDIUM else if s = ''hard'' then HARD
      else if s = ''max'' then MAX_LEVEL else MEDIUM)"

definition limits_for :: "ai_difficulty \<Rightarrow> int \<times> int" where
  \<comment> \<open>maximal depth and time in milliseconds\<close>
  "limits_for d = (case d of EASY \<Rightarrow> (2, 200) | MEDIUM \<Rightarrow> (4, 1000) | HARD \<Rightarrow> (6, 3000) | MAX_LEVEL \<Rightarrow> (64, 5000))"

record player_snapshot =
  ps_db_player_id :: int
  ps_player_id :: nat
  ps_username :: string
  ps_elo :: int
  ps_remaining_ms :: int

record game_snapshot =
  sn_room_id :: nat
  sn_uuid :: string
  sn_is_ai :: bool
  sn_tournament_id :: int
  sn_pairing_id :: int
  sn_revision :: "64 word"
  sn_status :: game_status
  sn_result :: string
  sn_reason :: string
  sn_white :: player_snapshot
  sn_black :: player_snapshot
  sn_time_control :: time_control
  sn_started_at :: string
  sn_ended_at :: string
  sn_history :: "move_record list"
  sn_move_count :: int

record game_started =
  st_room_id :: nat
  st_white_db_id :: int
  st_black_db_id :: int
  st_is_ai :: bool
  st_tournament_id :: int
  st_pairing_id :: int

datatype room_output =
    Before_completion
  | Started nat game_started
  | Completed nat game_snapshot

record room =
  room_id :: nat
  state :: room_state
  board :: board
  time_control :: time_control
  result :: string
  game_status :: game_status
  is_ai :: bool
  is_tournament_reserved :: bool
  reserved_open :: bool
  tournament_id :: int
  pairing_id :: int
  ai_difficulty :: ai_difficulty
  ai_color :: color
  white :: player_slot
  black :: player_slot
  move_history :: "move_record list"
  draw_offer_from :: "color option"
  draw_offer_created_at :: int
  rematch_offer_from :: "color option"
  rematch_offer_created_at :: int
  spectator_fds :: "int list"
  game_start_time :: int
  wall_start :: int
  wall_end :: int
  revision :: "64 word"
  listeners :: "nat list"
  pending_completed :: "game_snapshot option"
  pending_listeners :: "nat list"
  pending_before :: bool

record env =
  \<comment> \<open>the clock reads of one call, in the order the code makes them, and a fresh identifier\<close>
  now_flag :: int
  now_think :: int
  now_switch :: int
  now_steady :: int
  now_system :: int
  fresh_uuid :: string

section \<open>Helpers\<close>

definition to_int32 :: "int \<Rightarrow> int" where
  "to_int32 x = (x + 2 ^ 31) mod 2 ^ 32 - 2 ^ 31"

definition elapsed_ms :: "int \<Rightarrow> int \<Rightarrow> int" where
  \<comment> \<open>\<open>duration_cast<milliseconds>\<close> of a difference of nanosecond time points, cast to \<open>int\<close>\<close>
  "elapsed_ms now start = to_int32 ((now - start) sdiv 1000000)"

definition snapshot_termination_reason :: "game_status \<Rightarrow> string" where
  "snapshot_termination_reason s =
     (case s of
        CHECKMATE \<Rightarrow> ''checkmate'' | STALEMATE \<Rightarrow> ''stalemate'' | DRAW_FIFTY_MOVE \<Rightarrow> ''fifty_move_rule''
      | DRAW_INSUFFICIENT_MATERIAL \<Rightarrow> ''insufficient_material''
      | DRAW_THREEFOLD_REPETITION \<Rightarrow> ''threefold_repetition'' | DRAW_AGREEMENT \<Rightarrow> ''draw_agreement''
      | RESIGNATION \<Rightarrow> ''resignation'' | TIMEOUT \<Rightarrow> ''timeout'' | ABANDONMENT \<Rightarrow> ''abandonment''
      | ONGOING \<Rightarrow> ''unknown'')"

definition pad2 :: "int \<Rightarrow> string" where
  "pad2 i = (if i < 10 then ''0'' @ dec_int i else dec_int i)"

definition civil_of_days :: "int \<Rightarrow> int \<times> int \<times> int" where
  \<comment> \<open>year, month and day of a day number counted from 1970-01-01, as \<open>gmtime_r\<close> computes them\<close>
  "civil_of_days z0 =
     (let z = z0 + 719468; era = z div 146097; doe = z - era * 146097;
          yoe = (doe - doe div 1460 + doe div 36524 - doe div 146096) div 365;
          doy = doe - (365 * yoe + yoe div 4 - yoe div 100);
          mp = (5 * doy + 2) div 153;
          d = doy - (153 * mp + 2) div 5 + 1;
          m = (if mp < 10 then mp + 3 else mp - 9)
      in (yoe + era * 400 + (if m \<le> 2 then 1 else 0), m, d))"

definition format_iso8601 :: "int \<Rightarrow> string" where
  "format_iso8601 ns =
     (let secs = ns sdiv 1000000000; days = secs div 86400; sod = secs mod 86400;
          (y, m, d) = civil_of_days days
      in dec_int y @ ''-'' @ pad2 m @ ''-'' @ pad2 d @ ''T'' @ pad2 (sod div 3600) @ '':'' @
         pad2 (sod div 60 mod 60) @ '':'' @ pad2 (sod mod 60) @ ''Z'')"

definition time_control_to_string :: "time_control \<Rightarrow> string" where
  "time_control_to_string tc =
     dec_int (base_time_ms tc sdiv 1000) @ ''+'' @ dec_int (increment_ms tc sdiv 1000)"

definition is_empty_slot :: "player_slot \<Rightarrow> bool" where
  "is_empty_slot s \<longleftrightarrow> connection_fd s = -1"

definition slot_of :: "room \<Rightarrow> color \<Rightarrow> player_slot" where
  "slot_of r c = (if c = WHITE then white r else black r)"

definition upd_slot :: "color \<Rightarrow> (player_slot \<Rightarrow> player_slot) \<Rightarrow> room \<Rightarrow> room" where
  "upd_slot c f r = (if c = WHITE then r\<lparr>white := f (white r)\<rparr> else r\<lparr>black := f (black r)\<rparr>)"

definition bump :: "room \<Rightarrow> room" where
  \<comment> \<open>\<open>revision_.fetch_add(1)\<close>\<close>
  "bump r = r\<lparr>revision := revision r + 1\<rparr>"

definition color_of :: "room \<Rightarrow> int \<Rightarrow> color" where
  "color_of r fd =
     (if connection_fd (white r) = fd then WHITE
      else if connection_fd (black r) = fd then BLACK else C_NONE)"

definition snapshot_slot :: "player_slot \<Rightarrow> player_snapshot" where
  "snapshot_slot s = \<lparr>ps_db_player_id = db_player_id s, ps_player_id = player_id s,
     ps_username = username s, ps_elo = elo s, ps_remaining_ms = remaining_ms s\<rparr>"

definition build_snapshot :: "string \<Rightarrow> room \<Rightarrow> game_snapshot" where
  "build_snapshot uuid r =
     \<lparr>sn_room_id = room_id r, sn_uuid = uuid, sn_is_ai = is_ai r, sn_tournament_id = tournament_id r,
      sn_pairing_id = pairing_id r, sn_revision = revision r, sn_status = game_status r,
      sn_result = result r, sn_reason = snapshot_termination_reason (game_status r),
      sn_white = snapshot_slot (white r), sn_black = snapshot_slot (black r),
      sn_time_control = time_control r, sn_started_at = format_iso8601 (wall_start r),
      sn_ended_at = format_iso8601 (wall_end r), sn_history = move_history r,
      sn_move_count = int (length (move_history r))\<rparr>"

definition finish_game :: "env \<Rightarrow> game_status \<Rightarrow> string \<Rightarrow> room \<Rightarrow> room" where
  "finish_game e status res r =
     (let r1 = r\<lparr>state := FINISHED, game_status := status, result := res, wall_end := now_system e\<rparr>
      in r1\<lparr>pending_completed := Some (build_snapshot (fresh_uuid e) r1), pending_listeners := listeners r1\<rparr>)"

definition switch_clock :: "int \<Rightarrow> room \<Rightarrow> room" where
  "switch_clock now r =
     (let just_moved = opposite_color (side_to_move (board r));
          left = remaining_ms (slot_of r just_moved) - elapsed_ms now (clock_start (slot_of r just_moved)) +
                 increment_ms (time_control r)
      in upd_slot (opposite_color just_moved) (\<lambda>s. s\<lparr>clock_start := now\<rparr>)
           (upd_slot just_moved (\<lambda>s. s\<lparr>remaining_ms := (if left < 0 then 0 else left)\<rparr>) r))"

definition check_flag :: "int \<Rightarrow> room \<Rightarrow> bool" where
  "check_flag now r \<longleftrightarrow>
     state r = IN_PROGRESS \<and>
     (let active = slot_of r (side_to_move (board r))
      in remaining_ms active - elapsed_ms now (clock_start active) \<le> 0)"

definition drain :: "room \<Rightarrow> room_output list \<times> room" where
  \<comment> \<open>\<open>LockAndDrain::~LockAndDrain\<close>: a queued completion is taken, the lock released and the
      callback and the listeners of the snapshot are called\<close>
  "drain r =
     (case pending_completed r of
        None \<Rightarrow> ([], r)
      | Some sn \<Rightarrow>
          ((if pending_before r then [Before_completion] else []) @
             map (\<lambda>l. Completed l sn) (pending_listeners r),
           r\<lparr>pending_completed := None, pending_listeners := [], pending_before := False\<rparr>))"

definition locked :: "'a \<times> room \<Rightarrow> 'a \<times> room_output list \<times> room" where
  \<comment> \<open>the end of a public method whose body returned a value and left this room\<close>
  "locked p = (let (outs, r) = drain (snd p) in (fst p, outs, r))"

definition started_event :: "room \<Rightarrow> game_started" where
  "started_event r = \<lparr>st_room_id = room_id r, st_white_db_id = db_player_id (white r),
     st_black_db_id = db_player_id (black r), st_is_ai = False, st_tournament_id = tournament_id r,
     st_pairing_id = pairing_id r\<rparr>"

definition emit_started :: "game_started \<Rightarrow> room \<Rightarrow> room_output list \<times> room" where
  "emit_started ev r = (let (outs, r1) = drain r in (outs @ map (\<lambda>l. Started l ev) (listeners r), r1))"

section \<open>Construction\<close>

definition fresh_room :: "nat \<Rightarrow> time_control \<Rightarrow> room" where
  \<comment> \<open>the member initialisers that the constructors share\<close>
  "fresh_room rid tc =
     \<lparr>room_id = rid, state = WAITING, board = starting_position, time_control = tc, result = ''*'',
      game_status = ONGOING, is_ai = False, is_tournament_reserved = False, reserved_open = False,
      tournament_id = 0, pairing_id = 0, ai_difficulty = MEDIUM, ai_color = BLACK,
      white = empty_slot, black = empty_slot, move_history = [], draw_offer_from = None,
      draw_offer_created_at = 0, rematch_offer_from = None, rematch_offer_created_at = 0,
      spectator_fds = [], game_start_time = 0, wall_start = 0, wall_end = 0, revision = 0,
      listeners = [], pending_completed = None, pending_listeners = [], pending_before = False\<rparr>"

definition creator_slot :: "nat \<Rightarrow> string \<Rightarrow> int \<Rightarrow> time_control \<Rightarrow> int \<Rightarrow> int \<Rightarrow> player_slot" where
  "creator_slot pid name fd tc db rating = empty_slot\<lparr>connection_fd := fd, player_id := pid,
     db_player_id := db, username := name, elo := rating, remaining_ms := base_time_ms tc, connected := True\<rparr>"

definition human_room :: "nat \<Rightarrow> nat \<Rightarrow> string \<Rightarrow> int \<Rightarrow> time_control \<Rightarrow> int \<Rightarrow> int \<Rightarrow> room" where
  "human_room rid pid name fd tc db rating =
     (fresh_room rid tc)\<lparr>white := creator_slot pid name fd tc db rating\<rparr>"

definition ai_room :: "env \<Rightarrow> nat \<Rightarrow> nat \<Rightarrow> string \<Rightarrow> int \<Rightarrow> time_control \<Rightarrow> ai_difficulty \<Rightarrow> int \<Rightarrow> int \<Rightarrow> room" where
  "ai_room e rid pid name fd tc diff db rating =
     (fresh_room rid tc)\<lparr>state := IN_PROGRESS, is_ai := True, ai_difficulty := diff, ai_color := BLACK,
        white := (creator_slot pid name fd tc db rating)\<lparr>clock_start := now_steady e\<rparr>,
        black := empty_slot\<lparr>connection_fd := -2, player_id := 0,
          username := ''AI ('' @ difficulty_name diff @ '')'', remaining_ms := base_time_ms tc,
          connected := True\<rparr>,
        game_start_time := now_steady e, wall_start := now_system e\<rparr>"

definition tournament_room ::
  "nat \<Rightarrow> int \<Rightarrow> int \<Rightarrow> int \<Rightarrow> string \<Rightarrow> int \<Rightarrow> int \<Rightarrow> string \<Rightarrow> int \<Rightarrow> time_control \<Rightarrow> room" where
  "tournament_room rid tid pair wdb wname welo bdb bname belo tc =
     (fresh_room rid tc)\<lparr>is_tournament_reserved := True, tournament_id := tid, pairing_id := pair,
        white := empty_slot\<lparr>db_player_id := wdb, username := wname, elo := welo, remaining_ms := base_time_ms tc\<rparr>,
        black := empty_slot\<lparr>db_player_id := bdb, username := bname, elo := belo, remaining_ms := base_time_ms tc\<rparr>\<rparr>"


section \<open>Operations before the game\<close>

definition start_game :: "env \<Rightarrow> room \<Rightarrow> room" where
  "start_game e r = r\<lparr>state := IN_PROGRESS, game_start_time := now_steady e, wall_start := now_system e,
     white := (white r)\<lparr>clock_start := now_steady e\<rparr>\<rparr>"

definition start_if :: "env \<Rightarrow> bool \<Rightarrow> room \<Rightarrow> room_output list \<times> room" where
  \<comment> \<open>the end of the two calls that may start a reserved game: the start under the lock, and its
      event after the lock\<close>
  "start_if e started r =
     (let r1 = (if started then start_game e r else r);
          (outs, r2) = drain r1;
          (outs', r3) = (if started then emit_started (started_event r1) r2 else ([], r2))
      in (outs @ outs', r3))"

definition join :: "env \<Rightarrow> nat \<Rightarrow> string \<Rightarrow> int \<Rightarrow> int \<Rightarrow> int \<Rightarrow> room \<Rightarrow> bool \<times> room_output list \<times> room" where
  "join e pid name fd db rating r =
     (if state r \<noteq> WAITING \<or> is_tournament_reserved r \<or> \<not> is_empty_slot (black r) then locked (False, r)
      else let r1 = start_game e ((bump r)\<lparr>black := (black r)\<lparr>connection_fd := fd, player_id := pid,
                      db_player_id := db, username := name, elo := rating,
                      remaining_ms := base_time_ms (time_control r), connected := True\<rparr>\<rparr>);
               ev = (started_event r1)\<lparr>st_tournament_id := 0, st_pairing_id := 0\<rparr>;
               (outs, r2) = drain r1; (outs', r3) = emit_started ev r2
           in (True, outs @ outs', r3))"

record bind_result =
  bind_ok :: bool
  bind_color :: color
  bind_started :: bool
  bind_error :: string

abbreviation (input) bind_failed :: "color \<Rightarrow> string \<Rightarrow> bind_result" where
  "bind_failed c err \<equiv> \<lparr>bind_ok = False, bind_color = c, bind_started = False, bind_error = err\<rparr>"

definition seat_of_db :: "room \<Rightarrow> int \<Rightarrow> color" where
  "seat_of_db r db =
     (if db_player_id (white r) = db then WHITE
      else if db_player_id (black r) = db then BLACK else C_NONE)"

definition bind_seat :: "env \<Rightarrow> color \<Rightarrow> nat \<Rightarrow> int \<Rightarrow> nat \<Rightarrow> room \<Rightarrow> room" where
  \<comment> \<open>the seat takes the connection, unless it already has it, and its generation\<close>
  "bind_seat e c pid fd gen r =
     (let seat = slot_of r c;
          r1 = (if \<not> connected seat \<or> connection_fd seat \<noteq> fd
                then upd_slot c (\<lambda>s. s\<lparr>player_id := pid, connection_fd := fd, connected := True,
                       disconnected_at := 0\<rparr>) (bump r)
                else r)
      in upd_slot c (\<lambda>s. s\<lparr>connection_generation := gen\<rparr>) r1)"

definition bind_reserved_player ::
  "env \<Rightarrow> int \<Rightarrow> nat \<Rightarrow> int \<Rightarrow> bool \<Rightarrow> nat \<Rightarrow> room \<Rightarrow> bind_result \<times> room_output list \<times> room" where
  "bind_reserved_player e db pid fd replace gen r =
     (let c = seat_of_db r db; seat = slot_of r c
      in if \<not> is_tournament_reserved r then locked (bind_failed C_NONE ''not_tournament_room'', r)
         else if state r = FINISHED then locked (bind_failed C_NONE ''game_finished'', r)
         else if c = C_NONE then locked (bind_failed C_NONE ''not_reserved_player'', r)
         else if \<not> tournament_checked_in seat then locked (bind_failed c ''round_check_in_required'', r)
         else if gen < connection_generation seat then locked (bind_failed c ''connection_replaced'', r)
         else if connected seat \<and> connection_fd seat \<noteq> fd \<and> \<not> replace
         then locked (bind_failed c ''seat_already_connected'', r)
         else let r1 = bind_seat e c pid fd gen r;
                  started = (reserved_open r1 \<and> state r1 = WAITING \<and> connected (white r1) \<and> connected (black r1));
                  (outs, r2) = start_if e started r1
              in (\<lparr>bind_ok = True, bind_color = c, bind_started = started, bind_error = []\<rparr>, outs, r2))"

definition allow_reserved_player :: "int \<Rightarrow> room \<Rightarrow> bool \<times> room_output list \<times> room" where
  "allow_reserved_player db r =
     locked
       (if \<not> is_tournament_reserved r \<or> state r = FINISHED then (False, r)
        else if db_player_id (white r) = db
        then (True, upd_slot WHITE (\<lambda>s. s\<lparr>tournament_checked_in := True\<rparr>) r)
        else if db_player_id (black r) = db
        then (True, upd_slot BLACK (\<lambda>s. s\<lparr>tournament_checked_in := True\<rparr>) r)
        else (False, r))"

definition open_reserved :: "env \<Rightarrow> room \<Rightarrow> bool \<times> room_output list \<times> room" where
  "open_reserved e r =
     (if \<not> is_tournament_reserved r \<or> state r = FINISHED then locked (False, r)
      else let r1 = r\<lparr>reserved_open := True\<rparr>;
               started = (state r1 = WAITING \<and> connected (white r1) \<and> connected (black r1));
               (outs, r2) = start_if e started (if started then bump r1 else r1)
           in (True, outs, r2))"

section \<open>Moves\<close>

record move_result =
  mv_success :: bool
  mv_error :: string
  mv_san :: string
  mv_status :: game_status
  mv_times :: "(int \<times> int) option"  \<comment> \<open>uninitialised unless the move is accepted\<close>
  mv_fen :: string
  mv_legal :: "string list"
  mv_declined :: bool

abbreviation (input) move_refused :: "game_status \<Rightarrow> string \<Rightarrow> move_result" where
  "move_refused st err \<equiv> \<lparr>mv_success = False, mv_error = err, mv_san = [], mv_status = st,
     mv_times = None, mv_fen = [], mv_legal = [], mv_declined = False\<rparr>"

definition match_move :: "board \<Rightarrow> square \<Rightarrow> square \<Rightarrow> piece_type \<Rightarrow> move option" where
  "match_move b from to promo =
     find (\<lambda>cand. m_from cand = from \<and> m_to cand = to \<and>
             (is_promotion cand \<longrightarrow> m_promo cand = (if promo = PT_NONE then QUEEN else promo)))
       (generate_legal_moves b)"

definition status_result :: "game_status \<Rightarrow> color \<Rightarrow> string" where
  \<comment> \<open>the result string for a status after a move, the argument being the side to move now\<close>
  "status_result status side =
     (case status of
        CHECKMATE \<Rightarrow> if side = WHITE then ''0-1'' else ''1-0''
      | STALEMATE \<Rightarrow> ''1/2-1/2'' | DRAW_FIFTY_MOVE \<Rightarrow> ''1/2-1/2''
      | DRAW_INSUFFICIENT_MATERIAL \<Rightarrow> ''1/2-1/2'' | DRAW_THREEFOLD_REPETITION \<Rightarrow> ''1/2-1/2''
      | _ \<Rightarrow> ''*'')"

definition loss_for :: "color \<Rightarrow> string" where
  "loss_for c = (if c = WHITE then ''0-1'' else ''1-0'')"

definition play_move :: "env \<Rightarrow> color \<Rightarrow> move \<Rightarrow> room \<Rightarrow> room" where
  \<comment> \<open>the move on the board, its record in the history and the clocks\<close>
  "play_move e c m r =
     (let san = move_to_san (board r) m;
          think = elapsed_ms (now_think e) (clock_start (slot_of r c));
          r1 = r\<lparr>board := snd (make_move (board r) m),
                 move_history := move_history r @ [\<lparr>mr_move = m, mr_san = san, mr_think_ms = think\<rparr>]\<rparr>
      in switch_clock (now_switch e) r1)"

definition conclude_move :: "env \<Rightarrow> string \<Rightarrow> bool \<Rightarrow> room \<Rightarrow> move_result \<times> room" where
  \<comment> \<open>the status after a move, the end of the game if it is not ongoing, and the answer\<close>
  "conclude_move e san declined r =
     (let status = get_game_status (board r);
          r1 = (if status \<noteq> ONGOING
                then finish_game e status (status_result status (side_to_move (board r))) r else r)
      in (\<lparr>mv_success = True, mv_error = [], mv_san = san, mv_status = status,
           mv_times = Some (remaining_ms (white r1), remaining_ms (black r1)), mv_fen = to_fen (board r1),
           mv_legal = (if status = ONGOING then map to_uci (generate_legal_moves (board r1)) else []),
           mv_declined = declined\<rparr>, r1))"

definition submit_move ::
  "env \<Rightarrow> int \<Rightarrow> square \<Rightarrow> square \<Rightarrow> piece_type \<Rightarrow> room \<Rightarrow> move_result \<times> room_output list \<times> room" where
  "submit_move e fd from to promo r0 =
     locked
       (let r = bump r0; c = color_of r fd
        in if state r \<noteq> IN_PROGRESS then (move_refused (game_status r) ''Game is not in progress'', r)
           else if c = C_NONE then (move_refused (game_status r) ''You are not a player in this game'', r)
           else if c \<noteq> side_to_move (board r) then (move_refused (game_status r) ''It is not your turn'', r)
           else if check_flag (now_flag e) r
           then (move_refused TIMEOUT ''You have run out of time'', finish_game e TIMEOUT (loss_for c) r)
           else (case match_move (board r) from to promo of
                   None \<Rightarrow> (move_refused (game_status r) ''Illegal move'', r)
                 | Some m \<Rightarrow>
                     let declined = (draw_offer_from r \<noteq> None \<and> draw_offer_from r \<noteq> Some c);
                         r1 = (if declined then r\<lparr>draw_offer_from := None, draw_offer_created_at := 0\<rparr> else r)
                     in conclude_move e (move_to_san (board r) m) declined (play_move e c m r1)))"

definition submit_move_ai ::
  "env \<Rightarrow> square \<Rightarrow> square \<Rightarrow> piece_type \<Rightarrow> room \<Rightarrow> move_result \<times> room_output list \<times> room" where
  "submit_move_ai e from to promo r0 =
     locked
       (let r = bump r0; c = ai_color r
        in if state r \<noteq> IN_PROGRESS then (move_refused (game_status r) ''Game is not in progress'', r)
           else if \<not> is_ai r then (move_refused (game_status r) ''Not an AI game'', r)
           else if side_to_move (board r) \<noteq> c then (move_refused (game_status r) ''It is not the AI's turn'', r)
           else if check_flag (now_flag e) r
           then (move_refused TIMEOUT ''AI clock expired'',
                 finish_game e TIMEOUT (loss_for c) (upd_slot c (\<lambda>s. s\<lparr>remaining_ms := 0\<rparr>) r))
           else (case match_move (board r) from to promo of
                   None \<Rightarrow> (move_refused (game_status r) ''AI produced illegal move'', r)
                 | Some m \<Rightarrow> conclude_move e (move_to_san (board r) m) False (play_move e c m r)))"

section \<open>Resignation, draws, rematches\<close>

definition resign :: "env \<Rightarrow> int \<Rightarrow> bool \<Rightarrow> room \<Rightarrow> bool \<times> room_output list \<times> room" where
  \<comment> \<open>the boolean argument says that a callback was given\<close>
  "resign e fd callback r0 =
     locked
       (let r = bump r0; c = color_of r fd
        in if state r \<noteq> IN_PROGRESS then (False, r)
           else if c = C_NONE then (False, r)
           else (True, finish_game e RESIGNATION (loss_for c) (r\<lparr>pending_before := callback\<rparr>)))"

definition offer_draw :: "env \<Rightarrow> int \<Rightarrow> room \<Rightarrow> (string + unit) \<times> room_output list \<times> room" where
  \<comment> \<open>\<open>Inl\<close> the error message where the source returns false\<close>
  "offer_draw e fd r =
     locked
       (let c = color_of r fd
        in if state r \<noteq> IN_PROGRESS then (Inl ''Game is not in progress'', r)
           else if is_ai r then (Inl ''Draw offers are only available in human games'', r)
           else if c = C_NONE then (Inl ''You are not a player in this game'', r)
           else if \<not> connected (slot_of r (opposite_color c))
           then (Inl ''Your opponent is currently disconnected'', r)
           else (case draw_offer_from r of
                   Some offerer \<Rightarrow> (Inl (if offerer = c then ''You already offered a draw''
                                   else ''Respond to your opponent's draw offer first''), r)
                 | None \<Rightarrow> (Inr (), (bump r)\<lparr>draw_offer_from := Some c, draw_offer_created_at := now_steady e\<rparr>)))"

definition respond_to_draw :: "env \<Rightarrow> int \<Rightarrow> bool \<Rightarrow> room \<Rightarrow> (string + unit) \<times> room_output list \<times> room" where
  "respond_to_draw e fd accept r =
     locked
       (let c = color_of r fd
        in if state r \<noteq> IN_PROGRESS \<or> draw_offer_from r = None
           then (Inl ''There is no pending draw offer'', r)
           else if c = C_NONE then (Inl ''You are not a player in this game'', r)
           else if draw_offer_from r = Some c
           then (Inl ''Only your opponent can respond to this draw offer'', r)
           else let r1 = (bump r)\<lparr>draw_offer_from := None, draw_offer_created_at := 0\<rparr>
                in (Inr (), if accept then finish_game e DRAW_AGREEMENT ''1/2-1/2'' r1 else r1))"

definition expire_draw_offer :: "env \<Rightarrow> int \<Rightarrow> room \<Rightarrow> color \<times> room_output list \<times> room" where
  "expire_draw_offer e ttl_ms r =
     locked
       (case draw_offer_from r of
          None \<Rightarrow> (C_NONE, r)
        | Some c \<Rightarrow>
            if state r \<noteq> IN_PROGRESS then (C_NONE, r)
            else if now_steady e - draw_offer_created_at r < ttl_ms * 1000000 then (C_NONE, r)
            else (c, (bump r)\<lparr>draw_offer_from := None, draw_offer_created_at := 0\<rparr>))"

definition offer_rematch :: "env \<Rightarrow> int \<Rightarrow> room \<Rightarrow> (string + unit) \<times> room_output list \<times> room" where
  "offer_rematch e fd r =
     locked
       (let c = color_of r fd; opponent = slot_of r (opposite_color c)
        in if state r \<noteq> FINISHED then (Inl ''The current game has not finished'', r)
           else if is_ai r then (Inl ''AI rematches start immediately'', r)
           else if is_tournament_reserved r then (Inl ''Tournament games do not support rematches'', r)
           else if c = C_NONE then (Inl ''You are not a player in this game'', r)
           else if \<not> connected opponent \<or> connection_fd opponent < 0
           then (Inl ''Your opponent is no longer connected'', r)
           else (case rematch_offer_from r of
                   Some offerer \<Rightarrow> (Inl (if offerer = c then ''You already offered a rematch''
                                   else ''Respond to your opponent's rematch offer first''), r)
                 | None \<Rightarrow> (Inr (), (bump r)\<lparr>rematch_offer_from := Some c, rematch_offer_created_at := now_steady e\<rparr>)))"

definition respond_to_rematch :: "int \<Rightarrow> bool \<Rightarrow> room \<Rightarrow> (string + color) \<times> room_output list \<times> room" where
  \<comment> \<open>\<open>Inr\<close> the offerer\<close>
  "respond_to_rematch fd accept r =
     locked
       (let c = color_of r fd
        in case rematch_offer_from r of
             None \<Rightarrow> (Inl ''There is no pending rematch offer'', r)
           | Some offerer \<Rightarrow>
               if state r \<noteq> FINISHED then (Inl ''There is no pending rematch offer'', r)
               else if c = C_NONE then (Inl ''You are not a player in this game'', r)
               else if c = offerer then (Inl ''Only your opponent can respond to this rematch offer'', r)
               else (Inr offerer, (bump r)\<lparr>rematch_offer_from := None, rematch_offer_created_at := 0\<rparr>))"

definition expire_rematch_offer :: "env \<Rightarrow> int \<Rightarrow> room \<Rightarrow> color \<times> room_output list \<times> room" where
  "expire_rematch_offer e ttl_ms r =
     locked
       (case rematch_offer_from r of
          None \<Rightarrow> (C_NONE, r)
        | Some c \<Rightarrow>
            if state r \<noteq> FINISHED then (C_NONE, r)
            else if now_steady e - rematch_offer_created_at r < ttl_ms * 1000000 then (C_NONE, r)
            else (c, (bump r)\<lparr>rematch_offer_from := None, rematch_offer_created_at := 0\<rparr>))"


section \<open>Clocks and connections\<close>

definition expire_on_time :: "env \<Rightarrow> room \<Rightarrow> bool \<times> room_output list \<times> room" where
  "expire_on_time e r =
     locked
       (if state r \<noteq> IN_PROGRESS \<or> \<not> check_flag (now_flag e) r then (False, r)
        else let flagged = side_to_move (board r)
             in (True, finish_game e TIMEOUT (loss_for flagged)
                         (bump (upd_slot flagged (\<lambda>s. s\<lparr>remaining_ms := 0\<rparr>) r))))"

definition on_disconnect :: "env \<Rightarrow> int \<Rightarrow> room \<Rightarrow> unit \<times> room_output list \<times> room" where
  "on_disconnect e fd r =
     locked
       ((), let c = color_of r fd
            in if c = C_NONE \<or> \<not> connected (slot_of r c) then r
               else let r1 = upd_slot c (\<lambda>s. s\<lparr>connected := False, disconnected_at := now_steady e,
                               connection_fd := -1\<rparr>) (bump r)
                    in if state r1 = FINISHED then r1
                       else if state r1 = WAITING \<and> \<not> is_tournament_reserved r1
                       then finish_game e RESIGNATION ''*'' r1 else r1)"

definition reconnect_slot :: "int \<Rightarrow> player_slot \<Rightarrow> player_slot" where
  "reconnect_slot fd s = s\<lparr>connection_fd := fd, connected := True, disconnected_at := 0\<rparr>"

definition on_reconnect :: "nat \<Rightarrow> int \<Rightarrow> room \<Rightarrow> bool \<times> room_output list \<times> room" where
  "on_reconnect pid fd r0 =
     locked
       (let r = bump r0
        in if state r = FINISHED then (False, r)
           else if player_id (white r) = pid then (True, upd_slot WHITE (reconnect_slot fd) r)
           else if player_id (black r) = pid then (True, upd_slot BLACK (reconnect_slot fd) r)
           else (False, r))"

definition on_reconnect_db_player :: "env \<Rightarrow> int \<Rightarrow> int \<Rightarrow> nat \<Rightarrow> room \<Rightarrow> bool \<times> room_output list \<times> room" where
  "on_reconnect_db_player e db fd gen r =
     (if is_tournament_reserved r
      then let (b, outs, r1) = bind_reserved_player e db (nat (db mod 2 ^ 64)) fd True gen r in (bind_ok b, outs, r1)
      else locked
        (let c = seat_of_db r db; seat = slot_of r c
         in if db \<le> 0 then (False, r)
            else if c = C_NONE then (False, r)
            else if gen < connection_generation seat then (False, r)
            else if connected seat \<and> connection_fd seat = fd
            then (True, upd_slot c (\<lambda>s. s\<lparr>connection_generation := gen\<rparr>) r)
            else (True, upd_slot c (\<lambda>s. (reconnect_slot fd s)\<lparr>connection_generation := gen\<rparr>) (bump r))))"

definition expire_disconnected :: "env \<Rightarrow> int \<Rightarrow> room \<Rightarrow> bool \<times> room_output list \<times> room" where
  "expire_disconnected e grace_ms r =
     locked
       (let now = now_steady e;
            expired = (\<lambda>s. \<not> connected s \<and> now - disconnected_at s \<ge> grace_ms * 1000000);
            w = expired (white r); b = expired (black r);
            wat = disconnected_at (white r); bat = disconnected_at (black r);
            res = (if w \<and> b \<and> wat = bat then ''1/2-1/2''
                   else if w \<and> (\<not> b \<or> wat < bat) then ''0-1'' else ''1-0'')
        in if state r \<noteq> IN_PROGRESS then (False, r)
           else if \<not> w \<and> \<not> b then (False, r)
           else (True, finish_game e ABANDONMENT res (bump r)))"

section \<open>Spectators and listeners\<close>

definition add_spectator :: "int \<Rightarrow> room \<Rightarrow> bool \<times> room_output list \<times> room" where
  "add_spectator fd r0 =
     locked
       (let r = bump r0
        in if state r \<noteq> IN_PROGRESS then (False, r)
           else if fd = connection_fd (white r) \<or> fd = connection_fd (black r) then (False, r)
           else if fd \<in> set (spectator_fds r) then (True, r)
           else (True, r\<lparr>spectator_fds := spectator_fds r @ [fd]\<rparr>))"

definition remove_spectator :: "int \<Rightarrow> room \<Rightarrow> bool \<times> room_output list \<times> room" where
  "remove_spectator fd r0 =
     locked
       (let r = bump r0
        in (fd \<in> set (spectator_fds r), r\<lparr>spectator_fds := remove1 fd (spectator_fds r)\<rparr>))"

definition add_listener :: "nat \<Rightarrow> room \<Rightarrow> unit \<times> room_output list \<times> room" where
  \<comment> \<open>listeners are named by the address of the object; the null pointer is ignored\<close>
  "add_listener l r = (if l = 0 then ((), [], r) else locked ((), r\<lparr>listeners := listeners r @ [l]\<rparr>))"

definition remove_listener :: "nat \<Rightarrow> room \<Rightarrow> bool \<times> room_output list \<times> room" where
  "remove_listener l r = locked (l \<in> set (listeners r), r\<lparr>listeners := remove1 l (listeners r)\<rparr>)"

section \<open>Accessors\<close>

definition get_player_fd :: "room \<Rightarrow> color \<Rightarrow> int" where
  "get_player_fd r c = (if c = WHITE then connection_fd (white r)
     else if c = BLACK then connection_fd (black r) else -1)"

definition get_opponent_fd :: "room \<Rightarrow> int \<Rightarrow> int" where
  "get_opponent_fd r fd =
     (if connection_fd (white r) = fd then connection_fd (black r)
      else if connection_fd (black r) = fd then connection_fd (white r) else -1)"

definition has_player :: "room \<Rightarrow> int \<Rightarrow> bool" where
  "has_player r fd \<longleftrightarrow> connection_fd (white r) = fd \<or> connection_fd (black r) = fd"

definition has_player_id :: "room \<Rightarrow> nat \<Rightarrow> bool" where
  "has_player_id r pid \<longleftrightarrow> player_id (white r) = pid \<or> player_id (black r) = pid"

definition has_db_player_id :: "room \<Rightarrow> int \<Rightarrow> bool" where
  "has_db_player_id r db \<longleftrightarrow> 0 < db \<and> (db_player_id (white r) = db \<or> db_player_id (black r) = db)"

definition is_connected :: "room \<Rightarrow> color \<Rightarrow> bool" where
  "is_connected r c = (if c = WHITE then connected (white r) else if c = BLACK then connected (black r) else False)"

definition current_turn_fd :: "room \<Rightarrow> int" where
  "current_turn_fd r =
     (if state r \<noteq> IN_PROGRESS then -1 else connection_fd (slot_of r (side_to_move (board r))))"

definition get_remaining_times :: "env \<Rightarrow> room \<Rightarrow> int \<times> int" where
  "get_remaining_times e r =
     (let w = remaining_ms (white r); b = remaining_ms (black r); side = side_to_move (board r);
          left = (\<lambda>ms. let t = ms - elapsed_ms (now_steady e) (clock_start (slot_of r side)) in if t < 0 then 0 else t)
      in if state r \<noteq> IN_PROGRESS then (w, b)
         else if side = WHITE then (left w, b) else (w, left b))"

definition get_legal_moves_uci :: "room \<Rightarrow> string list" where
  "get_legal_moves_uci r = (if state r \<noteq> IN_PROGRESS then [] else map to_uci (generate_legal_moves (board r)))"

definition draw_offer_color :: "room \<Rightarrow> color" where
  "draw_offer_color r = (case draw_offer_from r of None \<Rightarrow> C_NONE | Some c \<Rightarrow> c)"

definition rematch_offer_color :: "room \<Rightarrow> color" where
  "rematch_offer_color r = (case rematch_offer_from r of None \<Rightarrow> C_NONE | Some c \<Rightarrow> c)"

definition room_tags :: "room \<Rightarrow> pgn_tag list" where
  "room_tags r =
     (let tag = (\<lambda>n v. \<lparr>tag_name = n, tag_value = v\<rparr>);
          name = (\<lambda>s d. if username s = [] then d else username s)
      in [tag ''Event'' ''Online Game'', tag ''White'' (name (white r) ''Player 1''),
          tag ''Black'' (name (black r) ''Player 2''), tag ''Result'' (result r),
          tag ''TimeControl'' (time_control_to_string (time_control r))])"

definition to_pgn :: "room \<Rightarrow> string" where
  "to_pgn r = export_pgn (room_tags r) (map mr_move (move_history r)) (result r)"

section \<open>The room as a state machine\<close>

datatype room_op =
    Join nat string int int int
  | Bind_reserved int nat int bool nat
  | Allow_reserved int
  | Open_reserved
  | Submit_move int square square piece_type
  | Submit_move_ai square square piece_type
  | Resign int bool
  | Offer_draw int
  | Respond_draw int bool
  | Expire_draw int
  | Offer_rematch int
  | Respond_rematch int bool
  | Expire_rematch int
  | Expire_on_time
  | Disconnect int
  | Reconnect nat int
  | Reconnect_db int int nat
  | Expire_disconnected int
  | Add_spectator int
  | Remove_spectator int
  | Add_listener nat
  | Remove_listener nat

fun exec_op :: "room_op \<Rightarrow> env \<Rightarrow> room \<Rightarrow> room_output list \<times> room" where
  "exec_op (Join pid name fd db rating) e r = snd (join e pid name fd db rating r)"
| "exec_op (Bind_reserved db pid fd replace gen) e r = snd (bind_reserved_player e db pid fd replace gen r)"
| "exec_op (Allow_reserved db) e r = snd (allow_reserved_player db r)"
| "exec_op Open_reserved e r = snd (open_reserved e r)"
| "exec_op (Submit_move fd from to promo) e r = snd (submit_move e fd from to promo r)"
| "exec_op (Submit_move_ai from to promo) e r = snd (submit_move_ai e from to promo r)"
| "exec_op (Resign fd callback) e r = snd (resign e fd callback r)"
| "exec_op (Offer_draw fd) e r = snd (offer_draw e fd r)"
| "exec_op (Respond_draw fd accept) e r = snd (respond_to_draw e fd accept r)"
| "exec_op (Expire_draw ttl) e r = snd (expire_draw_offer e ttl r)"
| "exec_op (Offer_rematch fd) e r = snd (offer_rematch e fd r)"
| "exec_op (Respond_rematch fd accept) e r = snd (respond_to_rematch fd accept r)"
| "exec_op (Expire_rematch ttl) e r = snd (expire_rematch_offer e ttl r)"
| "exec_op Expire_on_time e r = snd (expire_on_time e r)"
| "exec_op (Disconnect fd) e r = snd (on_disconnect e fd r)"
| "exec_op (Reconnect pid fd) e r = snd (on_reconnect pid fd r)"
| "exec_op (Reconnect_db db fd gen) e r = snd (on_reconnect_db_player e db fd gen r)"
| "exec_op (Expire_disconnected grace) e r = snd (expire_disconnected e grace r)"
| "exec_op (Add_spectator fd) e r = snd (add_spectator fd r)"
| "exec_op (Remove_spectator fd) e r = snd (remove_spectator fd r)"
| "exec_op (Add_listener l) e r = snd (add_listener l r)"
| "exec_op (Remove_listener l) e r = snd (remove_listener l r)"

abbreviation run_ops :: "(room_op \<times> env) list \<Rightarrow> room \<Rightarrow> room_output list list \<times> room" where
  \<comment> \<open>a sequence of calls: the outputs of each call and the room they leave\<close>
  "run_ops \<equiv> run_all (\<lambda>p. exec_op (fst p) (snd p))"

inductive new_room :: "room \<Rightarrow> bool" where
  human: "new_room (human_room rid pid name fd tc db rating)"
| ai: "new_room (ai_room e rid pid name fd tc diff db rating)"
| tournament: "new_room (tournament_room rid tid pair wdb wname welo bdb bname belo tc)"


section \<open>The abstract game\<close>

text \<open>
  What a room promises, without seats, clocks, offers and listeners: a game that waits, is played
  move by move under the rules, and ends once.
\<close>

record game_core =
  c_state :: room_state
  c_board :: board
  c_status :: game_status
  c_result :: string
  c_moves :: "move list"

definition core :: "room \<Rightarrow> game_core" where
  "core r = \<lparr>c_state = state r, c_board = board r, c_status = game_status r, c_result = result r,
     c_moves = map mr_move (move_history r)\<rparr>"

definition core_move :: "move \<Rightarrow> game_core \<Rightarrow> game_core" where
  "core_move m g = g\<lparr>c_board := snd (make_move (c_board g) m), c_moves := c_moves g @ [m]\<rparr>"

definition core_finish :: "game_status \<Rightarrow> string \<Rightarrow> game_core \<Rightarrow> game_core" where
  "core_finish status res g = g\<lparr>c_state := FINISHED, c_status := status, c_result := res\<rparr>"

inductive game_step :: "game_core \<Rightarrow> game_core \<Rightarrow> bool" where
  idle: "game_step g g"
| start: "c_state g = WAITING \<Longrightarrow> game_step g (g\<lparr>c_state := IN_PROGRESS\<rparr>)"
| move: "c_state g = IN_PROGRESS \<Longrightarrow> m \<in> set (generate_legal_moves (c_board g)) \<Longrightarrow>
    g' = core_move m g \<Longrightarrow> get_game_status (c_board g') = ONGOING \<Longrightarrow> game_step g g'"
| last_move: "c_state g = IN_PROGRESS \<Longrightarrow> m \<in> set (generate_legal_moves (c_board g)) \<Longrightarrow>
    g' = core_move m g \<Longrightarrow> status = get_game_status (c_board g') \<Longrightarrow> status \<noteq> ONGOING \<Longrightarrow>
    game_step g (core_finish status (status_result status (side_to_move (c_board g'))) g')"
| resigns: "c_state g = IN_PROGRESS \<Longrightarrow> game_step g (core_finish RESIGNATION (loss_for c) g)"
| flags: "c_state g = IN_PROGRESS \<Longrightarrow> c = side_to_move (c_board g) \<Longrightarrow>
    game_step g (core_finish TIMEOUT (loss_for c) g)"
| agreed: "c_state g = IN_PROGRESS \<Longrightarrow> game_step g (core_finish DRAW_AGREEMENT ''1/2-1/2'' g)"
| abandoned: "c_state g = IN_PROGRESS \<Longrightarrow> res \<in> {''1-0'', ''0-1'', ''1/2-1/2''} \<Longrightarrow>
    game_step g (core_finish ABANDONMENT res g)"
| aborted: "c_state g = WAITING \<Longrightarrow> game_step g (core_finish RESIGNATION ''*'' g)"

inductive_cases game_stepE: "game_step g g'"

lemma core_simps [simp]:
  "c_state (core r) = state r" "c_board (core r) = board r" "c_status (core r) = game_status r"
  "c_result (core r) = result r" "c_moves (core r) = map mr_move (move_history r)"
  by (simp_all add: core_def)

lemma upd_slot_fields [room_simps]:
  "state (upd_slot c f r) = state r" "board (upd_slot c f r) = board r" "result (upd_slot c f r) = result r"
  "game_status (upd_slot c f r) = game_status r" "move_history (upd_slot c f r) = move_history r"
  "pending_completed (upd_slot c f r) = pending_completed r" "pending_listeners (upd_slot c f r) = pending_listeners r"
  "pending_before (upd_slot c f r) = pending_before r" "listeners (upd_slot c f r) = listeners r"
  "time_control (upd_slot c f r) = time_control r" "is_tournament_reserved (upd_slot c f r) = is_tournament_reserved r"
  "revision (upd_slot c f r) = revision r" "draw_offer_from (upd_slot c f r) = draw_offer_from r"
  "rematch_offer_from (upd_slot c f r) = rematch_offer_from r" "spectator_fds (upd_slot c f r) = spectator_fds r"
  "is_ai (upd_slot c f r) = is_ai r" "ai_color (upd_slot c f r) = ai_color r"
  "reserved_open (upd_slot c f r) = reserved_open r"
  by (simp_all add: upd_slot_def)

lemma upd_slot_slots [room_simps]:
  "white (upd_slot c f r) = (if c = WHITE then f (white r) else white r)"
  "black (upd_slot c f r) = (if c = WHITE then black r else f (black r))"
  by (simp_all add: upd_slot_def)

lemma bump_fields [room_simps]:
  "state (bump r) = state r" "board (bump r) = board r" "result (bump r) = result r"
  "game_status (bump r) = game_status r" "move_history (bump r) = move_history r"
  "pending_completed (bump r) = pending_completed r" "pending_listeners (bump r) = pending_listeners r"
  "pending_before (bump r) = pending_before r" "listeners (bump r) = listeners r"
  "time_control (bump r) = time_control r" "is_tournament_reserved (bump r) = is_tournament_reserved r"
  "revision (bump r) = revision r + 1" "draw_offer_from (bump r) = draw_offer_from r"
  "rematch_offer_from (bump r) = rematch_offer_from r" "spectator_fds (bump r) = spectator_fds r"
  "white (bump r) = white r" "black (bump r) = black r" "is_ai (bump r) = is_ai r"
  "ai_color (bump r) = ai_color r" "reserved_open (bump r) = reserved_open r"
  "color_of (bump r) fd = color_of r fd" "check_flag now (bump r) = check_flag now r"
  by (simp_all add: bump_def color_of_def check_flag_def slot_of_def)

lemma switch_clock_fields [room_simps]:
  "state (switch_clock now r) = state r" "board (switch_clock now r) = board r"
  "result (switch_clock now r) = result r" "game_status (switch_clock now r) = game_status r"
  "move_history (switch_clock now r) = move_history r"
  "pending_completed (switch_clock now r) = pending_completed r"
  "pending_listeners (switch_clock now r) = pending_listeners r"
  "pending_before (switch_clock now r) = pending_before r" "listeners (switch_clock now r) = listeners r"
  "revision (switch_clock now r) = revision r" "draw_offer_from (switch_clock now r) = draw_offer_from r"
  "rematch_offer_from (switch_clock now r) = rematch_offer_from r"
  "spectator_fds (switch_clock now r) = spectator_fds r"
  by (simp_all add: switch_clock_def Let_def upd_slot_fields)

lemma finish_game_fields [room_simps]:
  "state (finish_game e status res r) = FINISHED" "board (finish_game e status res r) = board r"
  "result (finish_game e status res r) = res" "game_status (finish_game e status res r) = status"
  "move_history (finish_game e status res r) = move_history r"
  "pending_before (finish_game e status res r) = pending_before r"
  "listeners (finish_game e status res r) = listeners r" "revision (finish_game e status res r) = revision r"
  "pending_listeners (finish_game e status res r) = listeners r"
  "draw_offer_from (finish_game e status res r) = draw_offer_from r"
  "rematch_offer_from (finish_game e status res r) = rematch_offer_from r"
  "spectator_fds (finish_game e status res r) = spectator_fds r"
  "white (finish_game e status res r) = white r" "black (finish_game e status res r) = black r"
  by (simp_all add: finish_game_def Let_def)

section \<open>Every operation refines a step of the abstract game\<close>

definition quiet :: "room \<Rightarrow> bool" where
  \<comment> \<open>no completion is queued: what holds of a room between two calls\<close>
  "quiet r \<longleftrightarrow> pending_completed r = None \<and> \<not> pending_before r"

definition snapshot_of :: "room \<Rightarrow> game_snapshot \<Rightarrow> bool" where
  "snapshot_of r sn \<longleftrightarrow>
     sn_room_id sn = room_id r \<and> sn_status sn = game_status r \<and> sn_result sn = result r \<and>
     sn_history sn = move_history r \<and> sn_move_count sn = int (length (move_history r)) \<and>
     sn_reason sn = snapshot_termination_reason (game_status r) \<and> sn_revision sn = revision r \<and>
     sn_white sn = snapshot_slot (white r) \<and> sn_black sn = snapshot_slot (black r)"

definition completions :: "room_output list \<Rightarrow> (nat \<times> game_snapshot) list" where
  "completions outs = concat (map (\<lambda>out. case out of Completed l sn \<Rightarrow> [(l, sn)] | _ \<Rightarrow> []) outs)"

definition op_effect :: "room \<Rightarrow> room_output list \<times> room \<Rightarrow> bool" where
  "op_effect r p \<longleftrightarrow>
     (let (outs, r') = p in
      quiet r' \<and> game_step (core r) (core r') \<and>
      (if state r \<noteq> FINISHED \<and> state r' = FINISHED
       then \<exists>sn. snapshot_of r' sn \<and> completions outs = map (\<lambda>l. (l, sn)) (listeners r)
       else completions outs = []))"

lemma completions_append: "completions (xs @ ys) = completions xs @ completions ys"
  by (simp add: completions_def)

lemma completions_map [simp]:
  "completions (map (\<lambda>l. Completed l sn) ls) = map (\<lambda>l. (l, sn)) ls"
  "completions (map (\<lambda>l. Started l ev) ls) = []" "completions [] = []" "completions [Before_completion] = []"
  by (induction ls) (simp_all add: completions_def)

lemma locked_quiet: "quiet x \<Longrightarrow> locked (a, x) = (a, [], x)"
  by (simp add: locked_def drain_def quiet_def)

lemma effect_keep:
  assumes "quiet x" and "game_step (core r) (core x)" and "state x = FINISHED \<Longrightarrow> state r = FINISHED"
  shows "op_effect r (snd (locked (a, x)))"
  using assms by (auto simp: op_effect_def locked_quiet)

lemma effect_same:
  assumes "quiet x" and "core x = core r"
  shows "op_effect r (snd (locked (a, x)))"
proof -
  have "state x = state r" using assms(2) by (metis core_simps(1))
  then show ?thesis using assms by (intro effect_keep) (auto intro: game_step.idle)
qed

lemma effect_finish:
  assumes "game_step (core r) (core_finish status res (core x))" and "state r \<noteq> FINISHED" and "listeners x = listeners r"
  shows "op_effect r (snd (locked (a, finish_game e status res x)))"
proof -
  let ?y = "finish_game e status res x"
  let ?sn = "build_snapshot (fresh_uuid e) (x\<lparr>state := FINISHED, game_status := status, result := res, wall_end := now_system e\<rparr>)"
  let ?z = "?y\<lparr>pending_completed := None, pending_listeners := [], pending_before := False\<rparr>"
  have pend: "pending_completed ?y = Some ?sn" by (simp add: finish_game_def Let_def)
  have "snapshot_of ?z ?sn"
    by (simp add: snapshot_of_def build_snapshot_def room_simps) (simp add: finish_game_def Let_def)
  moreover have "core ?z = core_finish status res (core x)"
    by (simp add: core_def core_finish_def room_simps)
  moreover have "snd (locked (a, ?y)) =
      ((if pending_before x then [Before_completion] else []) @ map (\<lambda>l. Completed l ?sn) (listeners r), ?z)"
    using assms(3) by (simp add: locked_def drain_def pend room_simps)
  moreover have "completions ((if pending_before x then [Before_completion] else []) @
      map (\<lambda>l. Completed l ?sn) (listeners r)) = map (\<lambda>l. (l, ?sn)) (listeners r)"
    by (simp add: completions_append)
  ultimately show ?thesis using assms(1,2) by (auto simp: op_effect_def quiet_def room_simps)
qed

lemma effect_start:
  assumes "quiet x" and "core x = (core r)\<lparr>c_state := IN_PROGRESS\<rparr>" and "state r = WAITING"
  shows "op_effect r (let (outs, y) = drain x; (outs', z) = emit_started ev y in (outs @ outs', z))"
proof -
  have d: "drain x = ([], x)" using assms(1) by (simp add: drain_def quiet_def)
  have "state x = IN_PROGRESS" using assms(2) by (metis core_simps(1) game_core.select_convs(1) game_core.surjective game_core.update_convs(1))
  then show ?thesis
    using assms game_step.start [of "core r"]
    by (auto simp: op_effect_def d emit_started_def completions_append)
qed


lemma join_effect: "quiet r \<Longrightarrow> op_effect r (snd (join e pid name fd db rating r))"
proof (cases "state r \<noteq> WAITING \<or> is_tournament_reserved r \<or> \<not> is_empty_slot (black r)")
  case True
  assume "quiet r"
  then show ?thesis using True by (auto simp: join_def intro: effect_same)
next
  case False
  assume q: "quiet r"
  define x where "x = start_game e ((bump r)\<lparr>black := (black r)\<lparr>connection_fd := fd, player_id := pid,
    db_player_id := db, username := name, elo := rating, remaining_ms := base_time_ms (time_control r), connected := True\<rparr>\<rparr>)"
  have "quiet x" "core x = (core r)\<lparr>c_state := IN_PROGRESS\<rparr>"
    using q by (simp_all add: x_def quiet_def start_game_def core_def room_simps)
  then show ?thesis
    using False effect_start [of x r] by (simp add: join_def x_def [symmetric] Let_def split_beta)
qed

lemma start_if_effect:
  assumes "quiet x" and "core x = core r" and "started \<Longrightarrow> state x = WAITING"
  shows "op_effect r (start_if e started x)"
proof (cases started)
  case True
  have "state r = state x" using assms(2) by (metis core_simps(1))
  moreover have "quiet (start_game e x)" "core (start_game e x) = (core r)\<lparr>c_state := IN_PROGRESS\<rparr>"
    using assms(1,2) by (simp_all add: quiet_def start_game_def core_def)
  ultimately show ?thesis
    using True assms(3) effect_start [of "start_game e x" r] by (simp add: start_if_def Let_def)
next
  case False
  have "op_effect r (snd (locked ((), x)))" by (rule effect_same [OF assms(1,2)])
  then show ?thesis using False assms(1) by (simp add: start_if_def locked_quiet drain_def quiet_def)
qed

lemma bind_seat_keeps: "quiet r \<Longrightarrow> quiet (bind_seat e c pid fd gen r) \<and> core (bind_seat e c pid fd gen r) = core r"
  by (simp add: bind_seat_def quiet_def core_def Let_def room_simps)

lemma bind_reserved_effect: "quiet r \<Longrightarrow> op_effect r (snd (bind_reserved_player e db pid fd replace gen r))"
proof -
  assume q: "quiet r"
  have start: "op_effect r (start_if e (reserved_open (bind_seat e c pid fd gen r) \<and>
      state (bind_seat e c pid fd gen r) = WAITING \<and> connected (white (bind_seat e c pid fd gen r)) \<and>
      connected (black (bind_seat e c pid fd gen r))) (bind_seat e c pid fd gen r))" for c
    using bind_seat_keeps [OF q] by (intro start_if_effect) auto
  have same: "op_effect r (snd (locked (a, r)))" for a :: bind_result by (rule effect_same [OF q refl])
  show ?thesis
    unfolding bind_reserved_player_def Let_def split_beta if_distrib [of snd] if_distrib [of "op_effect r"]
    by (simp only: same start if_True if_cancel snd_conv prod.collapse)
qed

lemma open_reserved_effect: "quiet r \<Longrightarrow> op_effect r (snd (open_reserved e r))"
proof (cases "\<not> is_tournament_reserved r \<or> state r = FINISHED")
  case True
  then show "quiet r \<Longrightarrow> ?thesis" by (auto simp: open_reserved_def intro: effect_same)
next
  case False
  assume q: "quiet r"
  let ?s = "state r = WAITING \<and> connected (white r) \<and> connected (black r)"
  have "op_effect r (start_if e ?s (if ?s then bump (r\<lparr>reserved_open := True\<rparr>) else r\<lparr>reserved_open := True\<rparr>))"
    using q by (intro start_if_effect) (auto simp: quiet_def core_def room_simps)
  then show ?thesis using False unfolding open_reserved_def Let_def split_beta by simp
qed

lemma allow_reserved_effect: "quiet r \<Longrightarrow> op_effect r (snd (allow_reserved_player db r))"
  unfolding allow_reserved_player_def
  by (cases "\<not> is_tournament_reserved r \<or> state r = FINISHED"; cases "db_player_id (white r) = db";
      cases "db_player_id (black r) = db")
    (auto intro!: effect_same simp: quiet_def core_def room_simps)

lemma match_move_legal: "match_move b f t promo = Some m \<Longrightarrow> m \<in> set (generate_legal_moves b)"
  by (auto simp: match_move_def find_Some_iff)

lemma play_move_fields [room_simps]:
  "state (play_move e c m r) = state r" "board (play_move e c m r) = snd (make_move (board r) m)"
  "result (play_move e c m r) = result r" "game_status (play_move e c m r) = game_status r"
  "map mr_move (move_history (play_move e c m r)) = map mr_move (move_history r) @ [m]"
  "pending_completed (play_move e c m r) = pending_completed r" "pending_before (play_move e c m r) = pending_before r"
  "listeners (play_move e c m r) = listeners r" "revision (play_move e c m r) = revision r"
  "draw_offer_from (play_move e c m r) = draw_offer_from r"
  "rematch_offer_from (play_move e c m r) = rematch_offer_from r"
  "spectator_fds (play_move e c m r) = spectator_fds r"
  by (simp_all add: play_move_def Let_def room_simps)

lemma conclude_effect:
  assumes "quiet x" and "core x = core r" and "listeners x = listeners r" and "state r = IN_PROGRESS"
    and "m \<in> set (generate_legal_moves (board r))"
  shows "op_effect r (snd (locked (conclude_move e san declined (play_move e' c m x))))"
proof -
  let ?y = "play_move e' c m x"
  let ?status = "get_game_status (board ?y)"
  have b: "board x = board r" "state x = IN_PROGRESS" using assms(2,4) by (metis core_simps)+
  have y: "core ?y = core_move m (core r)"
    using assms(2) by (simp add: core_def core_move_def room_simps)
  show ?thesis
  proof (cases "?status = ONGOING")
    case True
    have "game_step (core r) (core ?y)"
      using assms(4,5) True y by (intro game_step.move [where m = m]) (auto simp: core_move_def b room_simps)
    then show ?thesis
      using True assms(1) b(2) by (simp add: conclude_move_def Let_def) (rule effect_keep, auto simp: quiet_def room_simps)
  next
    case False
    have "game_step (core r) (core_finish ?status (status_result ?status (side_to_move (board ?y))) (core ?y))"
      using game_step.last_move [OF _ _ refl refl, of "core r" m] assms(4,5) False y
      by (simp add: core_move_def b room_simps)
    then show ?thesis
      using False assms(3,4) by (simp add: conclude_move_def Let_def) (rule effect_finish, auto simp: room_simps)
  qed
qed

lemma quiet_bump [simp]: "quiet (bump r) = quiet r"
  by (simp add: quiet_def room_simps)

lemma core_bump [simp]: "core (bump r) = core r"
  by (simp add: core_def room_simps)

lemma bump_same: "quiet r \<Longrightarrow> op_effect r (snd (locked (a, bump r)))"
  by (rule effect_same) simp_all

lemma submit_move_effect:
  assumes "quiet r"
  shows "op_effect r (snd (submit_move e fd from to promo r))"
proof (cases "state r = IN_PROGRESS \<and> color_of r fd \<noteq> C_NONE \<and> color_of r fd = side_to_move (board r)")
  case False
  then show ?thesis
    using bump_same [OF assms] by (auto simp: submit_move_def Let_def room_simps split: if_splits)
next
  case True
  let ?r = "bump r"
  have t: "state r = IN_PROGRESS" "side_to_move (board r) \<noteq> C_NONE" "color_of r fd = side_to_move (board r)"
    using True by auto
  show ?thesis
  proof (cases "check_flag (now_flag e) r")
    case flag: True
    have "op_effect r (snd (locked (a, finish_game e TIMEOUT (loss_for (side_to_move (board r))) ?r)))" for a
      using True by (intro effect_finish) (auto simp: room_simps intro: game_step.flags)
    then show ?thesis using t flag by (simp add: submit_move_def Let_def room_simps)
  next
    case noflag: False
    show ?thesis
    proof (cases "match_move (board r) from to promo")
      case None
      then show ?thesis
        using t noflag bump_same [OF assms] by (simp add: submit_move_def Let_def room_simps)
    next
      case (Some m)
      have "op_effect r (snd (locked (conclude_move e san d (play_move e c m
          (if b then ?r\<lparr>draw_offer_from := None, draw_offer_created_at := 0\<rparr> else ?r)))))" for san d b c
        using True assms match_move_legal [OF Some]
        by (intro conclude_effect) (auto simp: quiet_def core_def room_simps)
      then show ?thesis
        using t noflag Some by (simp only: submit_move_def Let_def room_simps) (simp add: room_simps)
    qed
  qed
qed

lemma submit_move_ai_effect:
  assumes "quiet r"
  shows "op_effect r (snd (submit_move_ai e from to promo r))"
proof (cases "state r = IN_PROGRESS \<and> is_ai r \<and> side_to_move (board r) = ai_color r")
  case False
  then show ?thesis
    using bump_same [OF assms] by (auto simp: submit_move_ai_def Let_def room_simps split: if_splits)
next
  case True
  show ?thesis
  proof (cases "check_flag (now_flag e) r")
    case flag: True
    have "op_effect r (snd (locked (a, finish_game e TIMEOUT (loss_for (ai_color r))
        (upd_slot (ai_color r) (\<lambda>s. s\<lparr>remaining_ms := 0\<rparr>) (bump r)))))" for a
    proof (rule effect_finish)
      have "core (upd_slot (ai_color r) (\<lambda>s. s\<lparr>remaining_ms := 0\<rparr>) (bump r)) = core r"
        by (simp add: core_def room_simps)
      then show "game_step (core r) (core_finish TIMEOUT (loss_for (ai_color r))
          (core (upd_slot (ai_color r) (\<lambda>s. s\<lparr>remaining_ms := 0\<rparr>) (bump r))))"
        using True by (simp add: game_step.flags)
    qed (use True in \<open>simp_all add: room_simps\<close>)
    then show ?thesis using True flag by (simp add: submit_move_ai_def Let_def room_simps)
  next
    case noflag: False
    show ?thesis
    proof (cases "match_move (board r) from to promo")
      case None
      then show ?thesis
        using True noflag bump_same [OF assms] by (simp add: submit_move_ai_def Let_def room_simps)
    next
      case (Some m)
      then show ?thesis
        using True noflag assms match_move_legal [OF Some]
        by (simp add: submit_move_ai_def Let_def room_simps) (rule conclude_effect, simp_all add: room_simps)
    qed
  qed
qed


lemma resign_effect: "quiet r \<Longrightarrow> op_effect r (snd (resign e fd callback r))"
proof -
  assume q: "quiet r"
  have "op_effect r (snd (locked (True, finish_game e RESIGNATION (loss_for c) ((bump r)\<lparr>pending_before := callback\<rparr>))))"
    if "state r = IN_PROGRESS" for c
  proof (rule effect_finish)
    have "core ((bump r)\<lparr>pending_before := callback\<rparr>) = core r" by (simp add: core_def room_simps)
    then show "game_step (core r) (core_finish RESIGNATION (loss_for c) (core ((bump r)\<lparr>pending_before := callback\<rparr>)))"
      using that by (simp add: game_step.resigns)
  qed (use that in \<open>simp_all add: room_simps\<close>)
  then show ?thesis using bump_same [OF q, of False] by (auto simp: resign_def Let_def room_simps)
qed

lemma offer_draw_effect: "quiet r \<Longrightarrow> op_effect r (snd (offer_draw e fd r))"
proof -
  assume q: "quiet r"
  have step: "op_effect r (snd (locked (a, (bump r)\<lparr>draw_offer_from := Some c, draw_offer_created_at := now_steady e\<rparr>)))"
    for a :: "string + unit" and c
    using q by (intro effect_same) (simp_all add: quiet_def core_def room_simps)
  show ?thesis by (simp add: offer_draw_def Let_def step effect_same [OF q refl] split: option.split)
qed

lemma respond_to_draw_effect: "quiet r \<Longrightarrow> op_effect r (snd (respond_to_draw e fd accept r))"
proof -
  assume q: "quiet r"
  let ?x = "(bump r)\<lparr>draw_offer_from := None, draw_offer_created_at := 0\<rparr>"
  have x: "quiet ?x" "core ?x = core r" "listeners ?x = listeners r"
    using q by (simp_all add: quiet_def core_def room_simps)
  have keep: "op_effect r (snd (locked (a, ?x)))" for a :: "string + unit" by (rule effect_same [OF x(1,2)])
  have finish: "op_effect r (snd (locked (a, finish_game e DRAW_AGREEMENT ''1/2-1/2'' ?x)))"
    if "state r = IN_PROGRESS" for a :: "string + unit"
    using that x by (intro effect_finish) (simp_all add: game_step.agreed)
  show ?thesis by (simp add: respond_to_draw_def Let_def keep finish effect_same [OF q refl])
qed

lemma expire_draw_effect: "quiet r \<Longrightarrow> op_effect r (snd (expire_draw_offer e ttl r))"
proof -
  assume q: "quiet r"
  have step: "op_effect r (snd (locked (a, (bump r)\<lparr>draw_offer_from := None, draw_offer_created_at := 0\<rparr>)))" for a :: color
    using q by (intro effect_same) (simp_all add: quiet_def core_def room_simps)
  show ?thesis by (simp add: expire_draw_offer_def step effect_same [OF q refl] split: option.split)
qed

lemma offer_rematch_effect: "quiet r \<Longrightarrow> op_effect r (snd (offer_rematch e fd r))"
proof -
  assume q: "quiet r"
  have step: "op_effect r (snd (locked (a, (bump r)\<lparr>rematch_offer_from := Some c, rematch_offer_created_at := now_steady e\<rparr>)))"
    for a :: "string + unit" and c
    using q by (intro effect_same) (simp_all add: quiet_def core_def room_simps)
  show ?thesis by (simp add: offer_rematch_def Let_def step effect_same [OF q refl] split: option.split)
qed

lemma rematch_answer_effect:
  assumes "quiet r"
  shows "op_effect r (snd (respond_to_rematch fd accept r))" and "op_effect r (snd (expire_rematch_offer e ttl r))"
proof -
  have step: "op_effect r (snd (locked (a, (bump r)\<lparr>rematch_offer_from := None, rematch_offer_created_at := 0\<rparr>)))"
    for a :: "string + color"
    using assms by (intro effect_same) (simp_all add: quiet_def core_def room_simps)
  have step': "op_effect r (snd (locked (a, (bump r)\<lparr>rematch_offer_from := None, rematch_offer_created_at := 0\<rparr>)))"
    for a :: color
    using assms by (intro effect_same) (simp_all add: quiet_def core_def room_simps)
  show "op_effect r (snd (respond_to_rematch fd accept r))" "op_effect r (snd (expire_rematch_offer e ttl r))"
    by (simp_all add: respond_to_rematch_def expire_rematch_offer_def Let_def step step' effect_same [OF assms refl]
        split: option.split)
qed

lemma expire_on_time_effect: "quiet r \<Longrightarrow> op_effect r (snd (expire_on_time e r))"
proof -
  assume q: "quiet r"
  let ?x = "bump (upd_slot (side_to_move (board r)) (\<lambda>s. s\<lparr>remaining_ms := 0\<rparr>) r)"
  have x: "core ?x = core r" "listeners ?x = listeners r" by (simp_all add: core_def room_simps)
  have "op_effect r (snd (locked (True, finish_game e TIMEOUT (loss_for (side_to_move (board r))) ?x)))"
    if "state r = IN_PROGRESS"
    using that x by (intro effect_finish) (simp_all add: game_step.flags)
  then show ?thesis by (simp add: effect_same [OF q refl] expire_on_time_def Let_def)
qed

lemma on_disconnect_effect: "quiet r \<Longrightarrow> op_effect r (snd (on_disconnect e fd r))"
proof -
  assume q: "quiet r"
  define x where "x c = upd_slot c (\<lambda>s. s\<lparr>connected := False, disconnected_at := now_steady e, connection_fd := -1\<rparr>) (bump r)" for c
  have x: "quiet (x c)" "core (x c) = core r" "listeners (x c) = listeners r" "state (x c) = state r" for c
    using q by (simp_all add: x_def quiet_def core_def room_simps)
  have "op_effect r (snd (locked ((), x c)))" for c by (rule effect_same [OF x(1,2)])
  moreover have "op_effect r (snd (locked ((), finish_game e RESIGNATION ''*'' (x c))))" if "state r = WAITING" for c
    using that x by (intro effect_finish) (simp_all add: game_step.aborted)
  ultimately show ?thesis
    by (simp add: effect_same [OF q refl] on_disconnect_def Let_def x_def [symmetric] x(4))
qed

lemma on_reconnect_effect: "quiet r \<Longrightarrow> op_effect r (snd (on_reconnect pid fd r))"
proof -
  assume q: "quiet r"
  have "op_effect r (snd (locked (a, upd_slot c f (bump r))))" for a :: bool and c f
    using q by (intro effect_same) (simp_all add: quiet_def core_def room_simps)
  then show ?thesis by (simp add: bump_same [OF q] on_reconnect_def Let_def room_simps)
qed

lemma on_reconnect_db_effect: "quiet r \<Longrightarrow> op_effect r (snd (on_reconnect_db_player e db fd gen r))"
proof -
  assume q: "quiet r"
  have "op_effect r (snd (locked (a, upd_slot c f (bump r))))" "op_effect r (snd (locked (a, upd_slot c f r)))"
    for a :: bool and c f
    using q by (intro effect_same; simp add: quiet_def core_def room_simps)+
  then show ?thesis
    by (simp add: effect_same [OF q refl] bind_reserved_effect [OF q] on_reconnect_db_player_def Let_def split_beta)
qed

lemma expire_disconnected_effect: "quiet r \<Longrightarrow> op_effect r (snd (expire_disconnected e grace r))"
proof -
  assume q: "quiet r"
  have "op_effect r (snd (locked (True, finish_game e ABANDONMENT res (bump r))))"
    if "state r = IN_PROGRESS" "res \<in> {''1-0'', ''0-1'', ''1/2-1/2''}" for res
    using that by (intro effect_finish) (simp_all add: room_simps game_step.abandoned)
  then show ?thesis
    by (simp add: effect_same [OF q refl] expire_disconnected_def Let_def)
qed

lemma bookkeeping_effect:
  assumes "quiet r"
  shows "op_effect r (snd (add_spectator fd r))" "op_effect r (snd (remove_spectator fd r))"
    "op_effect r (snd (add_listener l r))" "op_effect r (snd (remove_listener l r))"
proof -
  have "op_effect r (snd (locked (a, (bump r)\<lparr>spectator_fds := fds\<rparr>)))" "op_effect r (snd (locked (a, r\<lparr>listeners := ls\<rparr>)))"
    for a :: bool and fds ls
    using assms by (intro effect_same; simp add: quiet_def core_def room_simps)+
  moreover have "op_effect r (snd (locked ((), r\<lparr>listeners := ls\<rparr>)))" for ls
    using assms by (intro effect_same) (simp_all add: quiet_def core_def)
  moreover have "op_effect r ([], r)" using effect_same [OF assms refl, of "()"] assms by (simp add: locked_quiet)
  ultimately show "op_effect r (snd (add_spectator fd r))" "op_effect r (snd (remove_spectator fd r))"
    "op_effect r (snd (add_listener l r))" "op_effect r (snd (remove_listener l r))"
    by (simp_all add: bump_same [OF assms] add_spectator_def remove_spectator_def add_listener_def remove_listener_def Let_def room_simps)
qed

lemmas op_effects = join_effect bind_reserved_effect allow_reserved_effect open_reserved_effect submit_move_effect
  submit_move_ai_effect resign_effect offer_draw_effect respond_to_draw_effect expire_draw_effect
  offer_rematch_effect rematch_answer_effect expire_on_time_effect on_disconnect_effect on_reconnect_effect
  on_reconnect_db_effect expire_disconnected_effect bookkeeping_effect

lemma exec_op_effect: "quiet r \<Longrightarrow> op_effect r (exec_op opn e r)"
  by (cases opn) (simp_all add: op_effects)

lemma exec_op_quiet: "quiet r \<Longrightarrow> quiet (snd (exec_op opn e r))"
  using exec_op_effect [of r opn e] by (simp add: op_effect_def split_beta)

lemma exec_op_step: "quiet r \<Longrightarrow> game_step (core r) (core (snd (exec_op opn e r)))"
  using exec_op_effect [of r opn e] by (simp add: op_effect_def split_beta)

lemma new_room_quiet: "new_room r \<Longrightarrow> quiet r"
  by (auto elim!: new_room.cases simp: quiet_def human_room_def ai_room_def tournament_room_def fresh_room_def)


section \<open>Invariants of the abstract game\<close>

definition verdict_ok :: "game_core \<Rightarrow> bool" where
  \<comment> \<open>the result string fits the status, and the status fits the position\<close>
  "verdict_ok g \<longleftrightarrow>
     (case c_status g of
        ONGOING \<Rightarrow> c_result g = ''*''
      | CHECKMATE \<Rightarrow> c_result g = loss_for (side_to_move (c_board g)) \<and> generate_legal_moves (c_board g) = [] \<and>
          is_in_check (c_board g) (side_to_move (c_board g))
      | STALEMATE \<Rightarrow> c_result g = ''1/2-1/2'' \<and> generate_legal_moves (c_board g) = [] \<and>
          \<not> is_in_check (c_board g) (side_to_move (c_board g))
      | DRAW_FIFTY_MOVE \<Rightarrow> c_result g = ''1/2-1/2'' \<and> 100 \<le> halfmove_clock (c_board g)
      | DRAW_AGREEMENT \<Rightarrow> c_result g = ''1/2-1/2''
      | RESIGNATION \<Rightarrow> c_result g \<in> {''1-0'', ''0-1''} \<or> (c_result g = ''*'' \<and> c_moves g = [])
      | TIMEOUT \<Rightarrow> c_result g = loss_for (side_to_move (c_board g))
      | ABANDONMENT \<Rightarrow> c_result g \<in> {''1-0'', ''0-1'', ''1/2-1/2''}
      | DRAW_INSUFFICIENT_MATERIAL \<Rightarrow> False
      | DRAW_THREEFOLD_REPETITION \<Rightarrow> False)"

definition core_ok :: "game_core \<Rightarrow> bool" where
  "core_ok g \<longleftrightarrow>
     line_of_play generate_legal_moves make_move starting_position (c_moves g) (c_board g) \<and>
     (c_state g = FINISHED \<longleftrightarrow> c_status g \<noteq> ONGOING) \<and> (c_state g = WAITING \<longrightarrow> c_moves g = []) \<and>
     verdict_ok g"

lemma status_verdict:
  assumes "get_game_status b = status" and "status \<noteq> ONGOING"
  shows "(status = CHECKMATE \<and> status_result status (side_to_move b) = loss_for (side_to_move b) \<and>
      generate_legal_moves b = [] \<and> is_in_check b (side_to_move b)) \<or>
    (status = STALEMATE \<and> status_result status (side_to_move b) = ''1/2-1/2'' \<and>
      generate_legal_moves b = [] \<and> \<not> is_in_check b (side_to_move b)) \<or>
    (status = DRAW_FIFTY_MOVE \<and> status_result status (side_to_move b) = ''1/2-1/2'' \<and> 100 \<le> halfmove_clock b)"
  using assms by (auto simp: get_game_status_def status_result_def loss_for_def split: if_splits)

lemma game_step_core_ok:
  assumes "game_step g g'" and "core_ok g"
  shows "core_ok g'"
  using assms(1)
proof cases
  case (move m)
  then show ?thesis
    using assms(2) by (auto simp: core_ok_def core_move_def verdict_ok_def intro: line_of_play_snoc)
next
  case (last_move m h status)
  have line: "line_of_play generate_legal_moves make_move starting_position (c_moves h) (c_board h)"
    using last_move(3,4) assms(2) by (auto simp: core_ok_def core_move_def intro: line_of_play_snoc)
  from status_verdict [OF last_move(5) [symmetric] last_move(6)] line show ?thesis
    unfolding last_move(1) by (auto simp: core_ok_def core_finish_def verdict_ok_def)
qed (use assms(2) in \<open>auto simp: core_ok_def core_finish_def verdict_ok_def loss_for_def\<close>)

lemma game_step_finished: "game_step g g' \<Longrightarrow> c_state g = FINISHED \<Longrightarrow> g' = g"
  by (auto elim!: game_stepE)

lemma new_room_core_ok: "new_room r \<Longrightarrow> core_ok (core r)"
  by (auto elim!: new_room.cases simp: core_ok_def verdict_ok_def core_def human_room_def ai_room_def
      tournament_room_def fresh_room_def)

section \<open>Runs\<close>

interpretation room: refinement "\<lambda>p. exec_op (fst p) (snd p)" core game_step quiet
  by unfold_locales (simp_all add: exec_op_quiet exec_op_step)

definition reachable_room :: "room \<Rightarrow> bool" where
  "reachable_room r \<longleftrightarrow> (\<exists>r0 ops. new_room r0 \<and> r = snd (run_ops ops r0))"

lemma reachable_room_ok: "reachable_room r \<Longrightarrow> quiet r \<and> core_ok (core r)"
proof -
  assume "reachable_room r"
  then obtain r0 ops where r0: "new_room r0" "r = snd (run_ops ops r0)" by (auto simp: reachable_room_def)
  have "core_ok (core (snd (run_ops ops r0)))"
    by (rule room.run_invariant [of core_ok, OF game_step_core_ok])
      (simp_all add: new_room_quiet new_room_core_ok r0(1))
  then show ?thesis using room.run_ok [OF new_room_quiet [OF r0(1)]] r0(2) by simp
qed

lemma reachable_step: "reachable_room r \<Longrightarrow> reachable_room (snd (exec_op opn e r))"
proof -
  assume "reachable_room r"
  then obtain r0 ops where "new_room r0" "r = snd (run_ops ops r0)" by (auto simp: reachable_room_def)
  then show ?thesis
    unfolding reachable_room_def
    by (intro exI [of _ r0] exI [of _ "ops @ [(opn, e)]"]) (simp add: run_all_append split_beta)
qed

lemma new_room_reachable: "new_room r \<Longrightarrow> reachable_room r"
  unfolding reachable_room_def by (intro exI [of _ r] exI [of _ "[]"]) simp

lemma reachable_position_ok: "reachable_room r \<Longrightarrow> position_ok (board r)"
  using reachable_room_ok [of r] rules.line_ok [of starting_position] position_ok_start
  by (auto simp: core_ok_def starting_position_board)

lemma finished_stays:
  assumes "quiet r" and "state r = FINISHED"
  shows "core (snd (exec_op opn e r)) = core r \<and> completions (fst (exec_op opn e r)) = []"
  using exec_op_effect [OF assms(1), of opn e] game_step_finished [of "core r"] assms(2)
  by (auto simp: op_effect_def split_beta)

lemma finished_run:
  assumes "quiet r" and "state r = FINISHED"
  shows "filter (\<lambda>outs. completions outs \<noteq> []) (fst (run_ops ops r)) = [] \<and> core (snd (run_ops ops r)) = core r"
  using assms
proof (induction ops arbitrary: r)
  case (Cons p ops)
  obtain opn e where p: "p = (opn, e)" by fastforce
  let ?r = "snd (exec_op opn e r)"
  have stay: "core ?r = core r" "completions (fst (exec_op opn e r)) = []" using finished_stays Cons.prems by blast+
  then have "state ?r = FINISHED" using Cons.prems(2) by (metis core_simps(1))
  then show ?case using Cons.IH [OF exec_op_quiet [OF Cons.prems(1)]] stay p by (simp add: split_beta)
qed simp

lemma completions_at_most_once:
  assumes "quiet r"
  shows "length (filter (\<lambda>outs. completions outs \<noteq> []) (fst (run_ops ops r))) \<le> 1"
  using assms
proof (induction ops arbitrary: r)
  case (Cons p ops)
  obtain opn e where p: "p = (opn, e)" by fastforce
  let ?r = "snd (exec_op opn e r)"
  have q: "quiet ?r" by (rule exec_op_quiet [OF Cons.prems])
  show ?case
  proof (cases "completions (fst (exec_op opn e r)) = []")
    case True
    then show ?thesis using Cons.IH [OF q] p by (simp add: split_beta)
  next
    case False
    then have "state ?r = FINISHED"
      using exec_op_effect [OF Cons.prems, of opn e] by (auto simp: op_effect_def split_beta split: if_splits)
    then show ?thesis using finished_run [OF q] p by (simp add: split_beta)
  qed
qed simp


section \<open>What a call leaves in the other fields\<close>

lemma drain_fields [room_simps]:
  "white (snd (drain r)) = white r" "black (snd (drain r)) = black r" "board (snd (drain r)) = board r"
  "state (snd (drain r)) = state r" "game_status (snd (drain r)) = game_status r"
  "move_history (snd (drain r)) = move_history r" "revision (snd (drain r)) = revision r"
  "time_control (snd (drain r)) = time_control r" "result (snd (drain r)) = result r"
  "spectator_fds (snd (drain r)) = spectator_fds r" "draw_offer_from (snd (drain r)) = draw_offer_from r"
  "rematch_offer_from (snd (drain r)) = rematch_offer_from r"
  by (simp_all add: drain_def split: option.split)

lemma locked_fst [room_simps]: "fst (locked p) = fst p"
  by (simp add: locked_def split_beta Let_def)

lemma locked_room: "snd (snd (locked p)) = snd (drain (snd p))"
  by (simp add: locked_def split_beta Let_def)

lemma start_if_fields [room_simps]:
  "game_status (snd (start_if e s r)) = game_status r" "board (snd (start_if e s r)) = board r"
  "move_history (snd (start_if e s r)) = move_history r" "revision (snd (start_if e s r)) = revision r"
  "remaining_ms (white (snd (start_if e s r))) = remaining_ms (white r)"
  "black (snd (start_if e s r)) = black r" "time_control (snd (start_if e s r)) = time_control r"
  "spectator_fds (snd (start_if e s r)) = spectator_fds r" "result (snd (start_if e s r)) = result r"
  by (simp_all add: start_if_def emit_started_def start_game_def split_beta Let_def room_simps)

lemma conclude_move_fields [room_simps]:
  "board (snd (conclude_move e san d r)) = board r" "move_history (snd (conclude_move e san d r)) = move_history r"
  "white (snd (conclude_move e san d r)) = white r" "black (snd (conclude_move e san d r)) = black r"
  "revision (snd (conclude_move e san d r)) = revision r" "mv_success (fst (conclude_move e san d r))"
  "spectator_fds (snd (conclude_move e san d r)) = spectator_fds r"
  by (simp_all add: conclude_move_def Let_def room_simps)

lemma conclude_move_status: "game_status (snd (conclude_move e san d r)) \<in> {game_status r, get_game_status (board r)}"
  by (simp add: conclude_move_def Let_def room_simps)

lemma get_game_status_values: "get_game_status b \<in> {ONGOING, CHECKMATE, STALEMATE, DRAW_FIFTY_MOVE}"
  by (simp add: get_game_status_def)

section \<open>Accepted moves\<close>

lemma match_unique:
  assumes "position_ok b" and "m \<in> set (generate_legal_moves b)" and "m' \<in> set (generate_legal_moves b)"
    and "m_from m' = m_from m" and "m_to m' = m_to m"
    and "is_promotion m \<longrightarrow> m_promo m = pt" and "is_promotion m' \<longrightarrow> m_promo m' = pt"
  shows "m' = m"
proof -
  note pseudo = legal_pseudo [OF assms(1)]
  have "m_promo m' = m_promo m"
  proof (cases "ptype (piece_at b (m_from m)) = PAWN")
    case True
    note pm = pseudo_legal_pawn [OF assms(1) pseudo [OF assms(2)] True]
    note pm' = pseudo_legal_pawn [OF assms(1) pseudo [OF assms(3)]]
    have "is_promotion m' = is_promotion m"
      using pm pm' True assms(4,5) by (simp add: is_promotion_def)
    then show ?thesis using pm pm' True assms(4,6,7) by auto
  next
    case False
    then show ?thesis
      using officer_move_signature [OF assms(1)] pseudo_legal_from [OF assms(1) pseudo [OF assms(2)]]
        pseudo_legal_from [OF assms(1) pseudo [OF assms(3)]] assms(4) by metis
  qed
  then show ?thesis using pseudo_legal_determined [OF assms(1) pseudo [OF assms(2)] pseudo [OF assms(3)]] assms(4,5) by simp
qed

definition move_requested :: "square \<Rightarrow> square \<Rightarrow> piece_type \<Rightarrow> move \<Rightarrow> bool" where
  "move_requested f t promo m \<longleftrightarrow> m_from m = f \<and> m_to m = t \<and>
     (is_promotion m \<longrightarrow> m_promo m = (if promo = PT_NONE then QUEEN else promo))"

lemma match_move_None:
  "match_move b f t promo = None \<longleftrightarrow> (\<forall>m \<in> set (generate_legal_moves b). \<not> move_requested f t promo m)"
  by (auto simp: match_move_def move_requested_def find_None_iff)

lemma match_move_Some: "match_move b f t promo = Some m \<Longrightarrow> move_requested f t promo m"
  by (auto simp: match_move_def move_requested_def find_Some_iff)

lemma play_move_slots:
  "white x = white r \<Longrightarrow> black x = black r \<Longrightarrow> board x = board r \<Longrightarrow> time_control x = time_control r \<Longrightarrow>
   move_history x = move_history r \<Longrightarrow>
   white (play_move e c m x) = white (play_move e c m r) \<and> black (play_move e c m x) = black (play_move e c m r) \<and>
   move_history (play_move e c m x) = move_history (play_move e c m r)"
  by (simp add: play_move_def switch_clock_def slot_of_def Let_def room_simps)

lemma submit_move_cases:
  assumes "side_to_move (board r) \<noteq> C_NONE"
  shows "mv_success (fst (submit_move e fd f t promo r)) \<longleftrightarrow>
    state r = IN_PROGRESS \<and> color_of r fd = side_to_move (board r) \<and> \<not> check_flag (now_flag e) r \<and>
    match_move (board r) f t promo \<noteq> None"
  using assms by (auto simp: submit_move_def Let_def room_simps split: if_splits option.splits)

lemma submit_move_success:
  assumes "side_to_move (board r) \<noteq> C_NONE" and "mv_success (fst (submit_move e fd f t promo r))"
  obtains m where "match_move (board r) f t promo = Some m"
    "board (snd (snd (submit_move e fd f t promo r))) = snd (make_move (board r) m)"
    "white (snd (snd (submit_move e fd f t promo r))) = white (play_move e (side_to_move (board r)) m r)"
    "black (snd (snd (submit_move e fd f t promo r))) = black (play_move e (side_to_move (board r)) m r)"
    "move_history (snd (snd (submit_move e fd f t promo r))) =
       move_history (play_move e (side_to_move (board r)) m r)"
proof -
  obtain m where c: "state r = IN_PROGRESS" "color_of r fd = side_to_move (board r)" "\<not> check_flag (now_flag e) r"
    "match_move (board r) f t promo = Some m"
    using assms(2) submit_move_cases [OF assms(1)] by auto
  let ?x = "\<lambda>d. if d then (bump r)\<lparr>draw_offer_from := None, draw_offer_created_at := 0\<rparr> else bump r"
  have x: "white (?x d) = white r" "black (?x d) = black r" "board (?x d) = board r"
    "time_control (?x d) = time_control r" "move_history (?x d) = move_history r" for d
    by (simp_all add: room_simps)
  obtain d san where "submit_move e fd f t promo r =
      locked (conclude_move e san d (play_move e (side_to_move (board r)) m (?x d)))"
    using c assms(1) by (simp only: submit_move_def Let_def room_simps) (simp add: room_simps)
  then show thesis
    using that [OF c(4)] play_move_slots [OF x] by (simp add: locked_room room_simps)
qed


definition played_under_clock :: "env \<Rightarrow> room \<Rightarrow> room \<Rightarrow> move \<Rightarrow> bool" where
  "played_under_clock e r r' m \<longleftrightarrow>
     (let c = side_to_move (board r); d = opposite_color c in
      board r' = snd (make_move (board r) m) \<and>
      map mr_move (move_history r') = map mr_move (move_history r) @ [m] \<and>
      remaining_ms (slot_of r' c) =
        max 0 (remaining_ms (slot_of r c) - elapsed_ms (now_switch e) (clock_start (slot_of r c)) +
          increment_ms (time_control r)) \<and>
      remaining_ms (slot_of r' d) = remaining_ms (slot_of r d) \<and> clock_start (slot_of r' d) = now_switch e)"

lemma play_move_clock:
  assumes "side_to_move (board r) \<noteq> C_NONE"
  shows "let c = side_to_move (board r); d = opposite_color c; y = play_move e c m r in
    remaining_ms (slot_of y c) =
      max 0 (remaining_ms (slot_of r c) - elapsed_ms (now_switch e) (clock_start (slot_of r c)) +
        increment_ms (time_control r)) \<and>
    remaining_ms (slot_of y d) = remaining_ms (slot_of r d) \<and> clock_start (slot_of y d) = now_switch e"
  using assms
  by (cases "side_to_move (board r)") (simp_all add: play_move_def switch_clock_def slot_of_def Let_def room_simps)

lemma result_no_newline: "is_result s \<Longrightarrow> newline \<notin> set s"
  by (auto simp: is_result_def)

lemma dec_int_no_newline: "newline \<notin> set (dec_int i)"
  using dec_nat_digits [of "nat i"] dec_nat_digits [of "nat (- i)"]
  by (auto simp: dec_int_def c_isdigit_def dest!: bspec)

section \<open>Agreement and clocks\<close>

lemma status_changes:
  "game_status (snd (snd (submit_move e fd f t promo r))) \<in> {game_status r, TIMEOUT, ONGOING, CHECKMATE, STALEMATE, DRAW_FIFTY_MOVE}"
  "game_status (snd (snd (submit_move_ai e f t promo r))) \<in> {game_status r, TIMEOUT, ONGOING, CHECKMATE, STALEMATE, DRAW_FIFTY_MOVE}"
proof -
  have c: "game_status (snd (conclude_move e san d (play_move e' c m x))) \<in>
      {game_status x, TIMEOUT, ONGOING, CHECKMATE, STALEMATE, DRAW_FIFTY_MOVE}" for e e' san d c m x
    using conclude_move_status [of e san d "play_move e' c m x"]
      get_game_status_values [of "snd (make_move (board x) m)"]
    by (auto simp: room_simps)
  show "game_status (snd (snd (submit_move e fd f t promo r))) \<in>
      {game_status r, TIMEOUT, ONGOING, CHECKMATE, STALEMATE, DRAW_FIFTY_MOVE}"
    using c [of e _ _ e _ _ "bump r"] c [of e _ _ e _ _ "(bump r)\<lparr>draw_offer_from := None, draw_offer_created_at := 0\<rparr>"]
    by (simp add: submit_move_def locked_room Let_def room_simps split: option.split)
  show "game_status (snd (snd (submit_move_ai e f t promo r))) \<in>
      {game_status r, TIMEOUT, ONGOING, CHECKMATE, STALEMATE, DRAW_FIFTY_MOVE}"
    using c [of e _ _ e _ _ "bump r"]
    by (simp add: submit_move_ai_def locked_room Let_def room_simps split: option.split)
qed

lemma seat_calls_status:
  "game_status (snd (snd (join e pid name fd db rating r))) = game_status r"
  "game_status (snd (snd (bind_reserved_player e db pid fd replace gen r))) = game_status r"
  "game_status (snd (snd (on_reconnect_db_player e db fd gen r))) = game_status r"
  "game_status (snd (snd (open_reserved e r))) = game_status r"
proof -
  have bind: "game_status (bind_seat e c pid fd gen r) = game_status r" for c pid
    by (simp add: bind_seat_def Let_def room_simps)
  show b: "game_status (snd (snd (bind_reserved_player e db pid fd replace gen r))) = game_status r" for replace pid
    by (simp add: bind_reserved_player_def Let_def split_beta locked_room room_simps bind)
  show "game_status (snd (snd (join e pid name fd db rating r))) = game_status r"
    by (simp add: join_def Let_def split_beta locked_room room_simps emit_started_def start_game_def)
  show "game_status (snd (snd (on_reconnect_db_player e db fd gen r))) = game_status r"
    by (simp add: on_reconnect_db_player_def Let_def split_beta locked_room room_simps b)
  show "game_status (snd (snd (open_reserved e r))) = game_status r"
    by (simp add: open_reserved_def Let_def split_beta locked_room room_simps)
qed

lemma respond_to_draw_status:
  "game_status (snd (snd (respond_to_draw e fd accept r))) =
     (if state r = IN_PROGRESS \<and> accept \<and> color_of r fd \<noteq> C_NONE \<and>
         (\<exists>c. draw_offer_from r = Some c \<and> color_of r fd \<noteq> c)
      then DRAW_AGREEMENT else game_status r)"
  by (auto simp: respond_to_draw_def Let_def locked_room room_simps)

lemma agreement_origin:
  assumes "game_status (snd (exec_op opn e r)) = DRAW_AGREEMENT" and "game_status r \<noteq> DRAW_AGREEMENT"
  shows "\<exists>fd c. opn = Respond_draw fd True \<and> state r = IN_PROGRESS \<and> draw_offer_from r = Some c \<and>
    color_of r fd \<noteq> C_NONE \<and> color_of r fd \<noteq> c"
proof (cases opn)
  case (Submit_move fd f t promo)
  then show ?thesis using assms status_changes(1) [of e fd f t promo r] by auto
next
  case (Submit_move_ai f t promo)
  then show ?thesis using assms status_changes(2) [of e f t promo r] by auto
next
  case (Respond_draw fd accept)
  then show ?thesis using assms by (auto simp: respond_to_draw_status split: if_splits)
qed (use assms in \<open>auto simp: seat_calls_status locked_room room_simps Let_def allow_reserved_player_def resign_def
    offer_draw_def expire_draw_offer_def offer_rematch_def respond_to_rematch_def expire_rematch_offer_def
    expire_on_time_def on_disconnect_def on_reconnect_def expire_disconnected_def add_spectator_def
    remove_spectator_def add_listener_def remove_listener_def split: if_splits option.splits\<close>)

definition clocks_ok :: "room \<Rightarrow> bool" where
  "clocks_ok r \<longleftrightarrow> 0 \<le> base_time_ms (time_control r) \<and> 0 \<le> remaining_ms (white r) \<and> 0 \<le> remaining_ms (black r)"

lemma clocks_ok_cong:
  "time_control x = time_control r \<Longrightarrow> remaining_ms (white x) = remaining_ms (white r) \<Longrightarrow>
   remaining_ms (black x) = remaining_ms (black r) \<Longrightarrow> clocks_ok x = clocks_ok r"
  by (simp add: clocks_ok_def)

lemma finish_game_time [room_simps]: "time_control (finish_game e status res r) = time_control r"
  by (simp add: finish_game_def Let_def)

lemma clocks_ok_play: "clocks_ok x \<Longrightarrow> clocks_ok (snd (drain (snd (conclude_move e san d (play_move e' c m x)))))"
proof -
  assume x: "clocks_ok x"
  have "time_control (snd (conclude_move e san d (play_move e' c m x))) = time_control x"
    by (simp add: conclude_move_def play_move_def switch_clock_def Let_def room_simps)
  moreover have "0 \<le> remaining_ms (white (play_move e' c m x))" "0 \<le> remaining_ms (black (play_move e' c m x))"
    using x by (simp_all add: play_move_def switch_clock_def clocks_ok_def slot_of_def Let_def room_simps)
  ultimately show ?thesis using x by (simp add: clocks_ok_def room_simps)
qed


lemma exec_op_clocks: "clocks_ok r \<Longrightarrow> clocks_ok (snd (exec_op opn e r))"
proof (cases opn)
  case (Submit_move fd f t promo)
  assume r: "clocks_ok r"
  have "clocks_ok (bump r)" "clocks_ok ((bump r)\<lparr>draw_offer_from := None, draw_offer_created_at := 0\<rparr>)"
    using r by (simp_all add: clocks_ok_def room_simps)
  then show ?thesis
    using r Submit_move clocks_ok_play
    by (auto simp: submit_move_def locked_room Let_def split: option.split)
      (auto simp: clocks_ok_def room_simps)
next
  case (Submit_move_ai f t promo)
  assume r: "clocks_ok r"
  have "clocks_ok (bump r)" using r by (simp add: clocks_ok_def room_simps)
  then show ?thesis
    using r Submit_move_ai clocks_ok_play
    by (auto simp: submit_move_ai_def locked_room Let_def split: option.split)
      (auto simp: clocks_ok_def room_simps)
next
  case (Bind_reserved db pid fd replace gen)
  assume "clocks_ok r"
  then show ?thesis
    using Bind_reserved
    by (simp add: bind_reserved_player_def bind_seat_def clocks_ok_def locked_room Let_def split_beta room_simps)
next
  case (Reconnect_db db fd gen)
  assume "clocks_ok r"
  then show ?thesis
    using Reconnect_db
    by (simp add: on_reconnect_db_player_def bind_reserved_player_def bind_seat_def reconnect_slot_def clocks_ok_def
        locked_room Let_def split_beta room_simps)
qed (simp_all add: clocks_ok_def locked_room room_simps Let_def split_beta join_def allow_reserved_player_def
    open_reserved_def resign_def offer_draw_def respond_to_draw_def expire_draw_offer_def offer_rematch_def
    respond_to_rematch_def expire_rematch_offer_def expire_on_time_def on_disconnect_def on_reconnect_def
    reconnect_slot_def expire_disconnected_def add_spectator_def remove_spectator_def add_listener_def
    remove_listener_def emit_started_def start_game_def split: option.split)


section \<open>Properties\<close>

definition demo_env :: env where
  "demo_env = \<lparr>now_flag = 0, now_think = 0, now_switch = 0, now_steady = 0, now_system = 0, fresh_uuid = ''u''\<rparr>"

definition demo_new :: room where
  "demo_new = human_room 1 1 ''alice'' 3 \<lparr>base_time_ms = 600000, increment_ms = 5000\<rparr> 0 1200"

definition demo_playing :: room where
  "demo_playing = snd (exec_op (Join 2 ''bob'' 4 0 1200) demo_env demo_new)"

definition demo_aborted :: room where
  "demo_aborted = snd (exec_op (Disconnect 3) demo_env demo_new)"

lemma demo_reachable: "reachable_room demo_new" "reachable_room demo_playing" "reachable_room demo_aborted"
proof -
  show new: "reachable_room demo_new"
    unfolding demo_new_def by (intro new_room_reachable new_room.human)
  show "reachable_room demo_playing" "reachable_room demo_aborted"
    unfolding demo_playing_def demo_aborted_def by (rule reachable_step [OF new])+
qed

lemmas demo_defs = demo_new_def demo_playing_def demo_aborted_def demo_env_def human_room_def creator_slot_def
  fresh_room_def empty_slot_def

lemma e2e4_requested: "move_requested 12 28 PT_NONE (Move 12 28 MF_DOUBLE_PAWN_PUSH PT_NONE)"
  by (simp add: move_requested_def flag_simps)

lemma demo_aborted_finished: "state demo_aborted = FINISHED"
  by (simp add: demo_defs on_disconnect_def color_of_def slot_of_def locked_room Let_def room_simps)

lemma demo_playing_fields:
  "state demo_playing = IN_PROGRESS" "board demo_playing = start_board" "color_of demo_playing 3 = WHITE"
  "\<not> check_flag 0 demo_playing"
  by (simp_all add: demo_defs join_def is_empty_slot_def split_beta emit_started_def Let_def room_simps start_game_def
      starting_position_board color_of_def check_flag_def slot_of_def elapsed_ms_def to_int32_def
      start_board_unkeyed start_unkeyed_def)

lemma demo_move_accepted: "mv_success (fst (submit_move demo_env 3 12 28 PT_NONE demo_playing))"
proof -
  have "match_move start_board 12 28 PT_NONE \<noteq> None"
    using e2e4_legal e2e4_requested unfolding match_move_None by blast
  moreover have "side_to_move start_board = WHITE" by (simp add: start_board_unkeyed start_unkeyed_def)
  ultimately show ?thesis
    using demo_playing_fields by (subst submit_move_cases) (simp_all add: demo_env_def)
qed

text \<open>
  C5. The room refines the abstract game: whatever call is made on a room that was created by one of
  its constructors and served any sequence of calls before, the game it stands for makes a step of
  the abstract machine (nothing, a start, a legal move, or one of the ways a game ends).
\<close>

theorem room_refines_game:
  assumes "reachable_room r"
  shows "game_step (core r) (core (snd (exec_op opn e r)))"
  using assms reachable_room_ok exec_op_step by blast

theorem room_refines_game_witness:
  "game_step (core demo_playing) (core (snd (exec_op (Submit_move 3 12 28 PT_NONE) demo_env demo_playing)))"
  by (rule room_refines_game [OF demo_reachable(2)])

text \<open>
  C13. The history is the game: in every reachable room the recorded moves, replayed under the rules
  from the starting position, are all legal and lead to the room's board, which is a sound position.
\<close>

theorem room_history_replays:
  assumes "reachable_room r"
  shows "line_of_play generate_legal_moves make_move starting_position (map mr_move (move_history r)) (board r) \<and>
    position_ok (board r)"
  using reachable_room_ok [OF assms] reachable_position_ok [OF assms] by (simp add: core_ok_def)

theorem room_history_replays_witness:
  "line_of_play generate_legal_moves make_move starting_position (map mr_move (move_history demo_playing))
     (board demo_playing) \<and> position_ok (board demo_playing)"
  by (rule room_history_replays [OF demo_reachable(2)])

text \<open>
  A finished game is final: no call on a finished room changes its board, moves, status, result
  or state, and no listener hears of a completion again.
\<close>

lemma finished_room_final:
  assumes "reachable_room r" and "state r = FINISHED"
  shows "core (snd (exec_op opn e r)) = core r \<and> completions (fst (exec_op opn e r)) = []"
  using assms reachable_room_ok finished_stays by blast

text \<open>
  Completion is announced exactly once: over any sequence of calls from the creation of a room,
  at most one call announces a completion; the call that ends the game announces it to every
  listener registered at that moment, in order, with one snapshot of the final state.
\<close>

lemma completion_announced_once:
  assumes "new_room r0"
  shows "length (filter (\<lambda>outs. completions outs \<noteq> []) (fst (run_ops ops r0))) \<le> 1 \<and>
    (let r = snd (run_ops ops r0); r' = snd (exec_op opn e r) in
     state r \<noteq> FINISHED \<and> state r' = FINISHED \<longrightarrow>
       (\<exists>sn. snapshot_of r' sn \<and> completions (fst (exec_op opn e r)) = map (\<lambda>l. (l, sn)) (listeners r)))"
proof -
  have q: "quiet (snd (run_ops ops r0))" by (rule room.run_ok [OF new_room_quiet [OF assms]])
  show ?thesis
    using completions_at_most_once [OF new_room_quiet [OF assms]] exec_op_effect [OF q, of opn e]
    by (auto simp: op_effect_def split_beta Let_def)
qed

text \<open>
  The verdict is right: in every reachable room the result string fits the status and the status
  fits the position: checkmate means the side to move is attacked, has no legal move and loses,
  stalemate that it has none and is not attacked, the fifty-move draw that the clock reached 100; a
  flag costs the side to move the game; agreement and stalemate are draws; an unfinished game has no
  result; and the room never reports insufficient material or threefold repetition.
\<close>

lemma room_verdict_sound:
  assumes "reachable_room r"
  shows "verdict_ok (core r) \<and> (state r = FINISHED \<longleftrightarrow> game_status r \<noteq> ONGOING)"
  using reachable_room_ok [OF assms] by (simp add: core_ok_def)

text \<open>
  Exactly the right moves are accepted: a submitted move succeeds if and only if the game is in
  progress, the connection holds the seat of the side to move, that side's clock has not run out,
  and a legal move of the board has these squares (and, for a promotion, this piece, a queen by default).
\<close>

lemma submit_move_accepts:
  assumes "reachable_room r"
  shows "mv_success (fst (submit_move e fd f t promo r)) \<longleftrightarrow>
    state r = IN_PROGRESS \<and> color_of r fd = side_to_move (board r) \<and> \<not> check_flag (now_flag e) r \<and>
    (\<exists>m \<in> set (generate_legal_moves (board r)). move_requested f t promo m)"
  using reachable_position_ok [OF assms] match_move_None [of "board r" f t promo]
  by (subst submit_move_cases) (auto simp: position_ok_def board_rep_def)

text \<open>
  An accepted move is the requested one and is played under the Fischer clock: the new board is
  the one the unique requested legal move leads to, the move is appended to the history, the mover
  keeps the old time less the time used plus the increment (never below zero), the opponent's time
  is untouched and the opponent's clock starts.
\<close>

lemma accepted_move_played:
  assumes "reachable_room r" and "mv_success (fst (submit_move e fd f t promo r))"
  shows "\<exists>!m. m \<in> set (generate_legal_moves (board r)) \<and> move_requested f t promo m \<and>
    played_under_clock e r (snd (snd (submit_move e fd f t promo r))) m"
proof -
  note ok = reachable_position_ok [OF assms(1)]
  have side: "side_to_move (board r) \<noteq> C_NONE" using ok by (simp add: position_ok_def board_rep_def)
  obtain m where m: "match_move (board r) f t promo = Some m"
    "board (snd (snd (submit_move e fd f t promo r))) = snd (make_move (board r) m)"
    "white (snd (snd (submit_move e fd f t promo r))) = white (play_move e (side_to_move (board r)) m r)"
    "black (snd (snd (submit_move e fd f t promo r))) = black (play_move e (side_to_move (board r)) m r)"
    "move_history (snd (snd (submit_move e fd f t promo r))) =
       move_history (play_move e (side_to_move (board r)) m r)"
    by (rule submit_move_success [OF side assms(2)])
  have legal: "m \<in> set (generate_legal_moves (board r))" "move_requested f t promo m"
    using match_move_legal [OF m(1)] match_move_Some [OF m(1)] by auto
  have "played_under_clock e r (snd (snd (submit_move e fd f t promo r))) m"
  proof -
    have slots: "slot_of (snd (snd (submit_move e fd f t promo r))) c =
        slot_of (play_move e (side_to_move (board r)) m r) c" for c
      using m(3,4) by (simp add: slot_of_def)
    have "map mr_move (move_history (play_move e (side_to_move (board r)) m r)) = map mr_move (move_history r) @ [m]"
      by (simp add: play_move_def switch_clock_def Let_def room_simps)
    then show ?thesis
      unfolding played_under_clock_def Let_def m(2) slots m(5)
      using play_move_clock [OF side, of e m, unfolded Let_def] by blast
  qed
  moreover have "m' = m" if "m' \<in> set (generate_legal_moves (board r))" "move_requested f t promo m'" for m'
    using legal that match_unique [OF ok legal(1) that(1)] by (auto simp: move_requested_def)
  ultimately show ?thesis using legal by blast
qed

text \<open>
  Clocks never go below zero: in every room created with a non-negative base time, after any
  sequence of calls at whatever clock readings, both players' remaining times are non-negative.
\<close>

lemma clocks_never_negative:
  assumes "new_room r0" and "0 \<le> base_time_ms (time_control r0)"
  shows "0 \<le> remaining_ms (white (snd (run_ops ops r0))) \<and> 0 \<le> remaining_ms (black (snd (run_ops ops r0)))"
proof -
  have "clocks_ok r0"
    using assms by (auto elim!: new_room.cases simp: clocks_ok_def human_room_def ai_room_def tournament_room_def
        fresh_room_def creator_slot_def empty_slot_def)
  then have "clocks_ok (snd (run_ops ops r0))"
    by (induction ops arbitrary: r0) (simp_all add: split_beta exec_op_clocks)
  then show ?thesis by (simp add: clocks_ok_def)
qed

text \<open>
  A draw by agreement needs both players: a call turns the status of a room into a draw by
  agreement only when it is an acceptance, by a seated player, of an offer that the other player made
  and that is still pending in a game in progress.
\<close>

lemma draw_agreement_mutual:
  assumes "game_status r \<noteq> DRAW_AGREEMENT" and "game_status (snd (exec_op opn e r)) = DRAW_AGREEMENT"
  shows "\<exists>fd c. opn = Respond_draw fd True \<and> state r = IN_PROGRESS \<and> draw_offer_from r = Some c \<and>
    color_of r fd \<noteq> C_NONE \<and> color_of r fd \<noteq> c"
  by (rule agreement_origin [OF assms(2,1)])

text \<open>
  The exported game file is the game: the PGN text of any reachable room whose user names are
  single lines is imported back with the room's tags, exactly its move history and its result.
\<close>

lemma room_pgn_imports:
  assumes "reachable_room r" and "newline \<notin> set (username (white r))" and "newline \<notin> set (username (black r))"
  shows "import_pgn (to_pgn r) =
    Some \<lparr>pgn_tags = room_tags r, pgn_moves = map mr_move (move_history r), pgn_result = result r\<rparr>"
proof -
  have ok: "core_ok (core r)" using reachable_room_ok [OF assms(1)] by simp
  have res: "is_result (result r)"
    using ok by (auto simp: core_ok_def verdict_ok_def is_result_def loss_for_def split: game_status.splits if_splits)
  have tags: "\<forall>t \<in> set (room_tags r). tag_ok t \<and> tag_name t \<noteq> ''FEN''"
    using assms(2,3) res result_no_newline dec_int_no_newline
    by (simp add: room_tags_def tag_ok_def time_control_to_string_def Let_def)
  have line: "line_of_play generate_legal_moves make_move starting_position (map mr_move (move_history r)) (board r)"
    using ok by (simp add: core_ok_def)
  show ?thesis unfolding to_pgn_def by (rule pgn_round_trip [OF line res tags])
qed

end
