(* ===== verification/Tables.thy ===== *)
theory Tables
  imports Prelude "HOL-Library.Multiset"
begin

text \<open>
  Hash maps whose iteration order matters, as the list of their entries in that order: overwriting an
  entry in its place, and insertions that may rehash.
\<close>

section \<open>Tables in the order of an iteration\<close>

definition replace_entry :: "'k \<Rightarrow> 'v \<Rightarrow> ('k \<times> 'v) list \<Rightarrow> ('k \<times> 'v) list" where
  \<comment> \<open>an entry of a hash map overwritten in its place\<close>
  "replace_entry k v t = map (\<lambda>(i, x). if i = k then (i, v) else (i, x)) t"

lemma replace_entry_keys [simp]: "map fst (replace_entry k v t) = map fst t"
  by (induction t) (auto simp: replace_entry_def)

lemma replace_entry_set:
  "(i, x) \<in> set (replace_entry k v t) \<longleftrightarrow> (if i = k then x = v \<and> k \<in> fst ` set t else (i, x) \<in> set t)"
  by (induction t) (auto simp: replace_entry_def split: if_splits)

lemma map_of_replace_entry:
  "map_of (replace_entry k v t) i = (if i = k then map_option (\<lambda>x. v) (map_of t k) else map_of t i)"
  by (induction t) (auto simp: replace_entry_def)

section \<open>Rehashing\<close>

definition rehash_ok :: "('a list \<Rightarrow> 'a list) \<Rightarrow> bool" where
  \<comment> \<open>an insertion may leave the entries in any order\<close>
  "rehash_ok h \<longleftrightarrow> (\<forall>t. mset (h t) = mset t)"

lemma rehash_set: "rehash_ok h \<Longrightarrow> set (h t) = set t"
  unfolding rehash_ok_def by (metis mset_eq_setD)

lemma rehash_keys: "rehash_ok h \<Longrightarrow> distinct (map f (h t)) \<longleftrightarrow> distinct (map f t)"
  unfolding rehash_ok_def by (metis mset_map mset_eq_imp_distinct_iff)

lemma find_SomeD: "find P xs = Some x \<Longrightarrow> x \<in> set xs \<and> P x"
  by (auto simp: find_Some_iff)

end
