(* ===== verification/RoomManager.thy ===== *)
theory RoomManager
  imports GameRoom Tables
begin

text \<open>
  The registry of rooms (\<open>src/game/room_manager.h\<close>, \<open>src/game/room_manager.cpp\<close>). The hash map of rooms
  is the list of its entries in the order an iteration visits them; an insertion may rehash, and
  the order it leaves is an argument, of which only the contents are promised (\<open>rehash_ok\<close>). Room ids
  are 32-bit counters that wrap. Shown: in whatever order rooms are created, called, looked up and
  removed, every registered room is a room that its constructors and calls can produce, under its
  own id.
\<close>

section \<open>State\<close>

type_synonym room_table = "(nat \<times> room) list"

record manager =
  rooms :: room_table
  pairing_rooms :: "int \<Rightarrow> nat option"
  reserved_players :: "int set"
  next_id :: "32 word"
  default_listener :: nat

record room_info =
  ri_id :: nat
  ri_state :: room_state
  ri_white_name :: string
  ri_black_name :: string
  ri_time_control :: string
  ri_move_count :: int
  ri_spectator_count :: int

type_synonym rehash = "room_table \<Rightarrow> room_table"

definition new_manager :: manager where
  "new_manager = \<lparr>rooms = [], pairing_rooms = Map.empty, reserved_players = {}, next_id = 1, default_listener = 0\<rparr>"

definition store_room :: "rehash \<Rightarrow> nat \<Rightarrow> room \<Rightarrow> manager \<Rightarrow> manager" where
  \<comment> \<open>\<open>rooms_[id] = room\<close>: an entry under the id is replaced in its place\<close>
  "store_room h rid r m =
     (if rid \<in> fst ` set (rooms m)
      then m\<lparr>rooms := replace_entry rid r (rooms m)\<rparr>
      else m\<lparr>rooms := h ((rid, r) # rooms m)\<rparr>)"

definition update_room :: "nat \<Rightarrow> room \<Rightarrow> manager \<Rightarrow> manager" where
  \<comment> \<open>a call on the shared room object changes what every owner sees\<close>
  "update_room rid r m = m\<lparr>rooms := replace_entry rid r (rooms m)\<rparr>"

section \<open>Creation\<close>

definition register_room :: "rehash \<Rightarrow> nat \<Rightarrow> room \<Rightarrow> manager \<Rightarrow> manager" where
  \<comment> \<open>the room is stored, then the default listener is attached to it\<close>
  "register_room h rid r m =
     store_room h rid (snd (snd (add_listener (default_listener m) r))) m"

definition create_room ::
  "rehash \<Rightarrow> nat \<Rightarrow> string \<Rightarrow> int \<Rightarrow> time_control \<Rightarrow> int \<Rightarrow> int \<Rightarrow> manager \<Rightarrow> nat \<times> manager" where
  "create_room h pid name fd tc db rating m =
     (let rid = unat (next_id m); m1 = m\<lparr>next_id := next_id m + 1\<rparr>
      in (rid, register_room h rid (human_room rid pid name fd tc db rating) m1))"

definition create_ai_room ::
  "rehash \<Rightarrow> env \<Rightarrow> nat \<Rightarrow> string \<Rightarrow> int \<Rightarrow> time_control \<Rightarrow> ai_difficulty \<Rightarrow> int \<Rightarrow> int \<Rightarrow> manager \<Rightarrow> nat \<times> manager" where
  "create_ai_room h e pid name fd tc diff db rating m =
     (let rid = unat (next_id m); m1 = m\<lparr>next_id := next_id m + 1\<rparr>
      in (rid, register_room h rid (ai_room e rid pid name fd tc diff db rating) m1))"

definition create_reserved_tournament_room ::
  "rehash \<Rightarrow> int \<Rightarrow> int \<Rightarrow> int \<Rightarrow> string \<Rightarrow> int \<Rightarrow> int \<Rightarrow> string \<Rightarrow> int \<Rightarrow> time_control \<Rightarrow> manager \<Rightarrow> nat \<times> manager" where
  "create_reserved_tournament_room h tid pair wdb wname welo bdb bname belo tc m =
     (case pairing_rooms m pair of
        Some rid \<Rightarrow>
          if rid \<in> fst ` set (rooms m) then (rid, m)
          else (let m0 = m\<lparr>pairing_rooms := (pairing_rooms m)(pair := None)\<rparr>;
                    new = unat (next_id m0); m1 = m0\<lparr>next_id := next_id m0 + 1,
                      pairing_rooms := (pairing_rooms m0)(pair \<mapsto> new)\<rparr>
                in (new, register_room h new (tournament_room new tid pair wdb wname welo bdb bname belo tc) m1))
      | None \<Rightarrow>
          (let new = unat (next_id m); m1 = m\<lparr>next_id := next_id m + 1,
                pairing_rooms := (pairing_rooms m)(pair \<mapsto> new)\<rparr>
           in (new, register_room h new (tournament_room new tid pair wdb wname welo bdb bname belo tc) m1)))"

definition ensure_next_id_above :: "32 word \<Rightarrow> manager \<Rightarrow> manager" where
  "ensure_next_id_above existing m =
     (let desired = existing + 1 in if next_id m < desired then m\<lparr>next_id := desired\<rparr> else m)"

definition reserve_tournament_player :: "int \<Rightarrow> manager \<Rightarrow> manager" where
  "reserve_tournament_player db m =
     (if db \<le> 0 then m else m\<lparr>reserved_players := insert db (reserved_players m)\<rparr>)"

definition release_tournament_player :: "int \<Rightarrow> manager \<Rightarrow> manager" where
  "release_tournament_player db m = m\<lparr>reserved_players := reserved_players m - {db}\<rparr>"

definition is_tournament_player_reserved :: "manager \<Rightarrow> int \<Rightarrow> bool" where
  "is_tournament_player_reserved m db \<longleftrightarrow> db \<in> reserved_players m"

definition set_default_listener :: "nat \<Rightarrow> manager \<Rightarrow> manager" where
  "set_default_listener l m = m\<lparr>default_listener := l\<rparr>"

section \<open>Lookup\<close>

definition find_room :: "manager \<Rightarrow> nat \<Rightarrow> room option" where
  "find_room m rid = map_of (rooms m) rid"

definition find_room_by_pairing :: "manager \<Rightarrow> int \<Rightarrow> (nat \<times> room) option" where
  "find_room_by_pairing m pair =
     (case pairing_rooms m pair of
        None \<Rightarrow> None
      | Some rid \<Rightarrow> map_option (Pair rid) (map_of (rooms m) rid))"

definition find_room_by_fd :: "manager \<Rightarrow> int \<Rightarrow> (nat \<times> room) option" where
  \<comment> \<open>the first unfinished room with the connection, or the last finished one\<close>
  "find_room_by_fd m fd =
     (case find (\<lambda>(i, r). has_player r fd \<and> state r \<noteq> FINISHED) (rooms m) of
        Some p \<Rightarrow> Some p
      | None \<Rightarrow> find (\<lambda>(i, r). has_player r fd) (rev (rooms m)))"

definition find_room_by_player :: "manager \<Rightarrow> nat \<Rightarrow> (nat \<times> room) option" where
  "find_room_by_player m pid = find (\<lambda>(i, r). has_player_id r pid) (rooms m)"

definition find_room_by_db_player :: "manager \<Rightarrow> int \<Rightarrow> (nat \<times> room) option" where
  "find_room_by_db_player m db = find (\<lambda>(i, r). state r \<noteq> FINISHED \<and> has_db_player_id r db) (rooms m)"

definition rooms_snapshot :: "manager \<Rightarrow> room_table" where
  "rooms_snapshot m = rooms m"

definition room_count :: "manager \<Rightarrow> nat" where
  "room_count m = length (rooms m)"

definition list_open_rooms :: "manager \<Rightarrow> room_info list" where
  "list_open_rooms m =
     map (\<lambda>(i, r). \<lparr>ri_id = i, ri_state = WAITING, ri_white_name = username (white r), ri_black_name = [],
            ri_time_control = time_control_to_string (time_control r),
            ri_move_count = to_int32 (int (length (move_history r))),
            ri_spectator_count = to_int32 (int (length (spectator_fds r)))\<rparr>)
       (filter (\<lambda>(i, r). state r = WAITING) (rooms m))"

definition list_active_rooms :: "manager \<Rightarrow> room_info list" where
  "list_active_rooms m =
     map (\<lambda>(i, r). \<lparr>ri_id = i, ri_state = IN_PROGRESS, ri_white_name = username (white r),
            ri_black_name = username (black r),
            ri_time_control = time_control_to_string (time_control r),
            ri_move_count = to_int32 (int (length (move_history r))),
            ri_spectator_count = to_int32 (int (length (spectator_fds r)))\<rparr>)
       (filter (\<lambda>(i, r). state r = IN_PROGRESS) (rooms m))"

section \<open>Removal\<close>

definition forget_pairings :: "nat set \<Rightarrow> (int \<Rightarrow> nat option) \<Rightarrow> (int \<Rightarrow> nat option)" where
  \<comment> \<open>the loops that erase the pairings of removed rooms\<close>
  "forget_pairings ids ps = (\<lambda>pair. case ps pair of Some i \<Rightarrow> if i \<in> ids then None else Some i | None \<Rightarrow> None)"

definition remove_room :: "nat \<Rightarrow> manager \<Rightarrow> manager" where
  "remove_room rid m =
     m\<lparr>pairing_rooms := forget_pairings {rid} (pairing_rooms m),
       rooms := filter (\<lambda>(i, r). i \<noteq> rid) (rooms m)\<rparr>"

definition cleanup_finished_rooms :: "manager \<Rightarrow> nat \<times> manager" where
  "cleanup_finished_rooms m =
     (let finished = filter (\<lambda>(i, r). state r = FINISHED) (rooms m)
      in (length finished,
          m\<lparr>pairing_rooms := forget_pairings (fst ` set finished) (pairing_rooms m),
            rooms := filter (\<lambda>(i, r). state r \<noteq> FINISHED) (rooms m)\<rparr>))"

definition remove_spectator_everywhere :: "int \<Rightarrow> manager \<Rightarrow> nat \<times> manager" where
  "remove_spectator_everywhere fd m =
     (length (filter (\<lambda>(i, r). fst (remove_spectator fd r)) (rooms m)),
      m\<lparr>rooms := map (\<lambda>(i, r). (i, snd (snd (remove_spectator fd r)))) (rooms m)\<rparr>)"

section \<open>What a call keeps of a room\<close>

lemma drain_id: "room_id (snd (drain r)) = room_id r"
  by (simp add: drain_def split: option.splits)

lemma room_id_parts [room_simps]:
  "room_id (bump r) = room_id r" "room_id (upd_slot c f r) = room_id r" "room_id (finish_game e s res r) = room_id r"
  "room_id (start_game e r) = room_id r" "room_id (switch_clock now r) = room_id r"
  by (simp_all add: bump_def upd_slot_def finish_game_def start_game_def switch_clock_def Let_def)

lemma room_id_calls [room_simps]:
  "room_id (play_move e c m r) = room_id r" "room_id (snd (conclude_move e san d r)) = room_id r"
  "room_id (bind_seat e c pid fd gen r) = room_id r" "room_id (snd (emit_started ev r)) = room_id r"
  "room_id (snd (snd (locked p))) = room_id (snd p)"
  by (simp_all add: play_move_def conclude_move_def bind_seat_def emit_started_def locked_room drain_id Let_def
      split_beta room_id_parts)

lemma room_id_start [room_simps]: "room_id (snd (start_if e s r)) = room_id r"
  by (simp add: start_if_def drain_id Let_def split_beta room_simps)

lemmas seat_defs = join_def bind_reserved_player_def allow_reserved_player_def open_reserved_def on_disconnect_def
  on_reconnect_def on_reconnect_db_player_def add_spectator_def remove_spectator_def add_listener_def remove_listener_def

lemmas game_defs = resign_def offer_draw_def respond_to_draw_def expire_draw_offer_def offer_rematch_def
  respond_to_rematch_def expire_rematch_offer_def expire_on_time_def expire_disconnected_def

lemma move_room_id: "room_id (snd (snd (submit_move e fd f t p r))) = room_id r"
  "room_id (snd (snd (submit_move_ai e f t p r))) = room_id r"
  by (simp_all add: submit_move_def submit_move_ai_def Let_def room_simps split: option.splits)

lemma exec_op_room_id [simp]: "room_id (snd (exec_op opn e r)) = room_id r"
  by (cases opn)
    (simp_all add: seat_defs game_defs move_room_id drain_id Let_def split_beta room_simps split: option.splits)

lemma board_parts [room_simps]: "board (snd (start_if e s r)) = board r" "board (snd (emit_started ev r)) = board r"
  "board (start_game e r) = board r" "board (bind_seat e c pid fd gen r) = board r"
  "board (snd (snd (locked p))) = board (snd p)"
  by (simp_all add: room_simps emit_started_def start_game_def bind_seat_def split_beta Let_def locked_room)

lemma exec_op_board:
  "case opn of Submit_move fd f t p \<Rightarrow> True | Submit_move_ai f t p \<Rightarrow> True | _ \<Rightarrow> board (snd (exec_op opn e r)) = board r"
  by (cases opn) (simp_all add: seat_defs game_defs Let_def split_beta room_simps split: option.splits)

section \<open>The invariant\<close>

definition manager_ok :: "manager \<Rightarrow> bool" where
  "manager_ok m \<longleftrightarrow> distinct (map fst (rooms m)) \<and> (\<forall>(i, r) \<in> set (rooms m). reachable_room r \<and> room_id r = i)"

lemma manager_okD: "manager_ok m \<Longrightarrow> (i, r) \<in> set (rooms m) \<Longrightarrow> reachable_room r \<and> room_id r = i"
  by (auto simp: manager_ok_def)

lemma find_room_member: "find_room m i = Some r \<Longrightarrow> (i, r) \<in> set (rooms m)"
  by (simp add: find_room_def map_of_SomeD)

lemma find_room_by_fd_member: "find_room_by_fd m fd = Some (i, r) \<Longrightarrow> (i, r) \<in> set (rooms m) \<and> has_player r fd"
  by (auto simp: find_room_by_fd_def dest: find_SomeD split: option.splits)

lemma find_room_by_db_member: "find_room_by_db_player m db = Some (i, r) \<Longrightarrow> (i, r) \<in> set (rooms m)"
  by (auto simp: find_room_by_db_player_def dest: find_SomeD)

lemma find_room_registered: "manager_ok m \<Longrightarrow> (i, r) \<in> set (rooms m) \<longleftrightarrow> find_room m i = Some r"
  unfolding find_room_def manager_ok_def by (rule map_of_eq_Some_iff [symmetric]) simp

lemma update_room_ok:
  assumes "manager_ok m" and "reachable_room r" and "room_id r = i"
  shows "manager_ok (update_room i r m)"
  using assms by (auto simp: manager_ok_def update_room_def replace_entry_set split: if_splits)

lemma find_update_room:
  "find_room (update_room i r m) j = (if j = i then map_option (\<lambda>x. r) (find_room m i) else find_room m j)"
  by (simp add: find_room_def update_room_def map_of_replace_entry)

lemma find_store_room:
  assumes "rehash_ok h" and "manager_ok m"
  shows "find_room (store_room h i r m) j = (if j = i then Some r else find_room m j)"
proof (cases "i \<in> fst ` set (rooms m)")
  case True
  then have "map_of (rooms m) i \<noteq> None" by (simp add: map_of_eq_None_iff)
  then show ?thesis using True by (auto simp: find_room_def store_room_def map_of_replace_entry)
next
  case False
  then have "distinct (map fst ((i, r) # rooms m))" using assms(2) by (auto simp: manager_ok_def)
  then have "map_of (h ((i, r) # rooms m)) = map_of ((i, r) # rooms m)"
    using assms(1) by (intro map_of_inject_set [THEN iffD2]) (simp_all add: rehash_keys rehash_set)
  then show ?thesis using False by (simp add: find_room_def store_room_def)
qed

lemma store_room_ok:
  assumes "rehash_ok h" and "manager_ok m" and "reachable_room r" and "room_id r = i"
  shows "manager_ok (store_room h i r m)"
proof (cases "i \<in> fst ` set (rooms m)")
  case True
  then show ?thesis using assms by (auto simp: manager_ok_def store_room_def replace_entry_set split: if_splits)
next
  case False
  then have "distinct (map fst ((i, r) # rooms m))" using assms(2) by (auto simp: manager_ok_def)
  then show ?thesis using False assms by (auto simp: manager_ok_def store_room_def rehash_keys rehash_set)
qed

lemma store_room_fields [simp]:
  "next_id (store_room h i r m) = next_id m" "default_listener (store_room h i r m) = default_listener m"
  "reserved_players (store_room h i r m) = reserved_players m" "pairing_rooms (store_room h i r m) = pairing_rooms m"
  by (simp_all add: store_room_def)

lemma listened_room:
  "new_room r \<Longrightarrow> reachable_room (snd (snd (add_listener l r))) \<and> room_id (snd (snd (add_listener l r))) = room_id r"
  using reachable_step [OF new_room_reachable, of r "Add_listener l"] exec_op_room_id [of "Add_listener l" _ r] by simp

lemma register_room_ok:
  assumes "rehash_ok h" and "manager_ok m" and "new_room r" and "room_id r = i"
  shows "manager_ok (register_room h i r m)"
  unfolding register_room_def using listened_room [OF assms(3)] assms by (intro store_room_ok) simp_all

lemma manager_ok_rooms: "rooms m' = rooms m \<Longrightarrow> manager_ok m' \<longleftrightarrow> manager_ok m"
  by (simp add: manager_ok_def)

lemma new_room_ids [simp]: "room_id (human_room i pid name fd tc db rating) = i"
  "room_id (ai_room e i pid name fd tc diff db rating) = i"
  "room_id (tournament_room i tid pair wdb wname welo bdb bname belo tc) = i"
  by (simp_all add: human_room_def ai_room_def tournament_room_def fresh_room_def)

lemma create_ok:
  assumes "rehash_ok h" and "manager_ok m"
  shows "manager_ok (snd (create_room h pid name fd tc db rating m))"
    and "manager_ok (snd (create_ai_room h e pid name fd tc diff db rating m))"
    and "manager_ok (snd (create_reserved_tournament_room h tid pair wdb wname welo bdb bname belo tc m))"
  using assms
  by (auto simp: create_room_def create_ai_room_def create_reserved_tournament_room_def Let_def manager_ok_rooms [of "m\<lparr>next_id := x\<rparr>" m for x]
      manager_ok_rooms [of "m\<lparr>next_id := x, pairing_rooms := y\<rparr>" m for x y] intro!: register_room_ok new_room.intros split: option.splits)

lemma filter_rooms_ok: "manager_ok m \<Longrightarrow> manager_ok (m\<lparr>rooms := filter P (rooms m)\<rparr>)"
  by (auto simp: manager_ok_def distinct_map_filter)

lemma remove_ok:
  assumes "manager_ok m"
  shows "manager_ok (remove_room i m)" and "manager_ok (snd (cleanup_finished_rooms m))"
    and "manager_ok (snd (remove_spectator_everywhere fd m))"
proof -
  show "manager_ok (remove_room i m)" "manager_ok (snd (cleanup_finished_rooms m))"
    using filter_rooms_ok [OF assms] by (simp_all add: remove_room_def cleanup_finished_rooms_def Let_def manager_ok_def)
  have "reachable_room (snd (snd (remove_spectator fd r))) \<and> room_id (snd (snd (remove_spectator fd r))) = room_id r"
    if "reachable_room r" for r
    using reachable_step [OF that, of "Remove_spectator fd"] exec_op_room_id [of "Remove_spectator fd" _ r] by simp
  then show "manager_ok (snd (remove_spectator_everywhere fd m))"
    using assms by (fastforce simp: manager_ok_def remove_spectator_everywhere_def comp_def split_beta)
qed

lemma create_room_find:
  assumes "rehash_ok h" and "manager_ok m"
  shows "find_room (snd (create_room h pid name fd tc db rating m)) (fst (create_room h pid name fd tc db rating m)) =
    Some (snd (snd (add_listener (default_listener m)
      (human_room (fst (create_room h pid name fd tc db rating m)) pid name fd tc db rating))))"
proof -
  have "manager_ok (m\<lparr>next_id := next_id m + 1\<rparr>)" using assms(2) by (simp add: manager_ok_def)
  then show ?thesis by (simp add: create_room_def Let_def register_room_def find_store_room [OF assms(1)])
qed

lemma call_ok:
  assumes "manager_ok m" and "(i, r) \<in> set (rooms m)"
  shows "manager_ok (update_room i (snd (exec_op opn e r)) m)"
  using manager_okD [OF assms] reachable_step [of r opn e] exec_op_room_id [of opn e r]
  by (intro update_room_ok [OF assms(1)]) simp_all

end
