(* ===== verification/Matchmaker.thy ===== *)
theory Matchmaker
  imports RoomManager "HOL-Library.Sublist"
begin

text \<open>
  The matchmaking queue (\<open>src/game/matchmaker.h\<close>, \<open>src/game/matchmaker.cpp\<close>): a bucket of players sorted by
  rating for each time control, an index from connections to places in the buckets, and the sweep
  that pairs neighbours whose rating windows admit each other and opens their rooms. A place in a
  tree (an iterator in the code) is named by the number its node was created with. Shown: the index,
  the buckets and the size agree, a connection waits at most once, and the sweep only pairs two
  different waiting players of one time control inside both windows, who leave the queue for a room
  in progress.
\<close>

section \<open>State\<close>

record queue_entry =
  q_fd :: int
  q_player :: nat
  q_db :: int
  q_name :: string
  q_elo :: int
  q_tc :: time_control
  q_since :: int

type_synonym elo_tree = "(nat \<times> queue_entry) list"

record matchmaker =
  buckets :: "(time_control \<times> elo_tree) list"
  fd_index :: "int \<Rightarrow> (time_control \<times> nat) option"
  total_size :: nat
  next_node :: nat

record match_result =
  ma_white_fd :: int
  ma_black_fd :: int
  ma_white_id :: nat
  ma_black_id :: nat
  ma_white_name :: string
  ma_black_name :: string
  ma_game_id :: nat
  ma_time_control :: time_control

record world =
  \<comment> \<open>the orders that insertions into the two hash maps leave, the matchmaker's clock reads, and the
      clock reads of the calls of rooms, in the order the code makes them\<close>
  rehash_rooms :: "room_table \<Rightarrow> room_table"
  rehash_buckets :: "(time_control \<times> elo_tree) list \<Rightarrow> (time_control \<times> elo_tree) list"
  steady_at :: "nat \<Rightarrow> int"
  env_at :: "nat \<Rightarrow> env"

definition world_ok :: "world \<Rightarrow> bool" where
  "world_ok w \<longleftrightarrow> rehash_ok (rehash_rooms w) \<and> rehash_ok (rehash_buckets w)"

definition new_matchmaker :: matchmaker where
  "new_matchmaker = \<lparr>buckets = [], fd_index = Map.empty, total_size = 0, next_node = 0\<rparr>"

definition acceptable_range :: "queue_entry \<Rightarrow> int \<Rightarrow> int" where
  "acceptable_range q now =
     (let seconds_waiting = to_int32 ((now - q_since q) sdiv 1000000000)
      in 200 + (seconds_waiting sdiv 10) * 50)"

section \<open>The queue\<close>

definition tree_insert :: "nat \<Rightarrow> queue_entry \<Rightarrow> elo_tree \<Rightarrow> elo_tree" where
  \<comment> \<open>\<open>multimap::insert\<close>: after the entries whose rating is not greater\<close>
  "tree_insert n q t = takeWhile (\<lambda>(i, x). q_elo x \<le> q_elo q) t @ (n, q) # dropWhile (\<lambda>(i, x). q_elo x \<le> q_elo q) t"

definition enqueue ::
  "world \<Rightarrow> int \<Rightarrow> nat \<Rightarrow> string \<Rightarrow> int \<Rightarrow> time_control \<Rightarrow> int \<Rightarrow> matchmaker \<Rightarrow> bool \<times> matchmaker" where
  "enqueue w fd pid name rating tc db q =
     (if fd_index q fd \<noteq> None then (False, q)
      else let entry = \<lparr>q_fd = fd, q_player = pid, q_db = db, q_name = name, q_elo = rating, q_tc = tc,
                 q_since = steady_at w 0\<rparr>;
               n = next_node q;
               bs = (if map_of (buckets q) tc = None then rehash_buckets w ((tc, []) # buckets q) else buckets q);
               t = the (map_of bs tc)
           in (True, q\<lparr>buckets := replace_entry tc (tree_insert n entry t) bs,
                 fd_index := (fd_index q)(fd \<mapsto> (tc, n)), total_size := total_size q + 1, next_node := n + 1\<rparr>))"

definition dequeue :: "int \<Rightarrow> matchmaker \<Rightarrow> bool \<times> matchmaker" where
  "dequeue fd q =
     (case fd_index q fd of
        None \<Rightarrow> (False, q)
      | Some (tc, n) \<Rightarrow>
          (let bs = (case map_of (buckets q) tc of
                       None \<Rightarrow> buckets q
                     | Some t \<Rightarrow>
                         let t1 = filter (\<lambda>(i, x). i \<noteq> n) t
                         in if t1 = [] then filter (\<lambda>(c, x). c \<noteq> tc) (buckets q)
                            else replace_entry tc t1 (buckets q))
           in (True, q\<lparr>buckets := bs, fd_index := (fd_index q)(fd := None), total_size := total_size q - 1\<rparr>)))"

definition is_queued :: "matchmaker \<Rightarrow> int \<Rightarrow> bool" where
  "is_queued q fd \<longleftrightarrow> fd_index q fd \<noteq> None"

definition queue_size :: "matchmaker \<Rightarrow> nat" where
  "queue_size q = total_size q"

section \<open>The sweep\<close>

datatype match_event =
  \<comment> \<open>an event of the room of a match, and the call of the match callback\<close>
    Match_room nat room_output
  | Match_callback match_result

record sweep =
  sw_mgr :: manager
  sw_index :: "int \<Rightarrow> (time_control \<times> nat) option"
  sw_size :: nat
  sw_reads :: nat
  sw_results :: "match_result list"
  sw_outputs :: "match_event list"

definition compatible :: "queue_entry \<Rightarrow> queue_entry \<Rightarrow> int \<Rightarrow> bool" where
  "compatible a b now \<longleftrightarrow>
     \<bar>q_elo a - q_elo b\<bar> \<le> acceptable_range a now \<and> \<bar>q_elo a - q_elo b\<bar> \<le> acceptable_range b now"

definition open_match :: "world \<Rightarrow> queue_entry \<Rightarrow> queue_entry \<Rightarrow> sweep \<Rightarrow> sweep" where
  \<comment> \<open>the room of a match, its result, and the removal of both players from the index\<close>
  "open_match w a b s =
     (let (rid, m1) = create_room (rehash_rooms w) (q_player a) (q_name a) (q_fd a) (q_tc a) (q_db a) (q_elo a) (sw_mgr s);
          (joined, outs, r1) = join (env_at w (sw_reads s)) (q_player b) (q_name b) (q_fd b) (q_db b) (q_elo b)
            (the (find_room m1 rid));
          res = \<lparr>ma_white_fd = q_fd a, ma_black_fd = q_fd b, ma_white_id = q_player a, ma_black_id = q_player b,
               ma_white_name = q_name a, ma_black_name = q_name b, ma_game_id = room_id r1, ma_time_control = q_tc a\<rparr>
      in s\<lparr>sw_mgr := update_room rid r1 m1,
           sw_index := (sw_index s)(q_fd a := None, q_fd b := None),
           sw_size := sw_size s - 2,
           sw_results := sw_results s @ [res],
           sw_outputs := sw_outputs s @ map (Match_room rid) outs @ [Match_callback res]\<rparr>)"

fun sweep_bucket :: "world \<Rightarrow> elo_tree \<Rightarrow> sweep \<Rightarrow> elo_tree \<times> sweep" where
  \<comment> \<open>the walk over neighbours: what stays in the tree\<close>
  "sweep_bucket w ((i, a) # (j, b) # rest) s =
     (let now = steady_at w (sw_reads s); s1 = s\<lparr>sw_reads := sw_reads s + 1\<rparr>
      in if compatible a b now then sweep_bucket w rest (open_match w a b s1)
         else let (kept, s2) = sweep_bucket w ((j, b) # rest) s1 in ((i, a) # kept, s2))"
| "sweep_bucket w t s = (t, s)"

fun sweep_buckets :: "world \<Rightarrow> (time_control \<times> elo_tree) list \<Rightarrow> sweep \<Rightarrow> (time_control \<times> elo_tree) list \<times> sweep" where
  "sweep_buckets w [] s = ([], s)"
| "sweep_buckets w ((tc, t) # bs) s =
     (let (t1, s1) = (if length t < 2 then (t, s) else sweep_bucket w t s);
          (bs1, s2) = sweep_buckets w bs s1
      in ((tc, t1) # bs1, s2))"

definition try_match :: "world \<Rightarrow> matchmaker \<Rightarrow> manager \<Rightarrow>
    match_result list \<times> match_event list \<times> matchmaker \<times> manager" where
  "try_match w q m =
     (let (bs, s) = sweep_buckets w (buckets q)
            \<lparr>sw_mgr = m, sw_index = fd_index q, sw_size = total_size q, sw_reads = 0, sw_results = [], sw_outputs = []\<rparr>
      in (sw_results s, sw_outputs s,
          q\<lparr>buckets := bs, fd_index := sw_index s, total_size := sw_size s\<rparr>, sw_mgr s))"

section \<open>The invariant\<close>

definition queue_nodes :: "(time_control \<times> elo_tree) list \<Rightarrow> (time_control \<times> nat \<times> queue_entry) list" where
  "queue_nodes bs = concat (map (\<lambda>(tc, t). map (\<lambda>(n, x). (tc, n, x)) t) bs)"

definition index_ok :: "(time_control \<times> nat \<times> queue_entry) list \<Rightarrow> (int \<Rightarrow> (time_control \<times> nat) option) \<Rightarrow> nat \<Rightarrow> bool" where
  \<comment> \<open>each node is the place of its connection in the index, each place in the index is a node, nodes
      differ, and the size counts them\<close>
  "index_ok ns ix sz \<longleftrightarrow>
     (\<forall>tc n x. (tc, n, x) \<in> set ns \<longrightarrow> q_tc x = tc \<and> ix (q_fd x) = Some (tc, n)) \<and>
     (\<forall>fd tc n. ix fd = Some (tc, n) \<longrightarrow> (\<exists>x. (tc, n, x) \<in> set ns \<and> q_fd x = fd)) \<and>
     distinct (map (fst \<circ> snd) ns) \<and> sz = length ns"

definition queue_ok :: "matchmaker \<Rightarrow> bool" where
  "queue_ok q \<longleftrightarrow>
     distinct (map fst (buckets q)) \<and> (\<forall>(tc, t) \<in> set (buckets q). sorted (map (\<lambda>(n, x). q_elo x) t)) \<and>
     index_ok (queue_nodes (buckets q)) (fd_index q) (total_size q) \<and>
     (\<forall>(tc, n, x) \<in> set (queue_nodes (buckets q)). n < next_node q)"

lemma queue_nodes_simps [simp]:
  "queue_nodes [] = []" "queue_nodes ((tc, t) # bs) = map (Pair tc) t @ queue_nodes bs"
  by (simp_all add: queue_nodes_def case_prod_unfold)

lemma index_ok_mset: "mset ns = mset ns' \<Longrightarrow> index_ok ns ix k \<Longrightarrow> index_ok ns' ix k"
proof -
  assume eq: "mset ns = mset ns'"
  then have "mset (map (fst \<circ> snd) ns) = mset (map (fst \<circ> snd) ns')" by (simp only: mset_map)
  then have "distinct (map (fst \<circ> snd) ns) = distinct (map (fst \<circ> snd) ns')" by (rule mset_eq_imp_distinct_iff)
  then show "index_ok ns ix k \<Longrightarrow> index_ok ns' ix k"
    using mset_eq_setD [OF eq] mset_eq_length [OF eq] unfolding index_ok_def by simp
qed

lemma index_ok_place: "index_ok ns ix k \<Longrightarrow> (tc, n, x) \<in> set ns \<Longrightarrow> q_tc x = tc \<and> ix (q_fd x) = Some (tc, n)"
  by (simp add: index_ok_def)

lemma index_ok_entry: "index_ok ns ix k \<Longrightarrow> ix fd = Some (tc, n) \<Longrightarrow> \<exists>x. (tc, n, x) \<in> set ns \<and> q_fd x = fd"
  by (simp add: index_ok_def)

lemma index_ok_add:
  assumes "index_ok ns ix k" and "ix (q_fd x) = None" and "q_tc x = tc" and "n \<notin> (fst \<circ> snd) ` set ns"
  shows "index_ok ((tc, n, x) # ns) (ix(q_fd x \<mapsto> (tc, n))) (k + 1)"
  unfolding index_ok_def
proof (intro conjI allI impI)
  show "q_tc y = c" and "(ix(q_fd x \<mapsto> (tc, n))) (q_fd y) = Some (c, i)" if "(c, i, y) \<in> set ((tc, n, x) # ns)" for c i y
    using that assms(2,3) index_ok_place [OF assms(1), of c i y] by auto
  show "\<exists>y. (c, i, y) \<in> set ((tc, n, x) # ns) \<and> q_fd y = fd"
    if "(ix(q_fd x \<mapsto> (tc, n))) fd = Some (c, i)" for fd c i
  proof (cases "fd = q_fd x")
    case False
    then have "ix fd = Some (c, i)" using that by simp
    then have "\<exists>y. (c, i, y) \<in> set ns \<and> q_fd y = fd" by (rule index_ok_entry [OF assms(1)])
    then show ?thesis by auto
  qed (use that in auto)
qed (use assms in \<open>simp_all add: index_ok_def\<close>)

lemma index_ok_remove:
  assumes "index_ok ((tc, n, x) # ns) ix k"
  shows "index_ok ns (ix(q_fd x := None)) (k - 1)"
proof -
  have other: "q_fd y \<noteq> q_fd x" if "(c, i, y) \<in> set ns" for c i y
  proof
    assume "q_fd y = q_fd x"
    moreover have "ix (q_fd y) = Some (c, i)" "ix (q_fd x) = Some (tc, n)"
      using index_ok_place [OF assms, of c i y] index_ok_place [OF assms, of tc n x] that by simp_all
    ultimately have "i = n" by simp
    then have "n \<in> (fst \<circ> snd) ` set ns" using that by force
    then show False using assms by (simp add: index_ok_def)
  qed
  show ?thesis
    unfolding index_ok_def
  proof (intro conjI allI impI)
    show "\<exists>y. (c, i, y) \<in> set ns \<and> q_fd y = fd" if "(ix(q_fd x := None)) fd = Some (c, i)" for fd c i
    proof -
      have "fd \<noteq> q_fd x" and "ix fd = Some (c, i)" using that by (auto split: if_splits)
      then obtain y where "(c, i, y) \<in> set ((tc, n, x) # ns)" "q_fd y = fd"
        using index_ok_entry [OF assms] by blast
      then show ?thesis using \<open>fd \<noteq> q_fd x\<close> by auto
    qed
    show "q_tc y = c" and "(ix(q_fd x := None)) (q_fd y) = Some (c, i)" if "(c, i, y) \<in> set ns" for c i y
      using that other [OF that] index_ok_place [OF assms, of c i y] by auto
  qed (use assms in \<open>simp_all add: index_ok_def\<close>)
qed

lemma queue_nodes_replace:
  assumes "distinct (map fst bs)" and "map_of bs tc = Some t"
  shows "mset (queue_nodes (replace_entry tc t' bs)) + mset (map (Pair tc) t) = mset (queue_nodes bs) + mset (map (Pair tc) t')"
  using assms
proof (induction bs)
  case (Cons p bs)
  obtain c u where p: "p = (c, u)" by (cases p)
  show ?case
  proof (cases "c = tc")
    case True
    then have "replace_entry tc t' bs = bs"
      using Cons.prems(1) unfolding p replace_entry_def by (intro map_idI) force
    then show ?thesis using True Cons.prems(2) by (simp add: p replace_entry_def)
  next
    case False
    then show ?thesis using Cons by (simp add: p) (simp add: replace_entry_def ac_simps)
  qed
qed simp

lemma queue_nodes_filter:
  assumes "distinct (map fst bs)" and "map_of bs tc = Some t"
  shows "mset (queue_nodes (filter (\<lambda>(c, x). c \<noteq> tc) bs)) + mset (map (Pair tc) t) = mset (queue_nodes bs)"
  using assms
proof (induction bs)
  case (Cons p bs)
  obtain c u where p: "p = (c, u)" by (cases p)
  show ?case
  proof (cases "c = tc")
    case True
    then have "filter (\<lambda>(c, x). c \<noteq> tc) bs = bs" using Cons.prems(1) unfolding p by (intro filter_True) force
    then show ?thesis using True Cons.prems(2) by (simp add: p)
  next
    case False
    then show ?thesis using Cons by (simp add: p ac_simps)
  qed
qed simp

lemma queue_nodes_mset: "mset bs = mset bs' \<Longrightarrow> mset (queue_nodes bs) = mset (queue_nodes bs')"
proof -
  have "mset (queue_nodes bs) = sum_mset (image_mset (\<lambda>(tc, t). mset (map (Pair tc) t)) (mset bs))" for bs
    by (induction bs) auto
  then show "mset bs = mset bs' \<Longrightarrow> mset (queue_nodes bs) = mset (queue_nodes bs')" by metis
qed

lemma mset_tree_insert: "mset (tree_insert n q t) = add_mset (n, q) (mset t)"
  unfolding tree_insert_def
  by (metis (no_types, lifting) add_mset_add_single mset_append mset.simps(2) takeWhile_dropWhile_id union_mset_add_mset_right)

lemma sorted_tree_insert:
  assumes "sorted (map (\<lambda>(i, x). q_elo x) t)"
  shows "sorted (map (\<lambda>(i, x). q_elo x) (tree_insert n q t))"
  using assms
proof (induction t)
  case (Cons p t)
  have "set (tree_insert n q t) = insert (n, q) (set t)"
    using mset_tree_insert [of n q t] by (metis set_mset_add_mset_insert set_mset_mset)
  then show ?case using Cons by (cases p) (force simp: tree_insert_def)
qed (simp add: tree_insert_def)

lemma queue_okD:
  assumes "queue_ok q"
  shows "distinct (map fst (buckets q))" and "index_ok (queue_nodes (buckets q)) (fd_index q) (total_size q)"
    and "\<And>tc t. (tc, t) \<in> set (buckets q) \<Longrightarrow> sorted (map (\<lambda>(n, x). q_elo x) t)"
    and "\<And>tc n x. (tc, n, x) \<in> set (queue_nodes (buckets q)) \<Longrightarrow> n < next_node q"
  using assms by (auto simp: queue_ok_def)

lemma set_queue_nodes: "(tc, n, x) \<in> set (queue_nodes bs) \<longleftrightarrow> (\<exists>t. (tc, t) \<in> set bs \<and> (n, x) \<in> set t)"
  by (induction bs) auto

lemma bucket_for:
  assumes "rehash_ok h" and "distinct (map fst bs)"
    and "bs' = (if map_of bs tc = None then h ((tc, []) # bs) else bs)"
  shows "distinct (map fst bs')" and "map_of bs' tc = Some (case map_of bs tc of None \<Rightarrow> [] | Some t \<Rightarrow> t)"
    and "mset (queue_nodes bs') = mset (queue_nodes bs)"
    and "(c, t) \<in> set bs' \<Longrightarrow> t = [] \<or> (c, t) \<in> set bs"
proof -
  have fresh: "distinct (map fst ((tc, []) # bs))" if "map_of bs tc = None"
    using that assms(2) by (simp add: map_of_eq_None_iff)
  show d: "distinct (map fst bs')" using assms fresh by (auto simp: rehash_keys)
  have "(tc, []) \<in> set bs'" if "map_of bs tc = None" using that assms(1,3) by (simp add: rehash_set)
  then show "map_of bs' tc = Some (case map_of bs tc of None \<Rightarrow> [] | Some t \<Rightarrow> t)"
    using assms(3) d by (cases "map_of bs tc") auto
  have "mset (queue_nodes (h ((tc, []) # bs))) = mset (queue_nodes ((tc, []) # bs))"
    using assms(1) by (intro queue_nodes_mset) (simp add: rehash_ok_def)
  then show "mset (queue_nodes bs') = mset (queue_nodes bs)" using assms(3) by simp
  show "(c, t) \<in> set bs' \<Longrightarrow> t = [] \<or> (c, t) \<in> set bs" using assms(1,3) by (auto simp: rehash_set split: if_splits)
qed

lemma enqueue_ok:
  assumes "world_ok w" and "queue_ok q"
  shows "queue_ok (snd (enqueue w fd pid name rating tc db q))"
proof (cases "fd_index q fd = None")
  case True
  define bs where "bs = (if map_of (buckets q) tc = None then rehash_buckets w ((tc, []) # buckets q) else buckets q)"
  define t where "t = (case map_of (buckets q) tc of None \<Rightarrow> [] | Some t \<Rightarrow> t)"
  define x where "x = \<lparr>q_fd = fd, q_player = pid, q_db = db, q_name = name, q_elo = rating, q_tc = tc, q_since = steady_at w 0\<rparr>"
  let ?n = "next_node q" and ?bs = "replace_entry tc (tree_insert (next_node q) x t) bs"
  note q = queue_okD [OF assms(2)]
  have h: "rehash_ok (rehash_buckets w)" using assms(1) by (simp add: world_ok_def)
  note b = bucket_for [OF h q(1) bs_def]
  have "mset (map (Pair tc) (tree_insert ?n x t)) = add_mset (tc, ?n, x) (mset (map (Pair tc) t))"
    by (simp add: mset_tree_insert)
  then have nodes: "mset (queue_nodes ?bs) = mset ((tc, ?n, x) # queue_nodes (buckets q))"
    using queue_nodes_replace [OF b(1,2), of "tree_insert ?n x t"] b(3) by (simp add: t_def)
  have "?n \<notin> (fst \<circ> snd) ` set (queue_nodes (buckets q))" using q(4) by force
  then have "index_ok ((tc, ?n, x) # queue_nodes (buckets q)) ((fd_index q)(q_fd x \<mapsto> (tc, ?n))) (total_size q + 1)"
    using True q(2) by (intro index_ok_add) (simp_all add: x_def)
  then have "index_ok (queue_nodes ?bs) ((fd_index q)(fd \<mapsto> (tc, ?n))) (total_size q + 1)"
    using index_ok_mset [OF nodes [symmetric]] by (simp add: x_def)
  moreover have "sorted (map (\<lambda>(n, x). q_elo x) t)"
    using q(3) by (auto simp: t_def dest: map_of_SomeD split: option.splits)
  then have "\<forall>(c, u) \<in> set ?bs. sorted (map (\<lambda>(n, x). q_elo x) u)"
    using sorted_tree_insert [of t ?n x] b(4) q(3) by (fastforce simp: replace_entry_set split: if_splits)
  moreover have "\<forall>(c, n, y) \<in> set (queue_nodes ?bs). n < next_node q + 1"
    using mset_eq_setD [OF nodes] q(4) by (auto intro: less_SucI)
  moreover have "snd (enqueue w fd pid name rating tc db q) =
      q\<lparr>buckets := ?bs, fd_index := (fd_index q)(fd \<mapsto> (tc, ?n)), total_size := total_size q + 1, next_node := ?n + 1\<rparr>"
    using True b(2) by (simp add: enqueue_def Let_def bs_def [symmetric] x_def t_def)
  ultimately show ?thesis using b(1) by (simp add: queue_ok_def)
qed (use assms(2) in \<open>auto simp: enqueue_def\<close>)

lemma mset_filter_key:
  assumes "distinct (map fst t)" and "(n, x) \<in> set t"
  shows "mset t = add_mset (n, x) (mset (filter (\<lambda>(i, y). i \<noteq> n) t))"
  using assms
proof (induction t)
  case (Cons p t)
  show ?case
  proof (cases "p = (n, x)")
    case True
    then have "filter (\<lambda>(i, y). i \<noteq> n) t = t" using Cons.prems(1) by (intro filter_True) force
    then show ?thesis using True by simp
  next
    case False
    then have "(n, x) \<in> set t" using Cons.prems(2) by simp
    then have "n \<in> fst ` set t" by force
    then have "fst p \<noteq> n" using Cons.prems(1) by auto
    then show ?thesis using Cons \<open>(n, x) \<in> set t\<close> by (simp add: split_beta)
  qed
qed simp

lemma dequeue_ok:
  assumes "queue_ok q"
  shows "queue_ok (snd (dequeue fd q))"
proof (cases "fd_index q fd")
  case (Some p)
  obtain tc n where p: "p = (tc, n)" by (cases p)
  note q = queue_okD [OF assms]
  obtain x where x: "(tc, n, x) \<in> set (queue_nodes (buckets q))" "q_fd x = fd"
    using index_ok_entry [OF q(2) Some [unfolded p]] by blast
  then obtain t where t: "(tc, t) \<in> set (buckets q)" "(n, x) \<in> set t" by (auto simp: set_queue_nodes)
  then have bucket: "map_of (buckets q) tc = Some t" using q(1) by simp
  define t1 where "t1 = filter (\<lambda>(i, y). i \<noteq> n) t"
  define bs where "bs = (if t1 = [] then filter (\<lambda>(c, y). c \<noteq> tc) (buckets q) else replace_entry tc t1 (buckets q))"
  have "distinct (map fst t)"
  proof -
    obtain us vs where "buckets q = us @ (tc, t) # vs" using t(1) by (meson split_list)
    then have "queue_nodes (buckets q) = queue_nodes us @ map (Pair tc) t @ queue_nodes vs"
      by (simp add: queue_nodes_def)
    then have "distinct (map (fst \<circ> snd) (map (Pair tc) t))" using q(2) by (simp add: index_ok_def del: map_map)
    then show ?thesis by (simp add: comp_def)
  qed
  then have "mset t = add_mset (n, x) (mset t1)"
    using t(2) unfolding t1_def by (rule mset_filter_key)
  then have nodes: "mset (queue_nodes (buckets q)) = mset ((tc, n, x) # queue_nodes bs)"
    using queue_nodes_filter [OF q(1) bucket] queue_nodes_replace [OF q(1) bucket, of t1]
    by (auto simp: bs_def)
  have "index_ok (queue_nodes bs) ((fd_index q)(fd := None)) (total_size q - 1)"
    using index_ok_remove [OF index_ok_mset [OF nodes q(2)]] x(2) by simp
  moreover have "sorted (map (\<lambda>(n, x). q_elo x) t1)"
    using q(3) [OF t(1)] unfolding t1_def by (rule sorted_filter)
  then have "\<forall>(c, u) \<in> set bs. sorted (map (\<lambda>(n, x). q_elo x) u)"
    using q(3) by (auto simp: bs_def replace_entry_set split: if_splits)
  moreover have "\<forall>(c, i, y) \<in> set (queue_nodes bs). i < next_node q"
    using mset_eq_setD [OF nodes] q(4) by auto
  moreover have "distinct (map fst bs)" using q(1) by (simp add: bs_def distinct_map_filter)
  moreover have "snd (dequeue fd q) = q\<lparr>buckets := bs, fd_index := (fd_index q)(fd := None), total_size := total_size q - 1\<rparr>"
    using Some bucket by (simp add: dequeue_def p Let_def bs_def t1_def)
  ultimately show ?thesis by (simp add: queue_ok_def)
qed (use assms in \<open>simp add: dequeue_def\<close>)

section \<open>What the sweep does\<close>

definition matched_fds :: "match_result list \<Rightarrow> int list" where
  "matched_fds rs = concat (map (\<lambda>r. [ma_white_fd r, ma_black_fd r]) rs)"

definition waiting :: "matchmaker \<Rightarrow> int multiset" where
  "waiting q = mset (map (\<lambda>(tc, n, x). q_fd x) (queue_nodes (buckets q)))"

definition fair_match :: "world \<Rightarrow> (time_control \<times> nat \<times> queue_entry) list \<Rightarrow> match_result \<Rightarrow> bool" where
  \<comment> \<open>two places of one bucket whose windows admitted each other at one clock read\<close>
  "fair_match w ns r \<longleftrightarrow>
     (\<exists>tc i a j b k. (tc, i, a) \<in> set ns \<and> (tc, j, b) \<in> set ns \<and> i \<noteq> j \<and>
        q_tc a = ma_time_control r \<and> q_tc b = ma_time_control r \<and>
        compatible a b (steady_at w k) \<and> ma_white_fd r = q_fd a \<and> ma_black_fd r = q_fd b \<and>
        ma_white_id r = q_player a \<and> ma_black_id r = q_player b)"

definition swept :: "world \<Rightarrow> (time_control \<times> nat \<times> queue_entry) list \<Rightarrow> sweep \<Rightarrow>
    (time_control \<times> nat \<times> queue_entry) list \<Rightarrow> sweep \<Rightarrow> bool" where
  \<comment> \<open>from a queue with these nodes to one with those: the index is kept, the manager stays sound, and
      the new results are fair matches of exactly those who left\<close>
  "swept w ns s ns' s' \<longleftrightarrow>
     index_ok ns' (sw_index s') (sw_size s') \<and> manager_ok (sw_mgr s') \<and> set ns' \<subseteq> set ns \<and>
     (\<exists>rs. sw_results s' = sw_results s @ rs \<and> (\<forall>r \<in> set rs. fair_match w ns r) \<and>
        mset (map (\<lambda>(tc, n, x). q_fd x) ns) = mset (map (\<lambda>(tc, n, x). q_fd x) ns') + mset (matched_fds rs))"

lemma swept_refl: "index_ok ns (sw_index s) (sw_size s) \<Longrightarrow> manager_ok (sw_mgr s) \<Longrightarrow> swept w ns s ns s"
  by (simp add: swept_def matched_fds_def)

lemma swept_trans:
  assumes "swept w ns s ns' s'" and "swept w ns' s' ns'' s''"
  shows "swept w ns s ns'' s''"
proof -
  obtain rs where rs: "sw_results s' = sw_results s @ rs" "\<forall>r \<in> set rs. fair_match w ns r"
    "mset (map (\<lambda>(tc, n, x). q_fd x) ns) = mset (map (\<lambda>(tc, n, x). q_fd x) ns') + mset (matched_fds rs)"
    "set ns' \<subseteq> set ns" using assms(1) by (auto simp: swept_def)
  obtain rs' where rs': "sw_results s'' = sw_results s' @ rs'" "\<forall>r \<in> set rs'. fair_match w ns' r"
    "mset (map (\<lambda>(tc, n, x). q_fd x) ns') = mset (map (\<lambda>(tc, n, x). q_fd x) ns'') + mset (matched_fds rs')"
    "set ns'' \<subseteq> set ns'" using assms(2) by (auto simp: swept_def)
  have "fair_match w ns r" if "fair_match w ns' r" for r
    using that rs(4) unfolding fair_match_def by blast
  then have "\<forall>r \<in> set (rs @ rs'). fair_match w ns r" using rs(2) rs'(2) by auto
  moreover have "mset (map (\<lambda>(tc, n, x). q_fd x) ns) = mset (map (\<lambda>(tc, n, x). q_fd x) ns'') + mset (matched_fds (rs @ rs'))"
    using rs(3) rs'(3) by (simp add: matched_fds_def ac_simps)
  moreover have "sw_results s'' = sw_results s @ rs @ rs'" using rs(1) rs'(1) by simp
  ultimately show ?thesis
    using assms(2) rs(4) rs'(4) unfolding swept_def by (intro conjI exI [of _ "rs @ rs'"]) auto
qed

lemma open_match_swept:
  assumes "world_ok w" and "manager_ok (sw_mgr s)"
    and "index_ok ((tc, i, a) # (tc, j, b) # ns) (sw_index s) (sw_size s)" and "compatible a b (steady_at w k)"
  shows "swept w ((tc, i, a) # (tc, j, b) # ns) s ns (open_match w a b s)"
proof -
  have h: "rehash_ok (rehash_rooms w)" using assms(1) by (simp add: world_ok_def)
  obtain rid m1 where c: "create_room (rehash_rooms w) (q_player a) (q_name a) (q_fd a) (q_tc a) (q_db a) (q_elo a) (sw_mgr s) = (rid, m1)"
    by (metis surj_pair)
  have m1: "manager_ok m1" using create_ok(1) [OF h assms(2)] c by (metis snd_conv)
  obtain r where r: "find_room m1 rid = Some r"
    using create_room_find [OF h assms(2)] c by (metis fst_conv snd_conv)
  have "manager_ok (update_room rid (snd (exec_op (Join (q_player b) (q_name b) (q_fd b) (q_db b) (q_elo b))
      (env_at w (sw_reads s)) r)) m1)" by (rule call_ok [OF m1 find_room_member [OF r]])
  then have mgr: "manager_ok (sw_mgr (open_match w a b s))" using c r by (simp add: open_match_def split_beta Let_def)
  have "q_fd a \<noteq> q_fd b"
    using index_ok_place [OF assms(3), of tc i a] index_ok_place [OF assms(3), of tc j b] assms(3)
    by (auto simp: index_ok_def)
  have "index_ok ns ((sw_index s)(q_fd a := None, q_fd b := None)) (sw_size s - 1 - 1)"
    by (intro index_ok_remove [of tc j] index_ok_remove [of tc i] assms(3))
  moreover have "sw_size (open_match w a b s) = sw_size s - 1 - 1"
    "sw_index (open_match w a b s) = (sw_index s)(q_fd a := None, q_fd b := None)"
    by (simp_all add: open_match_def split_beta Let_def)
  ultimately have ix: "index_ok ns (sw_index (open_match w a b s)) (sw_size (open_match w a b s))" by simp
  obtain rs where rs: "sw_results (open_match w a b s) = sw_results s @ [rs]" "ma_white_fd rs = q_fd a" "ma_black_fd rs = q_fd b"
      "ma_white_id rs = q_player a" "ma_black_id rs = q_player b" "ma_time_control rs = q_tc a"
    by (simp add: open_match_def split_beta Let_def)
  have "q_tc a = tc" "q_tc b = tc" "i \<noteq> j"
    using index_ok_place [OF assms(3), of tc i a] index_ok_place [OF assms(3), of tc j b] assms(3)
    by (auto simp: index_ok_def)
  then have "fair_match w ((tc, i, a) # (tc, j, b) # ns) rs"
    unfolding fair_match_def using rs assms(4)
    by (intro exI [of _ tc] exI [of _ i] exI [of _ a] exI [of _ j] exI [of _ b] exI [of _ k]) simp
  then show ?thesis
    unfolding swept_def using ix mgr rs
    by (intro conjI exI [of _ "[rs]"]) (auto simp: matched_fds_def)
qed

lemma swept_mset:
  assumes "mset ns = mset ms" and "mset ns' = mset ms'" and "swept w ns s ns' s'"
  shows "swept w ms s ms' s'"
proof -
  have "set ns = set ms" "set ns' = set ms'" using assms(1,2) mset_eq_setD by blast+
  moreover have "mset (map f ns) = mset (map f ms)" "mset (map f ns') = mset (map f ms')"
    for f :: "time_control \<times> nat \<times> queue_entry \<Rightarrow> int"
    using assms(1,2) by (simp_all only: mset_map)
  moreover have "fair_match w ms = fair_match w ns"
    using \<open>set ns = set ms\<close> by (simp add: fair_match_def fun_eq_iff)
  ultimately show ?thesis using assms(3) index_ok_mset [OF assms(2)] unfolding swept_def by metis
qed

lemma swept_reads: "swept w ns (s\<lparr>sw_reads := k\<rparr>) ns' s' = swept w ns s ns' s'"
  by (simp add: swept_def)

lemma sweep_bucket_swept:
  assumes "world_ok w" and "manager_ok (sw_mgr s)" and "index_ok (map (Pair tc) t @ ns) (sw_index s) (sw_size s)"
  shows "swept w (map (Pair tc) t @ ns) s (map (Pair tc) (fst (sweep_bucket w t s)) @ ns) (snd (sweep_bucket w t s)) \<and>
    subseq (fst (sweep_bucket w t s)) t"
  using assms
proof (induction w t s arbitrary: ns rule: sweep_bucket.induct)
  case (1 w i a j b rest s)
  let ?s = "s\<lparr>sw_reads := sw_reads s + 1\<rparr>"
  note ix = 1(5) [simplified]
  show ?case
  proof (cases "compatible a b (steady_at w (sw_reads s))")
    case True
    have first: "swept w ((tc, i, a) # (tc, j, b) # map (Pair tc) rest @ ns) ?s (map (Pair tc) rest @ ns) (open_match w a b ?s)"
      using 1(3,4) ix True by (intro open_match_swept) simp_all
    then have "manager_ok (sw_mgr (open_match w a b ?s))"
      "index_ok (map (Pair tc) rest @ ns) (sw_index (open_match w a b ?s)) (sw_size (open_match w a b ?s))"
      by (simp_all add: swept_def)
    note rest = 1(1) [OF refl refl True 1(3) this]
    have "sweep_bucket w ((i, a) # (j, b) # rest) s = sweep_bucket w rest (open_match w a b ?s)"
      using True by (simp add: Let_def)
    then show ?thesis using swept_trans [OF first conjunct1 [OF rest]] rest by (auto simp: swept_reads)
  next
    case False
    obtain kept s' where kept: "sweep_bucket w ((j, b) # rest) ?s = (kept, s')" by (metis surj_pair)
    have "index_ok (map (Pair tc) ((j, b) # rest) @ (tc, i, a) # ns) (sw_index s) (sw_size s)"
      by (rule index_ok_mset [OF _ ix]) (simp add: add_mset_commute)
    then have "index_ok (map (Pair tc) ((j, b) # rest) @ (tc, i, a) # ns) (sw_index ?s) (sw_size ?s)" by simp
    from 1(2) [OF refl refl False 1(3) _ this] 1(4) kept
    have "swept w (map (Pair tc) ((j, b) # rest) @ (tc, i, a) # ns) ?s (map (Pair tc) kept @ (tc, i, a) # ns) s'"
      and sub: "subseq kept ((j, b) # rest)" by simp_all
    then have "swept w (map (Pair tc) ((i, a) # (j, b) # rest) @ ns) ?s (map (Pair tc) ((i, a) # kept) @ ns) s'"
      by (elim swept_mset [rotated 2]) simp_all
    moreover have "sweep_bucket w ((i, a) # (j, b) # rest) s = ((i, a) # kept, s')"
      using False kept by (simp add: Let_def)
    ultimately show ?thesis using sub by (simp add: swept_reads)
  qed
qed (auto intro: swept_refl)

lemma sorted_subseq: "subseq xs ys \<Longrightarrow> sorted ys \<Longrightarrow> sorted xs"
proof (induction rule: list_emb.induct)
  case (list_emb_Cons2 x y xs ys)
  then show ?case using list_emb_set [of "(=)" xs ys] by auto
qed auto

lemma sweep_buckets_swept:
  assumes "world_ok w" and "manager_ok (sw_mgr s)" and "index_ok (queue_nodes bs @ ns) (sw_index s) (sw_size s)"
    and "\<forall>(tc, t) \<in> set bs. sorted (map (\<lambda>(n, x). q_elo x) t)"
  shows "swept w (queue_nodes bs @ ns) s (queue_nodes (fst (sweep_buckets w bs s)) @ ns) (snd (sweep_buckets w bs s)) \<and>
    map fst (fst (sweep_buckets w bs s)) = map fst bs \<and>
    (\<forall>(tc, t) \<in> set (fst (sweep_buckets w bs s)). sorted (map (\<lambda>(n, x). q_elo x) t))"
  using assms
proof (induction w bs s arbitrary: ns rule: sweep_buckets.induct)
  case (1 w s)
  then show ?case by (simp add: swept_refl)
next
  case (2 w tc t bs s)
  obtain t1 s1 where t1: "(if length t < 2 then (t, s) else sweep_bucket w t s) = (t1, s1)" by (metis surj_pair)
  obtain bs1 s2 where bs1: "sweep_buckets w bs s1 = (bs1, s2)" by (metis surj_pair)
  have ix: "index_ok (map (Pair tc) t @ (queue_nodes bs @ ns)) (sw_index s) (sw_size s)" using 2(4) by simp
  have first: "swept w (map (Pair tc) t @ (queue_nodes bs @ ns)) s (map (Pair tc) t1 @ (queue_nodes bs @ ns)) s1 \<and> subseq t1 t"
    using sweep_bucket_swept [OF 2(2,3) ix] swept_refl [OF ix 2(3), of w] t1 by (auto split: if_splits)
  then have "manager_ok (sw_mgr s1)" "index_ok (map (Pair tc) t1 @ (queue_nodes bs @ ns)) (sw_index s1) (sw_size s1)"
    by (simp_all add: swept_def)
  then have "index_ok (queue_nodes bs @ (map (Pair tc) t1 @ ns)) (sw_index s1) (sw_size s1)"
    by (elim index_ok_mset [rotated]) (simp add: ac_simps)
  note rest = 2(1) [OF t1 [symmetric] refl 2(2) \<open>manager_ok (sw_mgr s1)\<close> this]
  have tail: "swept w (queue_nodes bs @ (map (Pair tc) t1 @ ns)) s1 (queue_nodes bs1 @ (map (Pair tc) t1 @ ns)) s2 \<and>
      map fst bs1 = map fst bs \<and> (\<forall>(tc, t) \<in> set bs1. sorted (map (\<lambda>(n, x). q_elo x) t))"
    using rest 2(5) bs1 by auto
  then have "swept w (map (Pair tc) t1 @ queue_nodes bs @ ns) s1 (map (Pair tc) t1 @ queue_nodes bs1 @ ns) s2"
    by (auto elim!: swept_mset [rotated 2] simp: ac_simps)
  then have "swept w (queue_nodes ((tc, t) # bs) @ ns) s (queue_nodes ((tc, t1) # bs1) @ ns) s2"
    using swept_trans conjunct1 [OF first] by fastforce
  moreover have "sweep_buckets w ((tc, t) # bs) s = ((tc, t1) # bs1, s2)" using t1 bs1 by simp
  moreover have "subseq (map (\<lambda>(n, x). q_elo x) t1) (map (\<lambda>(n, x). q_elo x) t)"
    using first by (intro subseq_map) simp
  then have "sorted (map (\<lambda>(n, x). q_elo x) t1)"
    using 2(5) by (auto intro: sorted_subseq)
  ultimately show ?case using tail by simp
qed

lemma index_ok_fds:
  assumes "index_ok ns ix k"
  shows "distinct (map (\<lambda>(tc, n, x). q_fd x) ns)"
proof -
  have "distinct (map (ix \<circ> (\<lambda>(tc, n, x). q_fd x)) ns)"
  proof -
    have "map (ix \<circ> (\<lambda>(tc, n, x). q_fd x)) ns = map (\<lambda>(tc, n, x). Some (tc, n)) ns"
      using index_ok_place [OF assms] by auto
    moreover have "distinct (map (\<lambda>(tc, n, x). Some (tc, n)) ns)"
    proof -
      have "distinct (map (snd \<circ> the) (map (\<lambda>(tc, n, x). Some (tc, n)) ns))"
        using assms by (simp add: index_ok_def comp_def split_beta)
      then show ?thesis by (simp only: distinct_map)
    qed
    ultimately show ?thesis by (simp only:)
  qed
  then show ?thesis by (simp add: distinct_map comp_def inj_on_def split_beta)
qed

lemma try_match_ok:
  assumes "world_ok w" and "queue_ok q" and "manager_ok m" and "try_match w q m = (rs, outs, q', m')"
  shows "queue_ok q' \<and> manager_ok m' \<and> waiting q = waiting q' + mset (matched_fds rs) \<and>
    (\<forall>r \<in> set rs. fair_match w (queue_nodes (buckets q)) r)"
proof -
  let ?s = "\<lparr>sw_mgr = m, sw_index = fd_index q, sw_size = total_size q, sw_reads = 0, sw_results = [], sw_outputs = []\<rparr>"
  note q = queue_okD [OF assms(2)]
  obtain bs s where bs: "sweep_buckets w (buckets q) ?s = (bs, s)" by (metis surj_pair)
  have result: "rs = sw_results s" "m' = sw_mgr s"
    "q' = q\<lparr>buckets := bs, fd_index := sw_index s, total_size := sw_size s\<rparr>"
    using assms(4) bs by (simp_all add: try_match_def)
  have sweep: "swept w (queue_nodes (buckets q)) ?s (queue_nodes bs) s" and keys: "map fst bs = map fst (buckets q)"
    and sorted: "\<forall>(tc, t) \<in> set bs. sorted (map (\<lambda>(n, x). q_elo x) t)"
    using sweep_buckets_swept [OF assms(1), of ?s "buckets q" "[]"] assms(2,3) q(2) bs by (auto simp: queue_ok_def)
  have "queue_ok q'"
    using sweep keys sorted q(1,4) by (auto simp: queue_ok_def result swept_def)
  then show ?thesis
    using sweep by (auto simp: swept_def result waiting_def)
qed

section \<open>Properties\<close>

text \<open>
  C14. Joining and leaving keep the matchmaker consistent, and the sweep is fair and loses nobody:
  in a consistent queue, whatever order the hash maps have, \<open>enqueue\<close> and \<open>dequeue\<close> leave a consistent
  queue; \<open>try_match\<close> leaves a consistent queue and a sound registry of rooms, everyone who waited either
  still waits or is in exactly one match, nobody is matched twice, and each match pairs two players
  of one time control whose rating windows admitted each other when the clock was read.
\<close>

theorem matchmaking_sound:
  assumes "world_ok w" and "queue_ok q" and "manager_ok m" and "try_match w q m = (rs, outs, q', m')"
  shows "queue_ok (snd (enqueue w fd pid name rating tc db q)) \<and> queue_ok (snd (dequeue fd q)) \<and>
    queue_ok q' \<and> manager_ok m' \<and> waiting q = waiting q' + mset (matched_fds rs) \<and> distinct (matched_fds rs) \<and>
    (\<forall>r \<in> set rs. fair_match w (queue_nodes (buckets q)) r)"
proof -
  note sweep = try_match_ok [OF assms]
  then have "mset (map (\<lambda>(tc, n, x). q_fd x) (queue_nodes (buckets q))) =
      mset (map (\<lambda>(tc, n, x). q_fd x) (queue_nodes (buckets q')) @ matched_fds rs)"
    by (simp add: waiting_def)
  from mset_eq_imp_distinct_iff [OF this] index_ok_fds [OF queue_okD(2) [OF assms(2)]]
  have "distinct (matched_fds rs)" by simp
  then show ?thesis using sweep enqueue_ok [OF assms(1,2)] dequeue_ok [OF assms(2)] by blast
qed

definition demo_world :: world where
  "demo_world = \<lparr>rehash_rooms = id, rehash_buckets = id, steady_at = (\<lambda>k. 20000000000), env_at = (\<lambda>k. demo_env)\<rparr>"

definition demo_queue :: matchmaker where
  "demo_queue = snd (enqueue demo_world 4 2 ''bob'' 1410 \<lparr>base_time_ms = 600000, increment_ms = 5000\<rparr> 0
     (snd (enqueue demo_world 3 1 ''alice'' 1300 \<lparr>base_time_ms = 600000, increment_ms = 5000\<rparr> 0 new_matchmaker)))"

lemma demo_world_ok: "world_ok demo_world"
  by (simp add: world_ok_def demo_world_def rehash_ok_def)

lemma demo_queue_ok: "queue_ok demo_queue"
proof -
  have "queue_ok new_matchmaker" by (simp add: queue_ok_def new_matchmaker_def index_ok_def)
  then show ?thesis unfolding demo_queue_def by (intro enqueue_ok demo_world_ok)
qed

lemma new_manager_ok: "manager_ok new_manager"
  by (simp add: manager_ok_def new_manager_def)

theorem matchmaking_sound_witness:
  "waiting demo_queue = waiting (fst (snd (snd (try_match demo_world demo_queue new_manager)))) +
     mset (matched_fds (fst (try_match demo_world demo_queue new_manager))) \<and>
   length (matched_fds (fst (try_match demo_world demo_queue new_manager))) = 2"
proof -
  obtain rs outs q' m' where run: "try_match demo_world demo_queue new_manager = (rs, outs, q', m')" by (metis prod_cases4)
  have "length (matched_fds rs) = 2"
    using run by (simp add: try_match_def demo_queue_def enqueue_def new_matchmaker_def demo_world_def replace_entry_def
        tree_insert_def compatible_def acceptable_range_def to_int32_def open_match_def matched_fds_def split_beta Let_def)
      auto
  then show ?thesis using matchmaking_sound [OF demo_world_ok demo_queue_ok new_manager_ok run] run by simp
qed

end
