(* ===== verification/Evaluator.thy ===== *)
theory Evaluator
  imports Rules "HOL-Library.Multiset"
begin

text \<open>
  The static evaluation (\<open>src/chess/evaluator.h\<close>, \<open>src/chess/evaluator.cpp\<close>): material, piece-square
  tables, king safety, pawn structure, mobility and the bishop pair, each as the difference of the
  two sides, and their sum seen from the side to move. The loops over squares, files and ranks are
  sums over the same ranges. Shown: the evaluation does not depend on the colours (it gives the
  mirrored position the same score) and it stays far from the scores that mean a forced mate.
\<close>

section \<open>Tables and constants\<close>

definition PIECE_VALUE :: "int list" where
  "PIECE_VALUE = [100, 320, 330, 500, 900, 20000, 0]"

definition PST_PAWN :: "int list" where
  "PST_PAWN =
    [0, 0, 0, 0, 0, 0, 0, 0,
     50, 50, 50, 50, 50, 50, 50, 50,
     10, 10, 20, 30, 30, 20, 10, 10,
     5, 5, 10, 25, 25, 10, 5, 5,
     0, 0, 0, 20, 20, 0, 0, 0,
     5, -5, -10, 0, 0, -10, -5, 5,
     5, 10, 10, -20, -20, 10, 10, 5,
     0, 0, 0, 0, 0, 0, 0, 0]"

definition PST_KNIGHT :: "int list" where
  "PST_KNIGHT =
    [-50, -40, -30, -30, -30, -30, -40, -50,
     -40, -20, 0, 0, 0, 0, -20, -40,
     -30, 0, 10, 15, 15, 10, 0, -30,
     -30, 5, 15, 20, 20, 15, 5, -30,
     -30, 0, 15, 20, 20, 15, 0, -30,
     -30, 5, 10, 15, 15, 10, 5, -30,
     -40, -20, 0, 5, 5, 0, -20, -40,
     -50, -40, -30, -30, -30, -30, -40, -50]"

definition PST_BISHOP :: "int list" where
  "PST_BISHOP =
    [-20, -10, -10, -10, -10, -10, -10, -20,
     -10, 0, 0, 0, 0, 0, 0, -10,
     -10, 0, 5, 10, 10, 5, 0, -10,
     -10, 5, 5, 10, 10, 5, 5, -10,
     -10, 0, 10, 10, 10, 10, 0, -10,
     -10, 10, 10, 10, 10, 10, 10, -10,
     -10, 5, 0, 0, 0, 0, 5, -10,
     -20, -10, -10, -10, -10, -10, -10, -20]"

definition PST_ROOK :: "int list" where
  "PST_ROOK =
    [0, 0, 0, 0, 0, 0, 0, 0,
     5, 10, 10, 10, 10, 10, 10, 5,
     -5, 0, 0, 0, 0, 0, 0, -5,
     -5, 0, 0, 0, 0, 0, 0, -5,
     -5, 0, 0, 0, 0, 0, 0, -5,
     -5, 0, 0, 0, 0, 0, 0, -5,
     -5, 0, 0, 0, 0, 0, 0, -5,
     0, 0, 0, 5, 5, 0, 0, 0]"

definition PST_QUEEN :: "int list" where
  "PST_QUEEN =
    [-20, -10, -10, -5, -5, -10, -10, -20,
     -10, 0, 0, 0, 0, 0, 0, -10,
     -10, 0, 5, 5, 5, 5, 0, -10,
     -5, 0, 5, 5, 5, 5, 0, -5,
     0, 0, 5, 5, 5, 5, 0, -5,
     -10, 5, 5, 5, 5, 5, 0, -10,
     -10, 0, 5, 0, 0, 0, 0, -10,
     -20, -10, -10, -5, -5, -10, -10, -20]"

definition PST_KING_MG :: "int list" where
  "PST_KING_MG =
    [-30, -40, -40, -50, -50, -40, -40, -30,
     -30, -40, -40, -50, -50, -40, -40, -30,
     -30, -40, -40, -50, -50, -40, -40, -30,
     -30, -40, -40, -50, -50, -40, -40, -30,
     -20, -30, -30, -40, -40, -30, -30, -20,
     -10, -20, -20, -20, -20, -20, -20, -10,
     20, 20, 0, 0, 0, 0, 20, 20,
     20, 30, 10, 0, 0, 10, 30, 20]"

abbreviation (input) PAWN_SHIELD_BONUS :: int where "PAWN_SHIELD_BONUS \<equiv> 10"
abbreviation (input) KING_OPEN_FILE_PENALTY :: int where "KING_OPEN_FILE_PENALTY \<equiv> -25"
abbreviation (input) DOUBLED_PAWN_PENALTY :: int where "DOUBLED_PAWN_PENALTY \<equiv> -15"
abbreviation (input) ISOLATED_PAWN_PENALTY :: int where "ISOLATED_PAWN_PENALTY \<equiv> -20"
abbreviation (input) MOBILITY_WEIGHT :: int where "MOBILITY_WEIGHT \<equiv> 4"
abbreviation (input) BISHOP_PAIR_BONUS :: int where "BISHOP_PAIR_BONUS \<equiv> 30"

definition PASSED_PAWN_BONUS :: "int list" where
  "PASSED_PAWN_BONUS = [0, 10, 15, 25, 40, 60, 90, 0]"

section \<open>The components of the score\<close>

definition pst_bonus :: "piece_type \<Rightarrow> color \<Rightarrow> square \<Rightarrow> int" where
  "pst_bonus t c sq =
     (let idx = (if c = BLACK then sq XOR 56 else sq)
      in case t of
           PAWN \<Rightarrow> PST_PAWN ! idx
         | KNIGHT \<Rightarrow> PST_KNIGHT ! idx
         | BISHOP \<Rightarrow> PST_BISHOP ! idx
         | ROOK \<Rightarrow> PST_ROOK ! idx
         | QUEEN \<Rightarrow> PST_QUEEN ! idx
         | KING \<Rightarrow> PST_KING_MG ! idx
         | PT_NONE \<Rightarrow> 0)"

definition pawn_of :: "board \<Rightarrow> color \<Rightarrow> int \<Rightarrow> int \<Rightarrow> bool" where
  \<comment> \<open>a pawn of this colour stands on this rank and file\<close>
  "pawn_of b c r f \<longleftrightarrow>
     (let p = piece_at b (make_square r f) in ptype p = PAWN \<and> pcolor p = c)"

definition evaluate_king_safety :: "board \<Rightarrow> color \<Rightarrow> square \<Rightarrow> int" where
  "evaluate_king_safety b c king_sq =
     (let king_file = file_of king_sq; king_rank = rank_of king_sq;
          shield_rank = (if c = WHITE then king_rank + 1 else king_rank - 1);
          king_is_home = (if c = WHITE then king_rank \<le> 1 else king_rank \<ge> 6);
          shield = (if king_is_home \<and> 0 \<le> shield_rank \<and> shield_rank \<le> 7
                    then sum_list (map (\<lambda>f. if pawn_of b c shield_rank f then PAWN_SHIELD_BONUS else 0)
                           [max 0 (king_file - 1)..min 7 (king_file + 1)])
                    else 0);
          has_pawn_on_file = list_ex (\<lambda>r. pawn_of b c r king_file) [0..7]
      in shield + (if has_pawn_on_file then 0 else KING_OPEN_FILE_PENALTY))"

definition pawns_on_file :: "board \<Rightarrow> color \<Rightarrow> int \<Rightarrow> nat" where
  \<comment> \<open>the count \<open>own_pawns_on_file\<close> of the first loop\<close>
  "pawns_on_file b c f =
     length (filter (\<lambda>sq. ptype (piece_at b sq) = PAWN \<and> pcolor (piece_at b sq) = c \<and> file_of sq = f) [0..<64])"

definition is_passed :: "board \<Rightarrow> color \<Rightarrow> int \<Rightarrow> int \<Rightarrow> bool" where
  "is_passed b c r f =
     list_all (\<lambda>cf. list_all (\<lambda>cr. \<not> pawn_of b (opposite_color c) cr cf)
                      (if c = WHITE then [r + 1..7] else rev [0..r - 1]))
       [max 0 (f - 1)..min 7 (f + 1)]"

definition pawn_score :: "board \<Rightarrow> color \<Rightarrow> square \<Rightarrow> int" where
  \<comment> \<open>what the second loop adds for one pawn\<close>
  "pawn_score b c sq =
     (let f = file_of sq; r = rank_of sq;
          doubled = (if pawns_on_file b c f > 1 then DOUBLED_PAWN_PENALTY else 0);
          has_left = (f > 0 \<and> pawns_on_file b c (f - 1) > 0);
          has_right = (f < 7 \<and> pawns_on_file b c (f + 1) > 0);
          isolated = (if \<not> has_left \<and> \<not> has_right then ISOLATED_PAWN_PENALTY else 0);
          effective_rank = (if c = WHITE then r else 7 - r);
          passed = (if is_passed b c r f then PASSED_PAWN_BONUS ! nat effective_rank else 0)
      in doubled + isolated + passed)"

definition evaluate_pawn_structure :: "board \<Rightarrow> color \<Rightarrow> int" where
  "evaluate_pawn_structure b c =
     sum_list (map (\<lambda>sq. if ptype (piece_at b sq) \<noteq> PAWN \<or> pcolor (piece_at b sq) \<noteq> c then 0
                        else pawn_score b c sq) [0..<64])"

definition count_mobility :: "board \<Rightarrow> color \<Rightarrow> int \<times> board" where
  \<comment> \<open>the count and the board, whose side to move is set and set back\<close>
  "count_mobility b c =
     (let original = side_to_move b;
          b1 = set_side_to_move b c;
          count = int (length (generate_pseudo_legal_moves b1))
      in (count, set_side_to_move b1 original))"

definition count_bishops :: "board \<Rightarrow> color \<Rightarrow> nat" where
  "count_bishops b c =
     length (filter (\<lambda>sq. ptype (piece_at b sq) = BISHOP \<and> pcolor (piece_at b sq) = c) [0..<64])"

definition side_material :: "board \<Rightarrow> color \<Rightarrow> int" where
  \<comment> \<open>\<open>white_material\<close> and \<open>black_material\<close> of the first pass; a piece that is not White's counts as Black's\<close>
  "side_material b c =
     sum_list (map (\<lambda>sq. let p = piece_at b sq
                        in if is_none p \<or> (pcolor p = WHITE \<longleftrightarrow> c \<noteq> WHITE) then 0
                           else PIECE_VALUE ! type_index (ptype p)) [0..<64])"

definition side_pst :: "board \<Rightarrow> color \<Rightarrow> int" where
  "side_pst b c =
     sum_list (map (\<lambda>sq. let p = piece_at b sq
                        in if is_none p \<or> (pcolor p = WHITE \<longleftrightarrow> c \<noteq> WHITE) then 0
                           else pst_bonus (ptype p) (pcolor p) sq) [0..<64])"

record eval_breakdown =
  ev_material :: int
  ev_pst :: int
  ev_king_safety :: int
  ev_pawn_structure :: int
  ev_mobility :: int
  ev_bishop_pair :: int
  ev_total :: int

definition king_safety_of :: "board \<Rightarrow> color \<Rightarrow> int" where
  "king_safety_of b c =
     (let k = find_king b c in if k \<noteq> NO_SQUARE then evaluate_king_safety b c k else 0)"

definition bishop_pair_of :: "board \<Rightarrow> color \<Rightarrow> int" where
  "bishop_pair_of b c = (if count_bishops b c \<ge> 2 then BISHOP_PAIR_BONUS else 0)"

definition evaluate_detailed :: "board \<Rightarrow> eval_breakdown" where
  "evaluate_detailed b =
     (let material = side_material b WHITE - side_material b BLACK;
          pst = side_pst b WHITE - side_pst b BLACK;
          king_safety = king_safety_of b WHITE - king_safety_of b BLACK;
          pawn_structure = evaluate_pawn_structure b WHITE - evaluate_pawn_structure b BLACK;
          (white_mobility, b1) = count_mobility b WHITE;
          (black_mobility, b2) = count_mobility b1 BLACK;
          mobility = (white_mobility - black_mobility) * MOBILITY_WEIGHT;
          bishop_pair = bishop_pair_of b WHITE - bishop_pair_of b BLACK
      in \<lparr>ev_material = material, ev_pst = pst, ev_king_safety = king_safety,
          ev_pawn_structure = pawn_structure, ev_mobility = mobility, ev_bishop_pair = bishop_pair,
          ev_total = material + pst + king_safety + pawn_structure + mobility + bishop_pair\<rparr>)"

definition evaluate :: "board \<Rightarrow> int" where
  "evaluate b =
     (if side_to_move b = WHITE then ev_total (evaluate_detailed b) else - ev_total (evaluate_detailed b))"

section \<open>Colour symmetry\<close>

text \<open>
  A board seen from the other side: the ranks are turned over and the colours exchanged. The
  relation below is all that the evaluation needs of it; \<open>mirror_board\<close> is the board itself.
\<close>

definition mirror_sq :: "square \<Rightarrow> square" where
  "mirror_sq sq = make_square (7 - rank_of sq) (file_of sq)"

primrec swap_color :: "color \<Rightarrow> color" where
  "swap_color WHITE = BLACK"
| "swap_color BLACK = WHITE"
| "swap_color C_NONE = C_NONE"

definition flip :: "piece \<Rightarrow> piece" where
  "flip p = Piece (ptype p) (swap_color (pcolor p))"

definition mirrored_pieces :: "board \<Rightarrow> board \<Rightarrow> bool" where
  "mirrored_pieces b b' \<longleftrightarrow> (\<forall>sq<64. piece_at b' (mirror_sq sq) = flip (piece_at b sq))"

definition mirror_rights :: "8 word \<Rightarrow> 8 word" where
  "mirror_rights cr = push_bit 2 (cr AND 3) OR drop_bit 2 (cr AND 12)"

definition mirror_board :: "board \<Rightarrow> board" where
  "mirror_board b = recompute_zobrist_key
     (b\<lparr>squares := map (\<lambda>sq. flip (squares b ! mirror_sq sq)) [0..<64],
        side_to_move := swap_color (side_to_move b),
        castling_rights := mirror_rights (castling_rights b),
        en_passant_sq := (if en_passant_sq b < 64 then mirror_sq (en_passant_sq b) else en_passant_sq b)\<rparr>)"

lemma swap_color_simps [simp]:
  "swap_color c = swap_color d \<longleftrightarrow> c = d" "swap_color (swap_color c) = c"
  "swap_color c = WHITE \<longleftrightarrow> c = BLACK" "swap_color c = BLACK \<longleftrightarrow> c = WHITE"
  "c \<noteq> C_NONE \<Longrightarrow> opposite_color (swap_color c) = c" "c \<noteq> C_NONE \<Longrightarrow> swap_color (opposite_color c) = c"
  by (cases c; cases d; simp)+

lemma flip_simps [simp]:
  "ptype (flip p) = ptype p" "pcolor (flip p) = swap_color (pcolor p)" "is_none (flip p) = is_none p"
  by (simp_all add: flip_def is_none_def)

lemma mirror_on_board: "sq < 64 \<Longrightarrow> on_board (7 - rank_of sq) (file_of sq)"
  using on_board_rank_file [of sq] by linarith

lemma mirror_sq_less [simp]: "sq < 64 \<Longrightarrow> mirror_sq sq < 64"
  unfolding mirror_sq_def by (intro make_square_less mirror_on_board)

lemma mirror_sq_coords [simp]:
  "sq < 64 \<Longrightarrow> rank_of (mirror_sq sq) = 7 - rank_of sq" "sq < 64 \<Longrightarrow> file_of (mirror_sq sq) = file_of sq"
  unfolding mirror_sq_def using rank_of_make_square file_of_make_square mirror_on_board by blast+

lemma mirror_sq_twice [simp]: "sq < 64 \<Longrightarrow> mirror_sq (mirror_sq sq) = sq"
  by (subst mirror_sq_def) simp

lemma mirror_make_square: "on_board r f \<Longrightarrow> mirror_sq (make_square r f) = make_square (7 - r) f"
  by (simp add: mirror_sq_def)

lemma mirror_sq_inj: "a < 64 \<Longrightarrow> b < 64 \<Longrightarrow> mirror_sq a = mirror_sq b \<longleftrightarrow> a = b"
  by (metis mirror_sq_twice)

lemma mirror_all_squares: "image_mset mirror_sq (mset [0..<64]) = mset [0..<64]"
proof (rule multiset_eqI)
  have inj: "inj_on mirror_sq {0..<64}" by (rule inj_onI) (simp add: mirror_sq_inj)
  have "mirror_sq ` {0..<64} = {0..<64}"
    by (rule card_subset_eq) (auto simp: card_image [OF inj])
  then have "image_mset mirror_sq (mset_set {0..<64}) = mset_set {0..<64}"
    using inj by (simp add: image_mset_mset_set)
  then show "count (image_mset mirror_sq (mset [0..<64])) sq = count (mset [0..<64]) sq" for sq
    by (simp only: mset_upt)
qed

lemma sum_list_permuted:
  fixes f g :: "'a \<Rightarrow> 'b::comm_monoid_add"
  assumes "image_mset p (mset xs) = mset xs" and "\<And>x. x \<in> set xs \<Longrightarrow> f (p x) = g x"
  shows "sum_list (map f xs) = sum_list (map g xs)"
proof -
  have "sum_list (map f xs) = sum_mset (image_mset f (mset xs))"
    by (simp only: sum_mset_sum_list flip: mset_map)
  also have "\<dots> = sum_mset (image_mset f (image_mset p (mset xs)))" by (simp only: assms(1))
  also have "\<dots> = sum_mset (image_mset g (mset xs))"
    using assms(2) by (auto simp: multiset.map_comp intro!: arg_cong [of _ _ sum_mset] image_mset_cong)
  finally show ?thesis by (simp only: sum_mset_sum_list flip: mset_map)
qed

lemma sum_squares_mirror:
  fixes g h :: "square \<Rightarrow> 'a::comm_monoid_add"
  assumes "\<And>sq. sq < 64 \<Longrightarrow> g (mirror_sq sq) = h sq"
  shows "sum_list (map g [0..<64]) = sum_list (map h [0..<64])"
  by (rule sum_list_permuted [OF mirror_all_squares]) (simp add: assms)

lemma length_filter_sum: "length (filter P xs) = sum_list (map (\<lambda>x. if P x then 1 else 0) xs)"
  by (induction xs) simp_all

lemma count_squares_mirror:
  assumes "\<And>sq. sq < 64 \<Longrightarrow> P (mirror_sq sq) \<longleftrightarrow> Q sq"
  shows "length (filter P [0..<64]) = length (filter Q [0..<64])"
  unfolding length_filter_sum using assms by (intro sum_squares_mirror) simp

lemma mirrored_at: "mirrored_pieces b b' \<Longrightarrow> sq < 64 \<Longrightarrow> piece_at b' (mirror_sq sq) = flip (piece_at b sq)"
  by (simp add: mirrored_pieces_def)

lemma mirrored_at_coords:
  assumes "mirrored_pieces b b'" and "on_board r f"
  shows "piece_at b' (make_square (7 - r) f) = flip (piece_at b (make_square r f))"
  using mirrored_at [OF assms(1), of "make_square r f"] assms(2) by (simp add: mirror_make_square)

lemma ray_attacked_mirror:
  assumes "mirrored_pieces b b'"
  shows "ray_attacked n b' (swap_color c) diag (- dr, df) (7 - nr) nf = ray_attacked n b c diag (dr, df) nr nf"
proof (induction n arbitrary: nr nf)
  case (Suc n)
  then show ?case
    using Suc.IH [of "nr + dr" "nf + df"]
    by (cases "on_board nr nf") (auto simp: Let_def mirrored_at_coords [OF assms] diff_diff_eq [symmetric])
qed simp

lemma ray_moves_mirror:
  assumes "mirrored_pieces b b'"
  shows "length (ray_moves n b' sq' (swap_color c) (- dr, df) (7 - nr) nf) =
    length (ray_moves n b sq c (dr, df) nr nf)"
proof (induction n arbitrary: nr nf)
  case (Suc n)
  then show ?case
    using Suc.IH [of "nr + dr" "nf + df"]
    by (cases "on_board nr nf") (auto simp: Let_def mirrored_at_coords [OF assms] diff_diff_eq [symmetric])
qed simp

lemma offset_targets_mirror:
  assumes "mset (map (\<lambda>(dr, df). (- dr, df)) offs) = mset offs" and "sq < 64"
  shows "mset (offset_targets offs (mirror_sq sq)) = image_mset mirror_sq (mset (offset_targets offs sq))"
proof -
  let ?P = "\<lambda>(dr, df). on_board (rank_of sq + dr) (file_of sq + df)"
  have "mset (offset_targets offs (mirror_sq sq)) =
      image_mset (\<lambda>(dr, df). make_square (7 - rank_of sq + dr) (file_of sq + df))
        (filter_mset (\<lambda>(dr, df). on_board (7 - rank_of sq + dr) (file_of sq + df)) (mset offs))"
    using assms(2) by (simp add: offset_targets_def)
  also have "\<dots> = image_mset (\<lambda>(dr, df). make_square (7 - rank_of sq + dr) (file_of sq + df))
        (filter_mset (\<lambda>(dr, df). on_board (7 - rank_of sq + dr) (file_of sq + df))
           (image_mset (\<lambda>(dr, df). (- dr, df)) (mset offs)))"
    using assms(1) by simp
  also have "\<dots> = image_mset (\<lambda>(dr, df). make_square (7 - (rank_of sq + dr)) (file_of sq + df))
        (filter_mset ?P (mset offs))"
  proof -
    have "filter_mset ((\<lambda>(dr, df). on_board (7 - rank_of sq + dr) (file_of sq + df)) \<circ> (\<lambda>(dr, df). (- dr, df))) (mset offs) =
        filter_mset ?P (mset offs)"
      by (rule filter_mset_cong) auto
    then show ?thesis
      by (simp add: filter_mset_image_mset multiset.map_comp comp_def case_prod_unfold diff_diff_eq)
  qed
  also have "\<dots> = image_mset mirror_sq (image_mset (\<lambda>(dr, df). make_square (rank_of sq + dr) (file_of sq + df))
        (filter_mset ?P (mset offs)))"
    by (auto simp: multiset.map_comp comp_def mirror_make_square intro!: image_mset_cong)
  finally show ?thesis by (simp add: offset_targets_def)
qed

lemma knight_targets_mirror:
  "sq < 64 \<Longrightarrow> mset (knight_targets (mirror_sq sq)) = image_mset mirror_sq (mset (knight_targets sq))"
  unfolding knight_targets_def by (rule offset_targets_mirror) (simp_all add: knight_offsets_def)

lemma king_targets_mirror:
  "sq < 64 \<Longrightarrow> mset (king_targets (mirror_sq sq)) = image_mset mirror_sq (mset (king_targets sq))"
  unfolding king_targets_def by (rule offset_targets_mirror) (simp_all add: king_offsets_def)

lemma list_ex_targets_mirror:
  assumes "mset ts' = image_mset mirror_sq (mset ts)" and "\<And>t. t \<in> set ts \<Longrightarrow> P (mirror_sq t) \<longleftrightarrow> Q t"
  shows "list_ex P ts' \<longleftrightarrow> list_ex Q ts"
proof -
  have "set ts' = mirror_sq ` set ts" using assms(1) by (metis set_image_mset set_mset_mset)
  then show ?thesis using assms(2) by (auto simp: list_ex_iff)
qed

lemma pawn_attacks_mirror:
  assumes "mirrored_pieces b b'" and "sq < 64" and "c \<noteq> C_NONE"
  shows "pawn_attacks b' (mirror_sq sq) (swap_color c) = pawn_attacks b sq c"
proof -
  obtain d :: int where d: "(if c = WHITE then -1 else 1) = d" "(if swap_color c = WHITE then -1 else 1) = - d"
    using assms(3) by (cases c) simp_all
  have at: "piece_at b' (make_square (7 - rank_of sq + - d) f) = flip (piece_at b (make_square (rank_of sq + d) f))"
    if "on_board (rank_of sq + d) f" for f
    using mirrored_at_coords [OF assms(1) that] by (simp add: diff_diff_eq [symmetric])
  have rank: "0 \<le> 7 - rank_of sq + - d \<and> 7 - rank_of sq + - d < 8 \<longleftrightarrow> 0 \<le> rank_of sq + d \<and> rank_of sq + d < 8"
    by linarith
  show ?thesis
    unfolding pawn_attacks_def Let_def d mirror_sq_coords [OF assms(2)]
    using at [of "file_of sq - 1"] at [of "file_of sq + 1"] on_board_rank_file(3) [of sq] rank by auto
qed

definition mirror_dir :: "nat \<Rightarrow> nat" where
  \<comment> \<open>the index of the direction with the opposite rank step\<close>
  "mirror_dir i = [1, 0, 2, 3, 6, 7, 4, 5] ! i"

lemma mirror_dir:
  assumes "i < 8"
  shows "mirror_dir i < 8" "mirror_dir (mirror_dir i) = i" "4 \<le> mirror_dir i \<longleftrightarrow> 4 \<le> i"
    "ray_dirs ! mirror_dir i = (- fst (ray_dirs ! i), snd (ray_dirs ! i))"
  using less_8_cases [OF assms] by (auto simp: mirror_dir_def ray_dirs_def)

lemma list_ex_dirs_mirror:
  assumes "\<And>i. i < 8 \<Longrightarrow> P (mirror_dir i) \<longleftrightarrow> Q i"
  shows "list_ex P [0..<8] \<longleftrightarrow> list_ex Q [0..<8]"
proof -
  have "(\<exists>i<8. P i) \<longleftrightarrow> (\<exists>i<8. Q i)" using assms mirror_dir(1,2) by metis
  then show ?thesis by (simp add: list_ex_iff atLeast0LessThan Bex_def)
qed

lemma ray_from_mirror:
  assumes "mirrored_pieces b b'" and "sq < 64" and "i < 8"
  shows "ray_attacked 8 b' (swap_color c) (4 \<le> mirror_dir i) (ray_dirs ! mirror_dir i)
      (rank_of (mirror_sq sq) + fst (ray_dirs ! mirror_dir i)) (file_of (mirror_sq sq) + snd (ray_dirs ! mirror_dir i)) =
    ray_attacked 8 b c (4 \<le> i) (ray_dirs ! i) (rank_of sq + fst (ray_dirs ! i)) (file_of sq + snd (ray_dirs ! i))"
    "length (ray_moves 8 b' (mirror_sq sq) (swap_color c) (ray_dirs ! mirror_dir i)
      (rank_of (mirror_sq sq) + fst (ray_dirs ! mirror_dir i)) (file_of (mirror_sq sq) + snd (ray_dirs ! mirror_dir i))) =
    length (ray_moves 8 b sq c (ray_dirs ! i) (rank_of sq + fst (ray_dirs ! i)) (file_of sq + snd (ray_dirs ! i)))"
proof -
  obtain dr df where d: "ray_dirs ! i = (dr, df)" by fastforce
  have d': "ray_dirs ! mirror_dir i = (- dr, df)" using mirror_dir(4) [OF assms(3)] d by simp
  have start: "rank_of (mirror_sq sq) + - dr = 7 - (rank_of sq + dr)" using assms(2) by simp
  show "ray_attacked 8 b' (swap_color c) (4 \<le> mirror_dir i) (ray_dirs ! mirror_dir i)
      (rank_of (mirror_sq sq) + fst (ray_dirs ! mirror_dir i)) (file_of (mirror_sq sq) + snd (ray_dirs ! mirror_dir i)) =
    ray_attacked 8 b c (4 \<le> i) (ray_dirs ! i) (rank_of sq + fst (ray_dirs ! i)) (file_of sq + snd (ray_dirs ! i))"
    unfolding d d' mirror_dir(3) [OF assms(3)] fst_conv snd_conv start
    by (simp only: mirror_sq_coords(2) [OF assms(2)] ray_attacked_mirror [OF assms(1)])
  show "length (ray_moves 8 b' (mirror_sq sq) (swap_color c) (ray_dirs ! mirror_dir i)
      (rank_of (mirror_sq sq) + fst (ray_dirs ! mirror_dir i)) (file_of (mirror_sq sq) + snd (ray_dirs ! mirror_dir i))) =
    length (ray_moves 8 b sq c (ray_dirs ! i) (rank_of sq + fst (ray_dirs ! i)) (file_of sq + snd (ray_dirs ! i)))"
    unfolding d d' fst_conv snd_conv start
    by (simp only: mirror_sq_coords(2) [OF assms(2)] ray_moves_mirror [OF assms(1)])
qed

lemma is_square_attacked_mirror:
  assumes "mirrored_pieces b b'" and "sq < 64" and "c \<noteq> C_NONE"
  shows "is_square_attacked b' (mirror_sq sq) (swap_color c) = is_square_attacked b sq c"
proof -
  let ?ray = "\<lambda>b sq c i. ray_attacked 8 b c (4 \<le> i) (ray_dirs ! i)
    (rank_of sq + fst (ray_dirs ! i)) (file_of sq + snd (ray_dirs ! i))"
  have rays: "list_ex (?ray b' (mirror_sq sq) (swap_color c)) [0..<8] = list_ex (?ray b sq c) [0..<8]"
    by (rule list_ex_dirs_mirror) (rule ray_from_mirror(1) [OF assms(1,2)])
  have knights: "list_ex (\<lambda>t. ptype (piece_at b' t) = KNIGHT \<and> pcolor (piece_at b' t) = swap_color c)
        (knight_targets (mirror_sq sq)) \<longleftrightarrow>
      list_ex (\<lambda>t. ptype (piece_at b t) = KNIGHT \<and> pcolor (piece_at b t) = c) (knight_targets sq)"
    by (rule list_ex_targets_mirror [OF knight_targets_mirror [OF assms(2)]])
      (drule knight_targets_off, simp add: mirrored_at [OF assms(1)])
  have kings: "list_ex (\<lambda>t. ptype (piece_at b' t) = KING \<and> pcolor (piece_at b' t) = swap_color c)
        (king_targets (mirror_sq sq)) \<longleftrightarrow>
      list_ex (\<lambda>t. ptype (piece_at b t) = KING \<and> pcolor (piece_at b t) = c) (king_targets sq)"
    by (rule list_ex_targets_mirror [OF king_targets_mirror [OF assms(2)]])
      (drule king_targets_off, simp add: mirrored_at [OF assms(1)])
  show ?thesis
    unfolding is_square_attacked_def rays knights kings pawn_attacks_mirror [OF assms] ..
qed

definition mirrored :: "board \<Rightarrow> board \<Rightarrow> bool" where
  "mirrored b b' \<longleftrightarrow>
     mirrored_pieces b b' \<and> side_to_move b' = swap_color (side_to_move b) \<and>
     castling_rights b' = mirror_rights (castling_rights b) \<and>
     en_passant_sq b' = (if en_passant_sq b < 64 then mirror_sq (en_passant_sq b) else en_passant_sq b)"

lemma mirror_rights_bits:
  "mirror_rights cr AND WHITE_KINGSIDE = 0 \<longleftrightarrow> cr AND BLACK_KINGSIDE = 0"
  "mirror_rights cr AND WHITE_QUEENSIDE = 0 \<longleftrightarrow> cr AND BLACK_QUEENSIDE = 0"
  "mirror_rights cr AND BLACK_KINGSIDE = 0 \<longleftrightarrow> cr AND WHITE_KINGSIDE = 0"
  "mirror_rights cr AND BLACK_QUEENSIDE = 0 \<longleftrightarrow> cr AND WHITE_QUEENSIDE = 0"
proof -
  have "bit (mirror_rights cr) 0 = bit cr 2" "bit (mirror_rights cr) (Suc 0) = bit cr 3"
    "bit (mirror_rights cr) 2 = bit cr 0" "bit (mirror_rights cr) 3 = bit cr (Suc 0)"
    by (simp_all add: mirror_rights_def bit_simps)
  then show
    "mirror_rights cr AND WHITE_KINGSIDE = 0 \<longleftrightarrow> cr AND BLACK_KINGSIDE = 0"
    "mirror_rights cr AND WHITE_QUEENSIDE = 0 \<longleftrightarrow> cr AND BLACK_QUEENSIDE = 0"
    "mirror_rights cr AND BLACK_KINGSIDE = 0 \<longleftrightarrow> cr AND WHITE_KINGSIDE = 0"
    "mirror_rights cr AND BLACK_QUEENSIDE = 0 \<longleftrightarrow> cr AND WHITE_QUEENSIDE = 0"
    using right_bit [of "mirror_rights cr"] right_bit [of cr] by blast+
qed

lemma length_add_pawn_move:
  "sq < 64 \<Longrightarrow> to < 64 \<Longrightarrow> c \<noteq> C_NONE \<Longrightarrow>
   length (add_pawn_move (swap_color c) sq' (mirror_sq to) fl) = length (add_pawn_move c sq to fl)"
  by (cases c) (auto simp: add_pawn_move_def)

lemma pawn_captures_mirror:
  assumes "mirrored b b'" and "sq < 64" and "c \<noteq> C_NONE" and "en_passant_sq b \<le> 64"
  shows "length (pawn_captures b' (mirror_sq sq) (swap_color c) df) = length (pawn_captures b sq c df)"
proof -
  have mp: "mirrored_pieces b b'" using assms(1) by (simp add: mirrored_def)
  obtain d :: int where d: "(if c = WHITE then 1 else -1) = d" "(if swap_color c = WHITE then 1 else -1) = - d"
    using assms(3) by (cases c) simp_all
  have start: "rank_of (mirror_sq sq) + - d = 7 - (rank_of sq + d)" using assms(2) by simp
  show ?thesis
  proof (cases "on_board (rank_of sq + d) (file_of sq + df)")
    case True
    let ?t = "make_square (rank_of sq + d) (file_of sq + df)"
    have t: "make_square (7 - (rank_of sq + d)) (file_of sq + df) = mirror_sq ?t" "?t < 64"
      using True by (simp_all add: mirror_make_square)
    have "mirror_sq ?t \<noteq> 64" using mirror_sq_less [OF t(2)] by linarith
    then have ep: "mirror_sq ?t = en_passant_sq b' \<longleftrightarrow> ?t = en_passant_sq b"
      using assms(1,4) t(2) mirror_sq_inj [OF t(2)]
      by (cases "en_passant_sq b < 64") (auto simp: mirrored_def)
    show ?thesis
      unfolding pawn_captures_def d start mirror_sq_coords(2) [OF assms(2)] Let_def t(1) ep
        mirrored_at [OF mp t(2)]
      using length_add_pawn_move [OF assms(2) t(2) assms(3)] True by auto
  next
    case False
    then show ?thesis
      unfolding pawn_captures_def d start mirror_sq_coords(2) [OF assms(2)] Let_def by auto
  qed
qed

lemma pawn_pushes_mirror:
  assumes "mirrored_pieces b b'" and "sq < 64" and "c \<noteq> C_NONE"
  shows "length (pawn_pushes b' (mirror_sq sq) (swap_color c)) = length (pawn_pushes b sq c)"
proof -
  obtain d h :: int where d: "(if c = WHITE then 1 else -1) = d" "(if swap_color c = WHITE then 1 else -1) = - d"
    and h: "(if c = WHITE then 1 else 6) = h" "(if swap_color c = WHITE then 1 else 6) = 7 - h"
    and dh: "d = 1 \<and> h = 1 \<or> d = -1 \<and> h = 6"
    using assms(3) by (cases c) simp_all
  have start: "rank_of (mirror_sq sq) + - d = 7 - (rank_of sq + d)"
    "rank_of (mirror_sq sq) + 2 * - d = 7 - (rank_of sq + 2 * d)"
    "rank_of (mirror_sq sq) = 7 - h \<longleftrightarrow> rank_of sq = h" using assms(2) by auto
  show ?thesis
  proof (cases "on_board (rank_of sq + d) (file_of sq)")
    case True
    let ?t = "make_square (rank_of sq + d) (file_of sq)" and ?u = "make_square (rank_of sq + 2 * d) (file_of sq)"
    have t: "make_square (7 - (rank_of sq + d)) (file_of sq) = mirror_sq ?t" "?t < 64"
      using True by (simp_all add: mirror_make_square)
    have u: "make_square (7 - (rank_of sq + 2 * d)) (file_of sq) = mirror_sq ?u" "?u < 64" if "rank_of sq = h"
      using that dh by (auto simp: mirror_make_square)
    note len = length_add_pawn_move [OF assms(2) t(2) assms(3)]
    have one: "length [m] = Suc 0" for m :: move by simp
    have rank: "(0 \<le> 7 - (rank_of sq + d) \<and> 7 - (rank_of sq + d) < 8) = True"
      "(0 \<le> rank_of sq + d \<and> rank_of sq + d < 8) = True" using True by auto
    show ?thesis
    proof (cases "rank_of sq = h")
      case home: True
      show ?thesis
        unfolding pawn_pushes_def d h start mirror_sq_coords(2) [OF assms(2)] Let_def t(1) rank
          mirrored_at [OF assms(1) t(2)] u(1) [OF home] mirrored_at [OF assms(1) u(2) [OF home]] flip_simps
          if_distrib [of length] length_append len one ..
    next
      case home: False
      then have "(rank_of sq = h) = False" by simp
      then show ?thesis
        unfolding pawn_pushes_def d h start mirror_sq_coords(2) [OF assms(2)] Let_def t(1) rank
          mirrored_at [OF assms(1) t(2)] flip_simps if_distrib [of length] length_append len
        by (simp only: if_False)
    qed
  next
    case False
    then have "(0 \<le> 7 - (rank_of sq + d) \<and> 7 - (rank_of sq + d) < 8) = False"
      "(0 \<le> rank_of sq + d \<and> rank_of sq + d < 8) = False" using on_board_rank_file(2,3) [of sq] by auto
    then show ?thesis unfolding pawn_pushes_def d start Let_def by (simp only: if_False list.size)
  qed
qed

lemma step_moves_mirror:
  assumes "mirrored_pieces b b'" and "mset ts' = image_mset mirror_sq (mset ts)" and "\<forall>t \<in> set ts. t < 64"
  shows "length (step_moves b' sq' (swap_color c) ts') = length (step_moves b sq c ts)"
proof -
  let ?P = "\<lambda>b c t. is_none (piece_at b t) \<or> pcolor (piece_at b t) \<noteq> c"
  have "length (filter (?P b' (swap_color c)) ts') = size (filter_mset (?P b' (swap_color c)) (mset ts'))"
    by (simp flip: mset_filter)
  also have "\<dots> = size (filter_mset (?P b' (swap_color c) \<circ> mirror_sq) (mset ts))"
    by (simp add: assms(2) filter_mset_image_mset comp_def)
  also have "filter_mset (?P b' (swap_color c) \<circ> mirror_sq) (mset ts) = filter_mset (?P b c) (mset ts)"
    using assms(3) by (intro filter_mset_cong) (auto simp: mirrored_at [OF assms(1)])
  finally show ?thesis by (simp add: step_moves_def flip: mset_filter)
qed

lemma generate_ray_moves_mirror:
  assumes "mirrored_pieces b b'" and "sq < 64"
  shows "length (generate_ray_moves b' (mirror_sq sq) (swap_color c) orth diag) =
    length (generate_ray_moves b sq c orth diag)"
proof -
  let ?n = "\<lambda>b sq c i. length (ray_moves 8 b sq c (ray_dirs ! i)
    (rank_of sq + fst (ray_dirs ! i)) (file_of sq + snd (ray_dirs ! i)))"
  let ?l = "if orth then 0 else 4 :: nat" and ?h = "if diag then 8 else 4 :: nat"
  have range: "image_mset mirror_dir (mset [?l..<?h]) = mset [?l..<?h]"
    by (auto simp: upt_rec numeral_nat mirror_dir_def)
  have "sum_list (map (?n b' (mirror_sq sq) (swap_color c)) [?l..<?h]) = sum_list (map (?n b sq c) [?l..<?h])"
    by (rule sum_list_permuted [OF range]) (auto intro!: ray_from_mirror(2) [OF assms] split: if_splits)
  then show ?thesis by (simp only: generate_ray_moves_def length_concat map_map comp_def)
qed

lemma castle_move_mirror:
  assumes "mirrored_pieces b b'" and "c \<noteq> C_NONE" and "\<forall>sq \<in> set gap \<union> set safe. sq < 64"
    and "castling_rights b' AND right' = 0 \<longleftrightarrow> castling_rights b AND right = 0"
  shows "length (castle_move b' (swap_color c) right' (map mirror_sq gap) (map mirror_sq safe) from' to' flag) =
    length (castle_move b c right gap safe from to flag)"
proof -
  have opp: "opposite_color (swap_color c) = swap_color (opposite_color c)" "opposite_color c \<noteq> C_NONE"
    using assms(2) by (cases c; simp)+
  have "is_square_attacked b' (mirror_sq sq) (swap_color (opposite_color c)) =
      is_square_attacked b sq (opposite_color c)" if "sq < 64" for sq
    by (rule is_square_attacked_mirror [OF assms(1) that opp(2)])
  then have "list_all (\<lambda>sq. \<not> is_square_attacked b' sq (opposite_color (swap_color c))) (map mirror_sq safe) =
      list_all (\<lambda>sq. \<not> is_square_attacked b sq (opposite_color c)) safe"
    using assms(3) unfolding opp(1) by (simp add: list_all_iff)
  moreover have "list_all (\<lambda>sq. is_none (piece_at b' sq)) (map mirror_sq gap) = list_all (\<lambda>sq. is_none (piece_at b sq)) gap"
    using assms(3) mirrored_at [OF assms(1)] by (simp add: list_all_iff)
  ultimately show ?thesis unfolding castle_move_def using assms(4) by simp
qed

lemma castling_squares_mirror:
  "map mirror_sq [F1, G1] = [F8, G8]" "map mirror_sq [E1, F1] = [E8, F8]"
  "map mirror_sq [D1, C1, B1] = [D8, C8, B8]" "map mirror_sq [E1, D1] = [E8, D8]"
  "map mirror_sq [F8, G8] = [F1, G1]" "map mirror_sq [E8, F8] = [E1, F1]"
  "map mirror_sq [D8, C8, B8] = [D1, C1, B1]" "map mirror_sq [E8, D8] = [E1, D1]"
  by (simp_all add: mirror_sq_def make_square_def rank_of_def file_of_def)

lemma castling_moves_mirror:
  assumes "mirrored b b'" and "c \<noteq> C_NONE"
  shows "length (castling_moves b' (swap_color c)) = length (castling_moves b c)"
proof -
  have mp: "mirrored_pieces b b'" and cr: "castling_rights b' = mirror_rights (castling_rights b)"
    using assms(1) by (simp_all add: mirrored_def)
  note bits = mirror_rights_bits [of "castling_rights b", folded cr]
  note one = castle_move_mirror [OF mp assms(2)]
  have len: "length (xs @ ys) = length (us @ vs)" if "length xs = length us" "length ys = length vs"
    for xs ys us vs :: "move list" using that by simp
  show ?thesis
  proof (cases "c = WHITE")
    case True
    show ?thesis
      unfolding castling_moves_def True
      by (simp only: swap_color.simps color.simps simp_thms if_True if_False castling_squares_mirror(1-4) [symmetric])
        (intro len one [unfolded True swap_color.simps]; simp add: bits)
  next
    case False
    then have black: "c = BLACK" using assms(2) by (cases c) auto
    show ?thesis
      unfolding castling_moves_def black
      by (simp only: swap_color.simps color.simps simp_thms if_True if_False castling_squares_mirror(5-8) [symmetric])
        (intro len one [unfolded black swap_color.simps]; simp add: bits)
  qed
qed

lemma square_moves_mirror:
  assumes "mirrored b b'" and "sq < 64" and "side_to_move b \<noteq> C_NONE" and "en_passant_sq b \<le> 64"
  shows "length (square_moves b' (mirror_sq sq)) = length (square_moves b sq)"
proof -
  have mp: "mirrored_pieces b b'" and side: "side_to_move b' = swap_color (side_to_move b)"
    using assms(1) by (simp_all add: mirrored_def)
  note at = mirrored_at [OF mp assms(2)]
  have knight: "\<forall>t \<in> set (knight_targets sq). t < 64" and king: "\<forall>t \<in> set (king_targets sq). t < 64"
    using knight_targets_off king_targets_off by blast+
  note parts = pawn_pushes_mirror [OF mp assms(2,3)] pawn_captures_mirror [OF assms(1-3) assms(4)]
    step_moves_mirror [OF mp knight_targets_mirror [OF assms(2)] knight]
    step_moves_mirror [OF mp king_targets_mirror [OF assms(2)] king]
    generate_ray_moves_mirror [OF mp assms(2)] castling_moves_mirror [OF assms(1,3)]
  show ?thesis
    by (cases "ptype (piece_at b sq)")
      (simp_all add: square_moves_def Let_def side at parts generate_pawn_moves_def
        generate_knight_moves_def generate_king_moves_def)
qed

lemma mobility_mirror:
  assumes "mirrored b b'" and "side_to_move b \<noteq> C_NONE" and "en_passant_sq b \<le> 64"
  shows "length (generate_pseudo_legal_moves b') = length (generate_pseudo_legal_moves b)"
  unfolding generate_pseudo_legal_moves_def length_concat map_map comp_def
  by (rule sum_squares_mirror) (rule square_moves_mirror [OF assms(1) _ assms(2,3)])

section \<open>The components of a mirrored position\<close>

lemma mirror_fields:
  "mirrored b b' \<Longrightarrow> mirrored_pieces b b'" "mirrored b b' \<Longrightarrow> side_to_move b' = swap_color (side_to_move b)"
  by (simp_all add: mirrored_def)

lemma xor_56: "sq < 64 \<Longrightarrow> sq XOR 56 = mirror_sq sq"
proof -
  have "list_all (\<lambda>sq. sq XOR 56 = mirror_sq sq) [0..<64]" by code_simp
  then show "sq < 64 \<Longrightarrow> ?thesis" by (simp add: list_all_iff)
qed

lemma pst_bonus_mirror: "sq < 64 \<Longrightarrow> c \<noteq> C_NONE \<Longrightarrow> pst_bonus t (swap_color c) (mirror_sq sq) = pst_bonus t c sq"
  by (cases c) (simp_all add: pst_bonus_def Let_def xor_56)

lemma pawn_of_mirror:
  "mirrored_pieces b b' \<Longrightarrow> on_board r f \<Longrightarrow> pawn_of b' (swap_color c) (7 - r) f = pawn_of b c r f"
  by (simp add: pawn_of_def mirrored_at_coords Let_def)

lemma ball_reflect: "(\<forall>x\<in>{a..b}. P x) \<longleftrightarrow> (\<forall>x\<in>{k - b..k - a}. P (k - x))" for a b k :: int
proof
  assume refl: "\<forall>x\<in>{k - b..k - a}. P (k - x)"
  show "\<forall>x\<in>{a..b}. P x"
  proof
    fix x assume "x \<in> {a..b}"
    then have "k - x \<in> {k - b..k - a}" by simp
    then have "P (k - (k - x))" using refl by blast
    then show "P x" by simp
  qed
qed simp

lemma list_ex_ranks_mirror:
  assumes "\<And>r. 0 \<le> r \<Longrightarrow> r \<le> 7 \<Longrightarrow> P (7 - r) \<longleftrightarrow> Q r"
  shows "list_ex P [0..7::int] \<longleftrightarrow> list_ex Q [0..7]"
  using ball_reflect [of 0 7 "\<lambda>r. \<not> P r" 7] assms by (auto simp: list_ex_iff)

lemma king_safety_mirror:
  assumes "mirrored_pieces b b'" and "sq < 64" and "c \<noteq> C_NONE"
  shows "evaluate_king_safety b' (swap_color c) (mirror_sq sq) = evaluate_king_safety b c sq"
proof -
  let ?r = "rank_of sq" and ?f = "file_of sq"
  obtain d :: int and home home' where
    "(if c = WHITE then ?r + 1 else ?r - 1) = ?r + d"
    "(if swap_color c = WHITE then 7 - ?r + 1 else 7 - ?r - 1) = 7 - (?r + d)"
    "(if swap_color c = WHITE then 7 - ?r \<le> 1 else 7 - ?r \<ge> 6) = (if c = WHITE then ?r \<le> 1 else ?r \<ge> 6)"
    using assms(3) by (cases c) (auto intro: that [of 1] that [of "-1"])
  note eqs = this
  have range: "0 \<le> 7 - (?r + d) \<and> 7 - (?r + d) \<le> 7 \<longleftrightarrow> 0 \<le> ?r + d \<and> ?r + d \<le> 7" by auto
  have on_file: "list_ex (\<lambda>r. pawn_of b' (swap_color c) r ?f) [0..7] = list_ex (\<lambda>r. pawn_of b c r ?f) [0..7]"
    by (rule list_ex_ranks_mirror) (simp add: pawn_of_mirror [OF assms(1)])
  have shield: "map (\<lambda>f. if pawn_of b' (swap_color c) (7 - (?r + d)) f then PAWN_SHIELD_BONUS else 0)
        [max 0 (?f - 1)..min 7 (?f + 1)] =
      map (\<lambda>f. if pawn_of b c (?r + d) f then PAWN_SHIELD_BONUS else 0) [max 0 (?f - 1)..min 7 (?f + 1)]"
    if "0 \<le> ?r + d \<and> ?r + d \<le> 7"
    using that by (intro map_cong refl) (auto simp: pawn_of_mirror [OF assms(1)])
  show ?thesis
    unfolding evaluate_king_safety_def Let_def mirror_sq_coords [OF assms(2)] eqs range on_file
    by (intro arg_cong2 [where f = "(+)"] if_cong arg_cong [where f = sum_list] shield refl) blast+
qed

lemma pawns_on_file_mirror:
  assumes "mirrored_pieces b b'"
  shows "pawns_on_file b' (swap_color c) f = pawns_on_file b c f"
  unfolding pawns_on_file_def by (rule count_squares_mirror) (simp add: mirrored_at [OF assms])

lemma is_passed_mirror:
  assumes "mirrored_pieces b b'" and "c \<noteq> C_NONE" and "0 \<le> r" and "r \<le> 7"
  shows "is_passed b' (swap_color c) (7 - r) f = is_passed b c r f"
proof -
  have "(\<forall>r'\<in>{7 - r + 1..7}. P r') \<longleftrightarrow> (\<forall>r'\<in>{0..r - 1}. P (7 - r'))"
    "(\<forall>r'\<in>{0..7 - r - 1}. P r') \<longleftrightarrow> (\<forall>r'\<in>{r + 1..7}. P (7 - r'))" for P :: "int \<Rightarrow> bool"
    using ball_reflect [of "7 - r + 1" 7 P 7] ball_reflect [of 0 "7 - r - 1" P 7] by (simp_all add: algebra_simps)
  moreover have "pawn_of b' (opposite_color (swap_color c)) (7 - r') f' = pawn_of b (opposite_color c) r' f'"
    if "on_board r' f'" for r' f'
    using pawn_of_mirror [OF assms(1) that, of "opposite_color c"] assms(2) by (cases c) simp_all
  ultimately show ?thesis
    using assms(2-4) by (cases c) (auto simp: is_passed_def list_all_iff)
qed

lemma pawn_score_mirror:
  assumes "mirrored_pieces b b'" and "c \<noteq> C_NONE" and "sq < 64"
  shows "pawn_score b' (swap_color c) (mirror_sq sq) = pawn_score b c sq"
proof -
  have rank: "(if swap_color c = WHITE then 7 - rank_of sq else 7 - (7 - rank_of sq)) =
      (if c = WHITE then rank_of sq else 7 - rank_of sq)"
    using assms(2) by (cases c) simp_all
  have r: "0 \<le> rank_of sq" "rank_of sq \<le> 7" using on_board_rank_file [of sq] assms(3) by linarith+
  show ?thesis
    unfolding pawn_score_def Let_def mirror_sq_coords [OF assms(3)] pawns_on_file_mirror [OF assms(1)]
      is_passed_mirror [OF assms(1,2) r] rank ..
qed

lemma pawn_structure_mirror:
  assumes "mirrored_pieces b b'" and "c \<noteq> C_NONE"
  shows "evaluate_pawn_structure b' (swap_color c) = evaluate_pawn_structure b c"
  unfolding evaluate_pawn_structure_def
  by (rule sum_squares_mirror) (simp add: mirrored_at [OF assms(1)] pawn_score_mirror [OF assms])

lemma bishop_pair_mirror:
  assumes "mirrored_pieces b b'"
  shows "bishop_pair_of b' (swap_color c) = bishop_pair_of b c"
proof -
  have "count_bishops b' (swap_color c) = count_bishops b c"
    unfolding count_bishops_def by (rule count_squares_mirror) (simp add: mirrored_at [OF assms])
  then show ?thesis by (simp add: bishop_pair_of_def)
qed

lemma material_mirror:
  assumes "mirrored_pieces b b'" and "c \<noteq> C_NONE"
    and "\<And>sq. sq < 64 \<Longrightarrow> \<not> is_none (piece_at b sq) \<Longrightarrow> pcolor (piece_at b sq) \<noteq> C_NONE"
  shows "side_material b' (swap_color c) = side_material b c" "side_pst b' (swap_color c) = side_pst b c"
proof -
  have iff: "is_none (piece_at b sq) \<or> (pcolor (flip (piece_at b sq)) = WHITE \<longleftrightarrow> swap_color c \<noteq> WHITE) \<longleftrightarrow>
      is_none (piece_at b sq) \<or> (pcolor (piece_at b sq) = WHITE \<longleftrightarrow> c \<noteq> WHITE)" if "sq < 64" for sq
    using assms(2) assms(3) [OF that]
    by (cases c; cases "is_none (piece_at b sq)"; cases "pcolor (piece_at b sq)") simp_all
  show "side_material b' (swap_color c) = side_material b c"
    unfolding side_material_def Let_def
    by (rule sum_squares_mirror) (simp only: mirrored_at [OF assms(1)] flip_simps(1,3) iff)
  show "side_pst b' (swap_color c) = side_pst b c"
    unfolding side_pst_def Let_def
  proof (rule sum_squares_mirror)
    fix sq :: square assume sq: "sq < 64"
    show "(if is_none (piece_at b' (mirror_sq sq)) \<or> (pcolor (piece_at b' (mirror_sq sq)) = WHITE \<longleftrightarrow> swap_color c \<noteq> WHITE)
          then 0 else pst_bonus (ptype (piece_at b' (mirror_sq sq))) (pcolor (piece_at b' (mirror_sq sq))) (mirror_sq sq)) =
        (if is_none (piece_at b sq) \<or> (pcolor (piece_at b sq) = WHITE \<longleftrightarrow> c \<noteq> WHITE)
          then 0 else pst_bonus (ptype (piece_at b sq)) (pcolor (piece_at b sq)) sq)"
      unfolding mirrored_at [OF assms(1) sq] flip_simps(3) iff [OF sq]
      using assms(3) [OF sq] pst_bonus_mirror [OF sq] by simp
  qed
qed

lemma king_safety_of_mirror:
  assumes "mirrored_pieces b b'" and "c \<noteq> C_NONE" and "king_at b c k"
    and "length (squares b) = 64" and "length (squares b') = 64"
  shows "king_safety_of b' (swap_color c) = king_safety_of b c"
proof -
  have k: "k < 64" using assms(3) by (simp add: king_at_def)
  have "squares b' ! i = Piece KING (swap_color c) \<longleftrightarrow> i = mirror_sq k" if i: "i < 64" for i
  proof -
    have "squares b' ! i = flip (squares b ! mirror_sq i)"
      using mirrored_at [OF assms(1), of "mirror_sq i"] i by (simp add: piece_at_def)
    then have "squares b' ! i = Piece KING (swap_color c) \<longleftrightarrow> squares b ! mirror_sq i = Piece KING c"
      by (simp add: piece_eq)
    also have "\<dots> \<longleftrightarrow> mirror_sq i = k" using assms(3) i by (simp add: king_at_def)
    also have "\<dots> \<longleftrightarrow> i = mirror_sq k" using i k by auto
    finally show ?thesis .
  qed
  then have "king_at b' (swap_color c) (mirror_sq k)" using k by (simp add: king_at_def)
  then have "find_king b' (swap_color c) = mirror_sq k" "find_king b c = k"
    using find_king_at assms(3-5) by blast+
  moreover have "mirror_sq k \<noteq> NO_SQUARE" "k \<noteq> NO_SQUARE"
    unfolding NO_SQUARE_def using k mirror_sq_less [OF k] by linarith+
  ultimately show ?thesis
    using king_safety_mirror [OF assms(1) k assms(2)] by (simp add: king_safety_of_def)
qed

lemma mobility_side_mirror:
  assumes "mirrored b b'" and "c \<noteq> C_NONE" and "en_passant_sq b \<le> 64"
  shows "fst (count_mobility b' (swap_color c)) = fst (count_mobility b c)"
proof -
  have "mirrored (b\<lparr>side_to_move := c\<rparr>) (b'\<lparr>side_to_move := swap_color c\<rparr>)"
    using assms(1) by (simp add: mirrored_def mirrored_pieces_def piece_at_def)
  from mobility_mirror [OF this] assms(2,3) show ?thesis
    by (simp add: count_mobility_def set_side_to_move_def recompute_zobrist_key_def Let_def)
qed

lemma count_mobility_again:
  "count_mobility (snd (count_mobility b d)) c = (fst (count_mobility b c), snd (count_mobility b d))"
  by (simp add: count_mobility_def set_side_to_move_def recompute_zobrist_key_def board_hash_def Let_def)

lemma mobility_pair:
  "fst (count_mobility (snd (count_mobility b d)) c) = fst (count_mobility b c)"
  by (simp add: count_mobility_again)

lemma evaluate_total:
  "ev_total (evaluate_detailed b) =
     side_material b WHITE - side_material b BLACK + (side_pst b WHITE - side_pst b BLACK) +
     (king_safety_of b WHITE - king_safety_of b BLACK) +
     (evaluate_pawn_structure b WHITE - evaluate_pawn_structure b BLACK) +
     (fst (count_mobility b WHITE) - fst (count_mobility b BLACK)) * MOBILITY_WEIGHT +
     (bishop_pair_of b WHITE - bishop_pair_of b BLACK)"
  by (simp add: evaluate_detailed_def Let_def split_beta mobility_pair)

lemma board_rep_colors:
  assumes "board_rep b" and "sq < 64" and "\<not> is_none (piece_at b sq)"
  shows "pcolor (piece_at b sq) \<noteq> C_NONE"
  using board_rep_piece_ok [OF assms(1,2)] assms(3) by (simp add: piece_ok_def is_none_def piece_at_def)

lemma evaluate_mirrored:
  assumes "mirrored b b'" and "position_ok b" and "length (squares b') = 64"
  shows "evaluate b' = evaluate b"
proof -
  have rep: "board_rep b" and len: "length (squares b) = 64" and kings: "kings_ok b"
    and side: "side_to_move b \<noteq> C_NONE" and ep: "en_passant_sq b \<le> 64"
    using assms(2) by (auto simp: position_ok_def board_rep_def)
  have mp: "mirrored_pieces b b'" and side': "side_to_move b' = swap_color (side_to_move b)"
    using assms(1) by (simp_all add: mirror_fields)
  obtain kw kb where k: "king_at b WHITE kw" "king_at b BLACK kb"
    using kings by (auto simp: kings_ok_king_at [OF len])
  have w: "WHITE \<noteq> C_NONE" "BLACK \<noteq> C_NONE" by simp_all
  note colors = board_rep_colors [OF rep]
  have "ev_total (evaluate_detailed b') = - ev_total (evaluate_detailed b)"
    unfolding evaluate_total
    using material_mirror [OF mp w(1) colors] material_mirror [OF mp w(2) colors]
      king_safety_of_mirror [OF mp w(1) k(1) len assms(3)] king_safety_of_mirror [OF mp w(2) k(2) len assms(3)]
      pawn_structure_mirror [OF mp w(1)] pawn_structure_mirror [OF mp w(2)]
      mobility_side_mirror [OF assms(1) w(1) ep] mobility_side_mirror [OF assms(1) w(2) ep]
      bishop_pair_mirror [OF mp, of WHITE] bishop_pair_mirror [OF mp, of BLACK]
    by simp
  then show ?thesis using side side' by (cases "side_to_move b") (simp_all add: evaluate_def)
qed

lemma mirrored_mirror_board: "length (squares b) = 64 \<Longrightarrow> mirrored b (mirror_board b)"
  by (auto simp: mirrored_def mirrored_pieces_def mirror_board_def recompute_zobrist_key_def piece_at_def)

section \<open>Bounds\<close>

lemma sum_list_bounds:
  fixes f :: "'a \<Rightarrow> int"
  assumes "\<And>x. x \<in> set xs \<Longrightarrow> lo \<le> f x \<and> f x \<le> hi"
  shows "lo * int (length xs) \<le> sum_list (map f xs) \<and> sum_list (map f xs) \<le> hi * int (length xs)"
  using assms
proof (induction xs)
  case (Cons x xs)
  then have "lo \<le> f x \<and> f x \<le> hi" and
    "lo * int (length xs) \<le> sum_list (map f xs) \<and> sum_list (map f xs) \<le> hi * int (length xs)"
    by auto
  then show ?case by (auto simp: algebra_simps)
qed simp

lemma sum_list_bound_nat:
  fixes f :: "'a \<Rightarrow> nat"
  shows "(\<And>x. x \<in> set xs \<Longrightarrow> f x \<le> k) \<Longrightarrow> sum_list (map f xs) \<le> k * length xs"
  by (induction xs) (auto intro: add_mono)

lemma pst_bonus_bounds:
  assumes "sq < 64" and "c \<noteq> C_NONE"
  shows "-50 \<le> pst_bonus t c sq \<and> pst_bonus t c sq \<le> 50"
proof -
  let ?tables = "[PST_PAWN, PST_KNIGHT, PST_BISHOP, PST_ROOK, PST_QUEEN, PST_KING_MG]"
  have "list_all (\<lambda>T. list_all (\<lambda>v. -50 \<le> v \<and> v \<le> 50) T \<and> length T = 64) ?tables" by code_simp
  then have entry: "-50 \<le> T ! i \<and> T ! i \<le> 50" if "T \<in> set ?tables" "i < 64" for T i
    using that unfolding list_all_iff by (metis nth_mem)
  have white: "-50 \<le> pst_bonus t WHITE i \<and> pst_bonus t WHITE i \<le> 50" if "i < 64" for i
    using entry [OF _ that] by (cases t) (simp_all add: pst_bonus_def)
  show ?thesis
    using white [of sq] white [of "mirror_sq sq"] pst_bonus_mirror [of "mirror_sq sq" WHITE t] assms
    by (cases c) simp_all
qed

lemma side_pst_bounds:
  assumes "board_rep b"
  shows "-3200 \<le> side_pst b c \<and> side_pst b c \<le> 3200"
  using sum_list_bounds [of "[0..<64]" "-50" _ 50] pst_bonus_bounds board_rep_colors [OF assms]
  unfolding side_pst_def Let_def by force

lemma piece_value_bounds: "0 \<le> PIECE_VALUE ! type_index t \<and> PIECE_VALUE ! type_index t \<le> (if t = KING then 20000 else 900)"
  by (cases t) (simp_all add: PIECE_VALUE_def)

lemma side_material_bounds:
  assumes "board_rep b" and "king_at b c k" and "c \<noteq> C_NONE"
  shows "0 \<le> side_material b c \<and> side_material b c \<le> 77600"
proof -
  let ?f = "\<lambda>sq. let p = piece_at b sq in if is_none p \<or> (pcolor p = WHITE \<longleftrightarrow> c \<noteq> WHITE) then 0
    else PIECE_VALUE ! type_index (ptype p)"
  have one: "0 \<le> ?f sq \<and> ?f sq \<le> 900 + (if sq = k then 20000 else 0)" if "sq \<in> set [0..<64]" for sq
  proof (cases "ptype (piece_at b sq) = KING \<and> pcolor (piece_at b sq) = c")
    case True
    then have "sq = k" using assms(2) that by (simp add: king_at_def piece_at_def piece_eq)
    then show ?thesis
      using piece_value_bounds [of "ptype (piece_at b sq)"] by (auto simp: Let_def split: if_splits)
  next
    case False
    have "pcolor (piece_at b sq) \<noteq> C_NONE" if "\<not> is_none (piece_at b sq)"
      using board_rep_colors [OF assms(1) _ that] \<open>sq \<in> set [0..<64]\<close> by simp
    then show ?thesis
      using False assms(3) piece_value_bounds [of "ptype (piece_at b sq)"]
      by (cases c; cases "pcolor (piece_at b sq)") (auto simp: Let_def split: if_splits)
  qed
  have "sum_list (map ?f [0..<64]) \<le> sum_list (map (\<lambda>sq. 900 + (if sq = k then 20000 else 0)) [0..<64])"
    using one by (intro sum_list_mono) blast
  also have "\<dots> \<le> 77600"
    by (simp add: sum_list_addf sum_list_triv sum_list_distinct_conv_sum_set sum.delta)
  finally have "side_material b c \<le> 77600" by (simp only: side_material_def)
  moreover have "0 \<le> side_material b c"
    unfolding side_material_def using one by (intro sum_list_nonneg) auto
  ultimately show ?thesis by blast
qed

lemma pawn_score_bounds: "sq < 64 \<Longrightarrow> -35 \<le> pawn_score b c sq \<and> pawn_score b c sq \<le> 90"
proof -
  have all: "list_all (\<lambda>v. 0 \<le> v \<and> v \<le> 90) PASSED_PAWN_BONUS \<and> length PASSED_PAWN_BONUS = 8" by code_simp
  assume "sq < 64"
  then have "nat (rank_of sq) < 8" "nat (7 - rank_of sq) < 8"
    using on_board_rank_file(1) [of sq] on_board_rank_file(4) [of sq] by linarith+
  then have "nat (if c = WHITE then rank_of sq else 7 - rank_of sq) < 8" by simp
  moreover have "0 \<le> PASSED_PAWN_BONUS ! i \<and> PASSED_PAWN_BONUS ! i \<le> 90" if "i < 8" for i
    using all that by (simp add: list_all_length)
  ultimately have "0 \<le> PASSED_PAWN_BONUS ! nat (if c = WHITE then rank_of sq else 7 - rank_of sq) \<and>
      PASSED_PAWN_BONUS ! nat (if c = WHITE then rank_of sq else 7 - rank_of sq) \<le> 90" by blast
  moreover have "-35 \<le> (if P then -15 else 0) + (if Q then -20 else 0) + (if R then x else 0) \<and>
      (if P then -15 else 0) + (if Q then -20 else 0) + (if R then x else 0) \<le> 90"
    if "0 \<le> x \<and> x \<le> 90" for x :: int and P Q R using that by auto
  ultimately show ?thesis unfolding pawn_score_def Let_def by blast
qed

lemma pawn_structure_bounds: "-2240 \<le> evaluate_pawn_structure b c \<and> evaluate_pawn_structure b c \<le> 5760"
  using sum_list_bounds [of "[0..<64]" "-35" _ 90] pawn_score_bounds
  unfolding evaluate_pawn_structure_def by force

lemma king_safety_bounds: "-25 \<le> king_safety_of b c \<and> king_safety_of b c \<le> 80"
proof -
  let ?sum = "\<lambda>r xs. sum_list (map (\<lambda>f. if pawn_of b c r f then 10 else (0::int)) xs)"
  have shield: "0 \<le> ?sum r [max 0 (g - 1)..min 7 (g + 1)] \<and> ?sum r [max 0 (g - 1)..min 7 (g + 1)] \<le> 80" for r g
  proof -
    have "int (length [max 0 (g - 1)..min 7 (g + 1)]) \<le> 8" by (simp add: min_def max_def)
    moreover have "0 * int (length xs) \<le> ?sum r xs \<and> ?sum r xs \<le> 10 * int (length xs)" for xs
      by (rule sum_list_bounds) simp
    from this [of "[max 0 (g - 1)..min 7 (g + 1)]"]
    have "0 \<le> ?sum r [max 0 (g - 1)..min 7 (g + 1)]"
      "?sum r [max 0 (g - 1)..min 7 (g + 1)] \<le> 10 * int (length [max 0 (g - 1)..min 7 (g + 1)])"
      by (simp_all only: mult_zero_left)
    ultimately show ?thesis by linarith
  qed
  have both: "-25 \<le> (if P then x else 0) + (if Q then 0 else -25) \<and> (if P then x else 0) + (if Q then 0 else -25) \<le> 80"
    if "0 \<le> x \<and> x \<le> 80" for x :: int and P Q using that by auto
  have eval: "-25 \<le> evaluate_king_safety b c k \<and> evaluate_king_safety b c k \<le> 80" for k
    unfolding evaluate_king_safety_def Let_def by (rule both) (rule shield)
  show ?thesis unfolding king_safety_of_def Let_def using eval by simp
qed

lemma length_ray_moves: "length (ray_moves n b sq c d r f) \<le> n"
proof (induction n arbitrary: r f)
  case (Suc n)
  then show ?case by (simp add: Let_def)
qed simp

lemma length_generate_ray_moves: "length (generate_ray_moves b sq c orth diag) \<le> 64"
proof -
  have "sum_list (map (\<lambda>i. length (ray_moves 8 b sq c (ray_dirs ! i) (rank_of sq + fst (ray_dirs ! i))
      (file_of sq + snd (ray_dirs ! i)))) is) \<le> 8 * length is" for "is"
    by (rule sum_list_bound_nat) (rule length_ray_moves)
  from this [of "[(if orth then 0 else 4)..<(if diag then 8 else 4)]"] show ?thesis
    unfolding generate_ray_moves_def length_concat map_map comp_def
    by (cases orth; cases diag) (auto intro: order.trans)
qed

lemma length_square_moves: "length (square_moves b sq) \<le> 64"
proof -
  have pawn: "length (add_pawn_move c s t fl) \<le> 4" for c s t fl by (simp add: add_pawn_move_def)
  have push: "length (pawn_pushes b sq c) \<le> 5" and capture: "length (pawn_captures b sq c df) \<le> 4" for c df
    using le_trans [OF pawn, of 5] by (simp_all add: pawn_pushes_def pawn_captures_def Let_def pawn)
  have step: "length (step_moves b sq c (offset_targets offs sq)) \<le> length offs" for c offs
    unfolding step_moves_def offset_targets_def length_map
    by (rule order.trans [OF length_filter_le]) (simp add: length_filter_le)
  have castle: "length (castling_moves b c) \<le> 4" for c
    by (auto simp: castling_moves_def castle_move_def)
  have "length (generate_pawn_moves b sq c) \<le> 64" for c
    using push [of c] capture [of c "-1"] capture [of c 1] by (simp add: generate_pawn_moves_def)
  moreover have "length (generate_knight_moves b sq c) \<le> 64" for c
    using step [of c knight_offsets] by (simp add: generate_knight_moves_def knight_targets_def knight_offsets_def)
  moreover have "length (generate_king_moves b sq c) \<le> 64" for c
    using step [of c king_offsets] castle [of c]
    by (simp add: generate_king_moves_def king_targets_def king_offsets_def)
  ultimately show ?thesis
    using length_generate_ray_moves by (auto simp: square_moves_def Let_def split: piece_type.splits)
qed

lemma mobility_bounds: "0 \<le> fst (count_mobility b c) \<and> fst (count_mobility b c) \<le> 4096"
proof -
  have "sum_list (map (\<lambda>sq. length (square_moves b' sq)) xs) \<le> 64 * length xs" for b' xs
    by (rule sum_list_bound_nat) (rule length_square_moves)
  from this [of _ "[0..<64]"] have "length (generate_pseudo_legal_moves b') \<le> 4096" for b'
    by (simp add: generate_pseudo_legal_moves_def length_concat comp_def)
  then show ?thesis by (simp add: count_mobility_def Let_def)
qed

lemma diff_bound: "lo \<le> x \<and> x \<le> hi \<Longrightarrow> lo \<le> y \<and> y \<le> hi \<Longrightarrow> \<bar>x - y\<bar> \<le> hi - lo" for x :: int
  by linarith

lemma abs_add_bound: "\<bar>x\<bar> \<le> m \<Longrightarrow> \<bar>y\<bar> \<le> n \<Longrightarrow> \<bar>x + y\<bar> \<le> m + n" for x :: int
  by linarith

lemma evaluate_bounds:
  assumes "position_ok b"
  shows "\<bar>evaluate b\<bar> < 120000"
proof -
  have rep: "board_rep b" and len: "length (squares b) = 64" and kings: "kings_ok b"
    using assms by (auto simp: position_ok_def board_rep_def)
  obtain kw kb where k: "king_at b WHITE kw" "king_at b BLACK kb"
    using kings by (auto simp: kings_ok_king_at [OF len])
  have w: "WHITE \<noteq> C_NONE" "BLACK \<noteq> C_NONE" by simp_all
  have bp: "0 \<le> bishop_pair_of b c \<and> bishop_pair_of b c \<le> 30" for c by (simp add: bishop_pair_of_def)
  have mobility: "\<bar>(fst (count_mobility b WHITE) - fst (count_mobility b BLACK)) * 4\<bar> \<le> 16384"
    using diff_bound [OF mobility_bounds [of b WHITE] mobility_bounds [of b BLACK]] by (simp add: abs_mult)
  note parts = diff_bound [OF side_material_bounds [OF rep k(1) w(1)] side_material_bounds [OF rep k(2) w(2)]]
    diff_bound [OF side_pst_bounds [OF rep, of WHITE] side_pst_bounds [OF rep, of BLACK]]
    diff_bound [OF king_safety_bounds [of b WHITE] king_safety_bounds [of b BLACK]]
    diff_bound [OF pawn_structure_bounds [of b WHITE] pawn_structure_bounds [of b BLACK]] mobility
    diff_bound [OF bp [of WHITE] bp [of BLACK]]
  have "\<bar>ev_total (evaluate_detailed b)\<bar> \<le> 77600 - 0 + (3200 - - 3200) + (80 - - 25) + (5760 - - 2240) + 16384 + (30 - 0)"
    unfolding evaluate_total by (intro abs_add_bound parts)
  then show ?thesis by (simp add: evaluate_def)
qed

section \<open>The pawn table is upside down\<close>

text \<open>
  The tables are written with the eighth rank first, but index 0 is read as a1: a white pawn gets
  the large bonus on its home rank and almost nothing on the seventh, and a white king is paid for
  standing on g8 instead of g1.
\<close>

lemma pst_pawn_upside_down:
  "list_all (\<lambda>f. pst_bonus PAWN WHITE (48 + f) < pst_bonus PAWN WHITE (8 + f)) [0..<8] \<and>
   pst_bonus KING WHITE G1 < pst_bonus KING WHITE G8"
  by code_simp

section \<open>Properties\<close>

text \<open>
  C24. The evaluation is colour blind: turning the ranks of a sound position over and exchanging
  the colours (pieces, side to move, castling rights, en passant square) leaves the score of the
  side to move unchanged.
\<close>

theorem evaluate_color_blind:
  assumes "position_ok b"
  shows "evaluate (mirror_board b) = evaluate b"
proof -
  have "length (squares b) = 64" using assms by (simp add: position_ok_def board_rep_def)
  then show ?thesis
    by (intro evaluate_mirrored assms mirrored_mirror_board)
      (simp_all add: mirror_board_def recompute_zobrist_key_def)
qed

theorem evaluate_color_blind_witness: "evaluate (mirror_board start_board) = evaluate start_board"
  by (rule evaluate_color_blind [OF position_ok_start])

text \<open>
  C25. The score of a sound position is never mistaken for a forced mate: it stays below 120000
  centipawns in absolute value, so under the 800000 from which the transposition table and the
  engine read a score as a mate distance.
\<close>

theorem evaluate_below_mate:
  assumes "position_ok b"
  shows "\<bar>evaluate b\<bar> < 120000"
  by (rule evaluate_bounds [OF assms])

theorem evaluate_below_mate_witness: "\<bar>evaluate start_board\<bar> < 120000"
  by (rule evaluate_below_mate [OF position_ok_start])
end
