(* ===== verification/LossyCache.thy ===== *)
theory LossyCache
  imports Prelude
begin

text \<open>
  The contract of a cache that may forget: what the engine relies on in its transposition table
  (\<open>src/chess/transposition_table.cpp\<close>). An insertion may drop or ignore any fact, but a lookup never
  invents one. The client's lemma: whatever holds of every inserted fact holds of every fact found.
\<close>

locale lossy_cache =
  fixes insert :: "'t \<Rightarrow> 'k \<Rightarrow> 'i \<Rightarrow> 't"
    and fact :: "'i \<Rightarrow> 'v"
    and lookup :: "'t \<Rightarrow> 'k \<Rightarrow> 'v option"
    and ok :: "'t \<Rightarrow> bool"
  assumes insert_ok: "ok t \<Longrightarrow> ok (insert t k i)"
    and lookup_insert: "ok t \<Longrightarrow> lookup (insert t k i) k' = Some w \<Longrightarrow> k' = k \<and> w = fact i \<or> lookup t k' = Some w"
begin

lemma inserts_ok: "ok t \<Longrightarrow> ok (fold (\<lambda>(k, i) t. insert t k i) kis t)"
  by (induction kis arbitrary: t) (auto intro: insert_ok)

lemma lookup_inserts:
  assumes "ok t" and "lookup (fold (\<lambda>(k, i) t. insert t k i) kis t) k = Some w"
  shows "(\<exists>i. (k, i) \<in> set kis \<and> w = fact i) \<or> lookup t k = Some w"
  using assms
proof (induction kis arbitrary: t)
  case (Cons ki kis)
  obtain k' i where ki: "ki = (k', i)" by (cases ki)
  have "(\<exists>i. (k, i) \<in> set kis \<and> w = fact i) \<or> lookup (insert t k' i) k = Some w"
    using Cons.IH [OF insert_ok [OF Cons.prems(1)]] Cons.prems(2) ki by simp
  then show ?case using lookup_insert [OF Cons.prems(1)] ki by fastforce
qed simp

lemma facts_kept:
  assumes "ok t" and "\<And>k w. lookup t k = Some w \<Longrightarrow> P k w" and "P k (fact i)"
    and "lookup (insert t k i) k' = Some w"
  shows "P k' w"
  using lookup_insert [OF assms(1,4)] assms(2,3) by auto

end

end
