(* ===== verification/TranspositionTable.thy ===== *)
theory TranspositionTable
  imports LossyCache Types
begin

text \<open>
  The transposition table (\<open>src/chess/transposition_table.h\<close>, \<open>src/chess/transposition_table.cpp\<close>): a
  power-of-two array of entries indexed by the low bits of the Zobrist key, with its replacement
  policy, its probes and the normalisation of mate scores. The size of an entry in bytes, which
  the compiler decides, is an argument of \<open>resize_tt\<close>. Shown: every access is inside the array, the
  size loop ends at the largest power of two that fits, a probe only answers what was stored under
  the same key at a sufficient depth, and what a probe returns is the score that was stored.
\<close>

section \<open>State\<close>

datatype tt_node_type = TT_NONE | EXACT | LOWER_BOUND | UPPER_BOUND

record tt_entry =
  e_key :: "64 word"
  e_move :: move
  e_score :: int
  e_depth :: int
  e_type :: tt_node_type
  e_age :: "8 word"

definition empty_entry :: tt_entry where
  "empty_entry = \<lparr>e_key = 0, e_move = null_move, e_score = 0, e_depth = 0, e_type = TT_NONE, e_age = 0\<rparr>"

record ttable =
  entries :: "tt_entry list"
  index_mask :: "64 word"
  tt_age :: "8 word"

section \<open>Operations\<close>

fun grow_power :: "nat \<Rightarrow> 64 word \<Rightarrow> 64 word \<Rightarrow> 64 word" where
  \<comment> \<open>the doubling loop of \<open>resize\<close>; it runs at most 63 times\<close>
  "grow_power 0 p n = p"
| "grow_power (Suc k) p n =
     (if push_bit 1 p \<le> n \<and> push_bit 1 p \<noteq> 0 then grow_power k (push_bit 1 p) n else p)"

definition resize_tt :: "64 word \<Rightarrow> 64 word \<Rightarrow> ttable" where
  "resize_tt entry_size size_mb =
     (let mb = (if size_mb = 0 then 1 else size_mb);
          target_bytes = mb * 1024 * 1024;
          num_entries = target_bytes div entry_size;
          power_of_two = grow_power 64 1 num_entries
      in \<lparr>entries = replicate (unat power_of_two) empty_entry, index_mask = power_of_two - 1, tt_age = 0\<rparr>)"

definition clear_tt :: "ttable \<Rightarrow> ttable" where
  "clear_tt t = t\<lparr>entries := replicate (length (entries t)) empty_entry, tt_age := 0\<rparr>"

definition new_search :: "ttable \<Rightarrow> ttable" where
  "new_search t = t\<lparr>tt_age := tt_age t + 1\<rparr>"

abbreviation (input) TT_MATE_BOUND :: int where "TT_MATE_BOUND \<equiv> 800000"

definition score_to_tt :: "int \<Rightarrow> int \<Rightarrow> int" where
  "score_to_tt score ply =
     (if score \<ge> TT_MATE_BOUND then score + ply
      else if score \<le> - TT_MATE_BOUND then score - ply else score)"

definition score_from_tt :: "int \<Rightarrow> int \<Rightarrow> int" where
  "score_from_tt score ply =
     (if score \<ge> TT_MATE_BOUND then score - ply
      else if score \<le> - TT_MATE_BOUND then score + ply else score)"

definition to_int8 :: "int \<Rightarrow> int" where
  "to_int8 x = (x + 128) mod 256 - 128"

definition tt_index :: "ttable \<Rightarrow> 64 word \<Rightarrow> nat" where
  "tt_index t key = unat (key AND index_mask t)"

definition replaces :: "ttable \<Rightarrow> tt_entry \<Rightarrow> 64 word \<Rightarrow> int \<Rightarrow> tt_node_type \<Rightarrow> bool" where
  \<comment> \<open>the replacement logic of \<open>store\<close>\<close>
  "replaces t e key depth ty \<longleftrightarrow>
     (if e_key e = 0 then True
      else if e_key e = key then depth \<ge> e_depth e \<or> ty = EXACT
      else if e_age e \<noteq> tt_age t then True
      else depth \<ge> e_depth e)"

definition store :: "ttable \<Rightarrow> 64 word \<Rightarrow> int \<Rightarrow> int \<Rightarrow> int \<Rightarrow> tt_node_type \<Rightarrow> move \<Rightarrow> ttable" where
  "store t key depth ply score ty best_move =
     (if entries t = [] then t
      else let i = tt_index t key; e = entries t ! i
           in if replaces t e key depth ty then
                (let mv = (if m_from best_move = m_to best_move \<and> e_key e = key then e_move e else best_move)
                 in t\<lparr>entries := (entries t)[i := \<lparr>e_key = key, e_move = mv, e_score = score_to_tt score ply,
                        e_depth = to_int8 depth, e_type = ty, e_age = tt_age t\<rparr>]\<rparr>)
              else t)"

definition probe :: "ttable \<Rightarrow> 64 word \<Rightarrow> int \<Rightarrow> int \<Rightarrow> int \<Rightarrow> int \<Rightarrow> int option \<times> move option" where
  \<comment> \<open>the score when the call returns true, and the move it writes to its output argument\<close>
  "probe t key depth ply alpha beta =
     (if entries t = [] then (None, None)
      else let e = entries t ! tt_index t key
           in if e_key e \<noteq> key \<or> e_type e = TT_NONE then (None, None)
              else if e_depth e \<ge> depth then
                (let score = score_from_tt (e_score e) ply
                 in if e_type e = EXACT then (Some score, Some (e_move e))
                    else if e_type e = LOWER_BOUND \<and> score \<ge> beta then (Some score, Some (e_move e))
                    else if e_type e = UPPER_BOUND \<and> score \<le> alpha then (Some score, Some (e_move e))
                    else (None, Some (e_move e)))
              else (None, Some (e_move e)))"

definition probe_move :: "ttable \<Rightarrow> 64 word \<Rightarrow> move option" where
  "probe_move t key =
     (if entries t = [] then None
      else let e = entries t ! tt_index t key
           in if e_key e = key \<and> e_type e \<noteq> TT_NONE then Some (e_move e) else None)"

definition hashfull :: "ttable \<Rightarrow> int" where
  "hashfull t =
     (if entries t = [] then 0
      else let sample = take (min (length (entries t)) 1000) (entries t);
               occupied = length (filter (\<lambda>e. e_key e \<noteq> 0 \<and> e_age e = tt_age t) sample)
           in int (occupied * 1000 div length sample))"

section \<open>The array and its index\<close>

definition tt_ok :: "ttable \<Rightarrow> bool" where
  \<comment> \<open>the array is empty or has \<open>2 ^ k\<close> entries, and the mask selects the low \<open>k\<close> bits\<close>
  "tt_ok t \<longleftrightarrow> entries t = [] \<or> (\<exists>k<64. length (entries t) = 2 ^ k \<and> index_mask t = mask k)"

lemma tt_index_bound:
  assumes "tt_ok t" and "entries t \<noteq> []"
  shows "tt_index t key < length (entries t)"
proof -
  obtain k where k: "length (entries t) = 2 ^ k" "index_mask t = mask k"
    using assms by (auto simp: tt_ok_def)
  have "tt_index t key = take_bit k (unat key)"
    by (simp add: tt_index_def k(2) take_bit_eq_mask [symmetric] unsigned_take_bit_eq)
  then show ?thesis by (simp add: k(1))
qed

lemma grow_power_pow:
  assumes "p = 2 ^ j" and "j < 64" and "p \<le> n" and "64 \<le> j + k"
  shows "\<exists>i<64. grow_power k p n = 2 ^ i \<and> 2 ^ i \<le> n \<and> (Suc i < 64 \<longrightarrow> n < 2 ^ Suc i)"
  using assms
proof (induction k arbitrary: p j)
  case (Suc k)
  have shift: "push_bit 1 p = 2 ^ Suc j"
    by (simp only: Suc.prems(1) push_bit_eq_mult power_Suc power_one_right mult.commute)
  show ?case
  proof (cases "push_bit 1 p \<le> n \<and> push_bit 1 p \<noteq> 0")
    case True
    have "(2::64 word) ^ 64 = 0" by simp
    then have "Suc j \<noteq> 64" using True shift by metis
    then have "Suc j < 64" "64 \<le> Suc j + k" using Suc.prems(2,4) by simp_all
    moreover have "grow_power (Suc k) p n = grow_power k (push_bit 1 p) n"
      unfolding grow_power.simps using True by (rule if_P)
    ultimately show ?thesis using Suc.IH [OF shift] True by metis
  next
    case False
    have step: "grow_power (Suc k) p n = p" unfolding grow_power.simps using False by (rule if_not_P)
    have "(2::64 word) ^ i \<noteq> 0" if "i < 64" for i unfolding exp_eq_zero_iff using that by simp
    then have "n < 2 ^ Suc j" if "Suc j < 64" using False that shift by (metis not_le)
    then show ?thesis using step Suc.prems(1-3) by blast
  qed
qed simp

section \<open>What a probe can answer\<close>

type_synonym tt_item = "int \<times> int \<times> int \<times> tt_node_type \<times> move"
type_synonym tt_fact = "tt_node_type \<times> int \<times> int"

definition store_item :: "ttable \<Rightarrow> 64 word \<Rightarrow> tt_item \<Rightarrow> ttable" where
  "store_item t key item = (case item of (depth, ply, score, ty, m) \<Rightarrow> store t key depth ply score ty m)"

definition item_fact :: "tt_item \<Rightarrow> tt_fact" where
  "item_fact item = (case item of (depth, ply, score, ty, m) \<Rightarrow> (ty, to_int8 depth, score_to_tt score ply))"

definition found_fact :: "ttable \<Rightarrow> 64 word \<Rightarrow> tt_fact option" where
  "found_fact t key =
     (if entries t = [] then None
      else let e = entries t ! tt_index t key
           in if e_key e = key \<and> e_type e \<noteq> TT_NONE then Some (e_type e, e_depth e, e_score e) else None)"

lemma probe_found:
  assumes "fst (probe t key depth ply alpha beta) = Some s"
  obtains ty d s' where "found_fact t key = Some (ty, d, s')" "depth \<le> d" "s = score_from_tt s' ply"
    "ty = EXACT \<or> ty = LOWER_BOUND \<and> beta \<le> s \<or> ty = UPPER_BOUND \<and> s \<le> alpha"
  using assms that by (auto simp: probe_def found_fact_def Let_def split: if_splits)

lemma store_ok: "tt_ok t \<Longrightarrow> tt_ok (store t key depth ply score ty m)"
  by (cases "entries t = []") (simp_all add: tt_ok_def store_def Let_def)

lemma tt_index_entries [simp]: "tt_index (t\<lparr>entries := xs\<rparr>) key = tt_index t key"
  by (simp add: tt_index_def)

lemma store_fields [simp]:
  "length (entries (store t key depth ply score ty m)) = length (entries t)"
  "index_mask (store t key depth ply score ty m) = index_mask t"
  "tt_index (store t key depth ply score ty m) k = tt_index t k"
  "entries (store t key depth ply score ty m) = [] \<longleftrightarrow> entries t = []"
  by (simp_all add: store_def Let_def tt_index_def)

lemma found_fact_store:
  assumes "tt_ok t" and "found_fact (store t key depth ply score ty m) key' = Some w"
  shows "key' = key \<and> w = (ty, to_int8 depth, score_to_tt score ply) \<or> found_fact t key' = Some w"
proof (cases "entries t = []")
  case True
  then show ?thesis using assms(2) by (simp add: found_fact_def)
next
  case False
  then show ?thesis
    using assms(2) tt_index_bound [OF assms(1) False, of key]
    by (cases "tt_index t key = tt_index t key'")
      (auto simp: found_fact_def store_def Let_def split: if_splits)
qed

interpretation tt: lossy_cache store_item item_fact found_fact tt_ok
proof
  show "tt_ok t \<Longrightarrow> tt_ok (store_item t k i)" for t k i
    by (cases i) (simp add: store_item_def store_ok)
  show "tt_ok t \<Longrightarrow> found_fact (store_item t k i) k' = Some w \<Longrightarrow> k' = k \<and> w = item_fact i \<or> found_fact t k' = Some w"
    for t k i k' w
    using found_fact_store by (cases i) (auto simp: store_item_def item_fact_def)
qed

lemma new_search_facts [simp]: "tt_ok (new_search t) = tt_ok t" "found_fact (new_search t) key = found_fact t key"
  by (simp_all add: tt_ok_def found_fact_def new_search_def tt_index_def)

lemma empty_facts:
  assumes "tt_ok t" and "\<And>e. e \<in> set (entries t) \<Longrightarrow> e = empty_entry"
  shows "found_fact t key = None"
proof (cases "entries t = []")
  case False
  then have "entries t ! tt_index t key = empty_entry"
    using assms(2) nth_mem [OF tt_index_bound [OF assms(1) False]] by blast
  then show ?thesis by (simp add: found_fact_def empty_entry_def)
qed (simp add: found_fact_def)

lemma clear_tt_facts: "tt_ok t \<Longrightarrow> tt_ok (clear_tt t) \<and> found_fact (clear_tt t) key = None"
proof -
  assume "tt_ok t"
  then have "tt_ok (clear_tt t)" by (auto simp: tt_ok_def clear_tt_def)
  then show ?thesis using empty_facts [of "clear_tt t"] by (auto simp: clear_tt_def)
qed

lemma resize_ok:
  "tt_ok (resize_tt sz mb) \<and> entries (resize_tt sz mb) \<noteq> [] \<and> found_fact (resize_tt sz mb) key = None"
proof -
  obtain n where n: "resize_tt sz mb = \<lparr>entries = replicate (unat (grow_power 64 1 n)) empty_entry,
      index_mask = grow_power 64 1 n - 1, tt_age = 0\<rparr>"
    by (auto simp: resize_tt_def Let_def)
  obtain i where i: "i < 64" "grow_power 64 1 n = 2 ^ i"
  proof (cases "1 \<le> n")
    case True
    then show ?thesis using grow_power_pow [of 1 0 n 64] that by auto
  next
    case False
    then have "n = 0" by (metis linorder_not_less word_less_1)
    then have "grow_power (Suc 63) 1 n = 1" unfolding grow_power.simps by (simp add: push_bit_of_1)
    then show ?thesis using that [of 0] by simp
  qed
  have "unat ((2::64 word) ^ i) = take_bit 64 (2 ^ i)"
    using unsigned_of_nat [where 'a = nat and 'b = 64, of "2 ^ i"] by simp
  then have pow: "unat ((2::64 word) ^ i) = 2 ^ i"
    using i(1) by (simp add: take_bit_nat_eq_self)
  have ok: "tt_ok (resize_tt sz mb)"
    unfolding tt_ok_def n i(2) using i(1) pow by (auto simp: mask_eq_exp_minus_1)
  moreover have "entries (resize_tt sz mb) \<noteq> []" unfolding n i(2) using pow by simp
  moreover have "e = empty_entry" if "e \<in> set (entries (resize_tt sz mb))" for e
    using that unfolding n by simp
  ultimately show ?thesis using empty_facts by blast
qed


section \<open>Scores\<close>

lemma score_round_trip: "0 \<le> ply \<Longrightarrow> score_from_tt (score_to_tt score ply) ply = score"
  by (simp add: score_to_tt_def score_from_tt_def)

lemma to_int8_id [simp]: "-128 \<le> d \<Longrightarrow> d < 128 \<Longrightarrow> to_int8 d = d"
  by (simp add: to_int8_def)

section \<open>Properties\<close>

text \<open>
  Every access to the table is inside its array: a table of any size the constructor makes,
  after any sequence of stores, has at least one entry and indexes below its number of entries for
  every key.
\<close>

lemma tt_index_in_bounds:
  "let t = fold (\<lambda>(k, i) t. store_item t k i) kis (resize_tt entry_size size_mb)
   in entries t \<noteq> [] \<and> tt_index t key < length (entries t)"
proof -
  let ?t = "resize_tt entry_size size_mb"
  have ok: "tt_ok (fold (\<lambda>(k, i) t. store_item t k i) kis ?t)"
    using resize_ok by (intro tt.inserts_ok) blast
  have one: "entries (store_item t k i) = [] \<longleftrightarrow> entries t = []" for t k i
    by (cases i) (simp add: store_item_def)
  have "entries (fold (\<lambda>(k, i) t. store_item t k i) kis t) = [] \<longleftrightarrow> entries t = []" for t
    by (induction kis arbitrary: t) (simp_all only: fold_simps id_apply comp_apply split_beta one)
  then have ne: "entries (fold (\<lambda>(k, i) t. store_item t k i) kis ?t) \<noteq> []"
    using resize_ok [THEN conjunct2, THEN conjunct1] by blast
  show ?thesis unfolding Let_def by (rule conjI [OF ne tt_index_bound [OF ok ne]])
qed

text \<open>
  C23. A probe never invents a score: on a table built from any sequence of stores, a probe that
  answers a score answers one that was stored under the same key, at a depth (as an 8-bit number) of
  at least the requested one, read back for the current ply, and of a bound type that justifies
  the cutoff at the given window.
\<close>

theorem tt_probe_sound:
  assumes "fst (probe (fold (\<lambda>(k, i) t. store_item t k i) kis (resize_tt entry_size size_mb))
    key depth ply alpha beta) = Some s"
  shows "\<exists>d p s' ty m. (key, (d, p, s', ty, m)) \<in> set kis \<and> depth \<le> to_int8 d \<and>
    s = score_from_tt (score_to_tt s' p) ply \<and>
    (ty = EXACT \<or> ty = LOWER_BOUND \<and> beta \<le> s \<or> ty = UPPER_BOUND \<and> s \<le> alpha)"
proof -
  obtain ty d s' where f:
    "found_fact (fold (\<lambda>(k, i) t. store_item t k i) kis (resize_tt entry_size size_mb)) key = Some (ty, d, s')"
    "depth \<le> d" "s = score_from_tt s' ply"
    "ty = EXACT \<or> ty = LOWER_BOUND \<and> beta \<le> s \<or> ty = UPPER_BOUND \<and> s \<le> alpha"
    by (rule probe_found [OF assms])
  obtain i where i: "(key, i) \<in> set kis" "(ty, d, s') = item_fact i"
    using tt.lookup_inserts [OF _ f(1)] resize_ok by auto
  obtain d0 p s0 ty0 m where parts: "i = (d0, p, s0, ty0, m)" by (cases i)
  then have eqs: "ty = ty0" "d = to_int8 d0" "s' = score_to_tt s0 p" using i(2) by (simp_all add: item_fact_def)
  show ?thesis
    by (rule exI [of _ d0], rule exI [of _ p], rule exI [of _ s0], rule exI [of _ ty0], rule exI [of _ m])
      (use i(1) f(2-4) in \<open>simp only: parts eqs simp_thms\<close>)
qed

theorem tt_probe_sound_witness:
  "\<exists>d p s' ty m. (7 :: 64 word, (d, p, s', ty, m)) \<in> set [(7, (5, 1, 30, EXACT, Move 12 28 0 PT_NONE))] \<and> 3 \<le> to_int8 d \<and>
    30 = score_from_tt (score_to_tt s' p) 2 \<and>
    (ty = EXACT \<or> ty = LOWER_BOUND \<and> 10 \<le> (30::int) \<or> ty = UPPER_BOUND \<and> (30::int) \<le> 0)"
  by (rule tt_probe_sound [of _ "524288" "1"]) code_simp

definition demo_table :: ttable where
  "demo_table = \<lparr>entries = replicate 4 empty_entry, index_mask = 3, tt_age = 0\<rparr>"

text \<open>
  What is stored can be read back: if the replacement policy takes an exact result (its slot is
  empty, stale, shallower, or holds the same position), a probe for the same position at the same
  ply and depth returns exactly the stored score, mate scores included, whatever the window.
\<close>

lemma tt_store_probe:
  assumes "tt_ok t" and "entries t \<noteq> []" and "replaces t (entries t ! tt_index t key) key depth EXACT"
    and "0 \<le> ply" and "-128 \<le> depth" and "depth < 128"
  shows "fst (probe (store t key depth ply score EXACT m) key depth ply alpha beta) = Some score"
  using assms tt_index_bound [OF assms(1,2), of key]
  by (simp add: probe_def store_def Let_def score_round_trip)

end
