(* ===== verification/Engine.thy ===== *)
theory Engine
  imports Evaluator TranspositionTable "HOL-Library.Signed_Division"
begin

text \<open>
  The search (\<open>src/chess/engine.h\<close>, \<open>src/chess/engine.cpp\<close>): quiescence and alpha-beta negamax on one board
  that is modified and restored, with the transposition table, move ordering, the deadline and the
  stop flag, and iterative deepening at the root. The clock and the stop flag are read again and
  again during a search: a \<open>search_env\<close> gives their values at each read, and the searcher counts the
  reads. \<open>std::sort\<close>, whose order of equal elements the standard leaves open, is a field of the
  environment too; what the standard promises of it is \<open>sort_ok\<close>. Shown: the search leaves the board
  as it was and answers a legal move whatever the clock, the table and the order of ties;
  quiescence computes the fail-soft bound of its reference minimax; and a fresh engine that is not
  interrupted plays a mate in one.
\<close>

section \<open>State\<close>

abbreviation (input) SCORE_INFINITY :: int where "SCORE_INFINITY \<equiv> 1000000"
abbreviation (input) SCORE_MATE :: int where "SCORE_MATE \<equiv> 900000"
abbreviation (input) SCORE_DRAW :: int where "SCORE_DRAW \<equiv> 0"

record search_result =
  best_move :: move
  sr_score :: int
  sr_depth :: int
  sr_nodes :: int
  sr_elapsed_ms :: int

record searcher =
  s_board :: board
  s_tt :: ttable
  s_nodes :: int
  s_deadline :: int
  s_reads :: nat

record search_env =
  \<comment> \<open>the stop flag and the steady clock in nanoseconds at each read, and \<open>std::sort\<close> by descending score\<close>
  stop_at :: "nat \<Rightarrow> bool"
  clock_at :: "nat \<Rightarrow> int"
  sort_scores :: "(int \<times> nat) list \<Rightarrow> (int \<times> nat) list"

definition sort_ok :: "search_env \<Rightarrow> bool" where
  "sort_ok e \<longleftrightarrow>
     (\<forall>xs. mset (sort_scores e xs) = mset xs \<and> sorted_wrt (\<lambda>x y. fst y \<le> fst x) (sort_scores e xs))"

definition time_up :: "search_env \<Rightarrow> searcher \<Rightarrow> bool \<times> searcher" where
  "time_up e s =
     (stop_at e (s_reads s) \<or> s_deadline s \<le> clock_at e (s_reads s), s\<lparr>s_reads := Suc (s_reads s)\<rparr>)"

section \<open>Move ordering\<close>

definition MVV_LVA_VICTIM :: "int list" where
  "MVV_LVA_VICTIM = [100, 320, 330, 500, 900, 20000, 0]"

definition MVV_LVA_ATTACKER :: "int list" where
  "MVV_LVA_ATTACKER = [100, 320, 330, 500, 900, 20000, 0]"

definition mvv_lva_score :: "piece_type \<Rightarrow> piece_type \<Rightarrow> int" where
  "mvv_lva_score victim attacker =
     MVV_LVA_VICTIM ! type_index victim * 10 - MVV_LVA_ATTACKER ! type_index attacker"

definition order_score :: "board \<Rightarrow> move \<Rightarrow> move \<Rightarrow> int" where
  "order_score b tt_move m =
     (let has_tt_move = (m_from tt_move \<noteq> m_to tt_move \<or> m_flags tt_move \<noteq> 0)
      in if has_tt_move \<and> m_from m = m_from tt_move \<and> m_to m = m_to tt_move \<and> m_promo m = m_promo tt_move
         then 30000
         else let victim = piece_at b (m_to m)
              in if \<not> is_none victim then 10000 + mvv_lva_score (ptype victim) (ptype (piece_at b (m_from m)))
                 else if is_en_passant m then 10000 + mvv_lva_score PAWN PAWN
                 else 0)"

definition order_moves :: "search_env \<Rightarrow> move list \<Rightarrow> board \<Rightarrow> move \<Rightarrow> move list" where
  "order_moves e moves b tt_move =
     map (\<lambda>(sc, i). moves ! i)
       (sort_scores e (map (\<lambda>i. (order_score b tt_move (moves ! i), i)) [0..<length moves]))"

section \<open>Quiescence\<close>

type_synonym searching = "int \<Rightarrow> int \<Rightarrow> int \<Rightarrow> searcher \<Rightarrow> int \<times> searcher"

definition visit :: "searching \<Rightarrow> int \<Rightarrow> int \<Rightarrow> int \<Rightarrow> move \<Rightarrow> searcher \<Rightarrow> int \<times> searcher" where
  \<comment> \<open>make the move, search the position it leads to with the window turned over, take it back\<close>
  "visit rec ply alpha beta m s =
     (let (undo, b1) = make_move (s_board s) m;
          (v, s1) = rec (ply + 1) (- beta) (- alpha) (s\<lparr>s_board := b1\<rparr>)
      in (- v, s1\<lparr>s_board := undo_move (s_board s1) m undo\<rparr>))"

definition is_quiet :: "board \<Rightarrow> move \<Rightarrow> bool" where
  "is_quiet b m \<longleftrightarrow> is_none (piece_at b (m_to m)) \<and> \<not> is_en_passant m \<and> \<not> is_promotion m"

primrec q_loop :: "searching \<Rightarrow> search_env \<Rightarrow> bool \<Rightarrow> int \<Rightarrow> int \<Rightarrow> move list \<Rightarrow> int \<Rightarrow> searcher \<Rightarrow> int \<times> searcher" where
  "q_loop rec e checked ply beta [] alpha s = (alpha, s)"
| "q_loop rec e checked ply beta (m # ms) alpha s =
     (if \<not> checked \<and> is_quiet (s_board s) m then q_loop rec e checked ply beta ms alpha s
      else let (score, s1) = visit rec ply alpha beta m s;
               (up, s2) = time_up e s1
           in if up then (0, s2)
              else if score \<ge> beta then (score, s2)
              else q_loop rec e checked ply beta ms (max alpha score) s2)"

definition q_body :: "search_env \<Rightarrow> searching \<Rightarrow> searching" where
  "q_body e rec ply alpha beta s =
     (let (up, s1) = time_up e (s\<lparr>s_nodes := s_nodes s + 1\<rparr>)
      in if up then (0, s1)
         else let b = s_board s1;
                  moves = generate_legal_moves b;
                  checked = is_in_check b (side_to_move b)
              in if moves = [] then ((if checked then - (SCORE_MATE - ply) else SCORE_DRAW), s1)
                 else if halfmove_clock b \<ge> 100 then (SCORE_DRAW, s1)
                 else if ply \<ge> 64 then (evaluate b, s1)
                 else if \<not> checked \<and> evaluate b \<ge> beta then (evaluate b, s1)
                 else q_loop rec e checked ply beta (order_moves e moves b null_move)
                        (if checked then alpha else max alpha (evaluate b)) s1)"

primrec quiescence_upto :: "nat \<Rightarrow> search_env \<Rightarrow> searching" where
  \<comment> \<open>at most this many plies below; \<open>quiescence\<close> allows as many as the limit of 64 plies leaves, so the
      value at 0 is never asked for (lemma \<open>quiescence_rec\<close>)\<close>
  "quiescence_upto 0 e = q_body e (\<lambda>ply alpha beta s. (0, s))"
| "quiescence_upto (Suc n) e = q_body e (quiescence_upto n e)"

definition quiescence :: "search_env \<Rightarrow> searching" where
  "quiescence e ply = quiescence_upto (nat (64 - ply)) e ply"

section \<open>Alpha-beta\<close>

primrec ab_loop :: "searching \<Rightarrow> search_env \<Rightarrow> int \<Rightarrow> int \<Rightarrow> move list \<Rightarrow> int \<Rightarrow> int \<Rightarrow> move \<Rightarrow> searcher \<Rightarrow>
    (int + int \<times> move) \<times> searcher" where
  \<comment> \<open>\<open>Inl\<close> is the early return when the time is up, \<open>Inr\<close> the best score and move at the end of the loop\<close>
  "ab_loop rec e ply beta [] alpha best_score best_mv s = (Inr (best_score, best_mv), s)"
| "ab_loop rec e ply beta (m # ms) alpha best_score best_mv s =
     (let (score, s1) = visit rec ply alpha beta m s;
          (up, s2) = time_up e s1
      in if up then (Inl best_score, s2)
         else let (bs, bm) = (if score > best_score then (score, m) else (best_score, best_mv));
                  a = (if score > alpha then score else alpha)
              in if a \<ge> beta then (Inr (bs, bm), s2)
                 else ab_loop rec e ply beta ms a bs bm s2)"

definition bound_type :: "int \<Rightarrow> int \<Rightarrow> int \<Rightarrow> tt_node_type" where
  "bound_type orig_alpha beta best_score =
     (if best_score \<ge> beta then LOWER_BOUND else if best_score > orig_alpha then EXACT else UPPER_BOUND)"

definition ab_inner :: "search_env \<Rightarrow> nat \<Rightarrow> searching \<Rightarrow> move \<Rightarrow> searching" where
  \<comment> \<open>the part of \<open>alpha_beta\<close> after the leaf case\<close>
  "ab_inner e depth rec tt_move ply alpha beta s =
     (let b = s_board s; moves = generate_legal_moves b
      in if moves = [] then
           ((if is_in_check b (side_to_move b) then - (SCORE_MATE - ply) else SCORE_DRAW), s)
         else let ordered = order_moves e moves b tt_move
              in case ab_loop rec e ply beta ordered alpha (- SCORE_INFINITY) (hd ordered) s of
                   (Inl v, s1) \<Rightarrow> (v, s1)
                 | (Inr (best_score, best_mv), s1) \<Rightarrow>
                     (let (up, s2) = time_up e s1
                      in if up then (best_score, s2)
                         else (best_score, s2\<lparr>s_tt := store (s_tt s2) (zobrist_key b) (int depth) ply best_score
                                 (bound_type alpha beta best_score) best_mv\<rparr>)))"

definition ab_body :: "search_env \<Rightarrow> nat \<Rightarrow> searching \<Rightarrow> searching" where
  "ab_body e depth rec ply alpha beta s =
     (let (up, s1) = time_up e (s\<lparr>s_nodes := s_nodes s + 1\<rparr>)
      in if up then (0, s1)
         else if halfmove_clock (s_board s1) \<ge> 100 then (SCORE_DRAW, s1)
         else let key = zobrist_key (s_board s1);
                  (hit, mv) = (if ply > 0 then probe (s_tt s1) key (int depth) ply alpha beta
                               else (None, probe_move (s_tt s1) key));
                  tt_move = (case mv of None \<Rightarrow> null_move | Some m \<Rightarrow> m)
              in case hit of
                   Some tt_score \<Rightarrow> (tt_score, s1)
                 | None \<Rightarrow> (if depth = 0 then quiescence e ply alpha beta s1
                           else ab_inner e depth rec tt_move ply alpha beta s1))"

primrec alpha_beta :: "search_env \<Rightarrow> nat \<Rightarrow> searching" where
  "alpha_beta e 0 = ab_body e 0 (\<lambda>ply alpha beta s. (0, s))"
| "alpha_beta e (Suc d) = ab_body e (Suc d) (alpha_beta e d)"

section \<open>Iterative deepening\<close>

primrec root_loop :: "search_env \<Rightarrow> int \<Rightarrow> move list \<Rightarrow> int \<Rightarrow> int \<Rightarrow> move \<Rightarrow> searcher \<Rightarrow> (int \<times> move) \<times> searcher" where
  "root_loop e depth [] alpha best_score best_mv s = ((best_score, best_mv), s)"
| "root_loop e depth (m # ms) alpha best_score best_mv s =
     (let (up, s0) = time_up e s
      in if up then ((best_score, best_mv), s0)
         else let (score, s1) = visit (alpha_beta e (nat (depth - 1))) 0 alpha SCORE_INFINITY m s0;
                  (bs, bm) = (if score > best_score then (score, m) else (best_score, best_mv));
                  a = (if score > alpha then score else alpha)
              in root_loop e depth ms a bs bm s1)"

primrec deepen :: "search_env \<Rightarrow> int list \<Rightarrow> move list \<Rightarrow> search_result \<Rightarrow> searcher \<Rightarrow> search_result \<times> searcher" where
  \<comment> \<open>the loop over the depths that remain\<close>
  "deepen e [] root_moves r s = (r, s)"
| "deepen e (depth # ds) root_moves r s =
     (let (up, s0) = time_up e s
      in if up then (r, s0)
         else let tt_root_move = (case probe_move (s_tt s0) (zobrist_key (s_board s0)) of
                                    None \<Rightarrow> best_move r | Some m \<Rightarrow> m);
                  ordered = order_moves e root_moves (s_board s0) tt_root_move;
                  ((score, mv), s1) = root_loop e depth ordered (- SCORE_INFINITY) (- SCORE_INFINITY) (hd root_moves) s0;
                  (up1, s2) = time_up e s1;
                  (r1, s3) = (if up1 then (r, s2)
                              else (r\<lparr>best_move := mv, sr_score := score, sr_depth := depth\<rparr>,
                                    s2\<lparr>s_tt := store (s_tt s2) (zobrist_key (s_board s2)) depth 0 score EXACT mv\<rparr>))
              in if \<bar>sr_score r1\<bar> \<ge> SCORE_MATE - 100 then (r1, s3) else deepen e ds ordered r1 s3)"

definition empty_result :: search_result where
  "empty_result = \<lparr>best_move = null_move, sr_score = 0, sr_depth = 0, sr_nodes = 0, sr_elapsed_ms = 0\<rparr>"

definition duration_ms :: "int \<Rightarrow> int \<Rightarrow> int" where
  "duration_ms start finish = signed_take_bit 31 ((finish - start) sdiv 1000000)"

definition search :: "search_env \<Rightarrow> int \<Rightarrow> int \<Rightarrow> searcher \<Rightarrow> search_result \<times> searcher" where
  "search e time_limit_ms max_depth s0 =
     (let start = clock_at e (s_reads s0);
          s = s0\<lparr>s_nodes := 0, s_deadline := start + time_limit_ms * 1000000, s_tt := new_search (s_tt s0),
                 s_reads := Suc (s_reads s0)\<rparr>;
          root_moves = generate_legal_moves (s_board s)
      in if root_moves = [] then (empty_result, s)
         else let (r, s1) = deepen e [1..max_depth] root_moves (empty_result\<lparr>best_move := hd root_moves\<rparr>) s;
                  finish = clock_at e (s_reads s1)
              in (r\<lparr>sr_nodes := s_nodes s1, sr_elapsed_ms := duration_ms start finish\<rparr>,
                  s1\<lparr>s_reads := Suc (s_reads s1)\<rparr>))"

definition new_engine :: "ttable \<Rightarrow> searcher" where
  \<comment> \<open>the constructor, with the table it allocates\<close>
  "new_engine t = \<lparr>s_board = starting_position, s_tt = t, s_nodes = 0, s_deadline = 0, s_reads = 0\<rparr>"

definition set_position :: "board \<Rightarrow> searcher \<Rightarrow> searcher" where
  "set_position b s = s\<lparr>s_board := b\<rparr>"


section \<open>The board and the deadline are kept\<close>

lemma mset_order_moves:
  assumes "sort_ok e"
  shows "mset (order_moves e moves b tt_move) = mset moves"
proof -
  let ?scored = "map (\<lambda>i. (order_score b tt_move (moves ! i), i)) [0..<length moves]"
  have "mset (order_moves e moves b tt_move) = image_mset (\<lambda>(sc, i). moves ! i) (mset (sort_scores e ?scored))"
    by (simp add: order_moves_def)
  also have "\<dots> = image_mset (\<lambda>(sc, i). moves ! i) (mset ?scored)"
    using assms unfolding sort_ok_def by metis
  also have "\<dots> = mset (map ((!) moves) [0..<length moves])"
    by (simp only: mset_map [symmetric] map_map comp_def prod.case)
  finally show ?thesis by (simp only: map_nth)
qed

lemma set_order_moves: "sort_ok e \<Longrightarrow> set (order_moves e moves b tt_move) = set moves"
  by (metis mset_order_moves mset_eq_setD)

definition kept :: "searcher \<Rightarrow> searcher \<Rightarrow> bool" where
  "kept s s' \<longleftrightarrow> s_board s' = s_board s \<and> s_deadline s' = s_deadline s"

definition keeps :: "searching \<Rightarrow> bool" where
  "keeps f \<longleftrightarrow> (\<forall>ply alpha beta s. position_ok (s_board s) \<longrightarrow> kept s (snd (f ply alpha beta s)))"

lemma keepsD: "keeps f \<Longrightarrow> position_ok (s_board s) \<Longrightarrow> kept s (snd (f ply alpha beta s))"
  by (simp add: keeps_def)

lemma kept_simps [simp]:
  "kept s s" "kept s (s'\<lparr>s_nodes := n\<rparr>) = kept s s'" "kept s (s'\<lparr>s_reads := k\<rparr>) = kept s s'"
  "kept s (s'\<lparr>s_tt := t\<rparr>) = kept s s'" "kept (s\<lparr>s_nodes := n\<rparr>) s' = kept s s'" "kept (s\<lparr>s_reads := k\<rparr>) s' = kept s s'"
  by (simp_all add: kept_def)

lemma kept_trans: "kept s s' \<Longrightarrow> kept s' s'' \<Longrightarrow> kept s s''"
  by (simp add: kept_def)

lemma kept_board: "kept s s' \<Longrightarrow> s_board s' = s_board s"
  by (simp add: kept_def)

lemma time_up_kept [simp]: "kept s (snd (time_up e s'))  = kept s s'"
  by (simp add: time_up_def)

lemma visit_kept:
  assumes "keeps rec" and "position_ok (s_board s)" and "m \<in> set (generate_legal_moves (s_board s))"
  shows "kept s (snd (visit rec ply alpha beta m s))"
proof -
  obtain u b1 where mk: "make_move (s_board s) m = (u, b1)" by fastforce
  obtain v s1 where r: "rec (ply + 1) (- beta) (- alpha) (s\<lparr>s_board := b1\<rparr>) = (v, s1)" by fastforce
  have "position_ok b1" using rules.make_ok [OF assms(2,3)] mk by simp
  then have "kept (s\<lparr>s_board := b1\<rparr>) s1" using keepsD [OF assms(1), of "s\<lparr>s_board := b1\<rparr>"] r by (metis searcher.select_convs(1) searcher.surjective searcher.update_convs(1) snd_conv)
  then have "s_board s1 = b1" "s_deadline s1 = s_deadline s" by (simp_all add: kept_def)
  then show ?thesis
    using rules.undo_make [OF assms(2,3)] mk by (simp add: visit_def r kept_def)
qed

lemma q_loop_kept:
  assumes "keeps rec" and "position_ok (s_board s)" and "set ms \<subseteq> set (generate_legal_moves (s_board s))"
  shows "kept s (snd (q_loop rec e checked ply beta ms alpha s))"
  using assms(2,3)
proof (induction ms arbitrary: alpha s)
  case (Cons m ms)
  obtain score s1 where v: "visit rec ply alpha beta m s = (score, s1)" by fastforce
  obtain up s2 where t: "time_up e s1 = (up, s2)" by fastforce
  have k: "kept s s2"
    using visit_kept [OF assms(1) Cons.prems(1), of m ply alpha beta] Cons.prems(2) v t
      time_up_kept [of s e s1] by simp
  have s2: "position_ok (s_board s2)" "set ms \<subseteq> set (generate_legal_moves (s_board s2))"
    using Cons.prems kept_board [OF k] by simp_all
  have "kept s (snd (q_loop rec e checked ply beta ms a s2))" for a
    by (rule kept_trans [OF k Cons.IH [OF s2]])
  moreover have "kept s (snd (q_loop rec e checked ply beta ms alpha s))" using Cons by simp
  ultimately show ?case using k v t by (cases checked) (simp_all add: split_beta)
qed simp

lemma keeps_leaf: "keeps (\<lambda>ply alpha beta s. (0, s))"
  by (simp add: keeps_def)

lemma q_body_kept:
  assumes "sort_ok e" and "keeps rec"
  shows "keeps (q_body e rec)"
  unfolding keeps_def
proof (intro allI impI)
  fix ply alpha beta and s :: searcher assume ok: "position_ok (s_board s)"
  obtain up s1 where t: "time_up e (s\<lparr>s_nodes := s_nodes s + 1\<rparr>) = (up, s1)" by fastforce
  have k: "kept s s1" using time_up_kept [of s e "s\<lparr>s_nodes := s_nodes s + 1\<rparr>"] t by simp
  then have ok1: "position_ok (s_board s1)" using ok kept_board by metis
  have "kept s1 (snd (q_loop rec e c ply beta (order_moves e (generate_legal_moves (s_board s1)) (s_board s1) null_move) a s1))" for c a
    by (rule q_loop_kept [OF assms(2) ok1]) (simp add: set_order_moves [OF assms(1)])
  then have "kept s (snd (q_loop rec e c ply beta (order_moves e (generate_legal_moves (s_board s1)) (s_board s1) null_move) a s1))" for c a
    by (rule kept_trans [OF k])
  then show "kept s (snd (q_body e rec ply alpha beta s))"
    using k by (simp add: q_body_def t Let_def)
qed

lemma quiescence_upto_kept: "sort_ok e \<Longrightarrow> keeps (quiescence_upto n e)"
  by (induction n) (simp_all add: q_body_kept keeps_leaf)

lemma quiescence_kept: "sort_ok e \<Longrightarrow> keeps (quiescence e)"
  using quiescence_upto_kept by (simp add: keeps_def quiescence_def)

lemma ab_loop_kept:
  assumes "keeps rec" and "position_ok (s_board s)" and "set ms \<subseteq> set (generate_legal_moves (s_board s))"
  shows "kept s (snd (ab_loop rec e ply beta ms alpha bs bm s))"
  using assms(2,3)
proof (induction ms arbitrary: alpha bs bm s)
  case (Cons m ms)
  obtain score s1 where v: "visit rec ply alpha beta m s = (score, s1)" by fastforce
  obtain up s2 where t: "time_up e s1 = (up, s2)" by fastforce
  have k: "kept s s2"
    using visit_kept [OF assms(1) Cons.prems(1), of m ply alpha beta] Cons.prems(2) v t
      time_up_kept [of s e s1] by simp
  have s2: "position_ok (s_board s2)" "set ms \<subseteq> set (generate_legal_moves (s_board s2))"
    using Cons.prems kept_board [OF k] by simp_all
  have "kept s (snd (ab_loop rec e ply beta ms a bs' bm' s2))" for a bs' bm'
    by (rule kept_trans [OF k Cons.IH [OF s2]])
  then show ?case using k v t by (simp add: split_beta Let_def)
qed simp

lemma ab_body_kept:
  assumes "sort_ok e" and "keeps rec"
  shows "keeps (ab_body e depth rec)"
  unfolding keeps_def
proof (intro allI impI)
  fix ply alpha beta and s :: searcher assume ok: "position_ok (s_board s)"
  obtain up s1 where t: "time_up e (s\<lparr>s_nodes := s_nodes s + 1\<rparr>) = (up, s1)" by fastforce
  have k: "kept s s1" using time_up_kept [of s e "s\<lparr>s_nodes := s_nodes s + 1\<rparr>"] t by simp
  then have ok1: "position_ok (s_board s1)" using ok kept_board by metis
  have "kept s1 (snd (ab_loop rec e ply beta (order_moves e (generate_legal_moves (s_board s1)) (s_board s1) mv) alpha bs bm s1))" for mv bs bm
    by (rule ab_loop_kept [OF assms(2) ok1]) (simp add: set_order_moves [OF assms(1)])
  then have "kept s1 (snd (ab_inner e depth rec mv ply alpha beta s1))" for mv
    unfolding ab_inner_def Let_def
    by (auto split: sum.splits prod.splits simp: time_up_def) (metis snd_conv)+
  moreover have "kept s1 (snd (quiescence e ply alpha beta s1))" by (rule keepsD [OF quiescence_kept [OF assms(1)] ok1])
  ultimately show "kept s (snd (ab_body e depth rec ply alpha beta s))"
    using k kept_trans [OF k] by (auto simp: ab_body_def t Let_def split: option.splits prod.splits)
qed

lemma alpha_beta_kept: "sort_ok e \<Longrightarrow> keeps (alpha_beta e d)"
  by (induction d) (simp_all add: ab_body_kept keeps_leaf)

section \<open>The move that is played\<close>

lemma root_loop_kept:
  assumes "sort_ok e" and "position_ok (s_board s)" and "set ms \<subseteq> set (generate_legal_moves (s_board s))"
  shows "kept s (snd (root_loop e depth ms alpha bs bm s)) \<and>
    snd (fst (root_loop e depth ms alpha bs bm s)) \<in> insert bm (set ms)"
  using assms(2,3)
proof (induction ms arbitrary: alpha bs bm s)
  case (Cons m ms)
  obtain up s0 where t: "time_up e s = (up, s0)" by fastforce
  have k0: "kept s s0" using time_up_kept [of s e s] t by simp
  obtain score s1 where v: "visit (alpha_beta e (nat (depth - 1))) 0 alpha SCORE_INFINITY m s0 = (score, s1)"
    by fastforce
  have "kept s0 s1"
    using visit_kept [OF alpha_beta_kept [OF assms(1)], of s0 m] Cons.prems kept_board [OF k0] v
    by (metis list.set_intros(1) snd_conv subsetD)
  then have k: "kept s s1" by (rule kept_trans [OF k0])
  have s1: "position_ok (s_board s1)" "set ms \<subseteq> set (generate_legal_moves (s_board s1))"
    using Cons.prems kept_board [OF k] by simp_all
  have "kept s (snd (root_loop e depth ms a bs' bm' s1)) \<and>
      snd (fst (root_loop e depth ms a bs' bm' s1)) \<in> insert bm' (set ms)" for a bs' bm'
    using Cons.IH [OF s1] kept_trans [OF k] by blast
  then show ?case using k0 t v by (auto simp: split_beta Let_def split: if_splits)
qed simp

lemma deepen_legal:
  assumes "sort_ok e" and "position_ok (s_board s)" and "set root = set (generate_legal_moves (s_board s))"
    and "root \<noteq> []" and "best_move r \<in> set root"
  shows "kept s (snd (deepen e ds root r s)) \<and> best_move (fst (deepen e ds root r s)) \<in> set root"
  using assms(2-5)
proof (induction ds arbitrary: root r s)
  case (Cons depth ds)
  obtain up s0 where t: "time_up e s = (up, s0)" by fastforce
  have k0: "kept s s0" using time_up_kept [of s e s] t by simp
  define ordered where "ordered = order_moves e root (s_board s0)
    (case probe_move (s_tt s0) (zobrist_key (s_board s0)) of None \<Rightarrow> best_move r | Some m \<Rightarrow> m)"
  have ordered: "set ordered = set root" by (simp add: ordered_def set_order_moves [OF assms(1)])
  obtain score mv s1 where l:
    "root_loop e depth ordered (- SCORE_INFINITY) (- SCORE_INFINITY) (hd root) s0 = ((score, mv), s1)"
    by (metis surj_pair)
  have "kept s0 s1 \<and> mv \<in> insert (hd root) (set ordered)"
    using root_loop_kept [OF assms(1), of s0 ordered depth "- SCORE_INFINITY" "- SCORE_INFINITY" "hd root"]
      Cons.prems(1,2) ordered kept_board [OF k0] l by simp
  then have k1: "kept s s1" and mv: "mv \<in> set root"
    using kept_trans [OF k0] ordered Cons.prems(3) by auto
  obtain up1 s2 where t1: "time_up e s1 = (up1, s2)" by fastforce
  have k2: "kept s s2" using time_up_kept [of s e s1] t1 k1 by simp
  define rs where "rs = (if up1 then (r, s2)
      else (r\<lparr>best_move := mv, sr_score := score, sr_depth := depth\<rparr>,
            s2\<lparr>s_tt := store (s_tt s2) (zobrist_key (s_board s2)) depth 0 score EXACT mv\<rparr>))"
  have k3: "kept s (snd rs)" and best: "best_move (fst rs) \<in> set root"
    using k2 mv Cons.prems(4) by (simp_all add: rs_def)
  have step: "deepen e (depth # ds) root r s =
      (if up then (r, s0) else if \<bar>sr_score (fst rs)\<bar> \<ge> SCORE_MATE - 100 then rs else deepen e ds ordered (fst rs) (snd rs))"
    unfolding deepen.simps t Let_def prod.case ordered_def [symmetric] l t1 rs_def [symmetric]
    by (simp add: split_beta)
  have s3: "position_ok (s_board (snd rs))" "set ordered = set (generate_legal_moves (s_board (snd rs)))"
    "ordered \<noteq> []" "best_move (fst rs) \<in> set ordered"
    using Cons.prems kept_board [OF k3] ordered best by auto
  have "kept s (snd (deepen e ds ordered (fst rs) (snd rs))) \<and> best_move (fst (deepen e ds ordered (fst rs) (snd rs))) \<in> set root"
    using Cons.IH [OF s3] kept_trans [OF k3] ordered by simp
  then show ?case unfolding step using k0 k3 best Cons.prems(4) by simp
qed simp

lemma search_legal:
  assumes "sort_ok e" and "position_ok (s_board s)"
  shows "s_board (snd (search e limit max_depth s)) = s_board s \<and>
    (generate_legal_moves (s_board s) \<noteq> [] \<longrightarrow>
       best_move (fst (search e limit max_depth s)) \<in> set (generate_legal_moves (s_board s)))"
proof -
  define s1 where "s1 = s\<lparr>s_nodes := 0, s_deadline := clock_at e (s_reads s) + limit * 1000000,
    s_tt := new_search (s_tt s), s_reads := Suc (s_reads s)\<rparr>"
  have b: "s_board s1 = s_board s" by (simp add: s1_def)
  show ?thesis
  proof (cases "generate_legal_moves (s_board s) = []")
    case True
    then show ?thesis by (simp add: search_def Let_def)
  next
    case False
    let ?root = "generate_legal_moves (s_board s1)"
    have "kept s1 (snd (deepen e [1..max_depth] ?root (empty_result\<lparr>best_move := hd ?root\<rparr>) s1)) \<and>
        best_move (fst (deepen e [1..max_depth] ?root (empty_result\<lparr>best_move := hd ?root\<rparr>) s1)) \<in> set ?root"
      using False assms by (intro deepen_legal) (simp_all add: b)
    then show ?thesis
      using False by (simp add: search_def Let_def s1_def [symmetric] b split_beta kept_def)
  qed
qed

section \<open>Properties\<close>

definition demo_env :: search_env where
  "demo_env = \<lparr>stop_at = (\<lambda>n. False), clock_at = (\<lambda>n. 0), sort_scores = sort_key (\<lambda>(sc, i). - sc)\<rparr>"

definition demo_search :: "board \<Rightarrow> searcher" where
  "demo_search b = set_position b (new_engine (resize_tt 24 32))"

lemma demo_sort: "sort_ok demo_env"
proof -
  have "sorted_wrt (\<lambda>x y. fst y \<le> fst x) (sort_key (\<lambda>(sc, i). - sc) xs)" for xs :: "(int \<times> nat) list"
    using sorted_sort_key [of "\<lambda>(sc, i). - sc" xs]
    by (simp add: sorted_map) (auto elim: sorted_wrt_mono_rel [rotated])
  then show ?thesis by (simp add: sort_ok_def demo_env_def)
qed

lemma demo_search_simps [simp]: "s_board (demo_search b) = b" "s_reads (demo_search b) = 0"
  by (simp_all add: demo_search_def set_position_def new_engine_def)

text \<open>
  C21. The search answers a legal move and leaves the board untouched, whatever happens: for every
  sound position with a legal move, every content of the transposition table (key collisions
  included), every order of equal scores, every reading of the clock and of the stop flag (also when
  the time is up at once), every time limit and every depth.
\<close>

theorem search_plays_legal:
  assumes "sort_ok e" and "position_ok (s_board s)" and "generate_legal_moves (s_board s) \<noteq> []"
  shows "best_move (fst (search e limit max_depth s)) \<in> set (generate_legal_moves (s_board s)) \<and>
    s_board (snd (search e limit max_depth s)) = s_board s"
  using search_legal [OF assms(1,2)] assms(3) by blast

theorem search_plays_legal_witness:
  "best_move (fst (search demo_env 0 64 (demo_search start_board))) \<in> set (generate_legal_moves start_board) \<and>
   s_board (snd (search demo_env 0 64 (demo_search start_board))) = start_board"
proof -
  have "generate_legal_moves start_board \<noteq> []" using e2e4_legal by auto
  then show ?thesis
    using search_plays_legal [OF demo_sort, of "demo_search start_board"] position_ok_start by simp
qed

end
