(* ===== verification/EngineExact.thy ===== *)
theory EngineExact
  imports Engine
begin

text \<open>
  What the search of \<open>src/chess/engine.cpp\<close> computes when it is not interrupted: quiescence against an
  unpruned reference minimax, the fail-soft relation between the two, the first iteration of the
  deepening loop with a fresh table, and the mate in one it finds.
\<close>

section \<open>The quiescence recursion\<close>

lemma visit_cong: "(\<And>alpha beta s. rec (ply + 1) alpha beta s = rec' (ply + 1) alpha beta s) \<Longrightarrow>
    visit rec ply alpha beta m s = visit rec' ply alpha beta m s"
  by (simp add: visit_def)

lemma q_loop_cong:
  assumes "\<And>alpha beta s. rec (ply + 1) alpha beta s = rec' (ply + 1) alpha beta s"
  shows "q_loop rec e checked ply beta ms alpha s = q_loop rec' e checked ply beta ms alpha s"
proof (induction ms arbitrary: alpha s)
  case (Cons m ms)
  then show ?case using visit_cong [of rec ply rec', OF assms] by (cases checked) (simp_all add: split_beta)
qed simp

lemma q_body_cong:
  assumes "ply < 64 \<Longrightarrow> (\<And>alpha beta s. rec (ply + 1) alpha beta s = rec' (ply + 1) alpha beta s)"
  shows "q_body e rec ply alpha beta s = q_body e rec' ply alpha beta s"
proof (cases "ply < 64")
  case True
  show ?thesis unfolding q_body_def Let_def by (simp only: q_loop_cong [of rec ply rec', OF assms [OF True]])
next
  case False
  then show ?thesis by (simp add: q_body_def Let_def split_beta)
qed

lemma quiescence_unfold: "quiescence e ply alpha beta s = q_body e (quiescence e) ply alpha beta s"
proof (cases "nat (64 - ply)")
  case 0
  then have "\<not> ply < 64" by simp
  then show ?thesis
    unfolding quiescence_def [of e ply] 0 quiescence_upto.simps by (intro q_body_cong) blast
next
  case (Suc n)
  then have "nat (64 - (ply + 1)) = n" by simp
  then show ?thesis
    unfolding quiescence_def [of e ply] Suc quiescence_upto.simps
    by (intro q_body_cong) (simp add: quiescence_def)
qed

section \<open>The reference minimax of quiescence\<close>

definition quiet_value_body :: "(int \<Rightarrow> board \<Rightarrow> int) \<Rightarrow> int \<Rightarrow> board \<Rightarrow> int" where
  "quiet_value_body rec ply b =
     (let moves = generate_legal_moves b; checked = is_in_check b (side_to_move b)
      in if moves = [] then (if checked then - (SCORE_MATE - ply) else SCORE_DRAW)
         else if halfmove_clock b \<ge> 100 then SCORE_DRAW
         else if ply \<ge> 64 then evaluate b
         else let replies = map (\<lambda>m. - rec (ply + 1) (snd (make_move b m)))
                              (filter (\<lambda>m. checked \<or> \<not> is_quiet b m) moves)
              in Max (set (if checked then replies else evaluate b # replies)))"

primrec quiet_value_upto :: "nat \<Rightarrow> int \<Rightarrow> board \<Rightarrow> int" where
  "quiet_value_upto 0 = quiet_value_body (\<lambda>ply b. 0)"
| "quiet_value_upto (Suc n) = quiet_value_body (quiet_value_upto n)"

definition quiet_value :: "int \<Rightarrow> board \<Rightarrow> int" where
  \<comment> \<open>plain negamax over captures, promotions and evasions, without a window, to 64 plies\<close>
  "quiet_value ply b = quiet_value_upto (nat (64 - ply)) ply b"

lemma quiet_value_body_cong:
  assumes "ply < 64 \<Longrightarrow> (\<And>b. rec (ply + 1) b = rec' (ply + 1) b)"
  shows "quiet_value_body rec ply b = quiet_value_body rec' ply b"
  using assms by (cases "ply < 64") (simp_all add: quiet_value_body_def Let_def)

lemma quiet_value_unfold: "quiet_value ply b = quiet_value_body quiet_value ply b"
proof (cases "nat (64 - ply)")
  case 0
  then have "\<not> ply < 64" by simp
  then show ?thesis
    unfolding quiet_value_def [of ply] 0 quiet_value_upto.simps by (intro quiet_value_body_cong) blast
next
  case (Suc n)
  then have "nat (64 - (ply + 1)) = n" by simp
  then show ?thesis
    unfolding quiet_value_def [of ply] Suc quiet_value_upto.simps
    by (intro quiet_value_body_cong) (simp add: quiet_value_def)
qed

section \<open>Fail-soft bounds\<close>

definition fail_soft :: "int \<Rightarrow> int \<Rightarrow> int \<Rightarrow> int \<Rightarrow> bool" where
  \<comment> \<open>what a search of the window from \<open>a\<close> to \<open>b\<close> may answer for the value \<open>v\<close>: the value itself inside
      the window, a lower bound of it above, an upper bound of it below\<close>
  "fail_soft a b v r \<longleftrightarrow> min v b \<le> r \<and> r \<le> max v a"

lemma fail_soft_exact: "a < b \<Longrightarrow> a < r \<Longrightarrow> r < b \<Longrightarrow> fail_soft a b v r \<Longrightarrow> r = v"
  by (auto simp: fail_soft_def min_def max_def split: if_splits)

lemma fail_soft_self [simp]: "fail_soft a b v v"
  by (simp add: fail_soft_def)

lemma fail_soft_negate: "fail_soft (- b) (- a) c v \<Longrightarrow> fail_soft a b (- c) (- v)"
  by (auto simp: fail_soft_def min_def max_def split: if_splits)

definition uninterrupted :: "search_env \<Rightarrow> int \<Rightarrow> bool" where
  \<comment> \<open>the search is never stopped and the deadline never reached\<close>
  "uninterrupted e deadline \<longleftrightarrow> (\<forall>n. \<not> stop_at e n \<and> clock_at e n < deadline)"

lemma time_up_never: "uninterrupted e (s_deadline s) \<Longrightarrow> time_up e s = (False, s\<lparr>s_reads := Suc (s_reads s)\<rparr>)"
  by (simp add: time_up_def uninterrupted_def not_le)

definition exact :: "search_env \<Rightarrow> (int \<Rightarrow> board \<Rightarrow> int) \<Rightarrow> searching \<Rightarrow> bool" where
  "exact e V f \<longleftrightarrow>
     (\<forall>ply a b s. position_ok (s_board s) \<longrightarrow> uninterrupted e (s_deadline s) \<longrightarrow> a < b \<longrightarrow>
        fail_soft a b (V ply (s_board s)) (fst (f ply a b s)))"

lemma exactD:
  "exact e V f \<Longrightarrow> position_ok (s_board s) \<Longrightarrow> uninterrupted e (s_deadline s) \<Longrightarrow> a < b \<Longrightarrow>
   fail_soft a b (V ply (s_board s)) (fst (f ply a b s))"
  by (simp add: exact_def)

abbreviation reply_value :: "(int \<Rightarrow> board \<Rightarrow> int) \<Rightarrow> int \<Rightarrow> board \<Rightarrow> move \<Rightarrow> int" where
  "reply_value V ply b m \<equiv> - V (ply + 1) (snd (make_move b m))"

lemma visit_exact:
  assumes "exact e V rec" and "position_ok (s_board s)" and "uninterrupted e (s_deadline s)" and "a < b"
    and "m \<in> set (generate_legal_moves (s_board s))"
  shows "fail_soft a b (reply_value V ply (s_board s) m) (fst (visit rec ply a b m s))"
proof -
  let ?b1 = "snd (make_move (s_board s) m)"
  have "position_ok ?b1" using rules.make_ok [OF assms(2,5)] .
  then have "fail_soft (- b) (- a) (V (ply + 1) ?b1) (fst (rec (ply + 1) (- b) (- a) (s\<lparr>s_board := ?b1\<rparr>)))"
    using exactD [OF assms(1), of "s\<lparr>s_board := ?b1\<rparr>" "- b" "- a" "ply + 1"] assms(3,4) by simp
  then show ?thesis using fail_soft_negate by (simp add: visit_def split_beta)
qed

lemma q_loop_exact:
  assumes "exact e V rec" and "keeps rec" and "position_ok (s_board s)" and "uninterrupted e (s_deadline s)"
    and "set ms \<subseteq> set (generate_legal_moves (s_board s))" and "a < b"
  shows "let M = Max (insert a (reply_value V ply (s_board s) ` {m \<in> set ms. checked \<or> \<not> is_quiet (s_board s) m}))
    in min M b \<le> fst (q_loop rec e checked ply b ms a s) \<and> fst (q_loop rec e checked ply b ms a s) \<le> M"
  using assms(3-6)
proof (induction ms arbitrary: a s)
  case (Cons m ms)
  let ?v = "reply_value V ply (s_board s)"
  let ?noisy = "\<lambda>ms. {m \<in> set ms. checked \<or> \<not> is_quiet (s_board s) m}"
  show ?case
  proof (cases "\<not> checked \<and> is_quiet (s_board s) m")
    case True
    then have "?noisy (m # ms) = ?noisy ms" by auto
    then show ?thesis using True Cons by simp
  next
    case False
    obtain score s1 where v: "visit rec ply a b m s = (score, s1)" by fastforce
    have m: "m \<in> set (generate_legal_moves (s_board s))" using Cons.prems(3) by simp
    have k: "kept s s1" using visit_kept [OF assms(2) Cons.prems(1) m, of ply a b] v by simp
    let ?s2 = "s1\<lparr>s_reads := Suc (s_reads s1)\<rparr>"
    have t: "time_up e s1 = (False, ?s2)" using Cons.prems(2) k by (simp add: time_up_never kept_def)
    have fs: "fail_soft a b (?v m) score" using visit_exact [OF assms(1) Cons.prems(1,2,4) m, of ply] v by simp
    have loop: "q_loop rec e checked ply b (m # ms) a s =
        (if score \<ge> b then (score, ?s2) else q_loop rec e checked ply b ms (max a score) ?s2)"
      using False v t by auto
    have noisy: "?noisy (m # ms) = insert m (?noisy ms)" using False by auto
    define R where "R = ?v ` ?noisy ms"
    have fin: "finite R" by (simp add: R_def)
    have M: "Max (insert a (?v ` ?noisy (m # ms))) = Max (insert (max a (?v m)) R)"
      unfolding noisy image_insert R_def [symmetric]
      by (cases "R = {}") (use fin in \<open>simp_all add: Max_insert ac_simps\<close>)
    have upper: "max a (?v m) \<le> Max (insert (max a (?v m)) R)"
      by (rule Max_ge) (simp_all add: fin)
    show ?thesis
    proof (cases "score \<ge> b")
      case True
      then show ?thesis
        using fs upper Cons.prems(4) unfolding loop M Let_def fail_soft_def
        by (auto simp: min_def max_def split: if_splits)
    next
      case less: False
      have same: "max a score = max a (?v m)"
        using fs less Cons.prems(4) by (auto simp: fail_soft_def min_def max_def split: if_splits)
      have b: "s_board ?s2 = s_board s" "s_deadline ?s2 = s_deadline s" using k by (simp_all add: kept_def)
      have "max a score < b" using less Cons.prems(4) by simp
      then show ?thesis
        using Cons.IH [of ?s2 "max a score"] Cons.prems(1-3) less unfolding loop M b same R_def Let_def by simp
    qed
  qed
qed simp

lemma q_body_exact:
  assumes "sort_ok e" and "exact e V rec" and "keeps rec"
  shows "exact e (quiet_value_body V) (q_body e rec)"
  unfolding exact_def
proof (intro allI impI)
  fix ply a b :: int and s :: searcher
  assume ok: "position_ok (s_board s)" and un: "uninterrupted e (s_deadline s)" and ab: "a < b"
  let ?b = "s_board s"
  define s1 where "s1 = s\<lparr>s_nodes := s_nodes s + 1, s_reads := Suc (s_reads s)\<rparr>"
  have s1: "s_board s1 = ?b" "s_deadline s1 = s_deadline s" by (simp_all add: s1_def)
  have t: "time_up e (s\<lparr>s_nodes := s_nodes s + 1\<rparr>) = (False, s1)" using un by (simp add: time_up_never s1_def)
  let ?moves = "generate_legal_moves ?b" and ?checked = "is_in_check ?b (side_to_move ?b)"
  let ?ms = "order_moves e ?moves ?b null_move"
  let ?noisy = "{m \<in> set ?moves. ?checked \<or> \<not> is_quiet ?b m}"
  define R where "R = reply_value V ply ?b ` ?noisy"
  have fin: "finite R" by (simp add: R_def)
  have replies: "set (map (\<lambda>m. reply_value V ply ?b m) (filter (\<lambda>m. ?checked \<or> \<not> is_quiet ?b m) ?moves)) = R"
    by (auto simp: R_def)
  have loop: "min (Max (insert a' R)) b \<le> fst (q_loop rec e ?checked ply b ?ms a' s1) \<and>
      fst (q_loop rec e ?checked ply b ?ms a' s1) \<le> Max (insert a' R)" if "a' < b" for a' :: int
    using q_loop_exact [OF assms(2,3), of s1 ?ms a' b ply ?checked] ok un that
    by (simp add: s1 set_order_moves [OF assms(1)] R_def Let_def)
  consider (over) "?moves = [] \<or> 100 \<le> halfmove_clock ?b \<or> 64 \<le> ply"
    | (stand) "?moves \<noteq> []" "halfmove_clock ?b < 100" "ply < 64" "\<not> ?checked" "b \<le> evaluate ?b"
    | (loop) "?moves \<noteq> []" "halfmove_clock ?b < 100" "ply < 64" "?checked \<or> evaluate ?b < b"
    by linarith
  then show "fail_soft a b (quiet_value_body V ply ?b) (fst (q_body e rec ply a b s))"
  proof cases
    case over
    then show ?thesis by (auto simp: q_body_def t s1 quiet_value_body_def Let_def)
  next
    case stand
    have "quiet_value_body V ply ?b = Max (insert (evaluate ?b) R)"
      using stand replies by (simp add: quiet_value_body_def Let_def)
    moreover have "evaluate ?b \<le> Max (insert (evaluate ?b) R)" by (rule Max_ge) (simp_all add: fin)
    ultimately show ?thesis using stand ab by (simp add: q_body_def t s1 fail_soft_def)
  next
    case loop': loop
    define a' where "a' = (if ?checked then a else max a (evaluate ?b))"
    have a': "a' < b" using loop'(4) ab by (auto simp: a'_def)
    have body: "fst (q_body e rec ply a b s) = fst (q_loop rec e ?checked ply b ?ms a' s1)"
      using loop' by (auto simp: q_body_def t s1 a'_def Let_def)
    have qv: "quiet_value_body V ply ?b = Max (if ?checked then R else insert (evaluate ?b) R)"
      using loop' by (cases ?checked) (simp_all add: quiet_value_body_def Let_def R_def)
    have "Max (insert a' R) = max (quiet_value_body V ply ?b) a"
    proof (cases ?checked)
      case True
      then have "R \<noteq> {}" using loop'(1) by (simp add: R_def)
      then show ?thesis unfolding qv a'_def using True fin by (simp add: max.commute)
    next
      case False
      then show ?thesis unfolding qv a'_def using fin by (cases "R = {}") (simp_all add: ac_simps)
    qed
    then show ?thesis
      using loop [OF a'] ab unfolding body fail_soft_def by (auto simp: min_def max_def split: if_splits)
  qed
qed

lemma quiescence_upto_exact: "sort_ok e \<Longrightarrow> exact e (quiet_value_upto n) (quiescence_upto n e)"
proof (induction n)
  case 0
  have "exact e (\<lambda>ply b. 0) (\<lambda>ply alpha beta s. (0, s))" by (simp add: exact_def)
  then show ?case using q_body_exact [OF 0 _ keeps_leaf] by simp
next
  case (Suc n)
  then show ?case by (simp add: q_body_exact quiescence_upto_kept)
qed

lemma quiescence_exact: "sort_ok e \<Longrightarrow> exact e quiet_value (quiescence e)"
  using quiescence_upto_exact unfolding exact_def quiescence_def quiet_value_def by blast

section \<open>Values stay inside the mate range\<close>

definition mated :: "board \<Rightarrow> bool" where
  "mated b \<longleftrightarrow> generate_legal_moves b = [] \<and> is_in_check b (side_to_move b)"

lemma quiet_value_bounds:
  assumes "position_ok b" and "ply \<le> 64"
  shows "quiet_value ply b < SCORE_MATE - ply \<and> - (SCORE_MATE - ply) \<le> quiet_value ply b \<and>
    (\<not> mated b \<longrightarrow> - (SCORE_MATE - ply) < quiet_value ply b)"
  using assms
proof (induction "nat (64 - ply)" arbitrary: ply b)
  case 0
  then have "ply = 64" by simp
  then show ?case
    using evaluate_bounds [of b] 0 by (auto simp: quiet_value_unfold [of 64] quiet_value_body_def mated_def Let_def)
next
  case (Suc n)
  then have ply: "ply < 64" "n = nat (64 - (ply + 1))" "ply + 1 \<le> 64" by simp_all
  consider (over) "generate_legal_moves b = [] \<or> 100 \<le> halfmove_clock b"
    | (play) "generate_legal_moves b \<noteq> []" "halfmove_clock b < 100" by linarith
  then show ?case
  proof cases
    case over
    then show ?thesis
      using ply by (auto simp: quiet_value_unfold [of ply] quiet_value_body_def mated_def Let_def)
  next
    case play
    let ?checked = "is_in_check b (side_to_move b)"
    let ?replies = "map (\<lambda>m. reply_value quiet_value ply b m) (filter (\<lambda>m. ?checked \<or> \<not> is_quiet b m) (generate_legal_moves b))"
    let ?S = "set (if ?checked then ?replies else evaluate b # ?replies)"
    have qv: "quiet_value ply b = Max ?S"
      using play ply by (simp add: quiet_value_unfold [of ply] quiet_value_body_def Let_def)
    have "?S \<noteq> {}" using play(1) by (cases ?checked) (simp_all add: filter_empty_conv)
    then have "quiet_value ply b \<in> ?S" unfolding qv by (intro Max_in) simp_all
    moreover have "- (SCORE_MATE - ply) < v \<and> v < SCORE_MATE - ply" if "v \<in> ?S" for v
    proof -
      consider "v = evaluate b" | m where "m \<in> set (generate_legal_moves b)" "v = reply_value quiet_value ply b m"
        using \<open>v \<in> ?S\<close> by (auto split: if_splits)
      then show ?thesis
      proof cases
        case 1
        then show ?thesis using evaluate_bounds [OF Suc.prems(1)] ply by auto
      next
        case 2
        have "position_ok (snd (make_move b m))" using rules.make_ok [OF Suc.prems(1) 2(1)] .
        then show ?thesis using Suc.hyps(1) [OF ply(2) _ ply(3)] 2(2) by fastforce
      qed
    qed
    ultimately show ?thesis by fastforce
  qed
qed

section \<open>A search of depth one\<close>

definition cold :: "ttable \<Rightarrow> bool" where
  "cold t \<longleftrightarrow> (\<forall>key. found_fact t key = None)"

lemma probe_cold: "cold t \<Longrightarrow> fst (probe t key depth ply a b) = None"
  by (metis cold_def option.distinct(1) option.exhaust probe_found)

definition keeps_table :: "searching \<Rightarrow> bool" where
  "keeps_table f \<longleftrightarrow> (\<forall>ply a b s. s_tt (snd (f ply a b s)) = s_tt s)"

lemma time_up_table [simp]: "s_tt (snd (time_up e s)) = s_tt s"
  by (simp add: time_up_def)

lemma visit_table: "keeps_table rec \<Longrightarrow> s_tt (snd (visit rec ply a b m s)) = s_tt s"
  by (simp add: visit_def keeps_table_def split_beta)

lemma q_loop_table: "keeps_table rec \<Longrightarrow> s_tt (snd (q_loop rec e checked ply b ms a s)) = s_tt s"
  by (induction ms arbitrary: a s) (simp, cases checked, simp_all add: split_beta visit_table)

lemma q_body_table: "keeps_table rec \<Longrightarrow> keeps_table (q_body e rec)"
  using time_up_table [of e] unfolding keeps_table_def
  by (simp add: q_body_def Let_def split_beta q_loop_table keeps_table_def)

lemma leaf_table: "keeps_table (\<lambda>ply alpha beta s. (0, s))"
  by (simp add: keeps_table_def)

lemma quiescence_table: "s_tt (snd (quiescence e ply a b s)) = s_tt s"
proof -
  have "keeps_table (quiescence_upto n e)" for n
    by (induction n) (simp_all add: q_body_table [OF leaf_table] q_body_table)
  then show ?thesis by (simp add: quiescence_def keeps_table_def)
qed

definition leaf_value :: "int \<Rightarrow> board \<Rightarrow> int" where
  "leaf_value ply b = (if halfmove_clock b \<ge> 100 then SCORE_DRAW else quiet_value ply b)"

lemma leaf_search:
  assumes "sort_ok e" and "position_ok (s_board s)" and "uninterrupted e (s_deadline s)" and "cold (s_tt s)"
    and "0 < ply" and "a < b"
  shows "fail_soft a b (leaf_value ply (s_board s)) (fst (alpha_beta e 0 ply a b s)) \<and>
    s_tt (snd (alpha_beta e 0 ply a b s)) = s_tt s"
proof -
  define s1 where "s1 = s\<lparr>s_nodes := s_nodes s + 1, s_reads := Suc (s_reads s)\<rparr>"
  have s1: "s_board s1 = s_board s" "s_deadline s1 = s_deadline s" "s_tt s1 = s_tt s" by (simp_all add: s1_def)
  have t: "time_up e (s\<lparr>s_nodes := s_nodes s + 1\<rparr>) = (False, s1)" using assms(3) by (simp add: time_up_never s1_def)
  have ab: "alpha_beta e 0 ply a b s =
      (if halfmove_clock (s_board s) \<ge> 100 then (SCORE_DRAW, s1) else quiescence e ply a b s1)"
    using assms(5) probe_cold [OF assms(4)] by (simp add: ab_body_def t Let_def s1 split_beta)
  have "fail_soft a b (quiet_value ply (s_board s1)) (fst (quiescence e ply a b s1))"
    using exactD [OF quiescence_exact [OF assms(1)]] assms(2,3,6) by (metis s1(1,2))
  then show ?thesis using quiescence_table [of e ply a b s1] by (auto simp: ab leaf_value_def s1 simp del: alpha_beta.simps)
qed

abbreviation root_value :: "board \<Rightarrow> move \<Rightarrow> int" where
  "root_value b m \<equiv> reply_value leaf_value 0 b m"

lemma root_value_bounds:
  assumes "position_ok b" and "m \<in> set (generate_legal_moves b)"
  shows "\<bar>root_value b m\<bar> < SCORE_MATE"
  using quiet_value_bounds [OF rules.make_ok [OF assms], of 1] by (auto simp: leaf_value_def)

lemma visit_table_leaf:
  "s_tt (snd (visit rec ply a b m s)) = s_tt (snd (rec (ply + 1) (- b) (- a) (s\<lparr>s_board := snd (make_move (s_board s) m)\<rparr>)))"
  by (simp add: visit_def split_beta)

lemma root_loop_exact:
  assumes "sort_ok e" and "position_ok (s_board s)" and "uninterrupted e (s_deadline s)" and "cold (s_tt s)"
    and "set ms \<subseteq> set (generate_legal_moves (s_board s))" and "a < SCORE_INFINITY"
  shows "fst (fst (root_loop e 1 ms a a bm s)) = Max (insert a (root_value (s_board s) ` set ms)) \<and>
    (fst (root_loop e 1 ms a a bm s) = (a, bm) \<or>
     (\<exists>m \<in> set ms. fst (root_loop e 1 ms a a bm s) = (root_value (s_board s) m, m)))"
  using assms(2-6)
proof (induction ms arbitrary: a bm s)
  case (Cons m ms)
  let ?s0 = "s\<lparr>s_reads := Suc (s_reads s)\<rparr>"
  have t: "time_up e s = (False, ?s0)" using Cons.prems(2) by (rule time_up_never)
  obtain score s1 where v: "visit (alpha_beta e 0) 0 a SCORE_INFINITY m ?s0 = (score, s1)" by fastforce
  let ?b = "s_board s"
  have m: "m \<in> set (generate_legal_moves ?b)" using Cons.prems(4) by simp
  let ?s' = "?s0\<lparr>s_board := snd (make_move ?b m)\<rparr>"
  have ok': "position_ok (s_board ?s')" using rules.make_ok [OF Cons.prems(1) m] by simp
  have leaf: "fail_soft (- SCORE_INFINITY) (- a) (leaf_value 1 (s_board ?s')) (fst (alpha_beta e 0 1 (- SCORE_INFINITY) (- a) ?s')) \<and>
      s_tt (snd (alpha_beta e 0 1 (- SCORE_INFINITY) (- a) ?s')) = s_tt s"
    using leaf_search [OF assms(1) ok', of 1 "- SCORE_INFINITY" "- a"] Cons.prems(2,3,5)
    by (simp del: alpha_beta.simps)
  have fs: "fail_soft a SCORE_INFINITY (root_value ?b m) score"
    using leaf fail_soft_negate [of SCORE_INFINITY a] v
    by (simp add: visit_def split_beta del: alpha_beta.simps) (metis fst_conv)
  have table: "s_tt s1 = s_tt s"
    using leaf visit_table_leaf [of "alpha_beta e 0" 0 a SCORE_INFINITY m ?s0] v by (simp del: alpha_beta.simps)
  have k: "kept s s1"
    using visit_kept [OF alpha_beta_kept [OF assms(1)], of ?s0 m 0 0 a SCORE_INFINITY] Cons.prems(1) m v
    by (simp del: alpha_beta.simps)
  have bound: "\<bar>root_value ?b m\<bar> < SCORE_MATE" by (rule root_value_bounds [OF Cons.prems(1) m])
  have new: "(if score > a then score else a) = max a (root_value ?b m)" "score > a \<Longrightarrow> score = root_value ?b m"
    using fs bound Cons.prems(5) by (auto simp: fail_soft_def min_def max_def split: if_splits)
  let ?a = "max a (root_value ?b m)" and ?m = "if score > a then m else bm"
  have loop: "root_loop e 1 (m # ms) a a bm s = root_loop e 1 ms ?a ?a ?m s1"
    using v t new(1) by (simp add: split_beta del: alpha_beta.simps) (auto simp: max_def)
  have s1: "position_ok (s_board s1)" "uninterrupted e (s_deadline s1)" "cold (s_tt s1)"
    "set ms \<subseteq> set (generate_legal_moves (s_board s1))" "?a < SCORE_INFINITY"
    using Cons.prems k table bound by (auto simp: kept_def)
  have b: "s_board s1 = ?b" by (rule kept_board [OF k])
  note IH = Cons.IH [OF s1, of ?m, unfolded b]
  have "Max (insert ?a (root_value ?b ` set ms)) = Max (insert a (root_value ?b ` set (m # ms)))"
    by (cases "ms = []") (simp_all add: ac_simps)
  moreover have "fst (root_loop e 1 (m # ms) a a bm s) = (a, bm) \<or>
      (\<exists>m' \<in> set (m # ms). fst (root_loop e 1 (m # ms) a a bm s) = (root_value ?b m', m'))"
    using IH new unfolding loop by (cases "score > a") (auto simp: max_def split: if_splits)
  ultimately show ?case using IH unfolding loop by simp
qed simp

lemma root_loop_best:
  assumes "sort_ok e" and "position_ok (s_board s)" and "uninterrupted e (s_deadline s)" and "cold (s_tt s)"
    and "set ms = set (generate_legal_moves (s_board s))" and "ms \<noteq> []"
  obtains m s1 where "root_loop e 1 ms (- SCORE_INFINITY) (- SCORE_INFINITY) bm s = ((root_value (s_board s) m, m), s1)"
    "m \<in> set ms" "\<forall>m' \<in> set ms. root_value (s_board s) m' \<le> root_value (s_board s) m" "kept s s1"
proof -
  let ?V = "root_value (s_board s)"
  obtain bs m s1 where l: "root_loop e 1 ms (- SCORE_INFINITY) (- SCORE_INFINITY) bm s = ((bs, m), s1)"
    by (metis surj_pair)
  have sub: "set ms \<subseteq> set (generate_legal_moves (s_board s))" using assms(5) by simp
  have "- SCORE_INFINITY < SCORE_INFINITY" by simp
  note ends = root_loop_exact [OF assms(1-4) sub this, of bm, unfolded l fst_conv]
  have ex: "bs = Max (insert (- SCORE_INFINITY) (?V ` set ms))"
    "(bs, m) = (- SCORE_INFINITY, bm) \<or> (\<exists>m' \<in> set ms. (bs, m) = (?V m', m'))"
    by (rule ends [THEN conjunct1], rule ends [THEN conjunct2])
  have le: "?V m' \<le> bs" if "m' \<in> set ms" for m' unfolding ex(1) using that by (intro Max_ge) simp_all
  have "?V (hd ms) > - SCORE_INFINITY"
    using root_value_bounds [OF assms(2), of "hd ms"] assms(5,6) hd_in_set [OF assms(6)] by simp
  then have "bs > - SCORE_INFINITY" using le [OF hd_in_set [OF assms(6)]] by simp
  then have best: "m \<in> set ms" "bs = ?V m" using ex(2) by auto
  have "kept s s1"
    using root_loop_kept [OF assms(1,2), of ms 1 "- SCORE_INFINITY" "- SCORE_INFINITY" bm] assms(5) l by simp
  then show thesis using that [of m s1] l best le by simp
qed

lemma first_depth:
  assumes "sort_ok e" and "position_ok (s_board s)" and "uninterrupted e (s_deadline s)" and "cold (s_tt s)"
    and "set root = set (generate_legal_moves (s_board s))" and "root \<noteq> []"
  obtains m s1 ordered where "m \<in> set root" "\<forall>m' \<in> set root. root_value (s_board s) m' \<le> root_value (s_board s) m"
    "deepen e (1 # ds) root r s =
       (let r1 = r\<lparr>best_move := m, sr_score := root_value (s_board s) m, sr_depth := 1\<rparr>
        in if \<bar>root_value (s_board s) m\<bar> \<ge> SCORE_MATE - 100 then (r1, s1) else deepen e ds ordered r1 s1)"
proof -
  let ?s0 = "s\<lparr>s_reads := Suc (s_reads s)\<rparr>"
  have t: "time_up e s = (False, ?s0)" using assms(3) by (rule time_up_never)
  define ordered where "ordered = order_moves e root (s_board s)
    (case probe_move (s_tt s) (zobrist_key (s_board s)) of None \<Rightarrow> best_move r | Some m \<Rightarrow> m)"
  have so: "set ordered = set root" by (simp add: ordered_def set_order_moves [OF assms(1)])
  obtain m s1 where l:
    "root_loop e 1 ordered (- SCORE_INFINITY) (- SCORE_INFINITY) (hd root) ?s0 = ((root_value (s_board s) m, m), s1)"
    and m: "m \<in> set root" "\<forall>m' \<in> set root. root_value (s_board s) m' \<le> root_value (s_board s) m" and k: "kept s s1"
    by (rule root_loop_best [OF assms(1), of ?s0 ordered "hd root"]) (use assms so in auto)
  let ?s2 = "s1\<lparr>s_reads := Suc (s_reads s1)\<rparr>"
  have t1: "time_up e s1 = (False, ?s2)" using assms(3) k by (simp add: time_up_never kept_def)
  let ?s3 = "?s2\<lparr>s_tt := store (s_tt ?s2) (zobrist_key (s_board ?s2)) 1 0 (root_value (s_board s) m) EXACT m\<rparr>"
  have "deepen e (1 # ds) root r s =
       (let r1 = r\<lparr>best_move := m, sr_score := root_value (s_board s) m, sr_depth := 1\<rparr>
        in if \<bar>root_value (s_board s) m\<bar> \<ge> SCORE_MATE - 100 then (r1, ?s3) else deepen e ds ordered r1 ?s3)"
    using t l t1 by (simp add: ordered_def [symmetric] Let_def)
  then show thesis by (rule that [OF m])
qed

lemma search_first_depth:
  assumes "sort_ok e" and "position_ok (s_board s)" and "cold (s_tt s)" and "generate_legal_moves (s_board s) \<noteq> []"
    and "uninterrupted e (clock_at e (s_reads s) + limit * 1000000)" and "1 \<le> max_depth"
    and "max_depth = 1 \<or> (\<forall>m' \<in> set (generate_legal_moves (s_board s)).
           (\<forall>m \<in> set (generate_legal_moves (s_board s)). root_value (s_board s) m \<le> root_value (s_board s) m') \<longrightarrow>
           SCORE_MATE - 100 \<le> root_value (s_board s) m')"
  obtains m where "m \<in> set (generate_legal_moves (s_board s))"
    "\<forall>m' \<in> set (generate_legal_moves (s_board s)). root_value (s_board s) m' \<le> root_value (s_board s) m"
    "best_move (fst (search e limit max_depth s)) = m" "sr_score (fst (search e limit max_depth s)) = root_value (s_board s) m"
    "sr_depth (fst (search e limit max_depth s)) = 1"
proof -
  define s1 where "s1 = s\<lparr>s_nodes := 0, s_deadline := clock_at e (s_reads s) + limit * 1000000,
    s_tt := new_search (s_tt s), s_reads := Suc (s_reads s)\<rparr>"
  have s1: "s_board s1 = s_board s" "cold (s_tt s1)" "uninterrupted e (s_deadline s1)"
    using assms(3,5) by (simp_all add: s1_def cold_def)
  have depths: "[1..max_depth] = 1 # [2..max_depth]" using assms(6) by (simp add: upto_rec1)
  let ?root = "generate_legal_moves (s_board s1)"
  let ?r = "empty_result\<lparr>best_move := hd ?root\<rparr>"
  have ok1: "position_ok (s_board s1)" and ne1: "?root \<noteq> []" using assms(2,4) s1(1) by simp_all
  obtain m s2 ordered where m: "m \<in> set ?root" "\<forall>m' \<in> set ?root. root_value (s_board s1) m' \<le> root_value (s_board s1) m"
    and d: "deepen e (1 # [2..max_depth]) ?root ?r s1 =
       (let r1 = ?r\<lparr>best_move := m, sr_score := root_value (s_board s1) m, sr_depth := 1\<rparr>
        in if \<bar>root_value (s_board s1) m\<bar> \<ge> SCORE_MATE - 100 then (r1, s2) else deepen e [2..max_depth] ordered r1 s2)"
    by (rule first_depth [OF assms(1) ok1 s1(3,2) refl ne1, where ds = "[2..max_depth]" and r = ?r])
  have "fst (deepen e [1..max_depth] ?root ?r s1) =
      ?r\<lparr>best_move := m, sr_score := root_value (s_board s1) m, sr_depth := 1\<rparr>"
    unfolding depths d Let_def using assms(7) m s1(1) by auto
  then show thesis
    using that [of m] m assms(4) by (simp add: search_def Let_def s1_def [symmetric] s1(1) split_beta)
qed

section \<open>Properties\<close>

lemma demo_cold [simp]: "cold (s_tt (demo_search b))"
  using resize_ok by (simp add: demo_search_def set_position_def new_engine_def cold_def)

lemma demo_uninterrupted: "uninterrupted demo_env (clock_at demo_env k + 1000 * 1000000)"
  by (simp add: uninterrupted_def demo_env_def)

text \<open>
  Quiescence is total: the function of the model satisfies the recursion of the code at every
  ply, with no depth bound, because a call at ply 64 or beyond does not recurse.
\<close>

lemma quiescence_rec: "quiescence e ply alpha beta s = q_body e (quiescence e) ply alpha beta s"
  by (rule quiescence_unfold)

text \<open>
  C22. Pruned quiescence agrees with plain minimax: when the search is not interrupted, the answer
  for a window is the value of the unpruned negamax over captures, promotions and evasions inside
  the window, a lower bound of it above the window and an upper bound below.
\<close>

theorem quiescence_fail_soft:
  assumes "sort_ok e" and "position_ok (s_board s)" and "uninterrupted e (s_deadline s)" and "alpha < beta"
  shows "min (quiet_value ply (s_board s)) beta \<le> fst (quiescence e ply alpha beta s) \<and>
    fst (quiescence e ply alpha beta s) \<le> max (quiet_value ply (s_board s)) alpha"
  using exactD [OF quiescence_exact [OF assms(1)] assms(2-4)] by (simp add: fail_soft_def)

theorem quiescence_fail_soft_witness:
  "min (quiet_value 0 start_board) 50 \<le> fst (quiescence demo_env 0 (-50) 50 ((demo_search start_board)\<lparr>s_deadline := 5\<rparr>)) \<and>
   fst (quiescence demo_env 0 (-50) 50 ((demo_search start_board)\<lparr>s_deadline := 5\<rparr>)) \<le> max (quiet_value 0 start_board) (-50)"
  using quiescence_fail_soft [OF demo_sort, of "(demo_search start_board)\<lparr>s_deadline := 5\<rparr>" "-50" 50 0] position_ok_start
  by (simp add: uninterrupted_def demo_env_def)

text \<open>
  The first iteration is exact: a search of depth one with a fresh table that is not
  interrupted answers the maximum, over the legal moves, of the quiescence values of the positions
  they lead to, and a move that attains it.
\<close>

lemma search_depth_one:
  assumes "sort_ok e" and "position_ok (s_board s)" and "cold (s_tt s)" and "generate_legal_moves (s_board s) \<noteq> []"
    and "uninterrupted e (clock_at e (s_reads s) + limit * 1000000)"
  shows "let r = fst (search e limit 1 s); b = s_board s
    in sr_depth r = 1 \<and> best_move r \<in> set (generate_legal_moves b) \<and> sr_score r = root_value b (best_move r) \<and>
       sr_score r = Max (root_value b ` set (generate_legal_moves b))"
proof -
  let ?L = "generate_legal_moves (s_board s)"
  obtain m where m: "m \<in> set ?L" "\<forall>m' \<in> set ?L. root_value (s_board s) m' \<le> root_value (s_board s) m"
    "best_move (fst (search e limit 1 s)) = m" "sr_score (fst (search e limit 1 s)) = root_value (s_board s) m"
    "sr_depth (fst (search e limit 1 s)) = 1"
    by (rule search_first_depth [OF assms(1-5), of 1]) simp_all
  have "Max (root_value (s_board s) ` set ?L) = root_value (s_board s) m"
    using m(1,2) by (intro Max_eqI) auto
  then show ?thesis using m by (simp add: Let_def)
qed

text \<open>
  C20. The engine plays a mate in one: with a fresh table, enough time and any depth limit of at
  least one, if some legal move mates (and the fifty-move count does not end the game first), the
  answer is a legal move that mates, scored as mate in one, and the search stops at depth one.
\<close>

theorem search_mate_in_one:
  assumes "sort_ok e" and "position_ok (s_board s)" and "cold (s_tt s)"
    and "uninterrupted e (clock_at e (s_reads s) + limit * 1000000)" and "1 \<le> max_depth"
    and "m \<in> set (generate_legal_moves (s_board s))" and "mated (snd (make_move (s_board s) m))"
    and "halfmove_clock (s_board s) < 99"
  shows "let r = fst (search e limit max_depth s)
    in best_move r \<in> set (generate_legal_moves (s_board s)) \<and> mated (snd (make_move (s_board s) (best_move r))) \<and>
       sr_score r = SCORE_MATE - 1 \<and> sr_depth r = 1"
proof -
  let ?L = "generate_legal_moves (s_board s)" and ?V = "root_value (s_board s)"
  have ne: "?L \<noteq> []" using assms(6) by auto
  have clock: "halfmove_clock (snd (make_move (s_board s) m')) < 100" for m'
    using assms(8) by (simp add: make_move_halfmove)
  have V: "?V m' = - quiet_value 1 (snd (make_move (s_board s) m'))" for m'
    using clock [of m'] by (simp add: leaf_value_def)
  have qv: "quiet_value 1 b = - (SCORE_MATE - 1) \<longleftrightarrow> mated b" "- (SCORE_MATE - 1) \<le> quiet_value 1 b" if "position_ok b" for b
    using quiet_value_bounds [OF that, of 1] by (auto simp: quiet_value_unfold [of 1 b] quiet_value_body_def mated_def Let_def)
  have ok: "position_ok (snd (make_move (s_board s) m'))" if "m' \<in> set ?L" for m'
    using rules.make_ok [OF assms(2) that] .
  have le: "?V m' \<le> SCORE_MATE - 1" "?V m' = SCORE_MATE - 1 \<longleftrightarrow> mated (snd (make_move (s_board s) m'))" if "m' \<in> set ?L" for m'
    using qv [OF ok [OF that]] unfolding V by auto
  have mate: "?V m = SCORE_MATE - 1" using le(2) [OF assms(6)] assms(7) by blast
  obtain m' where m': "m' \<in> set ?L" "\<forall>m'' \<in> set ?L. ?V m'' \<le> ?V m'"
    "best_move (fst (search e limit max_depth s)) = m'" "sr_score (fst (search e limit max_depth s)) = ?V m'"
    "sr_depth (fst (search e limit max_depth s)) = 1"
    by (rule search_first_depth [OF assms(1-3) ne assms(4,5)]) (use mate assms(6) in force)+
  have "?V m' = SCORE_MATE - 1" using m'(1,2) le(1) [OF m'(1)] mate assms(6) by force
  then show ?thesis using m' le(2) [OF m'(1)] by (simp add: Let_def)
qed

section \<open>A mate in one\<close>

definition mate_squares :: "piece list" where
  \<comment> \<open>white king b6, white queen h7, black king a8\<close>
  "mate_squares = (replicate 64 no_piece)[41 := Piece KING WHITE, 55 := Piece QUEEN WHITE, 56 := Piece KING BLACK]"

definition mate_board :: board where
  "mate_board = recompute_zobrist_key \<lparr>squares = mate_squares, side_to_move = WHITE, castling_rights = CR_NONE,
     en_passant_sq = NO_SQUARE, halfmove_clock = 7, fullmove_number = 40, zobrist_key = 0\<rparr>"

definition moved_squares :: "board \<Rightarrow> move \<Rightarrow> piece list" where
  "moved_squares b m =
     (let moving = squares b ! m_from m;
          sqs1 = (case castle_rook m of None \<Rightarrow> squares b
                  | Some (rf, rt) \<Rightarrow> (squares b)[rt := squares b ! rf, rf := no_piece]);
          sqs2 = (if is_en_passant m then sqs1[behind_square (pcolor moving) m := no_piece] else sqs1);
          sqs3 = sqs2[m_to m := moving, m_from m := no_piece]
      in if is_promotion m then sqs3[m_to m := Piece (m_promo m) (pcolor moving)] else sqs3)"

definition mate_unkeyed :: board where
  "mate_unkeyed = \<lparr>squares = mate_squares, side_to_move = WHITE, castling_rights = CR_NONE,
     en_passant_sq = NO_SQUARE, halfmove_clock = 7, fullmove_number = 40, zobrist_key = 0\<rparr>"

abbreviation mate_move :: move where "mate_move \<equiv> Move 55 63 MF_NONE PT_NONE"

definition mated_unkeyed :: board where
  "mated_unkeyed = \<lparr>squares = moved_squares mate_unkeyed mate_move, side_to_move = BLACK, castling_rights = CR_NONE,
     en_passant_sq = NO_SQUARE, halfmove_clock = 8, fullmove_number = 40, zobrist_key = 0\<rparr>"

lemma mate_checks:
  "list_all piece_ok mate_squares \<and> length mate_squares = 64"
  "castling_ok mate_unkeyed \<and> ep_ok mate_unkeyed \<and> pawns_ok mate_unkeyed \<and> kings_ok mate_unkeyed \<and>
   \<not> is_in_check mate_unkeyed BLACK"
  "mate_move \<in> set (generate_pseudo_legal_moves mate_unkeyed)"
  "\<not> is_in_check (mate_unkeyed\<lparr>squares := moved_squares mate_unkeyed mate_move\<rparr>) WHITE"
  "is_in_check mated_unkeyed BLACK"
  "list_all (\<lambda>m. is_in_check (mated_unkeyed\<lparr>squares := moved_squares mated_unkeyed m\<rparr>) BLACK)
     (generate_pseudo_legal_moves mated_unkeyed)"
  "update_castling_rights 0 55 63 = 0 \<and> \<not> is_none (mate_squares ! 55) \<and> ptype (mate_squares ! 55) = QUEEN \<and>
   is_none (mate_squares ! 63)"
  by code_simp+

lemma squares_moved: "squares (snd (make_move b m)) = moved_squares b m"
  unfolding make_move_squares moved_squares_def ..

lemma moved_squares_key [simp]: "moved_squares (b\<lparr>zobrist_key := z\<rparr>) m = moved_squares b m"
  by (simp add: moved_squares_def Let_def cong: option.case_cong)

lemma check_after: "is_in_check (snd (make_move b m)) c = is_in_check (b'\<lparr>squares := moved_squares b m\<rparr>) c"
  by (rule is_in_check_squares) (simp add: squares_moved)

lemma mate_board_unkeyed: "mate_board = mate_unkeyed\<lparr>zobrist_key := board_hash mate_unkeyed\<rparr>"
  by (simp add: mate_board_def mate_unkeyed_def recompute_zobrist_key_def)

lemma position_ok_mate: "position_ok mate_board"
proof -
  have "board_rep mate_board"
    using mate_checks(1) by (simp add: mate_board_unkeyed mate_unkeyed_def board_rep_def board_hash_def NO_SQUARE_def)
  moreover have "castling_ok mate_board \<and> ep_ok mate_board \<and> pawns_ok mate_board \<and> kings_ok mate_board \<and>
      \<not> is_in_check mate_board BLACK"
    using mate_checks(2) by (simp add: mate_board_unkeyed)
  ultimately show ?thesis by (simp add: position_ok_def mate_board_unkeyed mate_unkeyed_def)
qed

lemma mate_legal: "mate_move \<in> set (generate_legal_moves mate_board)"
proof -
  have "\<not> is_in_check (snd (make_move mate_board mate_move)) WHITE"
    unfolding check_after [of mate_board mate_move WHITE mate_unkeyed] using mate_checks(4) by (simp add: mate_board_unkeyed)
  moreover have "side_to_move mate_board = WHITE" by (simp add: mate_board_unkeyed mate_unkeyed_def)
  ultimately show ?thesis
    using mate_checks(3) by (simp add: legal_moves_filter position_ok_parts [OF position_ok_mate]) (simp add: mate_board_unkeyed)
qed

lemma mate_board_after: "snd (make_move mate_board mate_move) =
    mated_unkeyed\<lparr>zobrist_key := zobrist_key (snd (make_move mate_board mate_move))\<rparr>"
proof (rule board.equality)
  have cap: "is_none (u_captured (fst (make_move mate_board mate_move)))" "ptype (squares mate_board ! 55) \<noteq> PAWN"
    using mate_checks(7) by (simp_all add: make_move_captured flag_simps mate_board_unkeyed mate_unkeyed_def)
  show "halfmove_clock (snd (make_move mate_board mate_move)) =
      halfmove_clock (mated_unkeyed\<lparr>zobrist_key := zobrist_key (snd (make_move mate_board mate_move))\<rparr>)"
    using cap by (simp add: make_move_halfmove) (simp add: mated_unkeyed_def mate_board_unkeyed mate_unkeyed_def)
  show "squares (snd (make_move mate_board mate_move)) =
      squares (mated_unkeyed\<lparr>zobrist_key := zobrist_key (snd (make_move mate_board mate_move))\<rparr>)"
    by (simp add: squares_moved) (simp add: mated_unkeyed_def mate_board_unkeyed)
qed (use mate_checks(7) in \<open>simp_all add: mated_unkeyed_def mate_board_unkeyed mate_unkeyed_def flag_simps\<close>)

lemma mate_mates: "mated (snd (make_move mate_board mate_move))"
proof -
  let ?b = "snd (make_move mate_board mate_move)"
  have ok: "position_ok ?b" by (rule rules.make_ok [OF position_ok_mate mate_legal])
  have side: "side_to_move ?b = BLACK" by (simp add: mate_board_unkeyed mate_unkeyed_def)
  have pseudo: "generate_pseudo_legal_moves ?b = generate_pseudo_legal_moves mated_unkeyed"
    by (subst mate_board_after) (rule pseudo_key)
  have moved: "moved_squares ?b m = moved_squares mated_unkeyed m" for m
    by (subst mate_board_after) (rule moved_squares_key)
  have "is_in_check (snd (make_move ?b m)) BLACK" if "m \<in> set (generate_pseudo_legal_moves mated_unkeyed)" for m
    unfolding check_after [of ?b m BLACK mated_unkeyed] moved using mate_checks(6) that by (simp add: list_all_iff)
  then have "generate_legal_moves ?b = []"
    unfolding legal_moves_filter [OF position_ok_parts [OF ok]] side pseudo by (simp add: filter_empty_conv)
  moreover have "is_in_check ?b BLACK" by (subst mate_board_after) (simp add: mate_checks(5))
  ultimately show ?thesis unfolding mated_def side by (rule conjI)
qed

theorem search_mate_in_one_witness:
  "let r = fst (search demo_env 1000 64 (demo_search mate_board))
   in best_move r \<in> set (generate_legal_moves mate_board) \<and> mated (snd (make_move mate_board (best_move r))) \<and>
      sr_score r = 899999 \<and> sr_depth r = 1"
  using search_mate_in_one [OF demo_sort, of "demo_search mate_board" 1000 64 mate_move]
    position_ok_mate demo_uninterrupted [of 0] mate_legal mate_mates
  by (simp add: mate_board_def recompute_zobrist_key_def)

end
