(* ===== verification/AiPlayer.thy ===== *)
theory AiPlayer
  imports GameRoom EngineExact
begin

text \<open>
  The computer opponent (\<open>src/game/ai_player.cpp\<close>) and the adapter of the engine to the move selector
  port (\<open>src/chess/engine_move_selector.cpp\<close>). The engine is the searcher of theory Engine; the
  difficulty presets are in theory GameRoom. Shown: a game in progress is not over on its board, so
  the computer always has a move, and the room accepts the move it chooses.
\<close>

section \<open>Operations\<close>

record ai_move =
  ai_from :: square
  ai_to :: square
  ai_promotion :: piece_type
  ai_score :: int
  ai_depth :: int
  ai_nodes :: int
  ai_elapsed_ms :: int

definition ai_time :: "ai_difficulty \<Rightarrow> int \<Rightarrow> int \<Rightarrow> int" where
  \<comment> \<open>the time limit of the search; a negative clock means none\<close>
  "ai_time diff remaining increment =
     (let limit = snd (limits_for diff)
      in if remaining \<ge> 0
         then min limit (min (max 1 (remaining - 50)) (max 1 (remaining sdiv 25 + increment sdiv 2)))
         else limit)"

definition compute_move ::
  "search_env \<Rightarrow> board \<Rightarrow> ai_difficulty \<Rightarrow> int \<Rightarrow> int \<Rightarrow> searcher \<Rightarrow> ai_move \<times> searcher" where
  "compute_move se b diff remaining increment s =
     (let (r, s1) = search se (ai_time diff remaining increment) (fst (limits_for diff)) (set_position b s)
      in (\<lparr>ai_from = m_from (best_move r), ai_to = m_to (best_move r), ai_promotion = m_promo (best_move r),
           ai_score = sr_score r, ai_depth = sr_depth r, ai_nodes = sr_nodes r, ai_elapsed_ms = sr_elapsed_ms r\<rparr>, s1))"

record move_choice =
  mc_from :: square
  mc_to :: square
  mc_promotion :: piece_type
  mc_nodes :: int
  mc_elapsed_ms :: int

definition select_move :: "search_env \<Rightarrow> board \<Rightarrow> int \<times> int \<Rightarrow> searcher \<Rightarrow> move_choice \<times> searcher" where
  \<comment> \<open>\<open>EngineMoveSelector::select\<close>; the limits are a depth and a time\<close>
  "select_move se b limits s =
     (let (r, s1) = search se (snd limits) (fst limits) (set_position b s)
      in (\<lparr>mc_from = m_from (best_move r), mc_to = m_to (best_move r), mc_promotion = m_promo (best_move r),
           mc_nodes = sr_nodes r, mc_elapsed_ms = sr_elapsed_ms r\<rparr>, s1))"

section \<open>A game that is not finished can go on\<close>

definition live :: "game_core \<Rightarrow> bool" where
  "live g \<longleftrightarrow> (c_state g = WAITING \<longrightarrow> c_board g = starting_position) \<and>
     (c_state g \<noteq> FINISHED \<longrightarrow> get_game_status (c_board g) = ONGOING)"

lemma start_ongoing: "get_game_status starting_position = ONGOING"
  using e2e4_legal
  by (auto simp: get_game_status_def starting_position_board) (simp add: start_board_unkeyed start_unkeyed_def)

lemma game_step_live: "game_step g g' \<Longrightarrow> live g \<Longrightarrow> live g'"
  by (erule game_stepE) (auto simp: live_def core_move_def core_finish_def start_ongoing)

lemma new_room_live: "new_room r \<Longrightarrow> live (core r)"
  by (auto elim!: new_room.cases simp: live_def start_ongoing human_room_def ai_room_def
      tournament_room_def fresh_room_def)

lemma reachable_live: "reachable_room r \<Longrightarrow> state r \<noteq> FINISHED \<Longrightarrow> get_game_status (board r) = ONGOING"
proof -
  assume "reachable_room r" and "state r \<noteq> FINISHED"
  then obtain r0 ops where r0: "new_room r0" "r = snd (run_ops ops r0)" by (auto simp: reachable_room_def)
  have "live (core (snd (run_ops ops r0)))"
    by (rule room.run_invariant [of live, OF game_step_live])
      (simp_all add: new_room_quiet new_room_live r0(1))
  then show "get_game_status (board r) = ONGOING" using r0(2) \<open>state r \<noteq> FINISHED\<close> by (simp add: live_def)
qed

lemma reachable_has_move:
  assumes "reachable_room r" and "state r \<noteq> FINISHED"
  shows "generate_legal_moves (board r) \<noteq> []"
  using reachable_live [OF assms] by (auto simp: get_game_status_def split: if_splits)

section \<open>The chosen move\<close>

lemma compute_move_legal:
  assumes "sort_ok se" and "position_ok b" and "generate_legal_moves b \<noteq> []"
  obtains m where "m \<in> set (generate_legal_moves b)"
    "ai_from (fst (compute_move se b diff t inc s)) = m_from m" "ai_to (fst (compute_move se b diff t inc s)) = m_to m"
    "ai_promotion (fst (compute_move se b diff t inc s)) = m_promo m"
  using search_legal [of se "set_position b s"] assms
  by (fastforce simp: compute_move_def set_position_def split_beta Let_def)

lemma legal_move_matched:
  assumes "position_ok b" and "m \<in> set (generate_legal_moves b)"
  shows "match_move b (m_from m) (m_to m) (m_promo m) = Some m"
proof -
  have promo: "is_promotion m \<Longrightarrow> m_promo m \<noteq> PT_NONE"
    using legal_fits [OF assms] by (simp add: move_fits_def)
  then have "move_requested (m_from m) (m_to m) (m_promo m) m" by (simp add: move_requested_def)
  then obtain m' where m': "match_move b (m_from m) (m_to m) (m_promo m) = Some m'"
    using assms(2) match_move_None [of b "m_from m" "m_to m" "m_promo m"] by fastforce
  have "m' = m"
    using match_unique [OF assms match_move_legal [OF m'], of "if m_promo m = PT_NONE then QUEEN else m_promo m"]
      match_move_Some [OF m'] promo
    by (auto simp: move_requested_def)
  then show ?thesis using m' by simp
qed

lemma submit_move_ai_accepts:
  assumes "state r = IN_PROGRESS" "is_ai r" "side_to_move (board r) = ai_color r" "\<not> check_flag (now_flag e) r"
    and "match_move (board r) f t promo = Some m"
  shows "mv_success (fst (submit_move_ai e f t promo r))"
    and "board (snd (snd (submit_move_ai e f t promo r))) = snd (make_move (board r) m)"
  using assms by (simp_all add: submit_move_ai_def Let_def room_simps locked_room)

section \<open>Properties\<close>

text \<open>
  C15. The computer always answers with a move the room accepts: in every reachable computer game in
  which it is to move and its flag has not fallen, whatever the state of its transposition table,
  the clock readings of its search, its difficulty and its time budget, the search finds a legal move
  of the room's board and \<open>submit_move_ai\<close> plays exactly that move.
\<close>

theorem ai_move_accepted:
  assumes "sort_ok se" and "reachable_room r" and "state r = IN_PROGRESS" and "is_ai r"
    and "side_to_move (board r) = ai_color r" and "\<not> check_flag (now_flag e) r"
    and "mv = fst (compute_move se (board r) diff remaining increment s)"
  shows "mv_success (fst (submit_move_ai e (ai_from mv) (ai_to mv) (ai_promotion mv) r)) \<and>
    (\<exists>m \<in> set (generate_legal_moves (board r)). m_from m = ai_from mv \<and> m_to m = ai_to mv \<and> m_promo m = ai_promotion mv \<and>
       board (snd (snd (submit_move_ai e (ai_from mv) (ai_to mv) (ai_promotion mv) r))) = snd (make_move (board r) m))"
proof -
  note ok = reachable_position_ok [OF assms(2)]
  have "generate_legal_moves (board r) \<noteq> []" using reachable_has_move assms(2,3) by simp
  then obtain m where m: "m \<in> set (generate_legal_moves (board r))" "ai_from mv = m_from m" "ai_to mv = m_to m"
    "ai_promotion mv = m_promo m"
    using compute_move_legal [OF assms(1) ok, of diff remaining increment s] assms(7) by metis
  have "match_move (board r) (ai_from mv) (ai_to mv) (ai_promotion mv) = Some m"
    unfolding m(2-4) by (rule legal_move_matched [OF ok m(1)])
  then show ?thesis using submit_move_ai_accepts [OF assms(3-6)] m by auto
qed

definition demo_e2e4 :: move where
  "demo_e2e4 = Move 12 28 MF_DOUBLE_PAWN_PUSH PT_NONE"

definition replied_unkeyed :: board where
  \<comment> \<open>the position after 1. e4, without its key\<close>
  "replied_unkeyed = \<lparr>squares = start_squares[28 := Piece PAWN WHITE, 12 := no_piece], side_to_move = BLACK,
     castling_rights = CR_ALL, en_passant_sq = 20, halfmove_clock = 0, fullmove_number = 1, zobrist_key = 0\<rparr>"

definition demo_ai_game :: room where
  "demo_ai_game = snd (exec_op (Submit_move 3 12 28 PT_NONE) GameRoom.demo_env
     (ai_room GameRoom.demo_env 1 1 ''alice'' 3 \<lparr>base_time_ms = 600000, increment_ms = 5000\<rparr> MEDIUM 0 1200))"

lemma replied_checks:
  "Move 52 36 MF_DOUBLE_PAWN_PUSH PT_NONE \<in> set (generate_pseudo_legal_moves replied_unkeyed)"
  "\<not> is_in_check (replied_unkeyed\<lparr>squares := moved_squares replied_unkeyed (Move 52 36 MF_DOUBLE_PAWN_PUSH PT_NONE)\<rparr>) BLACK"
  "update_castling_rights 15 12 28 = 15" "behind_square WHITE (Move 12 28 16 PT_NONE) = 20"
  by code_simp+

lemma replied_board: "snd (make_move start_board demo_e2e4) =
    replied_unkeyed\<lparr>zobrist_key := zobrist_key (snd (make_move start_board demo_e2e4))\<rparr>"
proof (rule board.equality)
  have cap: "is_none (u_captured (fst (make_move start_board demo_e2e4)))" "ptype (squares start_board ! 12) = PAWN"
    using start_e2e4(3) by (simp_all add: make_move_captured flag_simps demo_e2e4_def start_board_unkeyed start_unkeyed_def)
      code_simp
  show "halfmove_clock (snd (make_move start_board demo_e2e4)) =
      halfmove_clock (replied_unkeyed\<lparr>zobrist_key := zobrist_key (snd (make_move start_board demo_e2e4))\<rparr>)"
    using cap by (simp add: make_move_halfmove demo_e2e4_def replied_unkeyed_def)
  show "squares (snd (make_move start_board demo_e2e4)) =
      squares (replied_unkeyed\<lparr>zobrist_key := zobrist_key (snd (make_move start_board demo_e2e4))\<rparr>)"
    using start_e2e4(3)
    by (simp add: make_move_squares castle_rook_def flag_simps start_board_unkeyed start_unkeyed_def replied_unkeyed_def demo_e2e4_def)
qed (use replied_checks(3,4) start_e2e4(3) in
    \<open>simp_all add: replied_unkeyed_def demo_e2e4_def start_board_unkeyed start_unkeyed_def flag_simps\<close>)

lemma replied_ongoing: "get_game_status (snd (make_move start_board demo_e2e4)) = ONGOING"
proof -
  let ?b = "snd (make_move start_board demo_e2e4)" and ?m = "Move 52 36 MF_DOUBLE_PAWN_PUSH PT_NONE"
  have ok: "position_ok ?b"
    by (rule rules.make_ok [OF position_ok_start]) (use e2e4_legal in \<open>simp add: demo_e2e4_def\<close>)
  have side: "side_to_move ?b = BLACK" by (subst replied_board) (simp add: replied_unkeyed_def)
  have pseudo: "generate_pseudo_legal_moves ?b = generate_pseudo_legal_moves replied_unkeyed"
    by (subst replied_board) (rule pseudo_key)
  have moved: "moved_squares ?b m = moved_squares replied_unkeyed m" for m
    by (subst replied_board) (rule moved_squares_key)
  have "\<not> is_in_check (snd (make_move ?b ?m)) BLACK"
    unfolding check_after [of ?b ?m BLACK replied_unkeyed] moved by (rule replied_checks(2))
  then have "?m \<in> set (generate_legal_moves ?b)"
    unfolding legal_moves_filter [OF position_ok_parts [OF ok]] side pseudo using replied_checks(1) by simp
  moreover have "halfmove_clock ?b = 0" by (subst replied_board) (simp add: replied_unkeyed_def)
  ultimately show ?thesis by (auto simp: get_game_status_def)
qed

lemma submit_move_goes_on:
  assumes "state r = IN_PROGRESS" "color_of r fd = side_to_move (board r)" "side_to_move (board r) \<noteq> C_NONE"
    "\<not> check_flag (now_flag e) r" "pending_completed r = None" "draw_offer_from r = None"
    and "match_move (board r) f t promo = Some m" "get_game_status (snd (make_move (board r) m)) = ONGOING"
  shows "\<exists>pl pb. snd (snd (submit_move e fd f t promo r)) =
    (play_move e (side_to_move (board r)) m (bump r))\<lparr>pending_listeners := pl, pending_before := pb\<rparr>"
  using assms
  by (intro exI [of _ "pending_listeners (snd (snd (submit_move e fd f t promo r)))"]
      exI [of _ "pending_before (snd (snd (submit_move e fd f t promo r)))"])
     (simp add: submit_move_def Let_def conclude_move_def locked_room drain_def room_simps split_beta)

lemma play_move_keeps:
  "is_ai (play_move e c m r) = is_ai r" "ai_color (play_move e c m r) = ai_color r"
  "side_to_move (board r) = WHITE \<Longrightarrow> black (play_move e c m r) = (black r)\<lparr>clock_start := now_switch e\<rparr>"
  by (simp_all add: play_move_def switch_clock_def Let_def upd_slot_def)

lemma bump_keeps: "is_ai (bump r) = is_ai r" "ai_color (bump r) = ai_color r" "black (bump r) = black r"
  by (simp_all add: bump_def)

definition demo_ai_new :: room where
  "demo_ai_new = ai_room GameRoom.demo_env 1 1 ''alice'' 3 \<lparr>base_time_ms = 600000, increment_ms = 5000\<rparr> MEDIUM 0 1200"

lemma demo_ai_game:
  "reachable_room demo_ai_game" "state demo_ai_game = IN_PROGRESS" "is_ai demo_ai_game"
  "side_to_move (board demo_ai_game) = ai_color demo_ai_game" "\<not> check_flag 0 demo_ai_game"
proof -
  show "reachable_room demo_ai_game"
    unfolding demo_ai_game_def by (intro reachable_step new_room_reachable new_room.intros)
  have matched: "match_move start_board 12 28 PT_NONE = Some demo_e2e4"
    using legal_move_matched [OF position_ok_start e2e4_legal] by (simp add: demo_e2e4_def)
  have white: "side_to_move start_board = WHITE" by (simp add: start_board_unkeyed start_unkeyed_def)
  have black: "side_to_move (snd (make_move start_board demo_e2e4)) = BLACK"
    by (subst replied_board) (simp add: replied_unkeyed_def)
  have new: "board demo_ai_new = start_board" "state demo_ai_new = IN_PROGRESS" "color_of demo_ai_new 3 = WHITE"
    "\<not> check_flag 0 demo_ai_new" "pending_completed demo_ai_new = None" "draw_offer_from demo_ai_new = None"
    by (simp_all add: demo_ai_new_def ai_room_def fresh_room_def creator_slot_def empty_slot_def GameRoom.demo_env_def
        starting_position_board color_of_def slot_of_def check_flag_def elapsed_ms_def to_int32_def white)
  have zero: "now_flag GameRoom.demo_env = 0" by (simp add: GameRoom.demo_env_def)
  have "\<exists>pl pb. demo_ai_game = (play_move GameRoom.demo_env (side_to_move (board demo_ai_new)) demo_e2e4 (bump demo_ai_new))
      \<lparr>pending_listeners := pl, pending_before := pb\<rparr>"
    unfolding demo_ai_game_def exec_op.simps demo_ai_new_def [symmetric]
    by (rule submit_move_goes_on) (simp_all add: new white matched replied_ongoing zero)
  then obtain pl pb where game: "demo_ai_game = (play_move GameRoom.demo_env WHITE demo_e2e4 (bump demo_ai_new))
      \<lparr>pending_listeners := pl, pending_before := pb\<rparr>"
    unfolding new white by blast
  have fields: "state demo_ai_game = IN_PROGRESS" "board demo_ai_game = snd (make_move start_board demo_e2e4)"
    unfolding game by (simp_all add: room_simps new)
  have room: "is_ai demo_ai_new" "ai_color demo_ai_new = BLACK" "remaining_ms (black demo_ai_new) = 600000"
    by (simp_all add: demo_ai_new_def ai_room_def fresh_room_def)
  have "is_ai demo_ai_game" "ai_color demo_ai_game = BLACK"
    "black demo_ai_game = (black demo_ai_new)\<lparr>clock_start := now_switch GameRoom.demo_env\<rparr>"
    unfolding game by (simp_all add: play_move_keeps bump_keeps room new white room_simps)
  then show "state demo_ai_game = IN_PROGRESS" "is_ai demo_ai_game"
    "side_to_move (board demo_ai_game) = ai_color demo_ai_game" "\<not> check_flag 0 demo_ai_game"
    by (simp_all only: fields black check_flag_def slot_of_def room)
       (simp_all add: elapsed_ms_def to_int32_def room GameRoom.demo_env_def)
qed

theorem ai_move_accepted_witness:
  "let mv = fst (compute_move Engine.demo_env (board demo_ai_game) MEDIUM 595000 5000 (demo_search start_board))
   in mv_success (fst (submit_move_ai GameRoom.demo_env (ai_from mv) (ai_to mv) (ai_promotion mv) demo_ai_game))"
  using ai_move_accepted [OF demo_sort demo_ai_game(1-4) _ refl, of GameRoom.demo_env MEDIUM 595000 5000 "demo_search start_board"]
    demo_ai_game(5)
  by (simp add: GameRoom.demo_env_def Let_def)

end
