(* ===== verification/GameplayService.thy ===== *)
theory GameplayService
  imports Matchmaker AiPlayer
begin

text \<open>
  The gameplay service (\<open>src/application/gameplay_service.h\<close>, \<open>src/application/gameplay_service.cpp\<close>): every
  request of a player, the disconnection of a socket and the periodic sweep, over the registry of
  rooms, the matchmaker and the computer player. A call answers the frames it sends, in order: to
  the caller, to another socket, to the spectators of a room, and the events of the rooms between
  them; the JSON text of a frame is left out. A call of a room uses the clock reads \<open>env_at\<close> at a
  number of its own. Shown: every room is always one its calls can produce, whatever requests the
  server served, so that the properties of a room hold of all of them; and boards only change by
  moves of their players.
\<close>

section \<open>State, requests and frames\<close>

record service_world = world +
  search_at :: search_env

record server =
  srv_mgr :: manager
  srv_queue :: matchmaker
  srv_next_player :: nat
  srv_ai :: searcher

record actor =
  a_player_id :: int
  a_username :: string
  a_elo :: int

record request_context =
  rc_fd :: int
  rc_generation :: nat
  rc_identity :: "actor option"

datatype frame =
    Error_frame string
  | Move_rejected string
  | Game_over string string
  | Move_made string string string string int int "string list" "string option"
  | Draw_offer_sent
  | Draw_offered string
  | Draw_declined string
  | Draw_offer_resolved "string option"
  | Rematch_offer_sent int int
  | Rematch_offered int string int
  | Rematch_declined string
  | Rematch_offer_resolved string
  | Rematch_started nat string string int int int int
  | Pending_rematch "(nat \<times> string \<times> string \<times> int) option"
  | Game_state nat string string string int int string "(string \<times> int) list" "string list" "string option"
      "string option" "string option"
  | Active_game "(nat \<times> string \<times> string \<times> int \<times> int \<times> int \<times> int \<times> bool \<times> int \<times> int \<times> string) option"
  | Game_created nat string
  | Game_joined int string int int
  | Game_start int string string int int bool
  | Queued int
  | Queue_cancelled
  | Game_list "(nat \<times> string \<times> string) list"
  | Opponent_reconnected
  | Opponent_disconnected int

datatype delivery =
    To_caller frame
  | To_fd int frame
  | To_spectators nat frame
  | From_room nat room_output
  | Match_made match_result

abbreviation (input) DISCONNECT_GRACE_MS :: int where "DISCONNECT_GRACE_MS \<equiv> 120000"
abbreviation (input) DRAW_OFFER_TTL_MS :: int where "DRAW_OFFER_TTL_MS \<equiv> 45000"
abbreviation (input) REMATCH_OFFER_TTL_MS :: int where "REMATCH_OFFER_TTL_MS \<equiv> 45000"

definition refuse :: "string \<Rightarrow> server \<Rightarrow> delivery list \<times> server" where
  "refuse msg s = ([To_caller (Error_frame msg)], s)"

definition put_room :: "nat \<Rightarrow> room \<Rightarrow> server \<Rightarrow> server" where
  "put_room rid r s = s\<lparr>srv_mgr := update_room rid r (srv_mgr s)\<rparr>"

definition notify :: "int \<Rightarrow> frame \<Rightarrow> delivery list" where
  \<comment> \<open>\<open>if (fd >= 0) foreign_sender_(fd, frame)\<close>\<close>
  "notify fd f = (if fd \<ge> 0 then [To_fd fd f] else [])"

definition notify_seat :: "room \<Rightarrow> color \<Rightarrow> frame \<Rightarrow> delivery list" where
  \<comment> \<open>a seat that is connected and has a socket\<close>
  "notify_seat r c f = (if is_connected r c then notify (get_player_fd r c) f else [])"

definition status_to_reason :: "game_status \<Rightarrow> string" where
  "status_to_reason s =
     (case s of
        CHECKMATE \<Rightarrow> ''checkmate'' | STALEMATE \<Rightarrow> ''stalemate'' | DRAW_FIFTY_MOVE \<Rightarrow> ''fifty_move_rule''
      | DRAW_INSUFFICIENT_MATERIAL \<Rightarrow> ''insufficient_material''
      | DRAW_THREEFOLD_REPETITION \<Rightarrow> ''threefold_repetition'' | DRAW_AGREEMENT \<Rightarrow> ''draw_agreement''
      | RESIGNATION \<Rightarrow> ''resignation'' | TIMEOUT \<Rightarrow> ''timeout'' | ABANDONMENT \<Rightarrow> ''abandonment''
      | ONGOING \<Rightarrow> ''unknown'')"

definition parse_square :: "string \<Rightarrow> square" where
  "parse_square sq =
     (case sq of
        [f, r] \<Rightarrow>
          let fl = char_val f - char_val (CHR ''a''); rk = char_val r - char_val (CHR ''1'')
          in if fl < 0 \<or> fl > 7 \<or> rk < 0 \<or> rk > 7 then NO_SQUARE else make_square rk fl
      | _ \<Rightarrow> NO_SQUARE)"

definition promotion_of :: "char option \<Rightarrow> piece_type" where
  "promotion_of p =
     (if p = Some (CHR ''q'') then QUEEN else if p = Some (CHR ''r'') then ROOK
      else if p = Some (CHR ''b'') then BISHOP else if p = Some (CHR ''n'') then KNIGHT else PT_NONE)"

definition room_id_of :: "int \<Rightarrow> nat" where
  \<comment> \<open>\<open>static_cast<GameId>\<close> of a 64-bit number\<close>
  "room_id_of game_id = nat (game_id mod 2 ^ 32)"

section \<open>Moves\<close>

definition trigger_ai_move :: "service_world \<Rightarrow> nat \<Rightarrow> int \<Rightarrow> server \<Rightarrow> delivery list \<times> server" where
  "trigger_ai_move w rid human_fd s =
     (case find_room (srv_mgr s) rid of
        None \<Rightarrow> ([], s)
      | Some r \<Rightarrow>
          if \<not> is_ai r \<or> state r \<noteq> IN_PROGRESS then ([], s)
          else let (white_ms, black_ms) = get_remaining_times (env_at w 1) r;
                   (mv, ai) = compute_move (search_at w) (board r) (ai_difficulty r)
                     (if side_to_move (board r) = WHITE then white_ms else black_ms)
                     (increment_ms (time_control r)) (srv_ai s);
                   (res, outs, r1) = submit_move_ai (env_at w 2) (ai_from mv) (ai_to mv) (ai_promotion mv) r;
                   s1 = put_room rid r1 (s\<lparr>srv_ai := ai\<rparr>); ro = map (From_room rid) outs
               in if \<not> mv_success res
                  then (if mv_status res = TIMEOUT
                        then (ro @ [To_fd human_fd (Game_over (result r1) ''timeout''),
                                To_spectators rid (Game_over (result r1) ''timeout'')], s1)
                        else (ro, s1))
                  else let (w_ms, b_ms) = the (mv_times res);
                           promo = (case ai_promotion mv of PT_NONE \<Rightarrow> None | ROOK \<Rightarrow> Some ''r'' | BISHOP \<Rightarrow> Some ''b''
                             | KNIGHT \<Rightarrow> Some ''n'' | _ \<Rightarrow> Some ''q'');
                           msg = Move_made (square_to_algebraic (ai_from mv)) (square_to_algebraic (ai_to mv))
                             (mv_san res) (mv_fen res) w_ms b_ms (mv_legal res) promo;
                           over = Game_over (result r1) (status_to_reason (mv_status res))
                       in (ro @ [To_fd human_fd msg, To_spectators rid msg] @
                           (if mv_status res \<noteq> ONGOING then [To_fd human_fd over, To_spectators rid over] else []), s1))"

definition service_make_move ::
  "service_world \<Rightarrow> request_context \<Rightarrow> string \<Rightarrow> string \<Rightarrow> char option \<Rightarrow> server \<Rightarrow> delivery list \<times> server" where
  "service_make_move w ctx from to promotion s =
     (let fd = rc_fd ctx; from_sq = parse_square from; to_sq = parse_square to; promo = promotion_of promotion
      in if from_sq = NO_SQUARE \<or> to_sq = NO_SQUARE
         then refuse (''Invalid square: '' @ [CHR 0x27] @ from @ [CHR 0x27] @ '' or '' @ [CHR 0x27] @ to @ [CHR 0x27]) s
         else case find_room_by_fd (srv_mgr s) fd of
           None \<Rightarrow> refuse ''You are not in a game'' s
         | Some (rid, r) \<Rightarrow>
             let (res, outs, r1) = submit_move (env_at w 0) fd from_sq to_sq promo r;
                 s1 = put_room rid r1 s; ro = map (From_room rid) outs;
                 opp = get_opponent_fd r1 fd
             in if \<not> mv_success res
                then (if mv_status res = TIMEOUT
                      then (let over = Game_over (result r1) ''timeout''
                            in (ro @ [To_caller (Move_rejected (mv_error res)), To_caller over] @ notify opp over @
                                [To_spectators rid over], s1))
                      else (ro @ [To_caller (Move_rejected (mv_error res))], s1))
                else let (w_ms, b_ms) = the (mv_times res);
                         msg = Move_made from to (mv_san res) (mv_fen res) w_ms b_ms (mv_legal res)
                           (if promo \<noteq> PT_NONE then map_option (\<lambda>c. [c]) promotion else None);
                         over = Game_over (result r1) (status_to_reason (mv_status res));
                         sent = ro @ [To_caller msg] @ notify opp msg @ [To_spectators rid msg] @
                           (if mv_declined res then notify opp (Draw_declined ''move_made'') else []) @
                           (if mv_status res \<noteq> ONGOING
                            then [To_caller over] @ notify opp over @ [To_spectators rid over] else [])
                     in if mv_status res = ONGOING \<and> is_ai r1
                        then (let (ai_sent, s2) = trigger_ai_move w rid fd s1 in (sent @ ai_sent, s2))
                        else (sent, s1))"

section \<open>Resignation, draws, rematches\<close>

definition get_username :: "room \<Rightarrow> color \<Rightarrow> string" where
  "get_username r c = (if c = WHITE then username (white r) else if c = BLACK then username (black r) else [])"

definition service_resign :: "service_world \<Rightarrow> request_context \<Rightarrow> server \<Rightarrow> delivery list \<times> server" where
  \<comment> \<open>the frames are sent by the callback that the room calls before its completion event\<close>
  "service_resign w ctx s =
     (let fd = rc_fd ctx
      in case find_room_by_fd (srv_mgr s) fd of
           None \<Rightarrow> refuse ''You are not in a game'' s
         | Some (rid, r) \<Rightarrow>
             let opp = get_opponent_fd r fd;
                 (resigned, outs, r1) = resign (env_at w 0) fd True r;
                 over = Game_over (result r1) ''resignation'';
                 sent = concat (map (\<lambda>x. case x of
                     Before_completion \<Rightarrow> [To_caller over] @ notify opp over @ [To_spectators rid over]
                   | _ \<Rightarrow> [From_room rid x]) outs);
                 s1 = put_room rid r1 s
             in if \<not> resigned
                then (sent @ [To_caller (Error_frame (''Cannot resign '' @ [CHR 0xE2, CHR 0x80, CHR 0x94] @
                        '' game is not in progress''))], s1)
                else (sent, s1))"

definition service_offer_draw :: "service_world \<Rightarrow> request_context \<Rightarrow> server \<Rightarrow> delivery list \<times> server" where
  "service_offer_draw w ctx s =
     (let fd = rc_fd ctx
      in case find_room_by_fd (srv_mgr s) fd of
           None \<Rightarrow> refuse ''You are not in a game'' s
         | Some (rid, r) \<Rightarrow>
             let (res, outs, r1) = offer_draw (env_at w 0) fd r; s1 = put_room rid r1 s; ro = map (From_room rid) outs
             in case res of
                  Inl err \<Rightarrow> (ro @ [To_caller (Error_frame err)], s1)
                | Inr _ \<Rightarrow>
                    (ro @ [To_caller Draw_offer_sent] @
                       notify (get_opponent_fd r1 fd) (Draw_offered (get_username r1 (draw_offer_color r1))), s1))"

definition service_respond_to_draw :: "service_world \<Rightarrow> request_context \<Rightarrow> bool \<Rightarrow> server \<Rightarrow> delivery list \<times> server" where
  "service_respond_to_draw w ctx accept s =
     (let fd = rc_fd ctx
      in case find_room_by_fd (srv_mgr s) fd of
           None \<Rightarrow> refuse ''You are not in a game'' s
         | Some (rid, r) \<Rightarrow>
             let (expired, outs0, r0) = expire_draw_offer (env_at w 0) DRAW_OFFER_TTL_MS r; ro0 = map (From_room rid) outs0
             in if expired \<noteq> C_NONE
                then (let offerer_fd = get_player_fd r0 expired
                      in (ro0 @ [To_caller (Draw_offer_resolved (Some ''expired''))] @
                          (if offerer_fd \<noteq> fd then notify offerer_fd (Draw_declined ''expired'') else []), put_room rid r0 s))
                else let opp = get_opponent_fd r0 fd;
                         (res, outs, r1) = respond_to_draw (env_at w 1) fd accept r0;
                         s1 = put_room rid r1 s; ro = ro0 @ map (From_room rid) outs;
                         over = Game_over ''1/2-1/2'' ''draw_agreement''
                     in case res of
                          Inl err \<Rightarrow> (ro @ [To_caller (Error_frame err)], s1)
                        | Inr _ \<Rightarrow>
                            if \<not> accept
                            then (ro @ [To_caller (Draw_offer_resolved None)] @ notify opp (Draw_declined ''declined''), s1)
                            else (ro @ [To_caller over] @ notify opp over @ [To_spectators rid over], s1))"

definition plays_in :: "room \<Rightarrow> int \<Rightarrow> actor \<Rightarrow> bool" where
  \<comment> \<open>the check of the two rematch requests\<close>
  "plays_in r fd a \<longleftrightarrow> has_player r fd \<and>
     (db_player_id (white r) = a_player_id a \<or> db_player_id (black r) = a_player_id a)"

definition someone_busy :: "manager \<Rightarrow> room \<Rightarrow> bool" where
  "someone_busy m r \<longleftrightarrow> find_room_by_db_player m (db_player_id (white r)) \<noteq> None \<or>
     find_room_by_db_player m (db_player_id (black r)) \<noteq> None"

definition service_offer_rematch ::
  "service_world \<Rightarrow> request_context \<Rightarrow> actor \<Rightarrow> int \<Rightarrow> server \<Rightarrow> delivery list \<times> server" where
  "service_offer_rematch w ctx a game_id s =
     (let fd = rc_fd ctx; rid = room_id_of game_id
      in if game_id \<le> 0 then refuse ''Missing or invalid game_id'' s
         else case find_room (srv_mgr s) rid of
           None \<Rightarrow> refuse ''Finished game not found for this player'' s
         | Some r \<Rightarrow>
             if \<not> plays_in r fd a then refuse ''Finished game not found for this player'' s
             else if someone_busy (srv_mgr s) r then refuse ''A player is already in another game'' s
             else let (res, outs, r1) = offer_rematch (env_at w 0) fd r; s1 = put_room rid r1 s; ro = map (From_room rid) outs
                  in case res of
                       Inl err \<Rightarrow> (ro @ [To_caller (Error_frame err)], s1)
                     | Inr _ \<Rightarrow>
                         (ro @ [To_caller (Rematch_offer_sent game_id REMATCH_OFFER_TTL_MS)] @
                            notify (get_opponent_fd r1 fd) (Rematch_offered game_id (a_username a) REMATCH_OFFER_TTL_MS), s1))"

definition start_rematch :: "service_world \<Rightarrow> request_context \<Rightarrow> room \<Rightarrow> server \<Rightarrow> delivery list \<times> server" where
  \<comment> \<open>the end of an accepted rematch: a new room with the colours exchanged\<close>
  "start_rematch w ctx old s =
     (let old_white_fd = get_player_fd old WHITE; old_black_fd = get_player_fd old BLACK; tc = time_control old
      in if old_white_fd < 0 \<or> old_black_fd < 0 \<or> \<not> is_connected old WHITE \<or> \<not> is_connected old BLACK
         then refuse ''Both players must remain connected for a rematch'' s
         else let (rid, m1) = create_room (rehash_rooms w) (srv_next_player s) (get_username old BLACK) old_black_fd tc
                    (db_player_id (black old)) (elo (black old)) (srv_mgr s);
                  (joined, outs, r1) = join (env_at w 2) (srv_next_player s + 1) (get_username old WHITE) old_white_fd
                    (db_player_id (white old)) (elo (white old)) (the (find_room m1 rid));
                  s1 = s\<lparr>srv_mgr := update_room rid r1 m1, srv_next_player := srv_next_player s + 2\<rparr>;
                  ro = map (From_room rid) outs
              in if \<not> joined
                 then (ro @ [To_caller (Error_frame ''Could not start the rematch'')],
                       s1\<lparr>srv_mgr := remove_room rid (srv_mgr s1)\<rparr>)
                 else let (w_ms, b_ms) = get_remaining_times (env_at w 3) r1;
                          started = (\<lambda>color opponent. Rematch_started rid color opponent w_ms b_ms
                            (base_time_ms tc sdiv 1000) (increment_ms tc sdiv 1000));
                          white_start = started ''white'' (get_username old WHITE);
                          black_start = started ''black'' (get_username old BLACK)
                      in (ro @ (if rc_fd ctx = old_black_fd
                                then [To_caller white_start, To_fd old_white_fd black_start]
                                else [To_caller black_start, To_fd old_black_fd white_start]), s1))"

definition service_respond_to_rematch ::
  "service_world \<Rightarrow> request_context \<Rightarrow> actor \<Rightarrow> int \<Rightarrow> bool \<Rightarrow> server \<Rightarrow> delivery list \<times> server" where
  "service_respond_to_rematch w ctx a game_id accept s =
     (let fd = rc_fd ctx; rid = room_id_of game_id
      in if game_id \<le> 0 then refuse ''Missing or invalid game_id'' s
         else case find_room (srv_mgr s) rid of
           None \<Rightarrow> refuse ''Finished game not found for this player'' s
         | Some old \<Rightarrow>
             if \<not> plays_in old fd a then refuse ''Finished game not found for this player'' s
             else let offerer_fd = get_player_fd old (rematch_offer_color old)
                  in if accept \<and> someone_busy (srv_mgr s) old
                     then (let (res, outs, r1) = respond_to_rematch fd False old
                           in (map (From_room rid) outs @
                               [To_caller (Error_frame ''Rematch unavailable because a player joined another game'')] @
                               notify offerer_fd (Rematch_declined ''unavailable''), put_room rid r1 s))
                     else let (res, outs, r1) = respond_to_rematch fd accept old; s1 = put_room rid r1 s;
                              ro = map (From_room rid) outs
                          in case res of
                               Inl err \<Rightarrow> (ro @ [To_caller (Error_frame err)], s1)
                             | Inr offerer \<Rightarrow>
                                 if \<not> accept
                                 then (ro @ [To_caller (Rematch_offer_resolved ''declined'')] @
                                       notify offerer_fd (Rematch_declined ''declined''), s1)
                                 else let (sent, s2) = start_rematch w ctx r1 s1 in (ro @ sent, s2))"

definition pending_rematch_for :: "int \<Rightarrow> room_table \<Rightarrow> (nat \<times> room \<times> color) option" where
  \<comment> \<open>the loop that selects the newest finished room with an offer and a seat of the player\<close>
  "pending_rematch_for db t =
     foldl (\<lambda>sel (i, r).
         if state r \<noteq> FINISHED \<or> rematch_offer_from r = None then sel
         else let c = seat_of_db r db
              in if c = C_NONE then sel
                 else case sel of
                        None \<Rightarrow> Some (i, r, c)
                      | Some (j, r', c') \<Rightarrow> if room_id r > room_id r' then Some (i, r, c) else sel) None t"

definition service_get_pending_rematch ::
  "service_world \<Rightarrow> request_context \<Rightarrow> actor \<Rightarrow> server \<Rightarrow> delivery list \<times> server" where
  "service_get_pending_rematch w ctx a s =
     (case pending_rematch_for (a_player_id a) (rooms_snapshot (srv_mgr s)) of
        None \<Rightarrow> ([To_caller (Pending_rematch None)], s)
      | Some (rid, r, c) \<Rightarrow>
          let (bound, outs, r1) = on_reconnect_db_player (env_at w 0) (a_player_id a) (rc_fd ctx) (rc_generation ctx) r;
              s1 = put_room rid r1 s; ro = map (From_room rid) outs; offerer = rematch_offer_color r1
          in if \<not> bound then (ro @ [To_caller (Pending_rematch None)], s1)
             else (ro @ [To_caller (Pending_rematch (Some (room_id r1, get_username r1 offerer,
                     (if offerer = c then ''sender'' else ''recipient''), REMATCH_OFFER_TTL_MS)))], s1))"

section \<open>State of a game, recovery of a seat\<close>

definition color_name :: "color \<Rightarrow> string option" where
  "color_name c = (if c = WHITE then Some ''white'' else if c = BLACK then Some ''black'' else None)"

definition game_state_frame :: "env \<Rightarrow> room \<Rightarrow> frame" where
  "game_state_frame e r =
     (let (w_ms, b_ms) = get_remaining_times e r
      in Game_state (room_id r) (get_username r WHITE) (get_username r BLACK) (to_fen (board r)) w_ms b_ms
           (case state r of WAITING \<Rightarrow> ''waiting'' | IN_PROGRESS \<Rightarrow> ''in_progress'' | FINISHED \<Rightarrow> ''finished'')
           (map (\<lambda>x. (mr_san x, mr_think_ms x)) (move_history r))
           (if state r = IN_PROGRESS then get_legal_moves_uci r else [])
           (if state r = IN_PROGRESS then color_name (draw_offer_color r) else None)
           (if state r = FINISHED then Some (result r) else None)
           (if state r = FINISHED then Some (status_to_reason (game_status r)) else None))"

definition service_game_state :: "service_world \<Rightarrow> request_context \<Rightarrow> server \<Rightarrow> delivery list \<times> server" where
  "service_game_state w ctx s =
     (let fd = rc_fd ctx
      in case rc_identity ctx of
           Some a \<Rightarrow>
             (case find_room_by_db_player (srv_mgr s) (a_player_id a) of
                None \<Rightarrow> refuse ''You are not in a game'' s
              | Some (rid, r) \<Rightarrow>
                  let prior_fd = get_player_fd r (if db_player_id (white r) = a_player_id a then WHITE else BLACK);
                      (bound, outs, r1) = on_reconnect_db_player (env_at w 0) (a_player_id a) fd (rc_generation ctx) r;
                      s1 = put_room rid r1 s; ro = map (From_room rid) outs
                  in if \<not> bound then (ro @ [To_caller (Error_frame ''You are not in a game'')], s1)
                     else (ro @ [To_caller (game_state_frame (env_at w 1) r1)] @
                           (if prior_fd \<noteq> fd then notify (get_opponent_fd r1 fd) Opponent_reconnected else []), s1))
         | None \<Rightarrow>
             (case find_room_by_fd (srv_mgr s) fd of
                None \<Rightarrow> refuse ''You are not in a game'' s
              | Some (rid, r) \<Rightarrow> ([To_caller (game_state_frame (env_at w 1) r)], s)))"

definition service_get_active_game :: "service_world \<Rightarrow> request_context \<Rightarrow> actor \<Rightarrow> server \<Rightarrow> delivery list \<times> server" where
  "service_get_active_game w ctx a s =
     (let fd = rc_fd ctx
      in case find_room_by_db_player (srv_mgr s) (a_player_id a) of
           None \<Rightarrow> ([To_caller (Active_game None)], s)
         | Some (rid, r) \<Rightarrow>
             if state r = FINISHED then ([To_caller (Active_game None)], s)
             else let is_white = (db_player_id (white r) = a_player_id a);
                      prior_fd = get_player_fd r (if is_white then WHITE else BLACK);
                      (bound, outs, r1) = on_reconnect_db_player (env_at w 0) (a_player_id a) fd (rc_generation ctx) r;
                      s1 = put_room rid r1 s; ro = map (From_room rid) outs;
                      opponent = (if is_white then BLACK else WHITE);
                      (w_ms, b_ms) = get_remaining_times (env_at w 1) r1; tc = time_control r1
                  in if \<not> bound then (ro @ [To_caller (Active_game None)], s1)
                     else (ro @ [To_caller (Active_game (Some (room_id r1, (if is_white then ''white'' else ''black''),
                             get_username r1 opponent, w_ms, b_ms, base_time_ms tc sdiv 1000, increment_ms tc sdiv 1000,
                             is_ai r1, tournament_id r1, pairing_id r1,
                             (if state r1 = WAITING then ''waiting'' else ''in_progress''))))] @
                           (if prior_fd \<noteq> fd then notify (get_player_fd r1 opponent) Opponent_reconnected else []), s1))"

section \<open>Creation of games and the queue\<close>

definition already_playing :: "manager \<Rightarrow> int \<Rightarrow> room option" where
  "already_playing m fd =
     (case find_room_by_fd m fd of
        None \<Rightarrow> None
      | Some (rid, r) \<Rightarrow> if state r \<noteq> FINISHED then Some r else None)"

definition playing_error :: "room \<Rightarrow> string" where
  "playing_error r = ''You are already in a game (ID: '' @ dec_nat (room_id r) @ '')''"

definition request_time_control :: "int \<Rightarrow> int \<Rightarrow> time_control" where
  "request_time_control base_sec inc_sec = \<lparr>base_time_ms = base_sec * 1000, increment_ms = inc_sec * 1000\<rparr>"

abbreviation (input) checked_in_error :: string where
  "checked_in_error \<equiv> ''You are checked in for a tournament round''"

definition service_create_game ::
  "service_world \<Rightarrow> request_context \<Rightarrow> actor \<Rightarrow> int \<Rightarrow> int \<Rightarrow> server \<Rightarrow> delivery list \<times> server" where
  "service_create_game w ctx a base_sec inc_sec s =
     (if is_tournament_player_reserved (srv_mgr s) (a_player_id a) then refuse checked_in_error s
      else case already_playing (srv_mgr s) (rc_fd ctx) of
        Some r \<Rightarrow> refuse (playing_error r) s
      | None \<Rightarrow>
          let (rid, m1) = create_room (rehash_rooms w) (srv_next_player s) (a_username a) (rc_fd ctx)
                (request_time_control base_sec inc_sec) (a_player_id a) (a_elo a) (srv_mgr s)
          in ([To_caller (Game_created rid ''white'')],
              s\<lparr>srv_mgr := m1, srv_next_player := srv_next_player s + 1\<rparr>))"

definition service_join_game ::
  "service_world \<Rightarrow> request_context \<Rightarrow> actor \<Rightarrow> int \<Rightarrow> server \<Rightarrow> delivery list \<times> server" where
  "service_join_game w ctx a game_id s =
     (let rid = room_id_of game_id
      in if is_tournament_player_reserved (srv_mgr s) (a_player_id a) then refuse checked_in_error s
         else if game_id \<le> 0 then refuse ''Missing or invalid game_id'' s
         else case already_playing (srv_mgr s) (rc_fd ctx) of
           Some r \<Rightarrow> refuse (playing_error r) s
         | None \<Rightarrow>
             case find_room (srv_mgr s) rid of
               None \<Rightarrow> refuse (''Game '' @ dec_int game_id @ '' not found'') s
             | Some r \<Rightarrow>
                 let (joined, outs, r1) = join (env_at w 0) (srv_next_player s) (a_username a) (rc_fd ctx)
                       (a_player_id a) (a_elo a) r;
                     s1 = (put_room rid r1 s)\<lparr>srv_next_player := srv_next_player s + 1\<rparr>; ro = map (From_room rid) outs;
                     (w_ms, b_ms) = get_remaining_times (env_at w 1) r1
                 in if \<not> joined
                    then (ro @ [To_caller (Error_frame (''Cannot join game '' @ dec_int game_id @ '' '' @
                            [CHR 0xE2, CHR 0x80, CHR 0x94] @ '' it may be full or already started''))], s1)
                    else (ro @ [To_caller (Game_joined game_id ''black'' w_ms b_ms)] @
                          notify (get_player_fd r1 WHITE) (Game_start game_id ''white'' (a_username a) w_ms b_ms False), s1))"

definition service_quick_play ::
  "service_world \<Rightarrow> request_context \<Rightarrow> actor \<Rightarrow> int \<Rightarrow> int \<Rightarrow> server \<Rightarrow> delivery list \<times> server" where
  "service_quick_play w ctx a base_sec inc_sec s =
     (let fd = rc_fd ctx
      in if is_tournament_player_reserved (srv_mgr s) (a_player_id a) then refuse checked_in_error s
         else case already_playing (srv_mgr s) fd of
           Some r \<Rightarrow> refuse (playing_error r) s
         | None \<Rightarrow>
             if is_queued (srv_queue s) fd then refuse ''You are already in the matchmaking queue'' s
             else let (added, q1) = enqueue (world.truncate w) fd (srv_next_player s) (a_username a) (a_elo a)
                        (request_time_control base_sec inc_sec) (a_player_id a) (srv_queue s);
                      (rs, outs, q2, m2) = try_match (world.truncate w) q1 (srv_mgr s);
                      s1 = s\<lparr>srv_queue := q2, srv_mgr := m2, srv_next_player := srv_next_player s + 1\<rparr>
                  in (map (\<lambda>x. case x of Match_room rid y \<Rightarrow> From_room rid y | Match_callback r \<Rightarrow> Match_made r) outs @
                      (if is_queued q2 fd then [To_caller (Queued (to_int32 (int (queue_size q2))))] else []), s1))"

definition service_cancel_queue :: "request_context \<Rightarrow> server \<Rightarrow> delivery list \<times> server" where
  "service_cancel_queue ctx s =
     (let (left, q1) = dequeue (rc_fd ctx) (srv_queue s)
      in if left then ([To_caller Queue_cancelled], s\<lparr>srv_queue := q1\<rparr>)
         else refuse ''You are not in the matchmaking queue'' s)"

definition service_list_games :: "server \<Rightarrow> delivery list \<times> server" where
  "service_list_games s =
     ([To_caller (Game_list (map (\<lambda>i. (ri_id i, ri_white_name i, ri_time_control i)) (list_open_rooms (srv_mgr s))))], s)"

definition service_play_ai ::
  "service_world \<Rightarrow> request_context \<Rightarrow> actor \<Rightarrow> string \<Rightarrow> int \<Rightarrow> int \<Rightarrow> server \<Rightarrow> delivery list \<times> server" where
  "service_play_ai w ctx a difficulty base_sec inc_sec s =
     (if is_tournament_player_reserved (srv_mgr s) (a_player_id a) then refuse checked_in_error s
      else case already_playing (srv_mgr s) (rc_fd ctx) of
        Some r \<Rightarrow> refuse (playing_error r) s
      | None \<Rightarrow>
          let diff = parse_difficulty difficulty;
              (rid, m1) = create_ai_room (rehash_rooms w) (env_at w 0) (srv_next_player s) (a_username a) (rc_fd ctx)
                (request_time_control base_sec inc_sec) diff (a_player_id a) (a_elo a) (srv_mgr s);
              r = the (find_room m1 rid); (w_ms, b_ms) = get_remaining_times (env_at w 1) r
          in ([To_caller (Game_start (int (room_id r)) ''white'' (''AI ('' @ difficulty_name diff @ '')'') w_ms b_ms True)],
              s\<lparr>srv_mgr := m1, srv_next_player := srv_next_player s + 1\<rparr>))"

section \<open>Disconnections and the sweep\<close>

definition on_player_disconnect :: "service_world \<Rightarrow> int \<Rightarrow> server \<Rightarrow> delivery list \<times> server" where
  "on_player_disconnect w fd s =
     (let s0 = s\<lparr>srv_queue := snd (dequeue fd (srv_queue s))\<rparr>;
          (sent, s1) = (case find_room_by_fd (srv_mgr s0) fd of
              None \<Rightarrow> ([], s0)
            | Some (rid, r) \<Rightarrow>
                let opp = get_opponent_fd r fd; (u, outs, r1) = on_disconnect (env_at w 0) fd r
                in (map (From_room rid) outs @
                    (if state r1 = IN_PROGRESS then notify opp (Opponent_disconnected DISCONNECT_GRACE_MS) else []),
                    put_room rid r1 s0))
      in (sent, s1\<lparr>srv_mgr := snd (remove_spectator_everywhere fd (srv_mgr s1))\<rparr>))"

definition offer_expired :: "room \<Rightarrow> color \<Rightarrow> frame \<Rightarrow> frame \<Rightarrow> delivery list" where
  \<comment> \<open>the notices of an expired offer to the one who made it and to the other\<close>
  "offer_expired r c declined resolved =
     notify_seat r c declined @ notify_seat r (if c = WHITE then BLACK else WHITE) resolved"

definition expire_room :: "service_world \<Rightarrow> nat \<Rightarrow> nat \<Rightarrow> room \<Rightarrow> delivery list \<times> room" where
  \<comment> \<open>one round of the sweep; its calls use the clock reads from \<open>k\<close> on\<close>
  "expire_room w k rid r =
     (let (flagged, outs0, r0) = expire_on_time (env_at w k) r; ro0 = map (From_room rid) outs0;
          over = (\<lambda>x why. Game_over (result x) why);
          ended = (\<lambda>x why. notify_seat x WHITE (over x why) @ notify_seat x BLACK (over x why) @ [To_spectators rid (over x why)])
      in if flagged then (ro0 @ ended r0 ''timeout'', r0)
         else let (draw, outs1, r1) = expire_draw_offer (env_at w (k + 1)) DRAW_OFFER_TTL_MS r0;
                  (rematch, outs2, r2) = expire_rematch_offer (env_at w (k + 2)) REMATCH_OFFER_TTL_MS r1;
                  (abandoned, outs3, r3) = expire_disconnected (env_at w (k + 3)) DISCONNECT_GRACE_MS r2
              in (ro0 @ map (From_room rid) outs1 @
                  (if draw \<noteq> C_NONE
                   then offer_expired r1 draw (Draw_declined ''expired'') (Draw_offer_resolved (Some ''expired'')) else []) @
                  map (From_room rid) outs2 @
                  (if rematch \<noteq> C_NONE
                   then offer_expired r2 rematch (Rematch_declined ''expired'') (Rematch_offer_resolved ''expired'') else []) @
                  map (From_room rid) outs3 @ (if abandoned then ended r3 ''abandonment'' else []), r3))"

fun expire_rooms :: "service_world \<Rightarrow> nat \<Rightarrow> room_table \<Rightarrow> server \<Rightarrow> delivery list \<times> server" where
  "expire_rooms w k [] s = ([], s)"
| "expire_rooms w k ((rid, r) # t) s =
     (let (sent, r1) = expire_room w k rid r; (more, s1) = expire_rooms w (k + 4) t (put_room rid r1 s)
      in (sent @ more, s1))"

definition expire_disconnected_games :: "service_world \<Rightarrow> server \<Rightarrow> delivery list \<times> server" where
  "expire_disconnected_games w s = expire_rooms w 0 (rooms_snapshot (srv_mgr s)) s"

section \<open>The service as a machine\<close>

datatype request =
    Rq_make_move string string "char option"
  | Rq_resign
  | Rq_offer_draw
  | Rq_respond_to_draw bool
  | Rq_offer_rematch actor int
  | Rq_respond_to_rematch actor int bool
  | Rq_get_pending_rematch actor
  | Rq_game_state
  | Rq_get_active_game actor
  | Rq_create_game actor int int
  | Rq_join_game actor int
  | Rq_quick_play actor int int
  | Rq_cancel_queue
  | Rq_list_games
  | Rq_play_ai actor string int int
  | Rq_disconnect
  | Rq_sweep

fun serve :: "service_world \<Rightarrow> request_context \<Rightarrow> request \<Rightarrow> server \<Rightarrow> delivery list \<times> server" where
  "serve w ctx (Rq_make_move from to promo) s = service_make_move w ctx from to promo s"
| "serve w ctx Rq_resign s = service_resign w ctx s"
| "serve w ctx Rq_offer_draw s = service_offer_draw w ctx s"
| "serve w ctx (Rq_respond_to_draw accept) s = service_respond_to_draw w ctx accept s"
| "serve w ctx (Rq_offer_rematch a g) s = service_offer_rematch w ctx a g s"
| "serve w ctx (Rq_respond_to_rematch a g accept) s = service_respond_to_rematch w ctx a g accept s"
| "serve w ctx (Rq_get_pending_rematch a) s = service_get_pending_rematch w ctx a s"
| "serve w ctx Rq_game_state s = service_game_state w ctx s"
| "serve w ctx (Rq_get_active_game a) s = service_get_active_game w ctx a s"
| "serve w ctx (Rq_create_game a base inc) s = service_create_game w ctx a base inc s"
| "serve w ctx (Rq_join_game a g) s = service_join_game w ctx a g s"
| "serve w ctx (Rq_quick_play a base inc) s = service_quick_play w ctx a base inc s"
| "serve w ctx Rq_cancel_queue s = service_cancel_queue ctx s"
| "serve w ctx Rq_list_games s = service_list_games s"
| "serve w ctx (Rq_play_ai a diff base inc) s = service_play_ai w ctx a diff base inc s"
| "serve w ctx Rq_disconnect s = on_player_disconnect w (rc_fd ctx) s"
| "serve w ctx Rq_sweep s = expire_disconnected_games w s"

section \<open>What a request may call\<close>

inductive called :: "(room_op \<Rightarrow> bool) \<Rightarrow> room \<Rightarrow> room \<Rightarrow> bool" for A where
  called_none [intro]: "called A r r"
| called_op: "called A r r1 \<Longrightarrow> A opn \<Longrightarrow> called A r (snd (exec_op opn e r1))"

fun permitted :: "request_context \<Rightarrow> request \<Rightarrow> room_op \<Rightarrow> bool" where
  \<comment> \<open>the calls a request may make on a room that is already registered\<close>
  "permitted ctx (Rq_make_move from to promo) opn =
     (case opn of
        Submit_move fd f t p \<Rightarrow> fd = rc_fd ctx \<and> f = parse_square from \<and> t = parse_square to \<and> p = promotion_of promo
      | Submit_move_ai f t p \<Rightarrow> True | _ \<Rightarrow> False)"
| "permitted ctx Rq_resign opn \<longleftrightarrow> opn = Resign (rc_fd ctx) True"
| "permitted ctx Rq_offer_draw opn \<longleftrightarrow> opn = Offer_draw (rc_fd ctx)"
| "permitted ctx (Rq_respond_to_draw acc) opn \<longleftrightarrow>
     opn = Respond_draw (rc_fd ctx) acc \<or> opn = Expire_draw DRAW_OFFER_TTL_MS"
| "permitted ctx (Rq_offer_rematch a g) opn \<longleftrightarrow> opn = Offer_rematch (rc_fd ctx)"
| "permitted ctx (Rq_respond_to_rematch a g acc) opn \<longleftrightarrow>
     opn = Respond_rematch (rc_fd ctx) acc \<or> opn = Respond_rematch (rc_fd ctx) False"
| "permitted ctx (Rq_get_pending_rematch a) opn \<longleftrightarrow> opn = Reconnect_db (a_player_id a) (rc_fd ctx) (rc_generation ctx)"
| "permitted ctx Rq_game_state opn \<longleftrightarrow>
     (\<exists>a. rc_identity ctx = Some a \<and> opn = Reconnect_db (a_player_id a) (rc_fd ctx) (rc_generation ctx))"
| "permitted ctx (Rq_get_active_game a) opn \<longleftrightarrow> opn = Reconnect_db (a_player_id a) (rc_fd ctx) (rc_generation ctx)"
| "permitted ctx (Rq_join_game a g) opn \<longleftrightarrow> (\<exists>pid. opn = Join pid (a_username a) (rc_fd ctx) (a_player_id a) (a_elo a))"
| "permitted ctx Rq_disconnect opn \<longleftrightarrow> opn = Disconnect (rc_fd ctx) \<or> opn = Remove_spectator (rc_fd ctx)"
| "permitted ctx Rq_sweep opn \<longleftrightarrow>
     opn \<in> {Expire_on_time, Expire_draw DRAW_OFFER_TTL_MS, Expire_rematch REMATCH_OFFER_TTL_MS,
       Expire_disconnected DISCONNECT_GRACE_MS}"
| "permitted ctx (Rq_create_game a base inc) opn \<longleftrightarrow> False"
| "permitted ctx (Rq_quick_play a base inc) opn \<longleftrightarrow> False"
| "permitted ctx Rq_cancel_queue opn \<longleftrightarrow> False"
| "permitted ctx Rq_list_games opn \<longleftrightarrow> False"
| "permitted ctx (Rq_play_ai a diff base inc) opn \<longleftrightarrow> False"

lemma called_trans: "called A b c \<Longrightarrow> called A a b \<Longrightarrow> called A a c"
  by (induction rule: called.induct) (auto intro: called_op)

lemma called_sound: "called A r r' \<Longrightarrow> (reachable_room r \<longrightarrow> reachable_room r') \<and> room_id r' = room_id r"
  by (induction rule: called.induct) (auto intro: reachable_step)

lemma called_op_of: "snd out = snd (exec_op opn e b) \<Longrightarrow> called A a b \<Longrightarrow> A opn \<Longrightarrow> called A a (snd out)"
  by (simp add: called_op)

lemma called_calls [intro]:
  "called A a b \<Longrightarrow> A (Submit_move fd f t p) \<Longrightarrow> called A a (snd (snd (submit_move e fd f t p b)))"
  "called A a b \<Longrightarrow> A (Submit_move_ai f t p) \<Longrightarrow> called A a (snd (snd (submit_move_ai e f t p b)))"
  "called A a b \<Longrightarrow> A (Resign fd cb) \<Longrightarrow> called A a (snd (snd (resign e fd cb b)))"
  "called A a b \<Longrightarrow> A (Offer_draw fd) \<Longrightarrow> called A a (snd (snd (offer_draw e fd b)))"
  "called A a b \<Longrightarrow> A (Respond_draw fd acc) \<Longrightarrow> called A a (snd (snd (respond_to_draw e fd acc b)))"
  "called A a b \<Longrightarrow> A (Expire_draw ttl) \<Longrightarrow> called A a (snd (snd (expire_draw_offer e ttl b)))"
  "called A a b \<Longrightarrow> A (Offer_rematch fd) \<Longrightarrow> called A a (snd (snd (offer_rematch e fd b)))"
  "called A a b \<Longrightarrow> A (Respond_rematch fd acc) \<Longrightarrow> called A a (snd (snd (respond_to_rematch fd acc b)))"
  "called A a b \<Longrightarrow> A (Expire_rematch ttl) \<Longrightarrow> called A a (snd (snd (expire_rematch_offer e ttl b)))"
  "called A a b \<Longrightarrow> A Expire_on_time \<Longrightarrow> called A a (snd (snd (expire_on_time e b)))"
  "called A a b \<Longrightarrow> A (Disconnect fd) \<Longrightarrow> called A a (snd (snd (on_disconnect e fd b)))"
  "called A a b \<Longrightarrow> A (Reconnect_db db fd gen) \<Longrightarrow> called A a (snd (snd (on_reconnect_db_player e db fd gen b)))"
  "called A a b \<Longrightarrow> A (Expire_disconnected grace) \<Longrightarrow> called A a (snd (snd (expire_disconnected e grace b)))"
  "called A a b \<Longrightarrow> A (Join pid name fd db rating) \<Longrightarrow> called A a (snd (snd (join e pid name fd db rating b)))"
  "called A a b \<Longrightarrow> A (Remove_spectator fd) \<Longrightarrow> called A a (snd (snd (remove_spectator fd b)))"
  by (auto intro: called_op_of exec_op.simps [THEN arg_cong, of snd, symmetric])

section \<open>Every room of the server is reachable\<close>

definition server_ok :: "server \<Rightarrow> bool" where
  "server_ok s \<longleftrightarrow> manager_ok (srv_mgr s) \<and> queue_ok (srv_queue s)"

definition service_world_ok :: "service_world \<Rightarrow> bool" where
  "service_world_ok w \<longleftrightarrow> world_ok (world.truncate w) \<and> sort_ok (search_at w)"

definition rooms_called :: "(room_op \<Rightarrow> bool) \<Rightarrow> manager \<Rightarrow> manager \<Rightarrow> bool" where
  "rooms_called A m m' \<longleftrightarrow>
     (\<forall>i r. find_room m i = Some r \<longrightarrow> (\<exists>r'. find_room m' i = Some r' \<and> called A r r'))"

definition served :: "(room_op \<Rightarrow> bool) \<Rightarrow> server \<Rightarrow> server \<Rightarrow> bool" where
  "served A s s' \<longleftrightarrow> server_ok s' \<and> rooms_called A (srv_mgr s) (srv_mgr s')"

lemma rooms_called_refl [intro]: "rooms_called A m m"
  by (auto simp: rooms_called_def)

lemma rooms_called_trans: "rooms_called A a b \<Longrightarrow> rooms_called A b c \<Longrightarrow> rooms_called A a c"
  unfolding rooms_called_def by (meson called_trans)

lemma served_refl: "server_ok s \<Longrightarrow> served A s s"
  by (auto simp: served_def)

lemma rooms_called_update:
  assumes "manager_ok m" and "(i, r) \<in> set (rooms m)" and "called A r r'"
  shows "rooms_called A m (update_room i r' m)"
  using assms find_room_registered [OF assms(1), of i r] by (auto simp: rooms_called_def find_update_room)

lemma server_put:
  assumes "served A s0 s" and "(i, r) \<in> set (rooms (srv_mgr s))" and "called A r r'"
  shows "served A s0 (put_room i r' s)"
proof -
  have "manager_ok (srv_mgr s)" using assms(1) by (simp add: served_def server_ok_def)
  then show ?thesis
    using assms manager_okD [of "srv_mgr s" i r] called_sound [OF assms(3)] rooms_called_update [of "srv_mgr s" i r A r']
    by (auto simp: served_def server_ok_def put_room_def intro!: update_room_ok intro: rooms_called_trans)
qed

lemma served_fields [simp]:
  "served A s0 (s\<lparr>srv_next_player := k\<rparr>) = served A s0 s" "served A s0 (s\<lparr>srv_ai := ai\<rparr>) = served A s0 s"
  by (simp_all add: served_def server_ok_def)

lemmas find_members = find_room_member find_room_by_fd_member [THEN conjunct1] find_room_by_db_member

lemmas serving = refuse_def Let_def split_beta

lemma trigger_ai_served:
  "served A s0 s \<Longrightarrow> (\<And>f t p. A (Submit_move_ai f t p)) \<Longrightarrow> served A s0 (snd (trigger_ai_move w rid fd s))"
  by (auto simp: trigger_ai_move_def serving intro!: server_put [where s = "s\<lparr>srv_ai := x\<rparr>" for x]
      dest: find_members split: option.splits)

lemma service_make_move_served:
  "server_ok s \<Longrightarrow> served (permitted ctx (Rq_make_move from to promo)) s (snd (service_make_move w ctx from to promo s))"
  by (auto simp: service_make_move_def serving intro!: trigger_ai_served server_put served_refl called_calls
      dest: find_members split: option.splits)

lemma service_resign_served: "server_ok s \<Longrightarrow> served (permitted ctx Rq_resign) s (snd (service_resign w ctx s))"
  by (auto simp: service_resign_def serving intro!: server_put served_refl dest: find_members split: option.splits)

lemma service_offer_draw_served:
  "server_ok s \<Longrightarrow> served (permitted ctx Rq_offer_draw) s (snd (service_offer_draw w ctx s))"
  by (auto simp: service_offer_draw_def serving intro!: server_put served_refl dest: find_members
      split: option.splits sum.splits)

lemma service_respond_to_draw_served:
  assumes "server_ok s"
  shows "served (permitted ctx (Rq_respond_to_draw acc)) s (snd (service_respond_to_draw w ctx acc s))"
proof -
  have put: "served (permitted ctx (Rq_respond_to_draw acc)) s (put_room i r' s)"
    if "find_room_by_fd (srv_mgr s) fd = Some (i, r)" "called (permitted ctx (Rq_respond_to_draw acc)) r r'" for i r r' fd
    using server_put [OF served_refl [OF assms]] that find_members(2) by blast
  have draw: "called (permitted ctx (Rq_respond_to_draw acc)) r (snd (snd (expire_draw_offer e DRAW_OFFER_TTL_MS r)))"
    "called (permitted ctx (Rq_respond_to_draw acc)) r
      (snd (snd (respond_to_draw e' (rc_fd ctx) acc (snd (snd (expire_draw_offer e DRAW_OFFER_TTL_MS r))))))" for e e' r
    by (auto intro!: called_calls)
  show ?thesis
    using served_refl [OF assms] put [OF _ draw(1)] put [OF _ draw(2)]
    by (cases acc) (simp_all add: service_respond_to_draw_def serving del: permitted.simps split: option.split sum.split)
qed

lemma service_offer_rematch_served:
  assumes "server_ok s"
  shows "served (permitted ctx (Rq_offer_rematch a g)) s (snd (service_offer_rematch w ctx a g s))"
proof -
  have "called (permitted ctx (Rq_offer_rematch a g)) r (snd (snd (offer_rematch e (rc_fd ctx) r)))" for e r
    by (auto intro!: called_calls)
  then have put: "find_room (srv_mgr s) i = Some r \<Longrightarrow>
      served (permitted ctx (Rq_offer_rematch a g)) s (put_room i (snd (snd (offer_rematch e (rc_fd ctx) r))) s)" for i r e
    by (intro server_put [OF served_refl [OF assms] find_room_member])
  show ?thesis
  proof (cases "find_room (srv_mgr s) (room_id_of g)")
    case None
    then show ?thesis using served_refl [OF assms] by (simp add: service_offer_rematch_def serving del: permitted.simps)
  next
    case (Some r)
    have "snd (service_offer_rematch w ctx a g s) = s \<or>
        snd (service_offer_rematch w ctx a g s) =
          put_room (room_id_of g) (snd (snd (offer_rematch (env_at w 0) (rc_fd ctx) r))) s"
      using Some by (simp add: service_offer_rematch_def serving split: sum.split)
    then show ?thesis using put [OF Some] served_refl [OF assms] by metis
  qed
qed

lemma foldl_select:
  assumes "\<And>sel i r. f sel (i, r) = sel \<or> (\<exists>c. f sel (i, r) = Some (i, r, c))"
  shows "foldl f sel t = Some (i, r, c) \<Longrightarrow> sel = Some (i, r, c) \<or> (i, r) \<in> set t"
proof (induction t arbitrary: sel)
  case (Cons x t)
  obtain j y where x: "x = (j, y)" by (cases x)
  have "f sel x = Some (i, r, c) \<or> (i, r) \<in> set t" using Cons(1) [of "f sel x"] Cons(2) by simp
  then show ?case using assms [of sel j y] x by fastforce
qed simp

lemma pending_rematch_member:
  assumes "pending_rematch_for db t = Some (i, r, c)"
  shows "(i, r) \<in> set t"
proof -
  have "None = Some (i, r, c) \<or> (i, r) \<in> set t"
    by (rule foldl_select [OF _ assms [unfolded pending_rematch_for_def]])
      (simp add: Let_def case_prod_unfold split: option.split)
  then show ?thesis by simp
qed

lemma service_get_pending_rematch_served:
  "server_ok s \<Longrightarrow> served (permitted ctx (Rq_get_pending_rematch a)) s (snd (service_get_pending_rematch w ctx a s))"
  by (auto simp: service_get_pending_rematch_def rooms_snapshot_def serving intro!: server_put served_refl
      dest: pending_rematch_member split: option.splits)

lemma service_game_state_served:
  "server_ok s \<Longrightarrow> served (permitted ctx Rq_game_state) s (snd (service_game_state w ctx s))"
  by (auto simp: service_game_state_def serving intro!: server_put served_refl dest: find_members split: option.splits)

lemma service_get_active_game_served:
  "server_ok s \<Longrightarrow> served (permitted ctx (Rq_get_active_game a)) s (snd (service_get_active_game w ctx a s))"
  by (auto simp: service_get_active_game_def serving intro!: server_put served_refl dest: find_members
      split: option.splits)

lemma service_join_game_served:
  "server_ok s \<Longrightarrow> served (permitted ctx (Rq_join_game a g)) s (snd (service_join_game w ctx a g s))"
  by (auto simp: service_join_game_def serving intro!: server_put served_refl dest: find_members split: option.splits)

lemma service_cancel_queue_served: "server_ok s \<Longrightarrow> served A s (snd (service_cancel_queue ctx s))"
  by (auto simp: service_cancel_queue_def refuse_def served_def server_ok_def dequeue_ok split_beta)

lemma find_spectators:
  "find_room (snd (remove_spectator_everywhere fd m)) i = map_option (\<lambda>r. snd (snd (remove_spectator fd r))) (find_room m i)"
proof -
  have "map_of (map (\<lambda>(i, r). (i, snd (snd (remove_spectator fd r)))) t) i =
      map_option (\<lambda>r. snd (snd (remove_spectator fd r))) (map_of t i)" for t
    by (induction t) auto
  then show ?thesis by (simp add: find_room_def remove_spectator_everywhere_def)
qed

lemma spectators_called: "A (Remove_spectator fd) \<Longrightarrow> rooms_called A m (snd (remove_spectator_everywhere fd m))"
  by (auto simp: rooms_called_def find_spectators)

lemma served_spectators:
  "served A s0 s \<Longrightarrow> A (Remove_spectator fd) \<Longrightarrow>
   served A s0 (s\<lparr>srv_mgr := snd (remove_spectator_everywhere fd (srv_mgr s))\<rparr>)"
  using spectators_called [of A fd "srv_mgr s"] remove_ok(3) [of "srv_mgr s" fd]
  by (auto simp: served_def server_ok_def intro: rooms_called_trans)

lemma on_player_disconnect_served:
  assumes "server_ok s"
  shows "served (permitted ctx Rq_disconnect) s (snd (on_player_disconnect w (rc_fd ctx) s))"
proof -
  let ?A = "permitted ctx Rq_disconnect" and ?s0 = "s\<lparr>srv_queue := snd (dequeue (rc_fd ctx) (srv_queue s))\<rparr>"
  have start: "served ?A s ?s0" using assms by (auto simp: served_def server_ok_def dequeue_ok)
  have "served ?A s (snd (case find_room_by_fd (srv_mgr ?s0) (rc_fd ctx) of
      None \<Rightarrow> ([], ?s0)
    | Some (rid, r) \<Rightarrow>
        let opp = get_opponent_fd r (rc_fd ctx); (u, outs, r1) = on_disconnect (env_at w 0) (rc_fd ctx) r
        in (map (From_room rid) outs @
            (if state r1 = IN_PROGRESS then notify opp (Opponent_disconnected DISCONNECT_GRACE_MS) else []),
            put_room rid r1 ?s0)))"
    using start by (auto simp: Let_def split_beta intro!: server_put dest: find_members split: option.splits)
  then show ?thesis
    unfolding on_player_disconnect_def Let_def split_beta snd_conv by (rule served_spectators) simp
qed

lemma expire_room_called: "called (permitted ctx Rq_sweep) r (snd (expire_room w k rid r))"
  by (auto simp: expire_room_def Let_def split_beta intro!: called_calls)

lemma expire_rooms_served:
  assumes "served A s0 s" and "distinct (map fst t)" and "\<And>i r. (i, r) \<in> set t \<Longrightarrow> (i, r) \<in> set (rooms (srv_mgr s))"
    and "\<And>k i r. called A r (snd (expire_room w k i r))"
  shows "served A s0 (snd (expire_rooms w k t s))"
  using assms
proof (induction w k t s rule: expire_rooms.induct)
  case (1 w k s)
  then show ?case by simp
next
  case (2 w k rid r t s)
  obtain sent r1 where e: "expire_room w k rid r = (sent, r1)" by fastforce
  have "served A s0 (put_room rid r1 s)"
    using server_put [OF 2(2), of rid r r1] 2(4) [of rid r] 2(5) [of r k rid] e by simp
  moreover have "(i, x) \<in> set (rooms (srv_mgr (put_room rid r1 s)))" if "(i, x) \<in> set t" for i x
  proof -
    have "i \<noteq> rid" using 2(3) that by force
    then show ?thesis using 2(4) [of i x] that by (simp add: put_room_def update_room_def replace_entry_set)
  qed
  ultimately show ?case using 2(1) [OF e [symmetric] refl _ _ _ 2(5)] 2(3) e by (simp add: split_beta)
qed

lemma expire_disconnected_games_served:
  "server_ok s \<Longrightarrow> served (permitted ctx Rq_sweep) s (snd (expire_disconnected_games w s))"
  unfolding expire_disconnected_games_def rooms_snapshot_def
  by (rule expire_rooms_served [OF served_refl _ _ expire_room_called]) (simp_all add: server_ok_def manager_ok_def)

section \<open>New rooms\<close>

definition fresh_ids :: "nat \<Rightarrow> manager \<Rightarrow> bool" where
  \<comment> \<open>the counter is beyond every registered room, and \<open>k\<close> more rooms do not make it wrap\<close>
  "fresh_ids k m \<longleftrightarrow> (\<forall>i \<in> fst ` set (rooms m). i < unat (next_id m)) \<and> unat (next_id m) + k < 2 ^ 32"

definition opened :: "(room_op \<Rightarrow> bool) \<Rightarrow> nat \<Rightarrow> manager \<Rightarrow> manager \<Rightarrow> bool" where
  \<comment> \<open>from one manager to another that made at most \<open>k\<close> rooms\<close>
  "opened A k m m' \<longleftrightarrow> (\<forall>n. fresh_ids (k + n) m \<longrightarrow> rooms_called A m m' \<and> fresh_ids n m')"

lemma fresh_ids_mono: "fresh_ids (Suc k) m \<Longrightarrow> fresh_ids k m"
  by (simp add: fresh_ids_def)

lemma store_room_keys: "rehash_ok h \<Longrightarrow> fst ` set (rooms (store_room h i r m)) = insert i (fst ` set (rooms m))"
proof (cases "i \<in> fst ` set (rooms m)")
  case True
  moreover have "fst ` set (replace_entry i r (rooms m)) = fst ` set (rooms m)"
    by (simp only: set_map [symmetric] replace_entry_keys)
  ultimately show ?thesis by (simp add: store_room_def insert_absorb)
qed (simp add: store_room_def rehash_set)

lemma register_opened:
  assumes "rehash_ok h" and "manager_ok m"
  shows "opened A 1 m (register_room h (unat (next_id m)) r (m\<lparr>next_id := next_id m + 1\<rparr>))"
  unfolding opened_def
proof (intro allI impI)
  fix n
  assume fresh: "fresh_ids (1 + n) m"
  let ?m1 = "m\<lparr>next_id := next_id m + 1\<rparr>"
  let ?r = "snd (snd (add_listener (default_listener ?m1) r))"
  have ok: "manager_ok ?m1" using assms(2) by (simp add: manager_ok_def)
  have "unat (next_id m) \<notin> fst ` set (rooms m)" using fresh by (auto simp: fresh_ids_def)
  then have "find_room m (unat (next_id m)) = None" by (simp add: find_room_def map_of_eq_None_iff)
  then have "rooms_called A m (store_room h (unat (next_id m)) ?r ?m1)"
    using find_store_room [OF assms(1) ok, of "unat (next_id m)" ?r] by (auto simp: rooms_called_def find_room_def)
  moreover have "unat (next_id m + 1) = unat (next_id m) + 1"
    using fresh by (simp add: fresh_ids_def unat_word_ariths)
  then have "fresh_ids n (store_room h (unat (next_id m)) ?r ?m1)"
    using fresh store_room_keys [OF assms(1), of "unat (next_id m)" ?r ?m1] by (auto simp: fresh_ids_def)
  ultimately show "rooms_called A m (register_room h (unat (next_id m)) r ?m1) \<and>
      fresh_ids n (register_room h (unat (next_id m)) r ?m1)"
    by (simp add: register_room_def)
qed

lemma create_opened:
  assumes "rehash_ok h" and "manager_ok m"
  shows "opened A 1 m (snd (create_room h pid name fd tc db rating m))"
    and "opened A 1 m (snd (create_ai_room h e pid name fd tc diff db rating m))"
  using register_opened [OF assms] by (simp_all add: create_room_def create_ai_room_def Let_def)

lemma opened_trans: "opened A j a b \<Longrightarrow> opened A k b c \<Longrightarrow> opened A (j + k) a c"
  unfolding opened_def by (metis (no_types, lifting) add.assoc rooms_called_trans)

lemma opened_refl: "opened A k m m"
  by (auto simp: opened_def fresh_ids_def)

lemma opened_called: "opened A k m m' \<Longrightarrow> fresh_ids k m \<Longrightarrow> rooms_called A m m'"
  unfolding opened_def using add_0_right by metis

lemma opened_mono: "opened A j m m' \<Longrightarrow> j \<le> k \<Longrightarrow> opened A k m m'"
  unfolding opened_def
proof (intro allI impI)
  fix n
  assume open_j: "\<forall>n. fresh_ids (j + n) m \<longrightarrow> rooms_called A m m' \<and> fresh_ids n m'" and le: "j \<le> k"
    and fresh: "fresh_ids (k + n) m"
  have "fresh_ids (j + (k - j + n)) m" using fresh le by simp
  then show "rooms_called A m m' \<and> fresh_ids n m'" using open_j by (auto simp: fresh_ids_def)
qed

lemma opened_update:
  assumes "opened A 1 m m'"
  shows "opened A 1 m (update_room (unat (next_id m)) r m')"
  unfolding opened_def
proof (intro allI impI)
  fix n
  assume fresh: "fresh_ids (1 + n) m"
  then have m': "rooms_called A m m'" "fresh_ids n m'" using assms by (auto simp: opened_def)
  have "unat (next_id m) \<notin> fst ` set (rooms m)" using fresh by (auto simp: fresh_ids_def)
  then have "find_room m (unat (next_id m)) = None" by (simp add: find_room_def map_of_eq_None_iff)
  then have "rooms_called A m (update_room (unat (next_id m)) r m')"
    using m'(1) by (fastforce simp: rooms_called_def find_update_room)
  moreover have "fresh_ids n (update_room (unat (next_id m)) r m')"
    using m'(2) by (auto simp: fresh_ids_def update_room_def replace_entry_def split: if_splits)
  ultimately show "rooms_called A m (update_room (unat (next_id m)) r m') \<and>
      fresh_ids n (update_room (unat (next_id m)) r m')" by simp
qed

lemma created_id: "fst (create_room h pid name fd tc db rating m) = unat (next_id m)"
  by (simp add: create_room_def Let_def)

lemma join_room_ok:
  assumes "rehash_ok h" and "manager_ok m" and "create_room h pid name fd tc db rating m = (rid, m1)"
  shows "manager_ok (update_room rid (snd (snd (join e pid' name' fd' db' rating' (the (find_room m1 rid))))) m1) \<and>
    opened A 1 m (update_room rid (snd (snd (join e pid' name' fd' db' rating' (the (find_room m1 rid))))) m1)"
proof -
  have m1: "manager_ok m1" using create_ok(1) [OF assms(1,2)] assms(3) by (metis snd_conv)
  obtain r where r: "find_room m1 rid = Some r"
    using create_room_find [OF assms(1,2)] assms(3) by (metis fst_conv snd_conv)
  have "opened A 1 m m1" using create_opened(1) [OF assms(1,2)] assms(3) by (metis snd_conv)
  moreover have "rid = unat (next_id m)" using created_id assms(3) by (metis fst_conv)
  moreover have "manager_ok (update_room rid (snd (exec_op (Join pid' name' fd' db' rating') e r)) m1)"
    by (rule call_ok [OF m1 find_room_member [OF r]])
  ultimately show ?thesis using r opened_update by simp
qed

lemma open_match_opened:
  assumes "world_ok w" and "manager_ok (sw_mgr s)"
  shows "manager_ok (sw_mgr (open_match w a b s)) \<and> opened A 1 (sw_mgr s) (sw_mgr (open_match w a b s))"
proof -
  have "rehash_ok (rehash_rooms w)" using assms(1) by (simp add: world_ok_def)
  moreover obtain rid m1 where c: "create_room (rehash_rooms w) (q_player a) (q_name a) (q_fd a) (q_tc a) (q_db a) (q_elo a)
      (sw_mgr s) = (rid, m1)"
    by (metis surj_pair)
  ultimately show ?thesis
    using join_room_ok [OF _ assms(2) c] by (simp add: open_match_def Let_def split_beta)
qed

lemma sweep_bucket_opened:
  "world_ok w \<Longrightarrow> manager_ok (sw_mgr s) \<Longrightarrow>
     manager_ok (sw_mgr (snd (sweep_bucket w t s))) \<and> opened A (length t) (sw_mgr s) (sw_mgr (snd (sweep_bucket w t s)))"
proof (induction w t s rule: sweep_bucket.induct)
  case (1 w i a j b rest s)
  let ?s = "s\<lparr>sw_reads := sw_reads s + 1\<rparr>"
  show ?case
  proof (cases "compatible a b (steady_at w (sw_reads s))")
    case True
    note first = open_match_opened [OF 1(3), of ?s a b A]
    then have "opened A 1 (sw_mgr s) (sw_mgr (open_match w a b ?s))" using 1(4) by simp
    moreover have rest: "manager_ok (sw_mgr (snd (sweep_bucket w rest (open_match w a b ?s)))) \<and>
        opened A (length rest) (sw_mgr (open_match w a b ?s)) (sw_mgr (snd (sweep_bucket w rest (open_match w a b ?s))))"
      using 1(1) [OF refl refl True 1(3)] first 1(4) by simp
    ultimately have "opened A (1 + length rest) (sw_mgr s) (sw_mgr (snd (sweep_bucket w rest (open_match w a b ?s))))"
      using opened_trans by blast
    then show ?thesis using rest True by (auto simp: Let_def intro: opened_mono)
  next
    case False
    then show ?thesis
      using 1(2) [OF refl refl False 1(3)] 1(4) by (auto simp: Let_def split_beta intro: opened_mono)
  qed
qed (auto intro: opened_refl)

lemma sweep_buckets_opened:
  "world_ok w \<Longrightarrow> manager_ok (sw_mgr s) \<Longrightarrow>
     opened A (length (queue_nodes bs)) (sw_mgr s) (sw_mgr (snd (sweep_buckets w bs s)))"
proof (induction w bs s rule: sweep_buckets.induct)
  case (1 w s)
  then show ?case by (simp add: opened_refl)
next
  case (2 w tc t bs s)
  obtain t1 s1 where t1: "(if length t < 2 then (t, s) else sweep_bucket w t s) = (t1, s1)" by (metis surj_pair)
  have first: "manager_ok (sw_mgr s1) \<and> opened A (length t) (sw_mgr s) (sw_mgr s1)"
    using sweep_bucket_opened [OF 2(2,3), of t A] t1 2(3) by (auto intro: opened_refl split: if_splits)
  then have "opened A (length t + length (queue_nodes bs)) (sw_mgr s) (sw_mgr (snd (sweep_buckets w bs s1)))"
    using 2(1) [OF t1 [symmetric] refl 2(2)] opened_trans by blast
  then show ?case using t1 by (simp add: split_beta)
qed

section \<open>Requests that open rooms\<close>

definition opens_rooms :: "(room_op \<Rightarrow> bool) \<Rightarrow> nat \<Rightarrow> server \<Rightarrow> server \<Rightarrow> bool" where
  "opens_rooms A k s s' \<longleftrightarrow> server_ok s' \<and> opened A k (srv_mgr s) (srv_mgr s')"

lemma opens_rooms_refl: "server_ok s \<Longrightarrow> opens_rooms A k s s"
  by (simp add: opens_rooms_def opened_refl)

lemma service_world_rehash: "service_world_ok w \<Longrightarrow> rehash_ok (rehash_rooms w)"
  by (simp add: service_world_ok_def world_ok_def world.truncate_def)

lemma server_create:
  assumes "service_world_ok w" and "server_ok s"
  shows "opens_rooms A 1 s (s\<lparr>srv_mgr := snd (create_room (rehash_rooms w) pid name fd tc db rating (srv_mgr s)), srv_next_player := k\<rparr>)"
    and "opens_rooms A 1 s (s\<lparr>srv_mgr := snd (create_ai_room (rehash_rooms w) e pid name fd tc diff db rating (srv_mgr s)), srv_next_player := k\<rparr>)"
  using assms create_ok create_opened by (simp_all add: opens_rooms_def server_ok_def service_world_rehash)

lemma service_create_game_opens:
  "service_world_ok w \<Longrightarrow> server_ok s \<Longrightarrow> opens_rooms A 1 s (snd (service_create_game w ctx a base inc s))"
  using server_create(1) [of w s A] opens_rooms_refl [of s A 1]
  by (simp add: service_create_game_def serving split: option.split)

lemma service_play_ai_opens:
  "service_world_ok w \<Longrightarrow> server_ok s \<Longrightarrow> opens_rooms A 1 s (snd (service_play_ai w ctx a diff base inc s))"
  using server_create(2) [of w s A] opens_rooms_refl [of s A 1]
  by (simp add: service_play_ai_def serving split: option.split)

lemma try_match_opened:
  assumes "world_ok w" and "queue_ok q" and "manager_ok m" and "try_match w q m = (rs, outs, q', m')"
  shows "opened A (queue_size q) m m'"
proof -
  have "length (queue_nodes (buckets q)) = queue_size q"
    using queue_okD(2) [OF assms(2)] by (simp add: index_ok_def queue_size_def)
  then show ?thesis
    using sweep_buckets_opened [OF assms(1), of "\<lparr>sw_mgr = m, sw_index = fd_index q, sw_size = total_size q,
        sw_reads = 0, sw_results = [], sw_outputs = []\<rparr>" A "buckets q"] assms(3,4)
    by (auto simp: try_match_def split_beta)
qed

lemma enqueue_size: "queue_size (snd (enqueue w fd pid name rating tc db q)) \<le> Suc (queue_size q)"
  by (simp add: enqueue_def queue_size_def Let_def split: option.split)

lemma service_quick_play_opens:
  assumes "service_world_ok w" and "server_ok s"
  shows "opens_rooms A (Suc (queue_size (srv_queue s))) s (snd (service_quick_play w ctx a base inc s))"
proof -
  have world: "world_ok (world.truncate w)" and queue: "queue_ok (srv_queue s)" and mgr: "manager_ok (srv_mgr s)"
    using assms by (simp_all add: service_world_ok_def server_ok_def)
  have "queue_ok q2 \<and> manager_ok m2 \<and> opened A (Suc (queue_size (srv_queue s))) (srv_mgr s) m2"
    if "enqueue (world.truncate w) fd pid name rating tc db (srv_queue s) = (x, q1)"
      "try_match (world.truncate w) q1 (srv_mgr s) = (rs, outs, q2, m2)" for fd pid name rating tc db x q1 rs outs q2 m2
  proof -
    have "queue_ok q1" using enqueue_ok [OF world queue, of fd pid name rating tc db] that(1) by simp
    moreover have "queue_size q1 \<le> Suc (queue_size (srv_queue s))"
      using enqueue_size [of "world.truncate w" fd pid name rating tc db "srv_queue s"] that(1) by simp
    ultimately show ?thesis
      using try_match_ok [OF world _ mgr that(2)] try_match_opened [OF world _ mgr that(2), of A] opened_mono by blast
  qed
  then show ?thesis
    using assms(2) opens_rooms_refl [OF assms(2)]
    by (simp add: service_quick_play_def refuse_def opens_rooms_def server_ok_def Let_def split: option.split prod.split)
qed

lemma remove_opened:
  assumes "opened A 1 m m'"
  shows "opened A 1 m (remove_room (unat (next_id m)) m')"
  unfolding opened_def
proof (intro allI impI)
  fix n
  assume fresh: "fresh_ids (1 + n) m"
  then have m': "rooms_called A m m'" "fresh_ids n m'" using assms by (auto simp: opened_def)
  have "unat (next_id m) \<notin> fst ` set (rooms m)" using fresh by (auto simp: fresh_ids_def)
  then have "find_room m (unat (next_id m)) = None" by (simp add: find_room_def map_of_eq_None_iff)
  moreover have "find_room (remove_room i m') j = (if j = i then None else find_room m' j)" for i j
  proof -
    have "map_of (filter (\<lambda>(j, r). j \<noteq> i) t) j = (if j = i then None else map_of t j)" for t :: room_table
      by (induction t) auto
    then show ?thesis by (simp add: find_room_def remove_room_def)
  qed
  ultimately have "rooms_called A m (remove_room (unat (next_id m)) m')"
    using m'(1) by (fastforce simp: rooms_called_def)
  moreover have "fresh_ids n (remove_room (unat (next_id m)) m')"
    using m'(2) by (auto simp: fresh_ids_def remove_room_def)
  ultimately show "rooms_called A m (remove_room (unat (next_id m)) m') \<and>
      fresh_ids n (remove_room (unat (next_id m)) m')" by simp
qed

lemma start_rematch_opens:
  assumes "service_world_ok w" and "server_ok s"
  shows "opens_rooms A 1 s (snd (start_rematch w ctx old s))"
proof -
  have mgr: "manager_ok (srv_mgr s)" and queue: "queue_ok (srv_queue s)" using assms(2) by (simp_all add: server_ok_def)
  note h = service_world_rehash [OF assms(1)]
  obtain rid m1 where c: "create_room (rehash_rooms w) (srv_next_player s) (get_username old BLACK) (get_player_fd old BLACK)
    (time_control old) (db_player_id (black old)) (elo (black old)) (srv_mgr s) = (rid, m1)"
    by (metis surj_pair)
  have "rid = unat (next_id (srv_mgr s))" using created_id c by (metis fst_conv)
  then show ?thesis
    using queue opens_rooms_refl [OF assms(2), of A 1] join_room_ok [OF h mgr c] c remove_ok(1) remove_opened
    by (simp add: start_rematch_def refuse_def opens_rooms_def server_ok_def Let_def split_beta)
qed

lemma opens_rooms_after:
  assumes "served A s0 s" and "next_id (srv_mgr s) = next_id (srv_mgr s0)"
    and "fst ` set (rooms (srv_mgr s)) = fst ` set (rooms (srv_mgr s0))" and "opens_rooms A k s s'"
  shows "opens_rooms A k s0 s'"
proof -
  have "fresh_ids n (srv_mgr s) = fresh_ids n (srv_mgr s0)" for n using assms(2,3) by (simp add: fresh_ids_def)
  then show ?thesis using assms(1,4) rooms_called_trans by (fastforce simp: served_def opens_rooms_def opened_def)
qed

lemma put_room_keys: "next_id (srv_mgr (put_room i r s)) = next_id (srv_mgr s)"
  "fst ` set (rooms (srv_mgr (put_room i r s))) = fst ` set (rooms (srv_mgr s))"
  by (simp_all add: put_room_def update_room_def del: set_map add: set_map [symmetric])

lemma service_respond_to_rematch_opens:
  assumes "service_world_ok w" and "server_ok s"
  shows "opens_rooms (permitted ctx (Rq_respond_to_rematch a g acc)) 1 s (snd (service_respond_to_rematch w ctx a g acc s))"
proof -
  let ?A = "permitted ctx (Rq_respond_to_rematch a g acc)"
  have "called ?A r (snd (snd (respond_to_rematch (rc_fd ctx) acc r)))"
    "called ?A r (snd (snd (respond_to_rematch (rc_fd ctx) False r)))" for r
    by (auto intro!: called_calls)
  then have put: "served ?A s (put_room i (snd (snd (respond_to_rematch (rc_fd ctx) b r))) s)"
    if "find_room (srv_mgr s) i = Some r" "b = acc \<or> b = False" for i r b
    using that by (auto intro: server_put [OF served_refl [OF assms(2)] find_room_member])
  have "opens_rooms ?A 1 s (put_room i (snd (snd (respond_to_rematch (rc_fd ctx) b r))) s)"
    "opens_rooms ?A 1 s (snd (start_rematch w ctx r' (put_room i (snd (snd (respond_to_rematch (rc_fd ctx) b r))) s)))"
    if "find_room (srv_mgr s) i = Some r" "b = acc \<or> b = False" for i r r' b
  proof -
    let ?s1 = "put_room i (snd (snd (respond_to_rematch (rc_fd ctx) b r))) s"
    have "server_ok ?s1" using put [OF that] by (simp add: served_def)
    then show "opens_rooms ?A 1 s ?s1" "opens_rooms ?A 1 s (snd (start_rematch w ctx r' ?s1))"
      using start_rematch_opens [OF assms(1)]
      by - (rule opens_rooms_after [OF put [OF that] put_room_keys], erule opens_rooms_refl,
        rule opens_rooms_after [OF put [OF that] put_room_keys], blast)
  qed
  then show ?thesis
    using opens_rooms_refl [OF assms(2)]
    by (cases acc)
      (simp_all add: service_respond_to_rematch_def serving del: permitted.simps split: option.split sum.split)
qed

section \<open>Serving\<close>

lemma opens_rooms_called: "opens_rooms A k s s' \<Longrightarrow> fresh_ids k (srv_mgr s) \<Longrightarrow> served A s s'"
  by (auto simp: opens_rooms_def served_def intro: opened_called)

lemma fresh_ids_less: "fresh_ids k m \<Longrightarrow> j \<le> k \<Longrightarrow> fresh_ids j m"
  by (simp add: fresh_ids_def)

lemmas serve_served = service_make_move_served service_resign_served service_offer_draw_served
  service_respond_to_draw_served service_offer_rematch_served service_get_pending_rematch_served
  service_game_state_served service_get_active_game_served service_join_game_served service_cancel_queue_served
  on_player_disconnect_served expire_disconnected_games_served

lemmas serve_opens = service_create_game_opens service_play_ai_opens service_quick_play_opens
  service_respond_to_rematch_opens

lemma serve_ok:
  assumes "service_world_ok w" and "server_ok s"
  shows "server_ok (snd (serve w ctx rq s))"
  using serve_served [OF assms(2)] serve_opens [OF assms] assms(2)
  by (cases rq) (simp_all add: served_def opens_rooms_def service_list_games_def del: permitted.simps)

lemma serve_calls:
  assumes "service_world_ok w" and "server_ok s" and "fresh_ids (Suc (queue_size (srv_queue s))) (srv_mgr s)"
  shows "served (permitted ctx rq) s (snd (serve w ctx rq s))"
proof -
  have one: "fresh_ids 1 (srv_mgr s)" using assms(3) by (rule fresh_ids_less) simp
  note opens = opens_rooms_called [OF serve_opens(1) [OF assms(1,2)] one] opens_rooms_called [OF serve_opens(2) [OF assms(1,2)] one]
    opens_rooms_called [OF serve_opens(3) [OF assms(1,2)] assms(3)] opens_rooms_called [OF serve_opens(4) [OF assms(1,2)] one]
  show ?thesis
    using serve_served [OF assms(2)] opens served_refl [OF assms(2)]
    by (cases rq) (simp_all only: serve.simps service_list_games_def snd_conv)
qed

section \<open>Boards\<close>

fun moves :: "room_op \<Rightarrow> bool" where
  "moves (Submit_move fd f t p) = True"
| "moves (Submit_move_ai f t p) = True"
| "moves opn = False"

lemma called_board:
  assumes "called A r r'" and "\<And>opn. A opn \<Longrightarrow> \<not> moves opn"
  shows "board r' = board r"
  using assms(1)
proof (induction rule: called.induct)
  case (called_op r r1 opn e)
  then show ?case using exec_op_board [of opn e r1] assms(2) [of opn] by (cases opn) auto
qed simp

lemma permitted_moves: "permitted ctx rq opn \<Longrightarrow> moves opn \<Longrightarrow> \<exists>from to promo. rq = Rq_make_move from to promo"
  by (cases rq; cases opn) auto

definition moved_by :: "int \<Rightarrow> square \<Rightarrow> square \<Rightarrow> piece_type \<Rightarrow> room \<Rightarrow> room \<Rightarrow> bool" where
  \<comment> \<open>the player with this connection was to move, and the board is what the requested legal move makes of it\<close>
  "moved_by fd f t p r r' \<longleftrightarrow> state r = IN_PROGRESS \<and> color_of r fd = side_to_move (board r) \<and>
     (\<exists>m \<in> set (generate_legal_moves (board r)). move_requested f t p m \<and> board r' = snd (make_move (board r) m))"

lemma submit_move_board:
  assumes "reachable_room r"
  shows "if mv_success (fst (submit_move e fd f t p r)) then moved_by fd f t p r (snd (snd (submit_move e fd f t p r)))
    else board (snd (snd (submit_move e fd f t p r))) = board r"
proof (cases "mv_success (fst (submit_move e fd f t p r))")
  case True
  have side: "side_to_move (board r) \<noteq> C_NONE"
    using reachable_position_ok [OF assms] by (simp add: position_ok_def board_rep_def)
  obtain m where m: "match_move (board r) f t p = Some m"
    "board (snd (snd (submit_move e fd f t p r))) = snd (make_move (board r) m)"
    by (rule submit_move_success [OF side True])
  then have "moved_by fd f t p r (snd (snd (submit_move e fd f t p r)))"
    using True submit_move_cases [OF side] match_move_legal match_move_Some unfolding moved_by_def by blast
  then show ?thesis using True by simp
next
  case False
  then show ?thesis
    by (simp add: submit_move_def Let_def room_simps locked_room split: if_splits option.splits)
qed

lemma submit_move_ai_board:
  "board (snd (snd (submit_move_ai e f t p r))) = board r \<or>
   is_ai r \<and> side_to_move (board r) = ai_color r \<and>
   (\<exists>m \<in> set (generate_legal_moves (board r)). board (snd (snd (submit_move_ai e f t p r))) = snd (make_move (board r) m))"
  by (auto simp: submit_move_ai_def Let_def room_simps locked_room dest: match_move_legal split: option.split)

definition answered :: "room \<Rightarrow> room \<Rightarrow> bool" where
  \<comment> \<open>the computer was to move, and the board is what one of its legal moves makes of it\<close>
  "answered r r' \<longleftrightarrow> is_ai r \<and> side_to_move (board r) = ai_color r \<and>
     (\<exists>m \<in> set (generate_legal_moves (board r)). board r' = snd (make_move (board r) m))"

lemma find_put_room: "find_room (srv_mgr (put_room j r' s)) i =
    (if i = j then map_option (\<lambda>x. r') (find_room (srv_mgr s) j) else find_room (srv_mgr s) i)"
  by (simp add: put_room_def find_update_room)

lemma find_ai: "find_room (srv_mgr (s\<lparr>srv_ai := ai\<rparr>)) i = find_room (srv_mgr s) i"
  by simp

lemma trigger_ai_room:
  assumes "find_room (srv_mgr s) i = Some r"
  shows "\<exists>r'. find_room (srv_mgr (snd (trigger_ai_move w rid fd s))) i = Some r' \<and>
    (board r' = board r \<or> i = rid \<and> answered r r')"
proof (cases "find_room (srv_mgr s) rid")
  case None
  then show ?thesis using assms by (simp add: trigger_ai_move_def)
next
  case (Some x)
  show ?thesis
  proof (cases "\<not> is_ai x \<or> state x \<noteq> IN_PROGRESS")
    case True
    then show ?thesis using assms Some by (auto simp: trigger_ai_move_def)
  next
    case False
    have "\<exists>e f t p ai. snd (trigger_ai_move w rid fd s) =
        put_room rid (snd (snd (submit_move_ai e f t p x))) (s\<lparr>srv_ai := ai\<rparr>)"
      using Some False by (simp add: trigger_ai_move_def Let_def split_beta if_distrib [of snd]) blast
    then obtain e f t p ai where "snd (trigger_ai_move w rid fd s) =
        put_room rid (snd (snd (submit_move_ai e f t p x))) (s\<lparr>srv_ai := ai\<rparr>)" by blast
    then show ?thesis
      using assms Some submit_move_ai_board [of e f t p x]
      by (auto simp: find_put_room answered_def)
  qed
qed

lemma make_move_room:
  assumes "server_ok s" and "find_room (srv_mgr s) i = Some r"
  shows "\<exists>r'. find_room (srv_mgr (snd (service_make_move w ctx from to promo s))) i = Some r' \<and>
    (board r' = board r \<or>
     find_room_by_fd (srv_mgr s) (rc_fd ctx) = Some (i, r) \<and>
     (\<exists>r1. moved_by (rc_fd ctx) (parse_square from) (parse_square to) (promotion_of promo) r r1 \<and>
        (board r' = board r1 \<or> answered r1 r')))"
    (is "\<exists>r'. find_room (srv_mgr (snd ?out)) i = Some r' \<and> ?P r'")
proof (cases "find_room_by_fd (srv_mgr s) (rc_fd ctx)")
  case None
  then show ?thesis using assms(2) by (auto simp: service_make_move_def refuse_def Let_def)
next
  case (Some p)
  obtain rid x where p: "p = (rid, x)" by (cases p)
  have mgr: "manager_ok (srv_mgr s)" using assms(1) by (simp add: server_ok_def)
  have x: "find_room (srv_mgr s) rid = Some x"
    using find_room_by_fd_member Some p find_room_registered [OF mgr] by blast
  then have reach: "reachable_room x" using manager_okD [OF mgr find_room_member] by blast
  let ?sub = "submit_move (env_at w 0) (rc_fd ctx) (parse_square from) (parse_square to) (promotion_of promo) x"
  let ?s1 = "put_room rid (snd (snd ?sub)) s"
  note played = submit_move_board [OF reach, of "env_at w 0" "rc_fd ctx" "parse_square from" "parse_square to" "promotion_of promo"]
  have "snd ?out = s \<or> snd ?out = ?s1 \<or>
      mv_success (fst ?sub) \<and> snd ?out = snd (trigger_ai_move w rid (rc_fd ctx) ?s1)"
    using Some p by (simp add: service_make_move_def refuse_def Let_def split_beta if_distrib [of snd])
  then consider "snd ?out = s" | "snd ?out = ?s1" |
    "mv_success (fst ?sub)" "snd ?out = snd (trigger_ai_move w rid (rc_fd ctx) ?s1)" by blast
  then show ?thesis
  proof cases
    case 1
    then show ?thesis using assms(2) by auto
  next
    case 2
    then show ?thesis using assms(2) x Some p played by (auto simp: find_put_room split: if_splits)
  next
    case 3
    obtain r1 where r1: "find_room (srv_mgr ?s1) i = Some r1" "r1 = (if i = rid then snd (snd ?sub) else r)"
      using assms(2) x by (auto simp: find_put_room)
    obtain r' where r': "find_room (srv_mgr (snd ?out)) i = Some r'" "board r' = board r1 \<or> i = rid \<and> answered r1 r'"
      using trigger_ai_room [OF r1(1), of w rid "rc_fd ctx"] unfolding 3(2) by blast
    show ?thesis
    proof (cases "i = rid")
      case True
      then have "x = r" using x assms(2) by simp
      then have "moved_by (rc_fd ctx) (parse_square from) (parse_square to) (promotion_of promo) r r1"
        using played 3(1) r1(2) True by simp
      then show ?thesis using r' Some p True \<open>x = r\<close> by blast
    next
      case False
      then show ?thesis using r' r1(2) by auto
    qed
  qed
qed

section \<open>Properties\<close>

definition new_server :: "searcher \<Rightarrow> server" where
  "new_server ai = \<lparr>srv_mgr = new_manager, srv_queue = new_matchmaker, srv_next_player = 1, srv_ai = ai\<rparr>"

abbreviation serve_all :: "(service_world \<times> request_context \<times> request) list \<Rightarrow> server \<Rightarrow> server" where
  "serve_all \<equiv> fold (\<lambda>(w, ctx, rq) s. snd (serve w ctx rq s))"

lemma new_server_ok: "server_ok (new_server ai)"
  by (simp add: server_ok_def new_server_def new_manager_ok queue_ok_def new_matchmaker_def index_ok_def)

lemma serve_all_ok:
  "server_ok s \<Longrightarrow> \<forall>(w, ctx, rq) \<in> set rqs. service_world_ok w \<Longrightarrow> server_ok (serve_all rqs s)"
  by (induction rqs arbitrary: s) (auto intro: serve_ok)

text \<open>
  C6. Whatever requests, disconnections and sweeps the service serves from its start, in any order
  and with any clock, search and hash-table order, every room in the registry is one that a room's
  constructor and calls produce and stands under its own id, no two under the same id, and the
  matchmaking queue is consistent. So every property of reachable rooms holds of all games of the server.
\<close>

theorem service_rooms_sound:
  assumes "\<forall>(w, ctx, rq) \<in> set rqs. service_world_ok w"
  shows "(\<forall>(i, r) \<in> set (rooms (srv_mgr (serve_all rqs (new_server ai)))). reachable_room r \<and> room_id r = i) \<and>
    distinct (map fst (rooms (srv_mgr (serve_all rqs (new_server ai))))) \<and>
    queue_ok (srv_queue (serve_all rqs (new_server ai)))"
  using serve_all_ok [OF new_server_ok [of ai], of rqs] assms
  by (fastforce simp: server_ok_def manager_ok_def)

text \<open>
  C8. A request reaches a game only through the calls of its own kind: while the room counter does not
  wrap, no request drops a registered room, and the room it leaves is the old one after calls the
  request may make, each on behalf of the caller's own socket (or, of a move, the computer's reply;
  of the sweep, the expiry calls). Requests that open games, and the queue, touch no registered room.
\<close>

theorem requests_call_their_rooms:
  assumes "service_world_ok w" and "server_ok s" and "fresh_ids (Suc (queue_size (srv_queue s))) (srv_mgr s)"
    and "find_room (srv_mgr s) i = Some r"
  shows "\<exists>r'. find_room (srv_mgr (snd (serve w ctx rq s))) i = Some r' \<and> called (permitted ctx rq) r r'"
  using serve_calls [OF assms(1-3), of ctx rq] assms(4) by (simp add: served_def rooms_called_def)

text \<open>
  C7. The board of a game changes only by moves: while the room counter does not wrap, a request that
  leaves a registered room with another board is a move request of the player to move, in the running
  game its socket is in; the board becomes what the requested legal move makes of it or, in a computer
  game, what a legal reply of the computer makes of that.
\<close>

theorem boards_change_by_moves:
  assumes "service_world_ok w" and "server_ok s" and "fresh_ids (Suc (queue_size (srv_queue s))) (srv_mgr s)"
    and "find_room (srv_mgr s) i = Some r" and "find_room (srv_mgr (snd (serve w ctx rq s))) i = Some r'"
    and "board r' \<noteq> board r"
  shows "\<exists>from to promo r1. rq = Rq_make_move from to promo \<and>
    find_room_by_fd (srv_mgr s) (rc_fd ctx) = Some (i, r) \<and>
    moved_by (rc_fd ctx) (parse_square from) (parse_square to) (promotion_of promo) r r1 \<and>
    (board r' = board r1 \<or> answered r1 r')"
proof -
  have "called (permitted ctx rq) r r'"
    using serve_calls [OF assms(1-3), of ctx rq] assms(4,5) unfolding served_def rooms_called_def by fastforce
  then obtain opn where "permitted ctx rq opn" "moves opn" using called_board assms(6) by blast
  then obtain f t p where rq: "rq = Rq_make_move f t p" using permitted_moves by blast
  show ?thesis using make_move_room [OF assms(2,4), of w ctx f t p] assms(5,6) rq by auto
qed

definition demo_service_world :: service_world where
  "demo_service_world = world.extend demo_world \<lparr>search_at = Engine.demo_env\<rparr>"

definition demo_server :: server where
  "demo_server = (new_server (demo_search start_board))
     \<lparr>srv_mgr := new_manager\<lparr>rooms := [(1, demo_playing)], next_id := 2\<rparr>, srv_next_player := 3\<rparr>"

definition demo_ctx :: request_context where
  "demo_ctx = \<lparr>rc_fd = 3, rc_generation = 0, rc_identity = None\<rparr>"

lemma demo_service_world_ok: "service_world_ok demo_service_world"
  using demo_world_ok demo_sort
  by (simp add: service_world_ok_def demo_service_world_def world.defs demo_world_def)

lemma demo_playing_id: "room_id demo_playing = 1"
  unfolding demo_playing_def by (simp add: demo_new_def del: exec_op.simps)

lemma demo_server_ok: "server_ok demo_server" "fresh_ids (Suc (queue_size (srv_queue demo_server))) (srv_mgr demo_server)"
  "find_room (srv_mgr demo_server) 1 = Some demo_playing" "find_room_by_fd (srv_mgr demo_server) 3 = Some (1, demo_playing)"
  using new_server_ok [of "demo_search start_board"] demo_playing_id demo_reachable(2) demo_playing_fields(1,3)
  by (auto simp: demo_server_def server_ok_def new_server_def manager_ok_def new_manager_def fresh_ids_def find_room_def
      queue_size_def new_matchmaker_def find_room_by_fd_def has_player_def color_of_def split: if_splits)

lemma submit_move_is_ai: "is_ai (snd (snd (submit_move e fd f t p r))) = is_ai r"
  by (simp add: submit_move_def conclude_move_def play_move_def switch_clock_def finish_game_def locked_room drain_def
      Let_def split_beta room_simps split: option.split)

lemma demo_move_served:
  obtains r' where "find_room (srv_mgr (snd (serve demo_service_world demo_ctx (Rq_make_move ''e2'' ''e4'' None) demo_server))) 1 = Some r'"
    "board r' \<noteq> board demo_playing"
proof -
  let ?r = "snd (snd (submit_move GameRoom.demo_env 3 12 28 PT_NONE demo_playing))"
  have squares: "parse_square ''e2'' = 12" "parse_square ''e4'' = 28" "promotion_of None = PT_NONE" "rc_fd demo_ctx = 3"
    "env_at demo_service_world 0 = GameRoom.demo_env"
    by (simp_all add: parse_square_def promotion_of_def make_square_def char_val_def demo_ctx_def demo_service_world_def
        world.defs demo_world_def)
  have "\<not> is_ai ?r"
    unfolding submit_move_is_ai
    by (simp add: demo_playing_def demo_new_def human_room_def fresh_room_def join_def is_empty_slot_def split_beta
        emit_started_def Let_def room_simps start_game_def locked_room drain_def empty_slot_def)
  then have "snd (serve demo_service_world demo_ctx (Rq_make_move ''e2'' ''e4'' None) demo_server) = put_room 1 ?r demo_server"
    using demo_server_ok(4) by (simp add: service_make_move_def squares NO_SQUARE_def Let_def split_beta if_distrib [of snd])
  then have "find_room (srv_mgr (snd (serve demo_service_world demo_ctx (Rq_make_move ''e2'' ''e4'' None) demo_server))) 1 = Some ?r"
    using demo_server_ok(3) by (simp add: find_put_room)
  moreover have "board ?r \<noteq> board demo_playing"
  proof -
    have "moved_by 3 12 28 PT_NONE demo_playing ?r"
      using submit_move_board [OF demo_reachable(2), of GameRoom.demo_env 3 12 28 PT_NONE] demo_move_accepted by simp
    then obtain m where "board ?r = snd (make_move (board demo_playing) m)" by (auto simp: moved_by_def)
    then have "side_to_move (board ?r) = opposite_color (side_to_move (board demo_playing))" by simp
    moreover have "side_to_move (board demo_playing) = WHITE"
      by (simp add: demo_playing_fields start_board_unkeyed start_unkeyed_def)
    ultimately show ?thesis by auto
  qed
  ultimately show thesis by (rule that)
qed

theorem service_rooms_sound_witness:
  "distinct (map fst (rooms (srv_mgr (serve_all [(demo_service_world, demo_ctx, Rq_create_game \<lparr>a_player_id = 7, a_username = ''alice'', a_elo = 1200\<rparr> 600 5)]
     (new_server (demo_search start_board))))))"
  using service_rooms_sound [of "[(demo_service_world, demo_ctx, Rq_create_game \<lparr>a_player_id = 7, a_username = ''alice'', a_elo = 1200\<rparr> 600 5)]"
      "demo_search start_board"] demo_service_world_ok
  by simp

theorem requests_call_their_rooms_witness:
  "\<exists>r'. find_room (srv_mgr (snd (serve demo_service_world demo_ctx Rq_resign demo_server))) 1 = Some r' \<and>
     called (permitted demo_ctx Rq_resign) demo_playing r'"
  by (rule requests_call_their_rooms [OF demo_service_world_ok demo_server_ok(1-3)])

theorem boards_change_by_moves_witness:
  "\<exists>r1. moved_by 3 (parse_square ''e2'') (parse_square ''e4'') PT_NONE demo_playing r1"
proof -
  obtain r' where r': "find_room (srv_mgr (snd (serve demo_service_world demo_ctx (Rq_make_move ''e2'' ''e4'' None) demo_server))) 1 = Some r'"
    "board r' \<noteq> board demo_playing" by (rule demo_move_served)
  then show ?thesis
    using boards_change_by_moves [OF demo_service_world_ok demo_server_ok(1-3) r']
    by (auto simp: demo_ctx_def promotion_of_def)
qed

text \<open>
  Opening a game does not take a player out of the matchmaking queue: \<open>quick_play\<close> asks both the registry
  and the queue, but \<open>create_game\<close> asks only the registry, so a queued player who creates a game is left
  both waiting in it and queued, and the next match puts his socket in a second game.
\<close>

lemma queued_player_opens_game:
  assumes "service_world_ok w" and "server_ok s" and "is_queued (srv_queue s) (rc_fd ctx)"
    and "\<not> is_tournament_player_reserved (srv_mgr s) (a_player_id a)" and "already_playing (srv_mgr s) (rc_fd ctx) = None"
  shows "\<exists>i r. find_room (srv_mgr (snd (service_create_game w ctx a base inc s))) i = Some r \<and> state r = WAITING \<and>
    has_player r (rc_fd ctx) \<and> is_queued (srv_queue (snd (service_create_game w ctx a base inc s))) (rc_fd ctx)"
proof -
  let ?c = "create_room (rehash_rooms w) (srv_next_player s) (a_username a) (rc_fd ctx) (request_time_control base inc)
    (a_player_id a) (a_elo a) (srv_mgr s)"
  let ?r = "snd (snd (add_listener (default_listener (srv_mgr s)) (human_room (fst ?c) (srv_next_player s) (a_username a)
    (rc_fd ctx) (request_time_control base inc) (a_player_id a) (a_elo a))))"
  have "find_room (snd ?c) (fst ?c) = Some ?r"
    by (rule create_room_find [OF service_world_rehash [OF assms(1)]]) (use assms(2) in \<open>simp add: server_ok_def\<close>)
  moreover have "state ?r = WAITING" "has_player ?r (rc_fd ctx)"
    by (simp_all add: add_listener_def locked_room Let_def room_simps human_room_def fresh_room_def creator_slot_def has_player_def)
  ultimately show ?thesis
    using assms(3-5)
    by (intro exI [of _ "fst ?c"] exI [of _ ?r]) (simp add: service_create_game_def Let_def split_beta)
qed

end
