(* ===== verification/Swiss.thy ===== *)
theory Swiss
  imports Complex_Main Prelude "HOL-Library.Multiset" "HOL-Library.Product_Lexorder"
begin

text \<open>
  The pairing of a tournament round (\<open>src/tournament/swiss.h\<close>, \<open>src/tournament/swiss.cpp\<close>): the seeding order,
  the bye of an odd field, the branch-and-bound search for a cheapest complete round with its lower
  bounds and its memo table of partial rounds, and the colours. Scores are whole and half points, on
  which the code's \<open>double\<close> arithmetic is exact: they are rationals here. Shown: the search answers
  a complete round that no other complete round undercuts, and a round seats every player who is
  still in the tournament exactly once.
\<close>

section \<open>Data\<close>

record player_standing =
  player_id :: int
  elo :: int
  score :: rat
  whites_played :: int
  received_bye :: bool
  withdrawn :: bool

record pairing =
  white_id :: int
  black_id :: int
  is_bye :: bool

type_synonym player_pair = "int \<times> int"

definition player_pair :: "int \<Rightarrow> int \<Rightarrow> player_pair" where
  "player_pair a b = (if a \<le> b then (a, b) else (b, a))"

definition have_played :: "player_pair set \<Rightarrow> int \<Rightarrow> int \<Rightarrow> bool" where
  "have_played played a b \<longleftrightarrow> player_pair a b \<in> played"

definition seed_key :: "player_standing \<Rightarrow> rat \<times> int \<times> int" where
  "seed_key p = (- score p, - elo p, player_id p)"

definition higher_seed :: "player_standing \<Rightarrow> player_standing \<Rightarrow> bool" where
  "higher_seed a b =
     (if score a \<noteq> score b then score a > score b
      else if elo a \<noteq> elo b then elo a > elo b
      else player_id a < player_id b)"

lemma higher_seed_key: "higher_seed a b \<longleftrightarrow> seed_key a < seed_key b"
  by (auto simp: higher_seed_def seed_key_def less_prod_def)

definition assign_colors :: "player_standing \<Rightarrow> player_standing \<Rightarrow> int \<times> int" where
  "assign_colors a b =
     (if whites_played a < whites_played b then (player_id a, player_id b)
      else if whites_played a > whites_played b then (player_id b, player_id a)
      else if higher_seed a b then (player_id a, player_id b)
      else (player_id b, player_id a))"

definition llround :: "rat \<Rightarrow> int" where
  \<comment> \<open>\<open>std::llround\<close>: to the nearest integer, halves away from zero\<close>
  "llround x = (if x \<ge> 0 then \<lfloor>x + 1 / 2\<rfloor> else - \<lfloor>- x + 1 / 2\<rfloor>)"

section \<open>Costs\<close>

datatype cost = Cost (rematches: int) (rating_gap: int) (score_gap: int)
  (byes: int) (repeated_byes: int) (bye_rank: int)

definition cost_key :: "cost \<Rightarrow> int \<times> int \<times> int \<times> int \<times> int \<times> int" where
  \<comment> \<open>the tuple that \<open>Cost::operator<\<close> compares\<close>
  "cost_key c = (byes c, repeated_byes c, bye_rank c, rematches c, rating_gap c, score_gap c)"

instantiation cost :: "{linorder, comm_monoid_add}"
begin

definition less_eq_cost :: "cost \<Rightarrow> cost \<Rightarrow> bool" where
  "less_eq_cost a b \<longleftrightarrow> cost_key a \<le> cost_key b"

definition less_cost :: "cost \<Rightarrow> cost \<Rightarrow> bool" where
  "less_cost a b \<longleftrightarrow> cost_key a < cost_key b"

definition plus_cost :: "cost \<Rightarrow> cost \<Rightarrow> cost" where
  "plus_cost a b =
     Cost (rematches a + rematches b) (rating_gap a + rating_gap b) (score_gap a + score_gap b)
       (byes a + byes b) (repeated_byes a + repeated_byes b) (bye_rank a + bye_rank b)"

definition zero_cost :: cost where
  "zero_cost = Cost 0 0 0 0 0 0"

instance
proof
  fix a b c :: cost
  have inj: "cost_key a = cost_key b \<Longrightarrow> a = b"
    by (auto simp: cost_key_def intro: cost.expand)
  show "(a < b) = (a \<le> b \<and> \<not> b \<le> a)" by (auto simp: less_cost_def less_eq_cost_def)
  show "a \<le> a" by (simp add: less_eq_cost_def)
  show "a \<le> b \<Longrightarrow> b \<le> c \<Longrightarrow> a \<le> c" unfolding less_eq_cost_def by (rule order_trans)
  show "a \<le> b \<Longrightarrow> b \<le> a \<Longrightarrow> a = b" unfolding less_eq_cost_def by (rule inj) (rule order_antisym)
  show "a \<le> b \<or> b \<le> a" unfolding less_eq_cost_def by (rule linear)
  show "a + b + c = a + (b + c)" by (simp add: plus_cost_def)
  show "a + b = b + a" by (simp add: plus_cost_def)
  show "0 + a = a" by (cases a) (simp add: plus_cost_def zero_cost_def)
qed

end

instance cost :: ordered_comm_monoid_add
proof
  fix a b c :: cost
  show "a \<le> b \<Longrightarrow> c + a \<le> c + b"
    by (cases a; cases b; cases c) (auto simp: less_eq_cost_def plus_cost_def cost_key_def less_eq_prod_def)
qed

lemma cost_le_parts:
  assumes "byes a = byes b" and "repeated_byes a = repeated_byes b" and "bye_rank a = bye_rank b"
    and "rematches a \<le> rematches b" and "rating_gap a \<le> rating_gap b" and "score_gap a \<le> score_gap b"
  shows "a \<le> b"
  using assms by (auto simp: less_eq_cost_def cost_key_def less_eq_prod_def)

lemma cost_sum_parts:
  "rematches (sum_list cs) = sum_list (map rematches cs)"
  "rating_gap (sum_list cs) = sum_list (map rating_gap cs)"
  "score_gap (sum_list cs) = sum_list (map score_gap cs)"
  "byes (sum_list cs) = sum_list (map byes cs)"
  "repeated_byes (sum_list cs) = sum_list (map repeated_byes cs)"
  "bye_rank (sum_list cs) = sum_list (map bye_rank cs)"
  by (induction cs) (simp_all add: zero_cost_def plus_cost_def)

section \<open>The search for a cheapest round\<close>

type_synonym round = "(nat \<times> nat) list"

record swiss_search =
  best :: "(cost \<times> round) option"
  prefixes :: "string \<Rightarrow> cost option"

definition edge :: "player_standing list \<Rightarrow> player_pair set \<Rightarrow> nat \<Rightarrow> nat \<Rightarrow> cost" where
  "edge pool played i j =
     (if i = j then 0
      else let a = pool ! min i j; b = pool ! max i j
           in Cost (if have_played played (player_id a) (player_id b) then 1 else 0) \<bar>elo a - elo b\<bar>
                (llround (2 * \<bar>score a - score b\<bar>)) 0 0 0)"

definition bye_cost :: "player_standing list \<Rightarrow> nat \<Rightarrow> cost" where
  "bye_cost pool i =
     Cost 0 0 0 1 (if received_bye (pool ! i) then 1 else 0) (int (length pool) - int i)"

definition memo_key :: "bool list \<Rightarrow> string" where
  "memo_key taken = map (\<lambda>t. if t then CHR ''1'' else CHR ''0'') taken"

definition free :: "bool list \<Rightarrow> nat list" where
  "free taken = filter (\<lambda>a. \<not> taken ! a) [0..<length taken]"

fun adjacent_gaps :: "int list \<Rightarrow> int" where
  "adjacent_gaps (x # y # zs) = (y - x) + adjacent_gaps zs"
| "adjacent_gaps xs = 0"

definition lower_bound :: "player_standing list \<Rightarrow> player_pair set \<Rightarrow> player_pair set \<Rightarrow> bool list \<Rightarrow> cost" where
  "lower_bound pool played forbidden taken =
     (let fs = free taken;
          forced = length (filter (\<lambda>a. \<not> list_ex (\<lambda>b. a \<noteq> b \<and> rematches (edge pool played a b) = 0) fs) fs)
      in if forbidden \<noteq> {} then 0
         else Cost ((int forced + 1) div 2)
                (adjacent_gaps (sort (map (\<lambda>a. elo (pool ! a)) fs)))
                (adjacent_gaps (sort (map (\<lambda>a. llround (2 * score (pool ! a))) fs))) 0 0 0)"

definition candidates :: "player_standing list \<Rightarrow> player_pair set \<Rightarrow> player_pair set \<Rightarrow> bool list \<Rightarrow> nat \<Rightarrow> nat list" where
  "candidates pool played forbidden taken i =
     sort_key (edge pool played i)
       (filter (\<lambda>j. \<not> taken ! j \<and> player_pair (player_id (pool ! i)) (player_id (pool ! j)) \<notin> forbidden)
         [Suc i..<length taken])"

lemma nth_set_True: "(xs[k := True]) ! x \<longleftrightarrow> xs ! x \<or> (x = k \<and> k < length xs)"
  by (cases "k < length xs") (auto simp: nth_list_update list_update_beyond not_less)

lemma free_shrinks:
  assumes "free taken = i # rest"
  shows "length (free (taken[i := True, j := True])) < length (free taken)"
proof -
  have i: "i < length taken" "\<not> taken ! i" using arg_cong [OF assms, of set] by (auto simp: free_def)
  have "set (free (taken[i := True, j := True])) \<subseteq> set (free taken) - {i}"
    using i by (auto simp: free_def nth_set_True)
  then have "card (set (free (taken[i := True, j := True]))) < card (set (free taken))"
    using i by (intro psubset_card_mono) (auto simp: free_def)
  moreover have "distinct (free t)" for t by (simp add: free_def)
  ultimately show ?thesis by (simp add: distinct_card)
qed

function search_rounds :: "player_standing list \<Rightarrow> player_pair set \<Rightarrow> player_pair set \<Rightarrow>
    bool list \<Rightarrow> round \<Rightarrow> cost \<Rightarrow> swiss_search \<Rightarrow> swiss_search" where
  \<comment> \<open>the recursive lambda \<open>search\<close>; \<open>taken\<close> and \<open>chosen\<close>, which the code restores after each call, are passed by value\<close>
  "search_rounds pool played forbidden taken chosen c st =
     (case free taken of
        [] \<Rightarrow> (if (case best st of None \<Rightarrow> True | Some (b, _) \<Rightarrow> c < b)
               then st\<lparr>best := Some (c, chosen)\<rparr> else st)
      | i # _ \<Rightarrow>
          if (case best st of None \<Rightarrow> False
              | Some (b, _) \<Rightarrow> \<not> c + lower_bound pool played forbidden taken < b) then st
          else if (case prefixes st (memo_key taken) of None \<Rightarrow> False | Some p \<Rightarrow> \<not> c < p) then st
          else let st1 = st\<lparr>prefixes := (prefixes st)(memo_key taken \<mapsto> c)\<rparr>;
                   st2 = foldl (\<lambda>s j. search_rounds pool played forbidden (taken[i := True, j := True])
                                  (chosen @ [(i, j)]) (c + edge pool played i j) s)
                           st1 (candidates pool played forbidden taken i)
               in if forbidden = {} then st2
                  else search_rounds pool played forbidden (taken[i := True])
                         (chosen @ [(i, i)]) (c + bye_cost pool i) st2)"
  by pat_completeness auto
termination
proof (relation "measure (\<lambda>(pool, played, forbidden, taken, chosen, c, st). length (free taken))", goal_cases)
  case (2 pool played forbidden taken chosen c st i rest st1 s j)
  then show ?case using free_shrinks [of taken i rest j] by simp
next
  case (3 pool played forbidden taken chosen c st i rest st1 st2)
  then show ?case using free_shrinks [of taken i rest i] by simp
qed simp

declare search_rounds.simps [simp del]

section \<open>A round\<close>

definition bye_index :: "player_standing list \<Rightarrow> nat" where
  \<comment> \<open>the last player without a bye, or the last player\<close>
  "bye_index pool =
     (case filter (\<lambda>i. \<not> received_bye (pool ! i)) (rev [0..<length pool]) of
        [] \<Rightarrow> length pool - 1
      | i # _ \<Rightarrow> i)"

definition bye_pairing :: "player_standing \<Rightarrow> pairing" where
  "bye_pairing p = \<lparr>white_id = player_id p, black_id = 0, is_bye = True\<rparr>"

definition game_pairing :: "player_standing \<Rightarrow> player_standing \<Rightarrow> pairing" where
  "game_pairing a b =
     (let (w, bl) = assign_colors a b in \<lparr>white_id = w, black_id = bl, is_bye = False\<rparr>)"

definition best_round :: "player_standing list \<Rightarrow> player_pair set \<Rightarrow> player_pair set \<Rightarrow> round" where
  \<comment> \<open>\<open>best_chosen\<close> after the call \<open>search({})\<close>\<close>
  "best_round pool played forbidden =
     (case best (search_rounds pool played forbidden (replicate (length pool) False) [] 0
                   \<lparr>best = None, prefixes = Map.empty\<rparr>) of
        None \<Rightarrow> []
      | Some (_, ch) \<Rightarrow> ch)"

definition seeded_pool :: "player_standing list \<Rightarrow> player_standing list" where
  "seeded_pool standings = sort_key seed_key (filter (\<lambda>p. \<not> withdrawn p) standings)"

definition split_bye :: "player_standing list \<Rightarrow> player_pair set \<Rightarrow> pairing list \<times> player_standing list" where
  \<comment> \<open>the bye of an odd field and the players left\<close>
  "split_bye pool forbidden =
     (if odd (length pool) \<and> forbidden = {}
      then (let k = bye_index pool in ([bye_pairing (pool ! k)], take k pool @ drop (Suc k) pool))
      else ([], pool))"

definition pair_swiss_round ::
  "player_standing list \<Rightarrow> player_pair set \<Rightarrow> player_pair set \<Rightarrow> pairing list" where
  "pair_swiss_round standings played forbidden =
     (let all = seeded_pool standings
      in if all = [] then []
         else let (tail, pool) = split_bye all forbidden;
                  chosen = best_round pool played forbidden;
                  games = map (\<lambda>(i, j). game_pairing (pool ! i) (pool ! j)) (filter (\<lambda>(i, j). i \<noteq> j) chosen);
                  sitting = map (\<lambda>(i, j). bye_pairing (pool ! i)) (filter (\<lambda>(i, j). i = j) chosen)
              in games @ tail @ sitting)"

section \<open>Complete rounds\<close>

definition seats :: "nat \<times> nat \<Rightarrow> nat list" where
  "seats = (\<lambda>(i, j). if i = j then [i] else [i, j])"

definition pair_cost :: "player_standing list \<Rightarrow> player_pair set \<Rightarrow> nat \<times> nat \<Rightarrow> cost" where
  "pair_cost pool played = (\<lambda>(i, j). if i = j then bye_cost pool i else edge pool played i j)"

definition round_cost :: "player_standing list \<Rightarrow> player_pair set \<Rightarrow> round \<Rightarrow> cost" where
  "round_cost pool played ch = sum_list (map (pair_cost pool played) ch)"

definition pair_allowed :: "player_standing list \<Rightarrow> player_pair set \<Rightarrow> nat \<times> nat \<Rightarrow> bool" where
  \<comment> \<open>a game between two players who may meet, or a bye when some games are ruled out\<close>
  "pair_allowed pool forbidden =
     (\<lambda>(i, j). if i = j then forbidden \<noteq> {}
        else i < j \<and> player_pair (player_id (pool ! i)) (player_id (pool ! j)) \<notin> forbidden)"

definition completes :: "player_standing list \<Rightarrow> player_pair set \<Rightarrow> bool list \<Rightarrow> round \<Rightarrow> bool" where
  \<comment> \<open>the pairs seat each player who is not taken exactly once\<close>
  "completes pool forbidden taken ch \<longleftrightarrow>
     mset (concat (map seats ch)) = mset (free taken) \<and> (\<forall>p \<in> set ch. pair_allowed pool forbidden p)"

abbreviation round_of :: "player_standing list \<Rightarrow> player_pair set \<Rightarrow> round \<Rightarrow> bool" where
  "round_of pool forbidden \<equiv> completes pool forbidden (replicate (length pool) False)"

lemma round_cost_simps [simp]:
  "round_cost pool played [] = 0"
  "round_cost pool played (p # ch) = pair_cost pool played p + round_cost pool played ch"
  "round_cost pool played (ch @ ch') = round_cost pool played ch + round_cost pool played ch'"
  by (simp_all add: round_cost_def)

lemma distinct_free [simp]: "distinct (free taken)"
  by (simp add: free_def)

lemma set_free: "set (free taken) = {a. a < length taken \<and> \<not> taken ! a}"
  by (auto simp: free_def)

lemma free_update:
  assumes "i \<in> set (free taken)" and "j \<in> set (free taken)"
  shows "mset (free (taken[i := True, j := True])) + mset (seats (i, j)) = mset (free taken)"
proof (rule multiset_eqI)
  fix a
  have "distinct (seats (i, j))" by (simp add: seats_def)
  moreover have "set (seats (i, j)) = {i, j}" by (auto simp: seats_def)
  ultimately have "count (mset (seats (i, j))) a = (if a = i \<or> a = j then 1 else 0)"
    by (simp add: distinct_count_atmost_1)
  moreover have "count (mset (free t)) a = (if a \<in> set (free t) then 1 else 0)" for t
    using distinct_free [of t] by (simp add: distinct_count_atmost_1)
  ultimately show "count (mset (free (taken[i := True, j := True])) + mset (seats (i, j))) a =
      count (mset (free taken)) a"
    using assms by (auto simp: set_free nth_set_True)
qed

lemma free_first:
  assumes "free taken = i # rest"
  shows "i \<in> set (free taken)" and "\<And>a. a \<in> set (free taken) \<Longrightarrow> i \<le> a"
proof -
  have "sorted (free taken)" by (simp add: free_def sorted_wrt_filter)
  then show "\<And>a. a \<in> set (free taken) \<Longrightarrow> i \<le> a" using assms by auto
qed (simp add: assms)

lemma mset_seats: "mset (concat (map f ch)) = sum_mset (image_mset (\<lambda>p. mset (f p)) (mset ch))"
  by (induction ch) simp_all

lemma completes_first:
  \<comment> \<open>a completion seats the first free player with a candidate or gives him a bye\<close>
  assumes "completes pool forbidden taken ch" and "free taken = i # rest"
  obtains j ch' where "mset ch = add_mset (i, j) (mset ch')"
    "completes pool forbidden (taken[i := True, j := True]) ch'"
    "i = j \<and> forbidden \<noteq> {} \<or> i \<noteq> j \<and> j \<in> set (candidates pool played forbidden taken i)"
proof -
  have all: "set (concat (map seats ch)) = set (free taken)"
    by (rule mset_eq_setD) (use assms(1) in \<open>simp add: completes_def\<close>)
  then have "i \<in> set (concat (map seats ch))" using free_first(1) [OF assms(2)] by simp
  then obtain p where p: "p \<in> set ch" "i \<in> set (seats p)" by auto
  have seated: "set (seats p) \<subseteq> set (free taken)" using p(1) unfolding all [symmetric] by auto
  obtain a j where aj: "p = (a, j)" by (cases p)
  have allowed: "pair_allowed pool forbidden p" using assms(1) p(1) by (simp add: completes_def)
  have "a \<in> set (free taken)" using seated by (auto simp: aj seats_def split: if_splits)
  then have "i \<le> a" by (rule free_first(2) [OF assms(2)])
  moreover have "a \<le> j" using allowed by (auto simp: aj pair_allowed_def split: if_splits)
  moreover have "i = a \<or> i = j" using p(2) by (auto simp: aj seats_def split: if_splits)
  ultimately have "i = a" by auto
  have j: "j \<in> set (free taken)" using seated by (auto simp: aj seats_def split: if_splits)
  define ch' where "ch' = remove1 p ch"
  have ch: "mset ch = add_mset (i, j) (mset ch')" using p(1) by (simp add: ch'_def aj \<open>i = a\<close>)
  have "mset (concat (map seats ch)) = mset (seats (i, j)) + mset (concat (map seats ch'))"
    using ch by (simp add: mset_seats)
  then have "mset (concat (map seats ch')) = mset (free (taken[i := True, j := True]))"
    using assms(1) free_update [OF free_first(1) [OF assms(2)] j]
    by (metis completes_def add.commute add_left_cancel)
  moreover have "set ch' \<subseteq> set ch" by (simp add: ch'_def set_remove1_subset)
  ultimately have "completes pool forbidden (taken[i := True, j := True]) ch'"
    using assms(1) by (auto simp: completes_def)
  moreover have "i = j \<and> forbidden \<noteq> {} \<or> i \<noteq> j \<and> j \<in> set (candidates pool played forbidden taken i)"
    using allowed j by (auto simp: aj \<open>i = a\<close> pair_allowed_def candidates_def set_free split: if_splits)
  ultimately show thesis using ch that by blast
qed

section \<open>The lower bound is admissible\<close>

lemma adjacent_gaps_minimal:
  \<comment> \<open>joining neighbours of the sorted list costs least\<close>
  assumes "sorted xs" and "mset xs = mset (concat (map (\<lambda>(a, b). [a, b]) ps))"
  shows "adjacent_gaps xs \<le> sum_list (map (\<lambda>(a, b). \<bar>a - b\<bar>) ps)"
  using assms
proof (induction xs arbitrary: ps rule: adjacent_gaps.induct)
  case (1 x y zs ps)
  let ?flat = "\<lambda>ps. concat (map (\<lambda>(a, b). [a, b]) ps)" and ?sum = "\<lambda>ps. sum_list (map (\<lambda>(a, b). \<bar>a - b\<bar>) ps)"
  have split: "\<exists>b qs. mset (?flat ps) = {#v, b#} + mset (?flat qs) \<and> ?sum ps = \<bar>v - b\<bar> + ?sum qs"
    if "v \<in> set (?flat ps)" for v :: int and ps
  proof -
    obtain p where p: "p \<in> set ps" "v = fst p \<or> v = snd p" using \<open>v \<in> set (?flat ps)\<close> by auto
    define qs where "qs = remove1 p ps"
    have ps: "mset ps = add_mset p (mset qs)" using p(1) by (simp add: qs_def)
    have "?sum ps = \<bar>fst p - snd p\<bar> + ?sum qs"
      using p(1) by (simp add: qs_def sum_list_map_remove1 split_beta)
    moreover have "mset (?flat ps) = {#fst p, snd p#} + mset (?flat qs)"
      using ps by (simp add: mset_seats split_beta)
    moreover have "{#fst p, snd p#} = {#snd p, fst p#}" and "\<bar>fst p - snd p\<bar> = \<bar>snd p - fst p\<bar>" by auto
    ultimately show ?thesis using p(2) by metis
  qed
  have "set (x # y # zs) = set (?flat ps)" by (rule mset_eq_setD [OF 1(3)])
  then have "x \<in> set (?flat ps)" by (metis list.set_intros(1))
  then obtain a qs where a: "mset (?flat ps) = {#x, a#} + mset (?flat qs)" "?sum ps = \<bar>x - a\<bar> + ?sum qs"
    using split by blast
  have zs: "mset (y # zs) = add_mset a (mset (?flat qs))" using 1(3) a(1) by simp
  have sorted: "sorted zs" "x \<le> y" "\<forall>z \<in> set zs. y \<le> z" using 1(2) by auto
  show ?case
  proof (cases "a = y")
    case True
    then have "adjacent_gaps zs \<le> ?sum qs" using zs sorted(1) by (intro 1(1)) simp_all
    then show ?thesis using True a(2) sorted(2) by simp
  next
    case False
    have "y \<in># add_mset a (mset (?flat qs))" unfolding zs [symmetric] by simp
    then have "y \<in> set (?flat qs)" using False by simp
    then obtain b rs where b: "mset (?flat qs) = {#y, b#} + mset (?flat rs)" "?sum qs = \<bar>y - b\<bar> + ?sum rs"
      using split by blast
    have rest: "mset zs = mset (?flat ((a, b) # rs))" using zs b(1) by simp
    then have "adjacent_gaps zs \<le> \<bar>a - b\<bar> + ?sum rs" using 1(1) [OF sorted(1), of "(a, b) # rs"] by simp
    moreover have "a \<in> set zs" "b \<in> set zs" using mset_eq_setD [OF rest] by auto
    then have "y \<le> a" "y \<le> b" using sorted(3) by auto
    ultimately show ?thesis using a(2) b(2) sorted(2) by simp
  qed
qed (auto intro!: sum_list_nonneg)

definition half_points :: "player_standing \<Rightarrow> bool" where
  "half_points p \<longleftrightarrow> 2 * score p = of_int \<lfloor>2 * score p\<rfloor>"

lemma llround_int [simp]: "llround (of_int k) = k"
proof -
  have "\<lfloor>(of_int k :: rat) + 1 / 2\<rfloor> = k" and "\<lfloor>- (of_int k :: rat) + 1 / 2\<rfloor> = - k"
    by (simp_all add: floor_eq_iff)
  then show ?thesis by (simp add: llround_def)
qed

lemma half_points_gap:
  assumes "half_points a" and "half_points b"
  shows "llround (2 * \<bar>score a - score b\<bar>) = \<bar>llround (2 * score a) - llround (2 * score b)\<bar>"
proof -
  obtain k l where kl: "2 * score a = of_int k" "2 * score b = of_int l"
    using assms unfolding half_points_def by blast
  have "2 * \<bar>score a - score b\<bar> = \<bar>2 * score a - 2 * score b\<bar>" by (simp add: abs_if)
  also have "\<dots> = of_int \<bar>k - l\<bar>" by (simp add: kl)
  finally show ?thesis by (simp only: kl llround_int)
qed

lemma pairs_only:
  \<comment> \<open>without forbidden games a completion has no byes: it pairs the free players\<close>
  assumes "completes pool {} taken ch"
  shows "\<forall>(i, j) \<in> set ch. i < j"
    and "mset (free taken) = mset (concat (map (\<lambda>(i, j). [i, j]) ch))"
    and "map (pair_cost pool played) ch = map (\<lambda>(i, j). edge pool played i j) ch"
proof -
  show lt: "\<forall>(i, j) \<in> set ch. i < j"
    using assms by (auto simp: completes_def pair_allowed_def split: if_splits)
  have "concat (map seats ch) = concat (map (\<lambda>(i, j). [i, j]) ch)"
    using lt by (intro arg_cong [where f = concat]) (auto simp: seats_def)
  then show "mset (free taken) = mset (concat (map (\<lambda>(i, j). [i, j]) ch))"
    using assms unfolding completes_def by simp
  show "map (pair_cost pool played) ch = map (\<lambda>(i, j). edge pool played i j) ch"
    using lt by (auto simp: pair_cost_def)
qed

lemma edge_parts:
  assumes "i < j"
  shows "rating_gap (edge pool played i j) = \<bar>elo (pool ! i) - elo (pool ! j)\<bar>"
    and "score_gap (edge pool played i j) = llround (2 * \<bar>score (pool ! i) - score (pool ! j)\<bar>)"
    and "byes (edge pool played i j) = 0" "repeated_byes (edge pool played i j) = 0" "bye_rank (edge pool played i j) = 0"
    and "rematches (edge pool played i j) = 0 \<or> rematches (edge pool played i j) = 1"
  using assms by (simp_all add: edge_def Let_def)

lemma edge_commute: "edge pool played j i = edge pool played i j"
  by (simp add: edge_def min.commute max.commute)

lemma gaps_bound:
  assumes "mset (free taken) = mset (concat (map (\<lambda>(i, j). [i, j]) ch))"
  shows "adjacent_gaps (sort (map f (free taken))) \<le> sum_list (map (\<lambda>(i, j). \<bar>f i - f j\<bar>) ch)"
proof -
  have "mset (sort (map f (free taken))) = image_mset f (mset (free taken))" by simp
  also have "\<dots> = mset (concat (map (\<lambda>(a, b). [a, b]) (map (\<lambda>(i, j). (f i, f j)) ch)))"
    unfolding assms by (induction ch) auto
  finally have "adjacent_gaps (sort (map f (free taken))) \<le>
      sum_list (map (\<lambda>(a, b). \<bar>a - b\<bar>) (map (\<lambda>(i, j). (f i, f j)) ch))"
    by (intro adjacent_gaps_minimal) simp_all
  also have "\<dots> = sum_list (map (\<lambda>(i, j). \<bar>f i - f j\<bar>) ch)" by (simp add: comp_def case_prod_unfold)
  finally show ?thesis .
qed

lemma forced_bound:
  \<comment> \<open>a player without a fresh opponent is in a rematch, and a rematch has two players\<close>
  assumes "mset (free taken) = mset (concat (map (\<lambda>(i, j). [i, j]) ch))" and "\<forall>(i, j) \<in> set ch. i < j"
  shows "int (length (filter (\<lambda>a. \<not> list_ex (\<lambda>b. a \<noteq> b \<and> rematches (edge pool played a b) = 0) (free taken))
      (free taken))) \<le> 2 * sum_list (map (\<lambda>(i, j). rematches (edge pool played i j)) ch)"
proof -
  define P where "P = (\<lambda>a. \<not> list_ex (\<lambda>b. a \<noteq> b \<and> rematches (edge pool played a b) = 0) (free taken))"
  have members: "set (free taken) = set (concat (map (\<lambda>(i, j). [i, j]) ch))"
    using assms(1) by (rule mset_eq_setD)
  have "length (filter P (free taken)) = size (filter_mset P (mset (free taken)))"
    by (simp flip: mset_filter)
  also have "\<dots> = length (filter P (concat (map (\<lambda>(i, j). [i, j]) ch)))"
    unfolding assms(1) by (simp flip: mset_filter)
  finally have len: "length (filter P (free taken)) = length (filter P (concat (map (\<lambda>(i, j). [i, j]) ch)))" .
  have "int (length (filter P (concat (map (\<lambda>(i, j). [i, j]) qs)))) \<le>
      2 * sum_list (map (\<lambda>(i, j). rematches (edge pool played i j)) qs)" if "set qs \<subseteq> set ch" for qs
    using that
  proof (induction qs)
    case (Cons q qs)
    obtain i j where q: "q = (i, j)" by (cases q)
    then have ij: "i < j" "i \<in> set (free taken)" "j \<in> set (free taken)"
      using Cons.prems assms(2) members by (auto simp del: set_concat simp: set_concat)
    have "rematches (edge pool played i j) = 0 \<Longrightarrow> \<not> P i \<and> \<not> P j"
      using ij by (auto simp: P_def list_ex_iff edge_commute)
    then have "int (length (filter P [i, j])) \<le> 2 * rematches (edge pool played i j)"
      using edge_parts(6) [OF ij(1), of pool played] by auto
    moreover have "filter P (concat (map (\<lambda>(i, j). [i, j]) (q # qs))) =
        filter P [i, j] @ filter P (concat (map (\<lambda>(i, j). [i, j]) qs))" by (simp add: q)
    ultimately show ?case using Cons.IH Cons.prems by (simp only: length_append of_nat_add) (simp add: q)
  qed simp
  then show ?thesis using len by (simp add: P_def)
qed

lemma lower_bound_admissible:
  assumes "forbidden = {} \<longrightarrow> list_all half_points pool" and "completes pool forbidden taken ch"
    and "length taken = length pool"
  shows "lower_bound pool played forbidden taken \<le> round_cost pool played ch"
proof (cases "forbidden = {}")
  case False
  have "0 \<le> edge pool played i j" for i j
    by (rule cost_le_parts) (simp_all add: edge_def zero_cost_def Let_def llround_def)
  moreover have "0 \<le> bye_cost pool i" for i
    by (simp add: bye_cost_def less_eq_cost_def cost_key_def zero_cost_def less_eq_prod_def)
  ultimately have "0 \<le> pair_cost pool played p" for p by (simp add: pair_cost_def split_beta)
  then have "0 \<le> round_cost pool played ch" by (induction ch) (simp_all add: add_nonneg_nonneg)
  then show ?thesis using False by (simp add: lower_bound_def)
next
  case True
  note ch = pairs_only [OF assms(2) [unfolded True]]
  have parts: "i < j \<and> i < length pool \<and> j < length pool" if "(i, j) \<in> set ch" for i j
  proof -
    have "set (free taken) = set (concat (map (\<lambda>(i, j). [i, j]) ch))" by (rule mset_eq_setD [OF ch(2)])
    then have "i \<in> set (free taken)" "j \<in> set (free taken)" using that by force+
    then show ?thesis using ch(1) that assms(3) by (auto simp: set_free)
  qed
  have half: "half_points (pool ! i)" if "i < length pool" for i
    using assms(1) True that by (simp add: list_all_length)
  let ?sum = "\<lambda>g. sum_list (map (\<lambda>(i, j). g (edge pool played i j)) ch)"
  have cost: "g (round_cost pool played ch) = ?sum g"
    if "g (sum_list (map (\<lambda>(i, j). edge pool played i j) ch)) =
        sum_list (map g (map (\<lambda>(i, j). edge pool played i j) ch))" for g :: "cost \<Rightarrow> int"
    unfolding round_cost_def ch(3) that by (simp add: comp_def case_prod_unfold)
  have "?sum rating_gap = sum_list (map (\<lambda>(i, j). \<bar>elo (pool ! i) - elo (pool ! j)\<bar>) ch)"
    using parts by (intro arg_cong [where f = sum_list] map_cong) (auto simp: edge_parts)
  moreover have "?sum score_gap =
      sum_list (map (\<lambda>(i, j). \<bar>llround (2 * score (pool ! i)) - llround (2 * score (pool ! j))\<bar>) ch)"
    using parts half by (intro arg_cong [where f = sum_list] map_cong) (auto simp: edge_parts half_points_gap)
  moreover have "sum_list (map (\<lambda>(i, j). g (edge pool played i j)) qs) = 0"
    if "\<And>i j. i < j \<Longrightarrow> g (edge pool played i j) = 0" and "\<forall>(i, j) \<in> set qs. i < j" for g :: "cost \<Rightarrow> int" and qs
    using that by (induction qs) auto
  then have "?sum byes = 0" "?sum repeated_byes = 0" "?sum bye_rank = 0" using ch(1) by (simp_all add: edge_parts)
  ultimately show ?thesis
    using gaps_bound [OF ch(2), of "\<lambda>a. elo (pool ! a)"] gaps_bound [OF ch(2), of "\<lambda>a. llround (2 * score (pool ! a))"]
      forced_bound [OF ch(2,1), of pool played]
    by (intro cost_le_parts) (simp_all add: True lower_bound_def Let_def cost cost_sum_parts)
qed

section \<open>The search is exact\<close>

definition reached :: "player_standing list \<Rightarrow> player_pair set \<Rightarrow> player_pair set \<Rightarrow> bool list \<Rightarrow> cost \<Rightarrow>
    swiss_search \<Rightarrow> bool" where
  \<comment> \<open>the best round so far costs no more than any completion of a partial round of cost \<open>c\<close>\<close>
  "reached pool played forbidden taken c st \<longleftrightarrow>
     (\<forall>ch. completes pool forbidden taken ch \<longrightarrow>
        (\<exists>b ch'. best st = Some (b, ch') \<and> b \<le> c + round_cost pool played ch))"

definition search_inv :: "player_standing list \<Rightarrow> player_pair set \<Rightarrow> player_pair set \<Rightarrow> bool list set \<Rightarrow>
    swiss_search \<Rightarrow> bool" where
  \<comment> \<open>the best round is a round of its cost, and the completions of every memoised partial round that is
      not being expanded (those of \<open>S\<close> are) have been reached\<close>
  "search_inv pool played forbidden S st \<longleftrightarrow>
     (\<forall>b ch. best st = Some (b, ch) \<longrightarrow> round_of pool forbidden ch \<and> b = round_cost pool played ch) \<and>
     (\<forall>t p. t \<notin> S \<and> prefixes st (memo_key t) = Some p \<longrightarrow> reached pool played forbidden t p st)"

definition progress :: "bool list set \<Rightarrow> swiss_search \<Rightarrow> swiss_search \<Rightarrow> bool" where
  "progress S st st' \<longleftrightarrow>
     (\<forall>b ch. best st = Some (b, ch) \<longrightarrow> (\<exists>b' ch'. best st' = Some (b', ch') \<and> b' \<le> b)) \<and>
     (\<forall>t \<in> S. prefixes st' (memo_key t) = prefixes st (memo_key t))"

definition partial_round :: "player_standing list \<Rightarrow> player_pair set \<Rightarrow> player_pair set \<Rightarrow> bool list \<Rightarrow> round \<Rightarrow>
    cost \<Rightarrow> bool" where
  "partial_round pool played forbidden taken chosen c \<longleftrightarrow>
     length taken = length pool \<and> c = round_cost pool played chosen \<and>
     (\<forall>p \<in> set chosen. pair_allowed pool forbidden p) \<and>
     mset (concat (map seats chosen)) + mset (free taken) = mset (free (replicate (length pool) False))"

lemma memo_key_inj: "memo_key t = memo_key t' \<Longrightarrow> t = t'"
proof -
  have "inj (\<lambda>t. if t then CHR ''1'' else CHR ''0'')" by (auto simp: inj_def)
  then show "memo_key t = memo_key t' \<Longrightarrow> t = t'" by (auto simp: memo_key_def inj_map_eq_map)
qed

lemma progress_refl: "progress S st st"
  by (simp add: progress_def)

lemma progress_trans: "progress S a b \<Longrightarrow> progress S b c \<Longrightarrow> progress S a c"
  by (auto simp: progress_def) (meson order_trans)

lemma progress_mono: "progress S a b \<Longrightarrow> S' \<subseteq> S \<Longrightarrow> progress S' a b"
  unfolding progress_def by blast

lemma reached_progress: "reached pool played forbidden t c a \<Longrightarrow> progress S a b \<Longrightarrow> reached pool played forbidden t c b"
  unfolding progress_def reached_def by (meson order_trans)

lemma reached_more: "reached pool played forbidden t c st \<Longrightarrow> c \<le> d \<Longrightarrow> reached pool played forbidden t d st"
  unfolding reached_def by (meson add_right_mono order_trans)

lemma partial_round_extend:
  assumes "partial_round pool played forbidden taken chosen c" and "i \<in> set (free taken)" and "j \<in> set (free taken)"
    and "pair_allowed pool forbidden (i, j)"
  shows "partial_round pool played forbidden (taken[i := True, j := True]) (chosen @ [(i, j)])
    (c + pair_cost pool played (i, j))"
  using assms free_update [OF assms(2,3)] by (auto simp: partial_round_def ac_simps)

lemma partial_round_complete:
  assumes "partial_round pool played forbidden taken chosen c" and "free taken = []"
  shows "round_of pool forbidden chosen \<and> c = round_cost pool played chosen"
  using assms by (simp add: partial_round_def completes_def)

lemma completes_nil: "free taken = [] \<Longrightarrow> completes pool forbidden taken ch \<longleftrightarrow> ch = []"
  by (cases ch) (auto simp: completes_def seats_def split: prod.splits if_splits)

lemma candidates_free:
  assumes "free taken = i # rest" and "j \<in> set (candidates pool played forbidden taken i)"
  shows "j \<in> set (free taken)" and "pair_allowed pool forbidden (i, j)" and "i \<noteq> j"
  using assms(2) by (auto simp: candidates_def set_free pair_allowed_def)

lemma search_rounds_done:
  assumes "free taken = []"
  shows "search_rounds pool played forbidden taken chosen c st =
    (if (case best st of None \<Rightarrow> True | Some (b, _) \<Rightarrow> c < b) then st\<lparr>best := Some (c, chosen)\<rparr> else st)"
  by (subst search_rounds.simps) (simp add: assms)

lemma search_rounds_correct:
  assumes "forbidden = {} \<longrightarrow> list_all half_points pool" and "partial_round pool played forbidden taken chosen c"
    and "search_inv pool played forbidden S st" and "\<forall>t \<in> S. length (free taken) < length (free t)"
  shows "search_inv pool played forbidden S (search_rounds pool played forbidden taken chosen c st) \<and>
    progress S st (search_rounds pool played forbidden taken chosen c st) \<and>
    reached pool played forbidden taken c (search_rounds pool played forbidden taken chosen c st)"
  using assms(2-)
proof (induction "length (free taken)" arbitrary: taken chosen c st S rule: less_induct)
  case (less taken chosen c st S)
  note part = less(2) and inv = less(3) and stack = less(4)
  let ?search = "search_rounds pool played forbidden"
  let ?goal = "\<lambda>S st taken c st'. search_inv pool played forbidden S st' \<and> progress S st st' \<and>
      reached pool played forbidden taken c st'"
  have untouched: "?goal S st taken c st" if "reached pool played forbidden taken c st"
    using inv that by (simp add: progress_refl)
  show ?case
  proof (cases "free taken")
    case Nil
    then show ?thesis
      using inv partial_round_complete [OF part Nil]
      by (auto simp: search_rounds_done search_inv_def progress_def reached_def completes_nil [OF Nil] split: option.splits)
         (meson less_imp_le order_trans)
  next
    case (Cons i rest)
    note unfold = search_rounds.simps [of pool played forbidden taken chosen c st, unfolded Cons list.case]
    show ?thesis
    proof (cases "\<exists>b ch. best st = Some (b, ch) \<and> b \<le> c + lower_bound pool played forbidden taken")
      case True
      then obtain b ch where b: "best st = Some (b, ch)" "b \<le> c + lower_bound pool played forbidden taken" by auto
      have "b \<le> c + round_cost pool played ch'" if "completes pool forbidden taken ch'" for ch'
        using order_trans [OF b(2) add_left_mono [OF lower_bound_admissible [OF assms(1) that]]] part
        by (simp add: partial_round_def)
      then have "reached pool played forbidden taken c st" using b(1) by (auto simp: reached_def)
      moreover have "?search taken chosen c st = st" using b by (subst unfold) (simp add: not_less)
      ultimately show ?thesis using untouched by simp
    next
      case bound: False
      show ?thesis
      proof (cases "\<exists>p. prefixes st (memo_key taken) = Some p \<and> p \<le> c")
        case True
        then obtain p where p: "prefixes st (memo_key taken) = Some p" "p \<le> c" by auto
        have "taken \<notin> S" using stack by auto
        then have "reached pool played forbidden taken p st" using inv p(1) by (simp add: search_inv_def)
        then have "reached pool played forbidden taken c st" using p(2) by (rule reached_more)
        moreover have "?search taken chosen c st = st"
          using bound p by (subst unfold) (auto simp: not_less split: option.splits)
        ultimately show ?thesis using untouched by simp
      next
        case memo: False
        define f where "f = (\<lambda>s j. ?search (taken[i := True, j := True]) (chosen @ [(i, j)]) (c + edge pool played i j) s)"
        define st1 where "st1 = st\<lparr>prefixes := (prefixes st)(memo_key taken \<mapsto> c)\<rparr>"
        define st2 where "st2 = foldl f st1 (candidates pool played forbidden taken i)"
        define st3 where "st3 = (if forbidden = {} then st2
            else ?search (taken[i := True]) (chosen @ [(i, i)]) (c + bye_cost pool i) st2)"
        have result: "?search taken chosen c st = st3"
          using bound memo unfolding st3_def st2_def st1_def f_def
          by (subst unfold) (auto simp: Let_def not_less split: option.splits)
        let ?S = "insert taken S"
        have visit: "?goal ?S s (taken[i := True, j := True]) (c + pair_cost pool played (i, j))
            (?search (taken[i := True, j := True]) (chosen @ [(i, j)]) (c + pair_cost pool played (i, j)) s)"
          if "j \<in> set (free taken)" "pair_allowed pool forbidden (i, j)" "search_inv pool played forbidden ?S s" for j s
          using that free_shrinks [OF Cons, of j] stack
          by (intro less(1) partial_round_extend [OF part free_first(1) [OF Cons]]) fastforce+
        have inv1: "search_inv pool played forbidden ?S st1"
          using inv memo_key_inj by (fastforce simp: search_inv_def st1_def reached_def split: if_splits)
        have loop: "search_inv pool played forbidden ?S st2 \<and> progress ?S st1 st2 \<and>
            (\<forall>j \<in> set (candidates pool played forbidden taken i).
               reached pool played forbidden (taken[i := True, j := True]) (c + edge pool played i j) st2)"
          unfolding st2_def
        proof (rule foldl_invariant [where I = "search_inv pool played forbidden ?S" and R = "progress ?S" and
              D = "\<lambda>j. reached pool played forbidden (taken[i := True, j := True]) (c + edge pool played i j)"])
          show "search_inv pool played forbidden ?S st1" by (rule inv1)
        next
          fix s j
          assume j: "j \<in> set (candidates pool played forbidden taken i)" and s: "search_inv pool played forbidden ?S s"
          show "search_inv pool played forbidden ?S (f s j) \<and> progress ?S s (f s j) \<and>
              reached pool played forbidden (taken[i := True, j := True]) (c + edge pool played i j) (f s j)"
            using visit [OF candidates_free(1,2) [OF Cons j] s] candidates_free(3) [OF Cons j]
            by (simp add: f_def pair_cost_def)
        qed (auto intro: progress_refl progress_trans reached_progress)
        have bye: "search_inv pool played forbidden ?S st3 \<and> progress ?S st2 st3 \<and>
            (forbidden \<noteq> {} \<longrightarrow> reached pool played forbidden (taken[i := True, i := True]) (c + bye_cost pool i) st3)"
          using visit [OF free_first(1) [OF Cons], of st2] loop
          by (auto simp: st3_def pair_allowed_def pair_cost_def progress_refl)
        have all: "reached pool played forbidden taken c st3"
          unfolding reached_def
        proof (intro allI impI)
          fix ch
          assume "completes pool forbidden taken ch"
          then obtain j ch' where ch: "mset ch = add_mset (i, j) (mset ch')"
            "completes pool forbidden (taken[i := True, j := True]) ch'"
            "i = j \<and> forbidden \<noteq> {} \<or> i \<noteq> j \<and> j \<in> set (candidates pool played forbidden taken i)"
            using completes_first [OF _ Cons] by metis
          have "reached pool played forbidden (taken[i := True, j := True]) (c + pair_cost pool played (i, j)) st3"
            using ch(3) bye loop by (auto simp: pair_cost_def intro: reached_progress)
          then obtain b ch'' where "best st3 = Some (b, ch'')"
            "b \<le> c + pair_cost pool played (i, j) + round_cost pool played ch'"
            using ch(2) by (auto simp: reached_def)
          moreover have "round_cost pool played ch = pair_cost pool played (i, j) + round_cost pool played ch'"
            using ch(1) unfolding round_cost_def by (simp flip: sum_mset_sum_list)
          ultimately show "\<exists>b ch''. best st3 = Some (b, ch'') \<and> b \<le> c + round_cost pool played ch"
            by (auto simp: ac_simps)
        qed
        have "memo_key t \<noteq> memo_key taken" if "t \<in> S" for t using stack that memo_key_inj by blast
        moreover have "progress ?S st1 st3" using loop bye progress_trans by blast
        ultimately have memoised: "prefixes st3 (memo_key taken) = Some c" and "progress S st st3"
          by (auto simp: progress_def st1_def)
        moreover have "reached pool played forbidden t p st3" if "t \<notin> S" "prefixes st3 (memo_key t) = Some p" for t p
          by (cases "t = taken") (use that all bye memoised in \<open>auto simp: search_inv_def\<close>)
        ultimately show ?thesis
          unfolding result using all bye by (simp add: search_inv_def)
      qed
    qed
  qed
qed

lemma rounds_exist:
  assumes "forbidden = {} \<longrightarrow> even (length pool)"
  obtains ch where "round_of pool forbidden ch"
proof (cases "forbidden = {}")
  case True
  then obtain k where k: "length pool = 2 * k" using assms by blast
  have "concat (map (\<lambda>i. [2 * i, Suc (2 * i)]) [0..<k]) = [0..<2 * k]" by (induction k) simp_all
  then have "mset (concat (map seats (map (\<lambda>i. (2 * i, Suc (2 * i))) [0..<k]))) = mset [0..<2 * k]"
    by (simp add: seats_def comp_def)
  moreover have "free (replicate (length pool) False) = [0..<2 * k]" by (simp add: free_def k)
  ultimately have "round_of pool forbidden (map (\<lambda>i. (2 * i, Suc (2 * i))) [0..<k])"
    using True by (auto simp: completes_def pair_allowed_def)
  then show thesis by (rule that)
next
  case False
  have "round_of pool forbidden (map (\<lambda>i. (i, i)) [0..<length pool])"
    using False by (auto simp: completes_def pair_allowed_def seats_def comp_def free_def)
  then show thesis by (rule that)
qed

lemma best_round_exact:
  assumes "forbidden = {} \<longrightarrow> even (length pool) \<and> list_all half_points pool"
  shows "round_of pool forbidden (best_round pool played forbidden)"
    and "round_of pool forbidden ch \<Longrightarrow>
      round_cost pool played (best_round pool played forbidden) \<le> round_cost pool played ch"
proof -
  let ?start = "\<lparr>best = None, prefixes = Map.empty\<rparr>" and ?none = "replicate (length pool) False"
  let ?st = "search_rounds pool played forbidden ?none [] 0 ?start"
  have "search_inv pool played forbidden {} ?st \<and> progress {} ?start ?st \<and> reached pool played forbidden ?none 0 ?st"
    using assms by (intro search_rounds_correct) (auto simp: partial_round_def search_inv_def)
  then have inv: "search_inv pool played forbidden {} ?st" and all: "reached pool played forbidden ?none 0 ?st" by auto
  obtain ch0 where "round_of pool forbidden ch0" using rounds_exist assms by metis
  then obtain b best_ch where best: "best ?st = Some (b, best_ch)" using all by (auto simp: reached_def)
  then have "best_round pool played forbidden = best_ch" by (simp add: best_round_def)
  moreover have "round_of pool forbidden best_ch" "b = round_cost pool played best_ch"
    using inv best by (simp_all add: search_inv_def)
  ultimately show "round_of pool forbidden (best_round pool played forbidden)"
    and "round_of pool forbidden ch \<Longrightarrow>
      round_cost pool played (best_round pool played forbidden) \<le> round_cost pool played ch"
    using all best by (auto simp: reached_def)
qed

section \<open>A round seats everyone\<close>

definition players :: "pairing \<Rightarrow> int list" where
  "players p = (if is_bye p then [white_id p] else [white_id p, black_id p])"

lemma players_game: "mset (players (game_pairing a b)) = {#player_id a, player_id b#}"
  by (auto simp: players_def game_pairing_def assign_colors_def split: if_splits)

lemma players_bye: "players (bye_pairing a) = [player_id a]"
  by (simp add: players_def bye_pairing_def)

lemma bye_flags [simp]: "is_bye (bye_pairing a)" "\<not> is_bye (game_pairing a b)"
  by (simp_all add: bye_pairing_def game_pairing_def split_beta)

lemma game_pair: "player_pair (white_id (game_pairing a b)) (black_id (game_pairing a b)) =
    player_pair (player_id a) (player_id b)"
  by (auto simp: game_pairing_def assign_colors_def player_pair_def)

lemma bye_index_less:
  assumes "pool \<noteq> []"
  shows "bye_index pool < length pool"
proof (cases "filter (\<lambda>i. \<not> received_bye (pool ! i)) (rev [0..<length pool])")
  case Nil
  then show ?thesis using assms by (simp add: bye_index_def)
next
  case (Cons i rest)
  then have "i \<in> set (filter (\<lambda>i. \<not> received_bye (pool ! i)) (rev [0..<length pool]))"
    by (simp only: list.set_intros)
  then have "i < length pool" by simp
  then show ?thesis using Cons by (simp add: bye_index_def)
qed

lemma split_bye_players:
  "mset (concat (map players (fst (split_bye all forbidden)))) + mset (map player_id (snd (split_bye all forbidden))) =
   mset (map player_id all)"
proof (cases "odd (length all) \<and> forbidden = {}")
  case True
  then have "all \<noteq> []" by auto
  define xs y zs where "xs = take (bye_index all) all" and "y = all ! bye_index all"
    and "zs = drop (Suc (bye_index all)) all"
  have "all = xs @ y # zs"
    unfolding xs_def y_def zs_def using \<open>all \<noteq> []\<close> by (intro id_take_nth_drop bye_index_less)
  then have "mset (map player_id all) = mset (map player_id xs) + {#player_id y#} + mset (map player_id zs)"
    by (rule ssubst) simp
  then show ?thesis using True by (simp add: split_bye_def Let_def players_bye xs_def y_def zs_def)
qed (auto simp: split_bye_def)

lemma split_bye_half: "list_all half_points all \<Longrightarrow> list_all half_points (snd (split_bye all forbidden))"
  by (auto simp: split_bye_def Let_def list_all_iff dest: in_set_takeD in_set_dropD)

lemma split_bye_parity:
  assumes "forbidden = {}"
  shows "even (length (snd (split_bye all forbidden)))" and "length (fst (split_bye all forbidden)) = length all mod 2"
proof -
  have "bye_index all < length all" if "odd (length all)" by (rule bye_index_less) (use that in auto)
  then show "even (length (snd (split_bye all forbidden)))"
    using assms by (cases "odd (length all)") (auto simp: split_bye_def Let_def min_def)
  show "length (fst (split_bye all forbidden)) = length all mod 2"
    using assms by (simp add: split_bye_def Let_def odd_iff_mod_2_eq_one)
qed

lemma round_players:
  assumes "round_of pool forbidden ch"
  shows "mset (concat (map players (map (\<lambda>(i, j). game_pairing (pool ! i) (pool ! j)) (filter (\<lambda>(i, j). i \<noteq> j) ch)))) +
    mset (concat (map players (map (\<lambda>(i, j). bye_pairing (pool ! i)) (filter (\<lambda>(i, j). i = j) ch)))) =
    mset (map player_id pool)"
proof -
  have "mset (concat (map players (map (\<lambda>(i, j). game_pairing (pool ! i) (pool ! j)) (filter (\<lambda>(i, j). i \<noteq> j) qs)))) +
      mset (concat (map players (map (\<lambda>(i, j). bye_pairing (pool ! i)) (filter (\<lambda>(i, j). i = j) qs)))) =
      image_mset (\<lambda>i. player_id (pool ! i)) (mset (concat (map seats qs)))" for qs
    by (induction qs) (auto simp: players_game players_bye seats_def)
  also have "mset (concat (map seats ch)) = mset [0..<length pool]"
    using assms by (simp add: completes_def free_def del: mset_upt)
  also have "image_mset (\<lambda>i. player_id (pool ! i)) (mset [0..<length pool]) = mset (map player_id pool)"
    unfolding mset_map [symmetric] by (intro arg_cong [where f = mset] nth_equalityI) simp_all
  finally show ?thesis .
qed

section \<open>Properties\<close>

text \<open>
  C9. The branch-and-bound search answers a best possible round. Whatever games were played and
  whatever games are forbidden, the pairs seat every player of the field exactly once, and no other
  complete round is cheaper in the order of the code (byes, repeated byes, the rank of the byes,
  rematches, rating gaps, score gaps): neither the lower bound nor the memo table of partial rounds
  ever cuts off the last optimal round. An even field is assumed where no game is forbidden, as
  \<open>split_bye\<close> leaves it, and scores in half points.
\<close>

theorem swiss_search_exact:
  assumes "forbidden = {} \<longrightarrow> even (length pool) \<and> list_all half_points pool"
  shows "round_of pool forbidden (best_round pool played forbidden) \<and>
    (\<forall>ch. round_of pool forbidden ch \<longrightarrow>
       round_cost pool played (best_round pool played forbidden) \<le> round_cost pool played ch)"
  using best_round_exact [OF assms] by blast

definition demo_field :: "player_standing list" where
  "demo_field = map (\<lambda>(i, r). \<lparr>player_id = i, elo = r, score = 1 / 2, whites_played = 0,
     received_bye = False, withdrawn = False\<rparr>) [(1, 1900), (2, 1800), (3, 1750), (4, 1600), (5, 1500)]"

theorem swiss_search_exact_witness:
  "round_of (take 4 demo_field) {} (best_round (take 4 demo_field) {(2, 3)} {}) \<and>
   round_cost (take 4 demo_field) {(2, 3)} (best_round (take 4 demo_field) {(2, 3)} {}) \<le>
     round_cost (take 4 demo_field) {(2, 3)} [(0, 2), (1, 3)]"
proof -
  have "even (length (take 4 demo_field)) \<and> list_all half_points (take 4 demo_field)"
    by (simp add: demo_field_def half_points_def)
  moreover have "round_of (take 4 demo_field) {} [(0, 2), (1, 3)]"
    by code_simp
  ultimately show ?thesis using swiss_search_exact [of "{}" "take 4 demo_field" "{(2, 3)}"] by blast
qed

lemma pair_swiss_players:
  assumes "list_all half_points standings"
  shows "mset (concat (map players (pair_swiss_round standings played forbidden))) =
      mset (map player_id (filter (\<lambda>p. \<not> withdrawn p) standings))"
proof (cases "seeded_pool standings = []")
  case True
  then have "filter (\<lambda>p. \<not> withdrawn p) standings = []"
    unfolding seeded_pool_def by (metis mset_sort mset_zero_iff)
  then show ?thesis using True by (simp add: pair_swiss_round_def)
next
  case False
  let ?all = "seeded_pool standings"
  obtain tail pool where split: "split_bye ?all forbidden = (tail, pool)" by (cases "split_bye ?all forbidden")
  have "list_all half_points ?all" using assms by (auto simp: seeded_pool_def list_all_iff)
  then have field: "forbidden = {} \<longrightarrow> even (length pool) \<and> list_all half_points pool"
    using split_bye_half [of ?all forbidden] split_bye_parity(1) [of forbidden ?all] split by auto
  have "mset (concat (map players (pair_swiss_round standings played forbidden))) = mset (map player_id ?all)"
    using round_players [OF best_round_exact(1) [OF field, of played]] split_bye_players [of ?all forbidden] False split
    by (simp add: pair_swiss_round_def Let_def ac_simps)
  then show ?thesis by (simp add: seeded_pool_def)
qed

text \<open>
  A round seats everyone: the players of the pairings of a round are exactly the players who have
  not withdrawn, each once; no forbidden game is played; and without forbidden games there is one bye
  when the number of players is odd and none when it is even.
\<close>

lemma swiss_round_seats:
  assumes "list_all half_points standings"
  shows "mset (concat (map players (pair_swiss_round standings played forbidden))) =
      mset (map player_id (filter (\<lambda>p. \<not> withdrawn p) standings)) \<and>
    (\<forall>p \<in> set (pair_swiss_round standings played forbidden).
       \<not> is_bye p \<longrightarrow> player_pair (white_id p) (black_id p) \<notin> forbidden) \<and>
    (forbidden = {} \<longrightarrow> length (filter is_bye (pair_swiss_round standings played forbidden)) =
       length (filter (\<lambda>p. \<not> withdrawn p) standings) mod 2)"
proof (cases "seeded_pool standings = []")
  case True
  then have "filter (\<lambda>p. \<not> withdrawn p) standings = []"
    unfolding seeded_pool_def by (metis mset_sort mset_zero_iff)
  then show ?thesis using True by (simp add: pair_swiss_round_def)
next
  case False
  let ?all = "seeded_pool standings"
  obtain tail pool where split: "split_bye ?all forbidden = (tail, pool)" by (cases "split_bye ?all forbidden")
  let ?ch = "best_round pool played forbidden"
  have "list_all half_points ?all" using assms by (auto simp: seeded_pool_def list_all_iff)
  then have field: "forbidden = {} \<longrightarrow> even (length pool) \<and> list_all half_points pool"
    using split_bye_half [of ?all forbidden] split_bye_parity(1) [of forbidden ?all] split by auto
  note round = best_round_exact(1) [OF field, of played]
  have result: "pair_swiss_round standings played forbidden =
      map (\<lambda>(i, j). game_pairing (pool ! i) (pool ! j)) (filter (\<lambda>(i, j). i \<noteq> j) ?ch) @ tail @
      map (\<lambda>(i, j). bye_pairing (pool ! i)) (filter (\<lambda>(i, j). i = j) ?ch)" (is "_ = ?games @ tail @ ?byes")
    using False split by (simp add: pair_swiss_round_def Let_def)
  have tail: "\<forall>p \<in> set tail. is_bye p"
    using split by (auto simp: split_bye_def Let_def split: if_splits)
  have games: "\<forall>p \<in> set ?games. \<not> is_bye p \<and> player_pair (white_id p) (black_id p) \<notin> forbidden"
    using round by (auto simp: game_pair completes_def pair_allowed_def split: if_splits)
  note pair_swiss_players [OF assms, of played forbidden]
  moreover have "length (filter is_bye (pair_swiss_round standings played forbidden)) =
      length (filter (\<lambda>p. \<not> withdrawn p) standings) mod 2" if "forbidden = {}"
  proof -
    have "?byes = []" using round that by (auto simp: completes_def pair_allowed_def filter_empty_conv split: if_splits)
    moreover have "filter is_bye ?games = []" using games by (auto simp: filter_empty_conv)
    moreover have "filter is_bye tail = tail" using tail by simp
    moreover have "length tail = length ?all mod 2" using split_bye_parity(2) [OF that, of ?all] split by simp
    ultimately show ?thesis unfolding result by (simp add: seeded_pool_def)
  qed
  moreover have "\<forall>p \<in> set (pair_swiss_round standings played forbidden).
      \<not> is_bye p \<longrightarrow> player_pair (white_id p) (black_id p) \<notin> forbidden"
    using games tail unfolding result by auto
  ultimately show ?thesis by simp
qed

end
