(* ===== verification/TournamentStore.thy ===== *)
theory TournamentStore
  imports Swiss
begin

text \<open>
  The tables of the tournaments (\<open>src/tournament/tournament_repo.cpp\<close>, with the checks of
  \<open>src/storage/migrations\<close>): each function runs its SQL statement on the rows. A statement is atomic; it may be
  refused for any reason (a lost connection, a missing player), which \<open>refused\<close> decides, and it is
  refused when a row would break a check or a key of its table. Time stamps are Unix seconds; the
  order of rows that no \<open>ORDER BY\<close> fixes is an argument. Shown: the score, the colours and the byes of
  the players always follow from the results of their pairings.
\<close>

section \<open>Rows\<close>

record tournament_row =
  t_id :: int
  t_name :: string
  t_format :: string
  t_rounds :: int
  t_current_round :: int
  t_base_ms :: int
  t_increment_ms :: int
  t_status :: string
  t_deadline :: int
  t_first_start :: int
  t_duration :: int
  t_open :: bool
  t_closed_at :: "int option"
  t_created_by :: int
  t_created_at :: int
  t_started_at :: "int option"
  t_completed_at :: "int option"

record participant_row =
  p_tournament :: int
  p_player :: int
  p_elo :: int
  p_score :: rat
  p_whites :: int
  p_bye :: bool
  p_withdrawn :: bool
  p_registered_at :: int

record pairing_row =
  g_id :: int
  g_tournament :: int
  g_round :: int
  g_white :: int
  g_black :: "int option"
  g_game :: "int option"
  g_replay :: "int option"
  g_result :: string
  g_source :: "string option"
  g_recorded_at :: "int option"
  g_created_at :: int

record round_row =
  r_tournament :: int
  r_round :: int
  r_earliest :: int
  r_actual :: "int option"
  r_closes :: int
  r_completed_at :: "int option"
  r_status :: string

record tables =
  tournament_rows :: "tournament_row list"
  participant_rows :: "participant_row list"
  pairing_rows :: "pairing_row list"
  round_rows :: "round_row list"
  checkins :: "(int \<times> int \<times> int) list"
  override_log :: "(int \<times> int \<times> string \<times> string \<times> string) list"
  player_names :: "(int \<times> string) list"
  tournament_seq :: int
  pairing_seq :: int

section \<open>Statements\<close>

record db =
  tables_of :: tables
  steps :: nat

record db_env =
  refused :: "nat \<Rightarrow> bool"
  db_now :: "nat \<Rightarrow> int"
  unix_now :: "nat \<Rightarrow> int"
  row_order :: "nat \<Rightarrow> (int \<times> int) list \<Rightarrow> (int \<times> int) list"
  fold_name :: "string \<Rightarrow> string"

type_synonym 'a statement = "int \<Rightarrow> tables \<Rightarrow> ('a \<times> tables) option"

definition exec_sql :: "db_env \<Rightarrow> 'a statement \<Rightarrow> db \<Rightarrow> 'a option \<times> db" where
  \<comment> \<open>\<open>Database::exec\<close>: no result when the statement is refused or a check of the tables fails\<close>
  "exec_sql e f d =
     (let d1 = d\<lparr>steps := steps d + 1\<rparr>
      in if refused e (steps d) then (None, d1)
         else case f (db_now e (steps d)) (tables_of d) of
                None \<Rightarrow> (None, d1)
              | Some (a, t) \<Rightarrow> (Some a, d1\<lparr>tables_of := t\<rparr>))"

definition select_rows :: "db_env \<Rightarrow> (tables \<Rightarrow> 'a) \<Rightarrow> db \<Rightarrow> 'a option \<times> db" where
  "select_rows e f d = exec_sql e (\<lambda>now t. Some (f t, t)) d"

definition read_clock :: "db_env \<Rightarrow> db \<Rightarrow> int \<times> db" where
  "read_clock e d = (unix_now e (steps d), d\<lparr>steps := steps d + 1\<rparr>)"

definition update_where :: "('r \<Rightarrow> bool) \<Rightarrow> ('r \<Rightarrow> 'r) \<Rightarrow> 'r list \<Rightarrow> 'r list" where
  "update_where P f rs = map (\<lambda>r. if P r then f r else r) rs"

definition affected :: "nat option \<times> db \<Rightarrow> bool \<times> db" where
  \<comment> \<open>\<open>return r.ok && r.rows_affected > 0\<close>\<close>
  "affected = (\<lambda>(n, d). ((case n of None \<Rightarrow> False | Some k \<Rightarrow> k > 0), d))"

definition begin_transaction :: "db_env \<Rightarrow> db \<Rightarrow> bool \<times> db" where
  "begin_transaction e d = (let (r, d1) = select_rows e (\<lambda>t. ()) d in (r \<noteq> None, d1))"

definition rollback_to :: "db \<Rightarrow> db \<Rightarrow> db" where
  \<comment> \<open>the destructor of an open transaction; the sequences are not rolled back\<close>
  "rollback_to saved d =
     d\<lparr>tables_of := (tables_of saved)\<lparr>tournament_seq := tournament_seq (tables_of d), pairing_seq := pairing_seq (tables_of d)\<rparr>,
       steps := steps d + 1\<rparr>"

definition commit_transaction :: "db_env \<Rightarrow> db \<Rightarrow> db \<Rightarrow> bool \<times> db" where
  \<comment> \<open>a refused \<open>COMMIT\<close> leaves nothing of the transaction\<close>
  "commit_transaction e saved d =
     (let (r, d1) = select_rows e (\<lambda>t. ()) d
      in if r \<noteq> None then (True, d1) else (False, rollback_to saved d1))"

section \<open>Tournaments\<close>

definition btrim :: "string \<Rightarrow> string" where
  "btrim s = rev (dropWhile (\<lambda>c. c = CHR '' '') (rev (dropWhile (\<lambda>c. c = CHR '' '') s)))"

definition normal_name :: "db_env \<Rightarrow> string \<Rightarrow> string" where
  "normal_name e s = fold_name e (btrim s)"

definition registration_end :: "tournament_row \<Rightarrow> int" where
  \<comment> \<open>\<open>LEAST(registration_deadline, first_round_starts_at - 90 seconds)\<close>\<close>
  "registration_end t = min (t_deadline t) (t_first_start t - 90)"

definition insert_tournament ::
  "string \<Rightarrow> int \<Rightarrow> int \<Rightarrow> int \<Rightarrow> int \<Rightarrow> int \<Rightarrow> int \<Rightarrow> int \<Rightarrow> string \<Rightarrow> int statement" where
  "insert_tournament name rounds base inc by deadline first duration format now t =
     (let new = tournament_seq t + 1;
          row = \<lparr>t_id = new, t_name = name, t_format = format, t_rounds = rounds, t_current_round = 0, t_base_ms = base,
            t_increment_ms = inc, t_status = ''registration'', t_deadline = deadline, t_first_start = first,
            t_duration = duration, t_open = True, t_closed_at = None, t_created_by = by, t_created_at = now,
            t_started_at = None, t_completed_at = None\<rparr>;
          rs = map (\<lambda>n. \<lparr>r_tournament = new, r_round = n, r_earliest = first + (n - 1) * duration, r_actual = None,
            r_closes = first + n * duration, r_completed_at = None, r_status = ''scheduled''\<rparr>) [1..rounds]
      in Some (new, t\<lparr>tournament_rows := tournament_rows t @ [row], round_rows := round_rows t @ rs, tournament_seq := new\<rparr>))"

definition name_taken :: "db_env \<Rightarrow> string \<Rightarrow> tables \<Rightarrow> bool" where
  "name_taken e name t = list_ex (\<lambda>r. normal_name e (t_name r) = normal_name e name) (tournament_rows t)"

definition insert_named :: "db_env \<Rightarrow> string \<Rightarrow> int statement \<Rightarrow> db \<Rightarrow> db \<Rightarrow> (string + int) \<times> db" where
  \<comment> \<open>the transaction of \<open>create_tournament\<close> after its \<open>BEGIN\<close>: the advisory lock, the test of the name, the insertion\<close>
  "insert_named e name stmt saved d =
     (let (locked, d1) = select_rows e (\<lambda>t. ()) d
      in if locked = None then (Inl ''sql'', rollback_to saved d1)
         else case select_rows e (name_taken e name) d1 of
             (None, d2) \<Rightarrow> (Inl ''sql'', rollback_to saved d2)
           | (Some taken, d2) \<Rightarrow>
               if taken then (Inl ''tournament_name_taken'', rollback_to saved d2)
               else case exec_sql e stmt d2 of
                   (None, d3) \<Rightarrow> (Inl ''sql'', rollback_to saved d3)
                 | (Some new, d3) \<Rightarrow>
                     let (done, d4) = commit_transaction e saved d3
                     in (if done then Inr new else Inl ''create transaction failed'', d4))"

definition create_tournament :: "db_env \<Rightarrow> string \<Rightarrow> int \<Rightarrow> int \<Rightarrow> int \<Rightarrow> int \<Rightarrow> int \<Rightarrow> int \<Rightarrow> int \<Rightarrow> string \<Rightarrow> db \<Rightarrow>
    (string + int) \<times> db" where
  "create_tournament e name rounds0 base inc by deadline0 first0 duration format d =
     (let rounds = (if format = ''winners_advance'' then 1 else rounds0);
          deadline = (if deadline0 \<le> 0 then 4102444800 else deadline0);
          first = (if first0 \<le> 0 then deadline + 300 else first0)
      in if format \<noteq> ''swiss'' \<and> format \<noteq> ''winners_advance'' then (Inl ''invalid_format'', d)
         else if rounds \<le> 0 then (Inl ''rounds must be positive'', d)
         else if base \<le> 0 then (Inl ''time_base must be positive'', d)
         else if inc < 0 then (Inl ''time_inc must be non-negative'', d)
         else if first < deadline + 30
         then (Inl ''first round must start at least 30 seconds after registration closes'', d)
         else if duration < 60 then (Inl ''round duration must be at least 60 seconds'', d)
         else let (begun, d1) = begin_transaction e d
              in if \<not> begun then (Inl ''database unavailable'', d1)
                 else insert_named e name (insert_tournament name rounds base inc by deadline first duration format) d d1)"

definition find_tournament :: "db_env \<Rightarrow> int \<Rightarrow> db \<Rightarrow> tournament_row option \<times> db" where
  "find_tournament e tid d =
     (let (r, d1) = select_rows e (\<lambda>t. find (\<lambda>r. t_id r = tid) (tournament_rows t)) d in (Option.bind r id, d1))"

definition list_tournaments :: "db_env \<Rightarrow> string \<Rightarrow> int \<Rightarrow> db \<Rightarrow> tournament_row list \<times> db" where
  "list_tournaments e status limit d =
     (if limit \<le> 0 then ([], d)
      else let (r, d1) = select_rows e (\<lambda>t. take (nat limit) (sort_key (\<lambda>r. - t_created_at r)
                 (filter (\<lambda>r. status = [] \<or> t_status r = status) (tournament_rows t)))) d
           in (case r of None \<Rightarrow> [] | Some rs \<Rightarrow> rs, d1))"

definition with_status :: "string \<Rightarrow> int \<Rightarrow> tournament_row \<Rightarrow> tournament_row" where
  "with_status status now r =
     r\<lparr>t_status := status,
       t_started_at := (if status = ''in_progress'' \<and> t_started_at r = None then Some now else t_started_at r),
       t_completed_at := (if status = ''completed'' \<and> t_completed_at r = None then Some now else t_completed_at r)\<rparr>"

definition set_tournament_status :: "db_env \<Rightarrow> int \<Rightarrow> string \<Rightarrow> db \<Rightarrow> bool \<times> db" where
  "set_tournament_status e tid status d =
     affected (exec_sql e (\<lambda>now t. Some (length (filter (\<lambda>r. t_id r = tid) (tournament_rows t)),
       t\<lparr>tournament_rows := update_where (\<lambda>r. t_id r = tid) (with_status status now) (tournament_rows t)\<rparr>)) d)"

definition set_tournament_round :: "db_env \<Rightarrow> int \<Rightarrow> int \<Rightarrow> db \<Rightarrow> bool \<times> db" where
  \<comment> \<open>the table checks \<open>0 <= current_round <= rounds\<close>\<close>
  "set_tournament_round e tid new d =
     affected (exec_sql e (\<lambda>now t.
       if list_ex (\<lambda>r. t_id r = tid \<and> \<not> (0 \<le> new \<and> new \<le> t_rounds r)) (tournament_rows t) then None
       else Some (length (filter (\<lambda>r. t_id r = tid) (tournament_rows t)),
         t\<lparr>tournament_rows := update_where (\<lambda>r. t_id r = tid) (\<lambda>r. r\<lparr>t_current_round := new\<rparr>) (tournament_rows t)\<rparr>)) d)"

definition registration_rows :: "int \<Rightarrow> bool \<Rightarrow> int \<Rightarrow> tables \<Rightarrow> tournament_row \<Rightarrow> bool" where
  \<comment> \<open>the \<open>WHERE\<close> of the update of the registration\<close>
  "registration_rows tid open_it unix t r \<longleftrightarrow>
     t_id r = tid \<and> (t_status r = ''registration'' \<or> t_status r = ''scheduled'') \<and>
     (open_it \<longrightarrow> registration_end r > unix \<and> \<not> list_ex (\<lambda>p. g_tournament p = tid) (pairing_rows t))"

definition set_registration_open :: "db_env \<Rightarrow> int \<Rightarrow> bool \<Rightarrow> int \<Rightarrow> db \<Rightarrow> bool \<times> db" where
  "set_registration_open e tid open_it unix d =
     affected (exec_sql e (\<lambda>now t. Some (length (filter (registration_rows tid open_it unix t) (tournament_rows t)),
       t\<lparr>tournament_rows := update_where (registration_rows tid open_it unix t) (\<lambda>r. r\<lparr>t_open := open_it,
           t_closed_at := (if open_it then None else if t_closed_at r = None then Some unix else t_closed_at r),
           t_status := (if open_it then ''registration'' else ''scheduled'')\<rparr>) (tournament_rows t)\<rparr>)) d)"

section \<open>Participants\<close>

definition known_participant :: "int \<Rightarrow> int \<Rightarrow> tables \<Rightarrow> bool" where
  "known_participant tid pid t = list_ex (\<lambda>p. p_tournament p = tid \<and> p_player p = pid) (participant_rows t)"

definition new_participant :: "int \<Rightarrow> int \<Rightarrow> int \<Rightarrow> int \<Rightarrow> participant_row" where
  "new_participant tid pid rating now =
     \<lparr>p_tournament = tid, p_player = pid, p_elo = rating, p_score = 0, p_whites = 0, p_bye = False,
       p_withdrawn = False, p_registered_at = now\<rparr>"

definition join_rows :: "int \<Rightarrow> int \<Rightarrow> int \<Rightarrow> int \<Rightarrow> nat statement" where
  "join_rows tid pid rating unix now t =
     (let n = length (filter (\<lambda>r. t_id r = tid \<and> t_status r = ''registration'' \<and> t_open r \<and>
            (unix = 0 \<or> registration_end r > unix)) (tournament_rows t))
      in if n = 0 \<or> known_participant tid pid t then Some (0, t)
         else Some (1, t\<lparr>participant_rows := participant_rows t @ [new_participant tid pid rating now]\<rparr>))"

definition add_participant :: "db_env \<Rightarrow> int \<Rightarrow> int \<Rightarrow> int \<Rightarrow> int \<Rightarrow> db \<Rightarrow> (string + unit) \<times> db" where
  "add_participant e tid pid rating unix d =
     (let (r, d1) = exec_sql e (join_rows tid pid rating (if unix \<le> 0 then 0 else unix)) d
      in case r of
           None \<Rightarrow> (Inl ''sql'', d1)
         | Some n \<Rightarrow>
             if n = 0
             then (let (known, d2) = select_rows e (known_participant tid pid) d1
                   in (if known = Some True then Inr () else Inl ''registration_closed'', d2))
             else (Inr (), d1))"

definition leave_rows :: "int \<Rightarrow> int \<Rightarrow> int \<Rightarrow> nat statement" where
  "leave_rows tid pid unix now t =
     (let open_now = list_ex (\<lambda>r. t_id r = tid \<and> t_status r = ''registration'' \<and> t_open r \<and> registration_end r > unix)
            (tournament_rows t);
          gone = (\<lambda>p. open_now \<and> p_tournament p = tid \<and> p_player p = pid)
      in Some (length (filter gone (participant_rows t)), t\<lparr>participant_rows := filter (\<lambda>p. \<not> gone p) (participant_rows t)\<rparr>))"

definition remove_participant :: "db_env \<Rightarrow> int \<Rightarrow> int \<Rightarrow> int \<Rightarrow> db \<Rightarrow> (string + unit) \<times> db" where
  "remove_participant e tid pid unix d =
     (let (r, d1) = exec_sql e (leave_rows tid pid unix) d
      in case r of
           None \<Rightarrow> (Inl ''sql'', d1)
         | Some n \<Rightarrow>
             if n = 0
             then (let (known, d2) = select_rows e (known_participant tid pid) d1
                   in (Inl (if known = Some False then ''not_registered'' else ''registration_closed''), d2))
             else (Inr (), d1))"

definition get_rounds :: "db_env \<Rightarrow> int \<Rightarrow> db \<Rightarrow> round_row list \<times> db" where
  "get_rounds e tid d =
     (let (r, d1) = select_rows e (\<lambda>t. sort_key r_round (filter (\<lambda>x. r_tournament x = tid) (round_rows t))) d
      in (case r of None \<Rightarrow> [] | Some rs \<Rightarrow> rs, d1))"

definition check_in_rows :: "int \<Rightarrow> int \<Rightarrow> int \<Rightarrow> int \<Rightarrow> nat statement" where
  "check_in_rows tid rnd pid unix now t =
     (let able = list_ex (\<lambda>x. r_tournament x = tid \<and> r_round x = rnd \<and>
              (r_status x = ''scheduled'' \<or> r_status x = ''live'') \<and> r_closes x \<ge> unix) (round_rows t) \<and>
            list_ex (\<lambda>p. p_tournament p = tid \<and> p_player p = pid \<and> \<not> p_withdrawn p) (participant_rows t)
      in if \<not> able \<or> List.member (checkins t) (tid, rnd, pid) then Some (0, t)
         else Some (1, t\<lparr>checkins := checkins t @ [(tid, rnd, pid)]\<rparr>))"

definition check_in_player :: "db_env \<Rightarrow> int \<Rightarrow> int \<Rightarrow> int \<Rightarrow> int \<Rightarrow> db \<Rightarrow> (string + unit) \<times> db" where
  "check_in_player e tid rnd pid unix d =
     (let (r, d1) = exec_sql e (check_in_rows tid rnd pid unix) d
      in case r of
           None \<Rightarrow> (Inl ''sql'', d1)
         | Some n \<Rightarrow>
             if n = 0
             then (let (there, d2) = select_rows e (\<lambda>t. List.member (checkins t) (tid, rnd, pid)) d1
                   in (if there = Some True then Inr () else Inl ''check_in_closed_or_not_registered'', d2))
             else (Inr (), d1))"

definition get_round_checkins :: "db_env \<Rightarrow> int \<Rightarrow> int \<Rightarrow> db \<Rightarrow> int list \<times> db" where
  \<comment> \<open>a \<open>std::set\<close>: ascending, without repetitions\<close>
  "get_round_checkins e tid rnd d =
     (let (r, d1) = select_rows e (\<lambda>t. sort (remdups (map (\<lambda>(a, b, c). c) (filter (\<lambda>(a, b, c). a = tid \<and> b = rnd) (checkins t))))) d
      in (case r of None \<Rightarrow> [] | Some xs \<Rightarrow> xs, d1))"

definition remove_checkin :: "db_env \<Rightarrow> int \<Rightarrow> int \<Rightarrow> int \<Rightarrow> db \<Rightarrow> db" where
  \<comment> \<open>the \<open>DELETE\<close> of \<open>TournamentRuntimeService::on_disconnect\<close>\<close>
  "remove_checkin e tid rnd pid d =
     snd (exec_sql e (\<lambda>now t. Some ((), t\<lparr>checkins := filter (\<lambda>c. c \<noteq> (tid, rnd, pid)) (checkins t)\<rparr>)) d)"

definition participants_of :: "int \<Rightarrow> tables \<Rightarrow> participant_row list" where
  "participants_of tid t =
     sort_key (\<lambda>p. (- p_score p, - p_elo p, p_player p)) (filter (\<lambda>p. p_tournament p = tid) (participant_rows t))"

definition get_participants :: "db_env \<Rightarrow> int \<Rightarrow> db \<Rightarrow> participant_row list \<times> db" where
  "get_participants e tid d =
     (let (r, d1) = select_rows e (participants_of tid) d in (case r of None \<Rightarrow> [] | Some ps \<Rightarrow> ps, d1))"

definition get_participant_usernames :: "db_env \<Rightarrow> int \<Rightarrow> db \<Rightarrow> (int \<Rightarrow> string option) \<times> db" where
  "get_participant_usernames e tid d =
     (let (r, d1) = select_rows e (\<lambda>t. map_of (filter (\<lambda>(i, name).
            list_ex (\<lambda>p. p_tournament p = tid \<and> p_player p = i) (participant_rows t) \<or>
            list_ex (\<lambda>r. t_id r = tid \<and> t_created_by r = i) (tournament_rows t)) (player_names t))) d
      in (case r of None \<Rightarrow> Map.empty | Some m \<Rightarrow> m, d1))"

definition bump_participant :: "db_env \<Rightarrow> int \<Rightarrow> int \<Rightarrow> rat \<Rightarrow> bool \<Rightarrow> bool \<Rightarrow> db \<Rightarrow> bool \<times> db" where
  "bump_participant e tid pid delta was_white bye d =
     affected (exec_sql e (\<lambda>now t.
       let sel = (\<lambda>p. p_tournament p = tid \<and> p_player p = pid)
       in Some (length (filter sel (participant_rows t)),
            t\<lparr>participant_rows := update_where sel (\<lambda>p. p\<lparr>p_score := p_score p + delta,
                p_whites := p_whites p + (if was_white then 1 else 0), p_bye := (p_bye p \<or> bye)\<rparr>) (participant_rows t)\<rparr>)) d)"

section \<open>Totals\<close>

definition points :: "string \<Rightarrow> int \<Rightarrow> pairing_row \<Rightarrow> rat" where
  \<comment> \<open>what a pairing with a result counts for a player\<close>
  "points res pid g =
     (if res = ''bye'' \<and> g_white g = pid then 1
      else if res = ''1-0'' \<and> g_white g = pid then 1
      else if res = ''0-1'' \<and> g_black g = Some pid then 1
      else if res = ''1/2-1/2'' \<and> (g_white g = pid \<or> g_black g = Some pid) then 1 / 2
      else 0)"

definition plays :: "int \<Rightarrow> int \<Rightarrow> pairing_row \<Rightarrow> bool" where
  "plays tid pid g \<longleftrightarrow> g_tournament g = tid \<and> (g_white g = pid \<or> g_black g = Some pid)"

definition total_score :: "(pairing_row \<Rightarrow> string) \<Rightarrow> pairing_row list \<Rightarrow> int \<Rightarrow> int \<Rightarrow> rat" where
  "total_score res gs tid pid = (\<Sum>g\<leftarrow>filter (plays tid pid) gs. points (res g) pid g)"

definition total_whites :: "(pairing_row \<Rightarrow> string) \<Rightarrow> pairing_row list \<Rightarrow> int \<Rightarrow> int \<Rightarrow> int" where
  "total_whites res gs tid pid =
     int (length (filter (\<lambda>g. g_tournament g = tid \<and> g_white g = pid \<and> g_black g \<noteq> None \<and> res g \<noteq> ''pending'') gs))"

definition had_bye :: "(pairing_row \<Rightarrow> string) \<Rightarrow> pairing_row list \<Rightarrow> int \<Rightarrow> int \<Rightarrow> bool" where
  "had_bye res gs tid pid = list_ex (\<lambda>g. g_tournament g = tid \<and> g_white g = pid \<and> res g = ''bye'') gs"

definition with_totals :: "(pairing_row \<Rightarrow> string) \<Rightarrow> pairing_row list \<Rightarrow> participant_row \<Rightarrow> participant_row" where
  "with_totals res gs p =
     p\<lparr>p_score := total_score res gs (p_tournament p) (p_player p), p_whites := total_whites res gs (p_tournament p) (p_player p),
       p_bye := had_bye res gs (p_tournament p) (p_player p)\<rparr>"

definition recompute_participant_totals :: "db_env \<Rightarrow> int \<Rightarrow> db \<Rightarrow> bool \<times> db" where
  "recompute_participant_totals e tid d =
     (let (r, d1) = exec_sql e (\<lambda>now t. Some ((), t\<lparr>participant_rows :=
            update_where (\<lambda>p. p_tournament p = tid) (with_totals g_result (pairing_rows t)) (participant_rows t)\<rparr>)) d
      in (r \<noteq> None, d1))"

section \<open>Pairings\<close>

definition result_shape :: "int option \<Rightarrow> string \<Rightarrow> bool" where
  \<comment> \<open>the checks of the pairing table: a known result, and \<open>bye\<close> exactly when there is no opponent\<close>
  "result_shape black res \<longleftrightarrow>
     res \<in> {''pending'', ''1-0'', ''0-1'', ''1/2-1/2'', ''bye'', ''double_forfeit''} \<and> (black = None \<longleftrightarrow> res = ''bye'')"

definition new_pairing :: "int \<Rightarrow> int \<Rightarrow> int \<Rightarrow> int \<Rightarrow> int option \<Rightarrow> string \<Rightarrow> int \<Rightarrow> pairing_row" where
  "new_pairing i tid rnd white_p black_p res now =
     \<lparr>g_id = i, g_tournament = tid, g_round = rnd, g_white = white_p, g_black = black_p, g_game = None, g_replay = None,
       g_result = res, g_source = (if res = ''bye'' then Some ''bye'' else None),
       g_recorded_at = (if res = ''bye'' then Some now else None), g_created_at = now\<rparr>"

definition insert_pairing :: "db_env \<Rightarrow> int \<Rightarrow> int \<Rightarrow> int \<Rightarrow> int option \<Rightarrow> string \<Rightarrow> db \<Rightarrow> (string + int) \<times> db" where
  \<comment> \<open>the table has no two pairings of a round with the same white or the same black player\<close>
  "insert_pairing e tid rnd white_p black_p res d =
     (let (r, d1) = exec_sql e (\<lambda>now t.
            if rnd \<le> 0 \<or> \<not> result_shape black_p res \<or>
               list_ex (\<lambda>g. g_tournament g = tid \<and> g_round g = rnd \<and> (g_white g = white_p \<or> black_p \<noteq> None \<and> g_black g = black_p))
                 (pairing_rows t)
            then None
            else Some (pairing_seq t + 1, t\<lparr>pairing_seq := pairing_seq t + 1,
              pairing_rows := pairing_rows t @ [new_pairing (pairing_seq t + 1) tid rnd white_p black_p res now]\<rparr>)) d
      in (case r of None \<Rightarrow> Inl ''sql'' | Some i \<Rightarrow> Inr i, d1))"

definition pairings_of :: "int \<Rightarrow> tables \<Rightarrow> pairing_row list" where
  "pairings_of tid t = sort_key (\<lambda>g. (g_round g, g_id g)) (filter (\<lambda>g. g_tournament g = tid) (pairing_rows t))"

definition round_pairings :: "int \<Rightarrow> int \<Rightarrow> tables \<Rightarrow> pairing_row list" where
  "round_pairings tid rnd t = sort_key g_id (filter (\<lambda>g. g_tournament g = tid \<and> g_round g = rnd) (pairing_rows t))"

definition get_pairings :: "db_env \<Rightarrow> int \<Rightarrow> db \<Rightarrow> pairing_row list \<times> db" where
  "get_pairings e tid d =
     (let (r, d1) = select_rows e (pairings_of tid) d in (case r of None \<Rightarrow> [] | Some gs \<Rightarrow> gs, d1))"

definition get_pairings_for_round :: "db_env \<Rightarrow> int \<Rightarrow> int \<Rightarrow> db \<Rightarrow> pairing_row list \<times> db" where
  "get_pairings_for_round e tid rnd d =
     (let (r, d1) = select_rows e (round_pairings tid rnd) d in (case r of None \<Rightarrow> [] | Some gs \<Rightarrow> gs, d1))"

definition find_pairing :: "db_env \<Rightarrow> int \<Rightarrow> db \<Rightarrow> pairing_row option \<times> db" where
  "find_pairing e gid d =
     (let (r, d1) = select_rows e (\<lambda>t. find (\<lambda>g. g_id g = gid) (pairing_rows t)) d in (Option.bind r id, d1))"

definition get_live_pending_pairings :: "db_env \<Rightarrow> db \<Rightarrow> pairing_row list \<times> db" where
  "get_live_pending_pairings e d =
     (let (r, d1) = select_rows e (\<lambda>t. sort_key (\<lambda>g. (g_tournament g, g_round g, g_id g))
            (filter (\<lambda>g. g_result g = ''pending'' \<and> g_black g \<noteq> None \<and>
              list_ex (\<lambda>x. r_tournament x = g_tournament g \<and> r_round x = g_round g \<and> r_status x = ''live'') (round_rows t))
              (pairing_rows t))) d
      in (case r of None \<Rightarrow> [] | Some gs \<Rightarrow> gs, d1))"

definition max_pairing_game_id :: "db_env \<Rightarrow> db \<Rightarrow> int \<times> db" where
  "max_pairing_game_id e d =
     (let (r, d1) = select_rows e (\<lambda>t. case List.map_filter g_game (pairing_rows t) of
            [] \<Rightarrow> 0 | i # is \<Rightarrow> foldl max i is) d
      in (case r of None \<Rightarrow> 0 | Some i \<Rightarrow> i, d1))"

definition game_rows :: "int \<Rightarrow> int \<Rightarrow> nat statement" where
  \<comment> \<open>the game ids of the table are unique\<close>
  "game_rows gid game now t =
     (let sel = (\<lambda>g. g_id g = gid \<and> g_result g = ''pending'')
      in if list_ex sel (pairing_rows t) \<and> list_ex (\<lambda>g. \<not> sel g \<and> g_game g = Some game) (pairing_rows t) then None
         else Some (length (filter sel (pairing_rows t)),
           t\<lparr>pairing_rows := update_where sel (\<lambda>g. g\<lparr>g_game := Some game\<rparr>) (pairing_rows t)\<rparr>))"

definition set_pairing_game_id :: "db_env \<Rightarrow> int \<Rightarrow> int \<Rightarrow> db \<Rightarrow> bool \<times> db" where
  "set_pairing_game_id e gid game d = affected (exec_sql e (game_rows gid game) d)"

definition replay_rows :: "int \<Rightarrow> int \<Rightarrow> nat statement" where
  "replay_rows gid replay now t =
     (let sel = (\<lambda>g. g_id g = gid \<and> (g_replay g = None \<or> g_replay g = Some replay))
      in if list_ex sel (pairing_rows t) \<and> list_ex (\<lambda>g. \<not> sel g \<and> g_replay g = Some replay) (pairing_rows t) then None
         else Some (length (filter sel (pairing_rows t)),
           t\<lparr>pairing_rows := update_where sel (\<lambda>g. g\<lparr>g_replay := Some replay\<rparr>) (pairing_rows t)\<rparr>))"

definition set_pairing_replay_game_id :: "db_env \<Rightarrow> int \<Rightarrow> int \<Rightarrow> db \<Rightarrow> bool \<times> db" where
  "set_pairing_replay_game_id e gid replay d =
     (if replay \<le> 0 then (False, d) else affected (exec_sql e (replay_rows gid replay) d))"

definition overlay :: "int \<Rightarrow> string \<Rightarrow> pairing_row \<Rightarrow> string" where
  \<comment> \<open>\<open>CASE WHEN p.id=$3 THEN $1 ELSE p.result END\<close>\<close>
  "overlay gid res g = (if g_id g = gid then res else g_result g)"

definition change_result :: "(pairing_row \<Rightarrow> bool) \<Rightarrow> int \<Rightarrow> string \<Rightarrow> string \<Rightarrow> nat statement" where
  \<comment> \<open>the statement with two updates: the selected pairing gets the result, and all players of its
      tournament their totals under it; the number of players updated\<close>
  "change_result sel gid res source now t =
     (let changed = filter sel (pairing_rows t); tids = map g_tournament changed
      in if list_ex (\<lambda>g. \<not> result_shape (g_black g) res) changed then None
         else Some (length (filter (\<lambda>p. List.member tids (p_tournament p)) (participant_rows t)),
           t\<lparr>pairing_rows := update_where sel (\<lambda>g. g\<lparr>g_result := res, g_source := Some source, g_recorded_at := Some now\<rparr>)
               (pairing_rows t),
             participant_rows := update_where (\<lambda>p. List.member tids (p_tournament p))
               (with_totals (overlay gid res) (pairing_rows t)) (participant_rows t)\<rparr>))"

definition set_pairing_result :: "db_env \<Rightarrow> int \<Rightarrow> string \<Rightarrow> string \<Rightarrow> db \<Rightarrow> bool \<times> db" where
  "set_pairing_result e gid res source d =
     affected (exec_sql e (change_result (\<lambda>g. g_id g = gid \<and> (g_result g = ''pending'' \<or> g_result g = res)) gid res source) d)"

definition audit_and_override_result :: "db_env \<Rightarrow> int \<Rightarrow> int \<Rightarrow> string \<Rightarrow> string \<Rightarrow> db \<Rightarrow> bool \<times> db" where
  \<comment> \<open>the log takes no blank reason\<close>
  "audit_and_override_result e gid by res reason d =
     affected (exec_sql e (\<lambda>now t.
       let olds = filter (\<lambda>g. g_id g = gid) (pairing_rows t)
       in if olds \<noteq> [] \<and> btrim reason = [] then None
          else map_option (\<lambda>(n, t1). (n, t1\<lparr>override_log := override_log t @
              map (\<lambda>g. (gid, by, g_result g, res, reason)) olds\<rparr>))
            (change_result (\<lambda>g. g_id g = gid) gid res ''override'' now t)) d)"


section \<open>Reading\<close>

named_theorems db_simps \<open>what a statement answers and leaves\<close>

definition faultless :: "db_env \<Rightarrow> bool" where
  "faultless e \<longleftrightarrow> (\<forall>n. \<not> refused e n)"

lemma exec_sql_tables:
  assumes "P (tables_of d)" and "\<And>now a t. f now (tables_of d) = Some (a, t) \<Longrightarrow> P t"
  shows "P (tables_of (snd (exec_sql e f d)))"
  using assms by (simp add: exec_sql_def Let_def split: option.split prod.split)

lemma exec_sql_faultless [db_simps]:
  "faultless e \<Longrightarrow> fst (exec_sql e f d) = map_option fst (f (db_now e (steps d)) (tables_of d))"
  "faultless e \<Longrightarrow> tables_of (snd (exec_sql e f d)) =
     (case f (db_now e (steps d)) (tables_of d) of None \<Rightarrow> tables_of d | Some (a, t) \<Rightarrow> t)"
  by (simp_all add: exec_sql_def faultless_def Let_def split: option.split)

lemma select_tables [db_simps]: "tables_of (snd (select_rows e f d)) = tables_of d"
  by (simp add: select_rows_def exec_sql_def Let_def)

lemma select_faultless [db_simps]: "faultless e \<Longrightarrow> fst (select_rows e f d) = Some (f (tables_of d))"
  by (simp add: select_rows_def db_simps)

lemma read_clock_tables [db_simps]: "tables_of (snd (read_clock e d)) = tables_of d"
  by (simp add: read_clock_def)

lemma affected_parts [db_simps]: "snd (affected p) = snd p" "fst (affected p) \<longleftrightarrow> (\<exists>k > 0. fst p = Some k)"
  by (auto simp: affected_def split_beta split: option.split)

lemma read_tables [db_simps]:
  "tables_of (snd (find_tournament e tid d)) = tables_of d" "tables_of (snd (get_participants e tid d)) = tables_of d"
  "tables_of (snd (get_pairings e tid d)) = tables_of d" "tables_of (snd (get_pairings_for_round e tid rnd d)) = tables_of d"
  "tables_of (snd (find_pairing e gid d)) = tables_of d" "tables_of (snd (get_round_checkins e tid rnd d)) = tables_of d"
  "tables_of (snd (begin_transaction e d)) = tables_of d"
  by (simp_all add: find_tournament_def get_participants_def get_pairings_def get_pairings_for_round_def find_pairing_def
      get_round_checkins_def begin_transaction_def split_beta db_simps)

lemma read_faultless [db_simps]:
  "faultless e \<Longrightarrow> fst (find_tournament e tid d) = find (\<lambda>r. t_id r = tid) (tournament_rows (tables_of d))"
  "faultless e \<Longrightarrow> fst (get_participants e tid d) = participants_of tid (tables_of d)"
  "faultless e \<Longrightarrow> fst (get_pairings e tid d) = pairings_of tid (tables_of d)"
  "faultless e \<Longrightarrow> fst (get_pairings_for_round e tid rnd d) = round_pairings tid rnd (tables_of d)"
  "faultless e \<Longrightarrow> fst (find_pairing e gid d) = find (\<lambda>g. g_id g = gid) (pairing_rows (tables_of d))"
  "faultless e \<Longrightarrow> fst (begin_transaction e d)"
  by (simp_all add: find_tournament_def get_participants_def get_pairings_def get_pairings_for_round_def find_pairing_def
      begin_transaction_def split_beta db_simps)

lemma update_where_keeps:
  "(\<And>r. P r \<Longrightarrow> h (f r) = h r) \<Longrightarrow> map h (update_where P f rs) = map h rs"
  by (simp add: update_where_def)

lemma set_update_where: "set (update_where P f rs) = (\<lambda>r. if P r then f r else r) ` set rs"
  by (simp add: update_where_def)

section \<open>The invariant of the tables\<close>

definition seats_of :: "pairing_row \<Rightarrow> int list" where
  "seats_of g = g_white g # (case g_black g of None \<Rightarrow> [] | Some b \<Rightarrow> [b])"

definition in_round :: "int \<Rightarrow> int \<Rightarrow> pairing_row \<Rightarrow> bool" where
  "in_round tid rnd g \<longleftrightarrow> g_tournament g = tid \<and> g_round g = rnd"

definition seated_once :: "pairing_row list \<Rightarrow> bool" where
  "seated_once gs \<longleftrightarrow> (\<forall>tid rnd. distinct (concat (map seats_of (filter (in_round tid rnd) gs))))"

definition totals_ok :: "tables \<Rightarrow> bool" where
  "totals_ok t \<longleftrightarrow> (\<forall>p \<in> set (participant_rows t). with_totals g_result (pairing_rows t) p = p)"

definition round_done :: "pairing_row list \<Rightarrow> int \<Rightarrow> int \<Rightarrow> bool" where
  "round_done gs tid rnd \<longleftrightarrow>
     (\<exists>g \<in> set gs. in_round tid rnd g) \<and> (\<forall>g \<in> set gs. in_round tid rnd g \<longrightarrow> g_result g \<noteq> ''pending'')"

definition rounds_in_order :: "tables \<Rightarrow> bool" where
  \<comment> \<open>a completed round is decided, and a later round is only dealt after the one before is completed\<close>
  "rounds_in_order t \<longleftrightarrow>
     (\<forall>x \<in> set (round_rows t). r_status x = ''completed'' \<longrightarrow> round_done (pairing_rows t) (r_tournament x) (r_round x)) \<and>
     (\<forall>g \<in> set (pairing_rows t). g_round g > 1 \<longrightarrow>
        (\<exists>x \<in> set (round_rows t). r_tournament x = g_tournament g \<and> r_round x = g_round g - 1 \<and> r_status x = ''completed''))"

definition keys_ok :: "tables \<Rightarrow> bool" where
  "keys_ok t \<longleftrightarrow> distinct (map t_id (tournament_rows t)) \<and> distinct (map g_id (pairing_rows t)) \<and>
     distinct (map (\<lambda>p. (p_tournament p, p_player p)) (participant_rows t)) \<and>
     distinct (map (\<lambda>x. (r_tournament x, r_round x)) (round_rows t))"

definition ids_ok :: "tables \<Rightarrow> bool" where
  "ids_ok t \<longleftrightarrow>
     (\<forall>i \<in> t_id ` set (tournament_rows t). i \<le> tournament_seq t) \<and>
     (\<forall>(i, tid, rnd) \<in> (\<lambda>g. (g_id g, g_tournament g, g_round g)) ` set (pairing_rows t).
        i \<le> pairing_seq t \<and> tid \<le> tournament_seq t \<and> rnd \<ge> 1) \<and>
     (\<forall>(tid, rnd) \<in> (\<lambda>x. (r_tournament x, r_round x)) ` set (round_rows t). tid \<le> tournament_seq t \<and> rnd \<ge> 1)"

definition registering_empty :: "tables \<Rightarrow> bool" where
  \<comment> \<open>no pairings while the registration lasts\<close>
  "registering_empty t \<longleftrightarrow> (\<forall>x \<in> set (tournament_rows t). t_status x = ''registration'' \<longrightarrow>
     (\<forall>g \<in> set (pairing_rows t). g_tournament g \<noteq> t_id x))"

definition shapes_ok :: "tables \<Rightarrow> bool" where
  "shapes_ok t \<longleftrightarrow> (\<forall>g \<in> set (pairing_rows t). result_shape (g_black g) (g_result g))"

definition tables_ok :: "tables \<Rightarrow> bool" where
  "tables_ok t \<longleftrightarrow> keys_ok t \<and> ids_ok t \<and> registering_empty t \<and> shapes_ok t \<and>
     seated_once (pairing_rows t) \<and> totals_ok t \<and> rounds_in_order t"

lemmas tables_ok_defs = tables_ok_def keys_ok_def ids_ok_def registering_empty_def shapes_ok_def totals_ok_def rounds_in_order_def

section \<open>Totals and rows\<close>

lemma with_totals_parts [simp]:
  "p_tournament (with_totals res gs p) = p_tournament p" "p_player (with_totals res gs p) = p_player p"
  "p_withdrawn (with_totals res gs p) = p_withdrawn p"
  "with_totals res gs (with_totals res' gs' p) = with_totals res gs p"
  by (simp_all add: with_totals_def)

lemma total_score_rec:
  "total_score res gs tid pid = (\<Sum>g\<leftarrow>gs. if plays tid pid g then points (res g) pid g else 0)"
  by (simp add: total_score_def sum_list_map_filter' flip: sum_list_map_filter')

lemma with_totals_cong:
  assumes "map (\<lambda>g. (g_white g, g_black g, res g)) (filter (\<lambda>g. g_tournament g = p_tournament p) gs) =
    map (\<lambda>g. (g_white g, g_black g, res' g)) (filter (\<lambda>g. g_tournament g = p_tournament p) gs')"
  shows "with_totals res gs p = with_totals res' gs' p"
proof -
  let ?h = "\<lambda>res g. (g_white g, g_black g, res g)" and ?mine = "filter (\<lambda>g. g_tournament g = p_tournament p)"
  have score: "total_score res gs (p_tournament p) (p_player p) = (\<Sum>x\<leftarrow>map (?h res) (?mine gs). case x of (w, b, r) \<Rightarrow>
      if w = p_player p \<or> b = Some (p_player p) then (if r = ''bye'' \<and> w = p_player p then 1 else if r = ''1-0'' \<and> w = p_player p then 1
        else if r = ''0-1'' \<and> b = Some (p_player p) then 1
        else if r = ''1/2-1/2'' \<and> (w = p_player p \<or> b = Some (p_player p)) then 1 / 2 else 0) else 0)" for res gs
    unfolding total_score_rec by (induction gs) (auto simp: plays_def points_def)
  have whites: "total_whites res gs (p_tournament p) (p_player p) = int (length (filter
      (\<lambda>(w, b, r). w = p_player p \<and> b \<noteq> None \<and> r \<noteq> ''pending'') (map (?h res) (?mine gs))))" for res gs
    unfolding total_whites_def by (induction gs) auto
  have bye: "had_bye res gs (p_tournament p) (p_player p) =
      list_ex (\<lambda>(w, b, r). w = p_player p \<and> r = ''bye'') (map (?h res) (?mine gs))" for res gs
    unfolding had_bye_def by (induction gs) auto
  show ?thesis unfolding with_totals_def score whites bye assms by simp
qed

lemma with_totals_none:
  assumes "\<forall>g \<in> set gs. g_tournament g \<noteq> p_tournament p" and "p_score p = 0" "p_whites p = 0" "\<not> p_bye p"
  shows "with_totals res gs p = p"
proof -
  have "with_totals res gs p = with_totals res [] p"
    by (rule with_totals_cong) (use assms(1) in \<open>auto simp: filter_empty_conv\<close>)
  then show ?thesis using assms by (simp add: with_totals_def total_score_def total_whites_def had_bye_def)
qed

lemma total_score_halves: "2 * total_score res gs tid pid \<in> \<int>"
  unfolding total_score_rec by (induction gs) (auto simp: points_def distrib_left)

lemma find_by_key:
  assumes "distinct (map h xs)" "x \<in> set xs" shows "find (\<lambda>y. h y = h x) xs = Some x"
  using assms by (induction xs) auto

lemma round_pairings_set: "set (round_pairings tid rnd t) = {g \<in> set (pairing_rows t). in_round tid rnd g}"
  by (auto simp: round_pairings_def in_round_def)

lemma pairings_of_set: "set (pairings_of tid t) = {g \<in> set (pairing_rows t). g_tournament g = tid}"
  by (auto simp: pairings_of_def)

lemma participants_of_mset: "mset (participants_of tid t) = mset (filter (\<lambda>p. p_tournament p = tid) (participant_rows t))"
  by (simp add: participants_of_def)

end
