(* ===== verification/TournamentManager.thy ===== *)
theory TournamentManager
  imports TournamentStore
begin

text \<open>
  The life of a tournament (\<open>src/tournament/tournament_manager.h\<close>, \<open>src/tournament/tournament_manager.cpp\<close>): registration,
  check-in, results and overrides, the rounds that the maintenance tick prepares, starts and adjudicates,
  and the standings. An operation answers \<open>Inl\<close> the error of its \<open>ManagerResult\<close>, or \<open>Inr ()\<close>. Every
  statement may be refused and every clock read is an argument, as in \<open>TournamentStore\<close>. Shown: a
  result once recorded stays, except by an override; the totals follow the results; a round seats
  nobody twice; the standings are ordered.
\<close>

type_synonym manager_result = "(string + unit) \<times> db"

section \<open>Rules of the schedule\<close>

definition valid_schedule :: "int \<Rightarrow> int \<Rightarrow> int \<Rightarrow> bool" where
  "valid_schedule deadline first duration \<longleftrightarrow> deadline > 0 \<and> first \<ge> deadline + 30 \<and> duration \<ge> 60"

definition earliest_round_start :: "int \<Rightarrow> int \<Rightarrow> int \<Rightarrow> int" where
  "earliest_round_start first duration rnd = (if rnd \<le> 0 then first else first + (rnd - 1) * duration)"

definition no_show_result :: "bool \<Rightarrow> bool \<Rightarrow> string option" where
  "no_show_result white_in black_in =
     (if white_in \<and> \<not> black_in then Some ''1-0''
      else if \<not> white_in \<and> black_in then Some ''0-1''
      else if \<not> white_in \<and> \<not> black_in then Some ''double_forfeit'' else None)"

definition game_result :: "string \<Rightarrow> bool" where
  "game_result res \<longleftrightarrow> res = ''1-0'' \<or> res = ''0-1'' \<or> res = ''1/2-1/2''"

definition round_is_complete :: "pairing_row list \<Rightarrow> int \<Rightarrow> bool" where
  "round_is_complete gs rnd \<longleftrightarrow>
     list_ex (\<lambda>g. g_round g = rnd) gs \<and> list_all (\<lambda>g. g_round g = rnd \<longrightarrow> g_result g \<noteq> ''pending'') gs"

definition gather_played :: "pairing_row list \<Rightarrow> player_pair set" where
  "gather_played gs = set (List.map_filter (\<lambda>g. map_option (player_pair (g_white g)) (g_black g)) gs)"

section \<open>Registration\<close>

definition tournament_join :: "db_env \<Rightarrow> int \<Rightarrow> int \<Rightarrow> int \<Rightarrow> db \<Rightarrow> manager_result" where
  "tournament_join e tid pid rating d =
     (case find_tournament e tid d of
        (None, d1) \<Rightarrow> (Inl ''tournament_not_found'', d1)
      | (Some t, d1) \<Rightarrow>
          if t_status t \<noteq> ''registration'' \<or> \<not> t_open t then (Inl ''registration_closed'', d1)
          else let (now, d2) = read_clock e d1
               in if now \<ge> registration_end t then (Inl ''registration_closed'', d2)
                  else let (now', d3) = read_clock e d2 in add_participant e tid pid rating now' d3)"

definition tournament_leave :: "db_env \<Rightarrow> int \<Rightarrow> int \<Rightarrow> db \<Rightarrow> manager_result" where
  "tournament_leave e tid pid d =
     (case find_tournament e tid d of
        (None, d1) \<Rightarrow> (Inl ''tournament_not_found'', d1)
      | (Some t, d1) \<Rightarrow>
          if t_status t \<noteq> ''registration'' \<or> \<not> t_open t then (Inl ''registration_closed'', d1)
          else let (now, d2) = read_clock e d1
               in if now \<ge> registration_end t then (Inl ''registration_closed'', d2)
                  else let (now', d3) = read_clock e d2 in remove_participant e tid pid now' d3)"

definition apply_registration :: "db_env \<Rightarrow> int \<Rightarrow> bool \<Rightarrow> tournament_row \<Rightarrow> db \<Rightarrow> manager_result" where
  \<comment> \<open>the end of \<open>set_registration\<close>, from the last clock read on\<close>
  "apply_registration e tid open_it t d =
     (let (now, d1) = read_clock e d; (done, d2) = set_registration_open e tid open_it now d1
      in if done then (Inr (), d2)
         else if open_it
         then (case find_tournament e tid d2 of
                 (Some l, d3) \<Rightarrow>
                   (Inl (if now \<ge> t_deadline l then ''registration_deadline_passed'' else ''set_registration_failed''), d3)
               | (None, d3) \<Rightarrow> (Inl ''set_registration_failed'', d3))
         else (Inl ''set_registration_failed'', d2))"

definition set_registration :: "db_env \<Rightarrow> int \<Rightarrow> int \<Rightarrow> bool \<Rightarrow> db \<Rightarrow> manager_result" where
  "set_registration e tid by open_it d =
     (case find_tournament e tid d of
        (None, d1) \<Rightarrow> (Inl ''tournament_not_found'', d1)
      | (Some t, d1) \<Rightarrow>
          if t_created_by t \<noteq> by then (Inl ''not_creator'', d1)
          else if t_status t \<noteq> ''registration'' \<and> t_status t \<noteq> ''scheduled'' then (Inl ''registration_state_locked'', d1)
          else if \<not> open_it then apply_registration e tid open_it t d1
          else let (now1, d2) = read_clock e d1
               in if now1 \<ge> t_deadline t then (Inl ''registration_deadline_passed'', d2)
                  else let (now2, d3) = read_clock e d2
                       in if now2 \<ge> t_first_start t - 90 then (Inl ''pairings_locked'', d3)
                          else let (first, d4) = get_pairings_for_round e tid 1 d3
                               in if first \<noteq> [] then (Inl ''pairings_locked'', d4)
                                  else apply_registration e tid open_it t d4)"

definition start_tournament :: "db_env \<Rightarrow> int \<Rightarrow> int \<Rightarrow> db \<Rightarrow> manager_result" where
  "start_tournament e tid by d =
     (case find_tournament e tid d of
        (None, d1) \<Rightarrow> (Inl ''tournament_not_found'', d1)
      | (Some t, d1) \<Rightarrow>
          if t_status t \<noteq> ''registration'' then (Inl ''tournament_not_in_registration'', d1)
          else if t_created_by t \<noteq> by then (Inl ''not_creator'', d1)
          else let (ps, d2) = get_participants e tid d1
               in if length (filter (\<lambda>p. \<not> p_withdrawn p) ps) < 2 then (Inl ''not_enough_players'', d2)
                  else set_registration e tid by False d2)"

section \<open>Check-in\<close>

definition plays_pairing :: "int \<Rightarrow> pairing_row \<Rightarrow> bool" where
  "plays_pairing pid g \<longleftrightarrow> g_white g = pid \<or> g_black g = Some pid"

definition went_through :: "int \<Rightarrow> pairing_row \<Rightarrow> bool" where
  \<comment> \<open>the player won, drew or had a bye in the pairing\<close>
  "went_through pid g \<longleftrightarrow>
     g_white g = pid \<and> (g_result g = ''1-0'' \<or> g_result g = ''bye'' \<or> g_result g = ''1/2-1/2'') \<or>
     g_black g = Some pid \<and> (g_result g = ''0-1'' \<or> g_result g = ''1/2-1/2'')"

definition eligible :: "db_env \<Rightarrow> int \<Rightarrow> int \<Rightarrow> int \<Rightarrow> db \<Rightarrow> bool \<times> db" where
  "eligible e tid rnd pid d =
     (case find_tournament e tid d of
        (Some t, d1) \<Rightarrow>
          if t_format t = ''winners_advance'' \<and> rnd > 1
          then (let (gs, d2) = get_pairings_for_round e tid (rnd - 1) d1 in (list_ex (went_through pid) gs, d2))
          else (True, d1)
      | (None, d1) \<Rightarrow> (True, d1))"

definition tournament_check_in :: "db_env \<Rightarrow> int \<Rightarrow> int \<Rightarrow> int \<Rightarrow> db \<Rightarrow> manager_result" where
  "tournament_check_in e tid rnd pid d =
     (if rnd \<le> 0 then (Inl ''invalid_round'', d)
      else let (may, d1) = eligible e tid rnd pid d
           in if \<not> may then (Inl ''player_eliminated'', d1)
              else let (gs, d2) = get_pairings_for_round e tid rnd d1
                   in if list_ex (\<lambda>g. plays_pairing pid g \<and> g_result g = ''bye'') gs
                      then (Inl ''round_already_resolved_for_player'', d2)
                      else let (now, d3) = read_clock e d2 in check_in_player e tid rnd pid now d3)"

section \<open>Advancement\<close>

definition survivors :: "pairing_row list \<Rightarrow> int \<Rightarrow> int list" where
  "survivors gs rnd = sort (remdups (concat (map (\<lambda>g.
     if g_round g \<noteq> rnd then []
     else if g_result g = ''bye'' \<or> g_result g = ''1-0'' then [g_white g]
     else case g_black g of
            None \<Rightarrow> []
          | Some b \<Rightarrow> if g_result g = ''0-1'' then [b]
                    else if g_result g = ''1/2-1/2'' then [g_white g, b] else []) gs)))"

definition drawn_pairs :: "pairing_row list \<Rightarrow> player_pair list" where
  "drawn_pairs gs = List.map_filter (\<lambda>g. if g_result g = ''1/2-1/2'' then map_option (player_pair (g_white g)) (g_black g) else None) gs"

definition draws_of :: "pairing_row list \<Rightarrow> player_pair \<Rightarrow> nat" where
  "draws_of gs q = length (filter (\<lambda>x. x = q) (drawn_pairs gs))"

definition elimination_over :: "pairing_row list \<Rightarrow> int \<Rightarrow> bool" where
  \<comment> \<open>at most one survivor, or no two survivors who may still meet\<close>
  "elimination_over gs rnd =
     (let ss = survivors gs rnd; past = filter (\<lambda>g. g_round g \<le> rnd) gs
      in length ss \<le> 1 \<or> \<not> list_ex (\<lambda>a. list_ex (\<lambda>b. a < b \<and> draws_of past (player_pair a b) < 2) ss) ss)"

definition complete_round :: "db_env \<Rightarrow> int \<Rightarrow> int \<Rightarrow> db \<Rightarrow> bool \<times> db" where
  "complete_round e tid rnd d =
     (let (r, d1) = exec_sql e (\<lambda>now t. Some ((), t\<lparr>round_rows :=
            update_where (\<lambda>x. r_tournament x = tid \<and> r_round x = rnd \<and> r_status x \<noteq> ''completed'')
              (\<lambda>x. x\<lparr>r_status := ''completed'', r_completed_at := Some now\<rparr>) (round_rows t)\<rparr>)) d
      in (r \<noteq> None, d1))"

definition allocate_round :: "db_env \<Rightarrow> int \<Rightarrow> int \<Rightarrow> int \<Rightarrow> int \<Rightarrow> db \<Rightarrow> bool \<times> db" where
  "allocate_round e tid rnd earliest closes d =
     (let (r, d1) = exec_sql e (\<lambda>now t.
            let known = list_ex (\<lambda>x. t_id x = tid) (tournament_rows t);
                there = list_ex (\<lambda>x. r_tournament x = tid \<and> r_round x = rnd) (round_rows t)
            in Some ((), t\<lparr>tournament_rows := update_where (\<lambda>x. t_id x = tid) (\<lambda>x. x\<lparr>t_rounds := max (t_rounds x) rnd\<rparr>)
                  (tournament_rows t),
                round_rows := round_rows t @ (if known \<and> \<not> there
                  then [\<lparr>r_tournament = tid, r_round = rnd, r_earliest = earliest, r_actual = None, r_closes = closes,
                    r_completed_at = None, r_status = ''scheduled''\<rparr>] else [])\<rparr>)) d
      in (r \<noteq> None, d1))"

definition finish_or_next :: "db_env \<Rightarrow> int \<Rightarrow> int \<Rightarrow> bool \<Rightarrow> db \<Rightarrow> manager_result" where
  "finish_or_next e tid rnd over d =
     (if over
      then (let (done, d1) = set_tournament_status e tid ''completed'' d
            in (if done then Inr () else Inl ''set_status_completed_failed'', d1))
      else (let (done, d1) = set_tournament_round e tid (rnd + 1) d
            in (if done then Inr () else Inl ''set_round_failed'', d1)))"

definition maybe_advance :: "db_env \<Rightarrow> int \<Rightarrow> int \<Rightarrow> db \<Rightarrow> manager_result" where
  "maybe_advance e tid rnd d =
     (case find_tournament e tid d of
        (None, d1) \<Rightarrow> (Inl ''tournament_not_found'', d1)
      | (Some t, d1) \<Rightarrow>
          let (gs, d2) = get_pairings e tid d1
          in if \<not> round_is_complete gs rnd then (Inr (), d2)
             else let (done, d3) = complete_round e tid rnd d2
                  in if \<not> done then (Inl ''complete_round_failed'', d3)
                     else if t_format t = ''winners_advance''
                     then (if elimination_over gs rnd then finish_or_next e tid rnd True d3
                           else let (now, d4) = read_clock e d3;
                                    earliest = max now (earliest_round_start (t_first_start t) (t_duration t) (rnd + 1));
                                    (allocated, d5) = allocate_round e tid (rnd + 1) earliest (earliest + t_duration t) d4
                                in if \<not> allocated then (Inl ''allocate_round_failed'', d5)
                                   else finish_or_next e tid rnd False d5)
                     else finish_or_next e tid rnd (t_format t = ''swiss'' \<and> rnd \<ge> t_rounds t) d3)"

section \<open>Results\<close>

definition report_result :: "db_env \<Rightarrow> int \<Rightarrow> string \<Rightarrow> db \<Rightarrow> manager_result" where
  "report_result e gid res d =
     (case find_pairing e gid d of
        (None, d1) \<Rightarrow> (Inl ''pairing_not_found'', d1)
      | (Some g, d1) \<Rightarrow>
          if g_result g \<noteq> ''pending'' then (if g_result g = res then Inr () else Inl ''result_already_recorded'', d1)
          else if \<not> game_result res \<and> res \<noteq> ''bye'' then (Inl ''invalid_result'', d1)
          else if (res = ''bye'') \<noteq> (g_black g = None) then (Inl ''result_shape_mismatch'', d1)
          else let (done, d2) = set_pairing_result e (g_id g) res ''manual'' d1
               in if \<not> done then (Inl ''set_pairing_result_failed'', d2)
                  else maybe_advance e (g_tournament g) (g_round g) d2)"

definition record_game_result :: "db_env \<Rightarrow> int \<Rightarrow> string \<Rightarrow> db \<Rightarrow> manager_result" where
  "record_game_result e gid res d =
     (if \<not> game_result res then (Inl ''invalid_result'', d)
      else case find_pairing e gid d of
        (None, d1) \<Rightarrow> (Inl ''pairing_not_found'', d1)
      | (Some g, d1) \<Rightarrow>
          if g_result g \<noteq> ''pending'' then (if g_result g = res then Inr () else Inl ''result_already_recorded'', d1)
          else let (done, d2) = set_pairing_result e gid res ''game'' d1
               in if \<not> done
                  then (case find_pairing e gid d2 of
                          (Some g', d3) \<Rightarrow> (if g_result g' = res then Inr () else Inl ''set_pairing_result_failed'', d3)
                        | (None, d3) \<Rightarrow> (Inl ''set_pairing_result_failed'', d3))
                  else maybe_advance e (g_tournament g) (g_round g) d2)"

definition override_target :: "db_env \<Rightarrow> int \<Rightarrow> db \<Rightarrow> (int \<times> int \<times> int) option \<times> db" where
  \<comment> \<open>the tournament, the round and the organiser of a pairing\<close>
  "override_target e gid d =
     (let (r, d1) = select_rows e (\<lambda>t. Option.bind (find (\<lambda>g. g_id g = gid) (pairing_rows t)) (\<lambda>g.
            map_option (\<lambda>x. (g_tournament g, g_round g, t_created_by x)) (find (\<lambda>x. t_id x = g_tournament g) (tournament_rows t)))) d
      in (Option.bind r id, d1))"

definition override_result :: "db_env \<Rightarrow> int \<Rightarrow> int \<Rightarrow> string \<Rightarrow> string \<Rightarrow> db \<Rightarrow> manager_result" where
  "override_result e gid by res reason d =
     (if reason = [] then (Inl ''override_reason_required'', d)
      else if \<not> game_result res \<and> res \<noteq> ''double_forfeit'' then (Inl ''invalid_result'', d)
      else case override_target e gid d of
        (None, d1) \<Rightarrow> (Inl ''pairing_not_found'', d1)
      | (Some (tid, rnd, creator), d1) \<Rightarrow>
          if creator \<noteq> by then (Inl ''not_creator'', d1)
          else let (t, d2) = find_tournament e tid d1
               in if (case t of None \<Rightarrow> False
                      | Some x \<Rightarrow> t_format x = ''winners_advance'' \<and> (t_current_round x > rnd \<or> t_status x = ''completed''))
                  then (Inl ''advancement_already_locked'', d2)
                  else let (done, d3) = audit_and_override_result e gid by res reason d2
                       in if \<not> done then (Inl ''override_failed'', d3) else maybe_advance e tid rnd d3)"

section \<open>Pairing a round\<close>

definition to_standing :: "participant_row \<Rightarrow> player_standing" where
  "to_standing p = \<lparr>player_id = p_player p, elo = p_elo p, score = p_score p, whites_played = p_whites p,
     received_bye = p_bye p, withdrawn = p_withdrawn p\<rparr>"

definition previous_round :: "pairing_row list \<Rightarrow> int \<Rightarrow> int set \<times> int set \<times> pairing list" where
  \<comment> \<open>who advances, who replays a first draw, and the replays with the colours exchanged\<close>
  "previous_round gs rnd = foldl (\<lambda>(adv, rep, forced) g.
     if g_round g \<noteq> rnd - 1 then (adv, rep, forced)
     else if g_result g = ''bye'' \<or> g_result g = ''1-0'' then (insert (g_white g) adv, rep, forced)
     else case g_black g of
            None \<Rightarrow> (adv, rep, forced)
          | Some b \<Rightarrow>
              if g_result g = ''0-1'' then (insert b adv, rep, forced)
              else if g_result g = ''1/2-1/2''
              then (let adv1 = insert b (insert (g_white g) adv)
                    in if draws_of (filter (\<lambda>p. g_round p < rnd) gs) (player_pair (g_white g) b) < 2
                       then (adv1, insert b (insert (g_white g) rep),
                             forced @ [\<lparr>white_id = b, black_id = g_white g, is_bye = False\<rparr>])
                       else (adv1, rep, forced))
              else (adv, rep, forced)) ({}, {}, []) gs"

definition round_pairing :: "tournament_row \<Rightarrow> participant_row list \<Rightarrow> pairing_row list \<Rightarrow> int \<Rightarrow> pairing list" where
  \<comment> \<open>the pairings that \<open>generate_round_pairings\<close> computes\<close>
  "round_pairing t ps gs rnd =
     (let pool = map to_standing ps; played = gather_played gs; elim = (t_format t = ''winners_advance'');
          (adv, rep, forced) = (if elim \<and> rnd > 1 then previous_round gs rnd else ({}, {}, []));
          pool1 = (if elim \<and> rnd > 1 then filter (\<lambda>p. player_id p \<in> adv \<and> player_id p \<notin> rep) pool else pool);
          capped = (if elim then set (filter (\<lambda>q. draws_of gs q \<ge> 2) (drawn_pairs gs)) else {})
      in forced @ pair_swiss_round pool1 played capped)"

fun insert_pairings :: "db_env \<Rightarrow> int \<Rightarrow> int \<Rightarrow> pairing list \<Rightarrow> db \<Rightarrow> manager_result" where
  "insert_pairings e tid rnd [] d = (Inr (), d)"
| "insert_pairings e tid rnd (x # xs) d =
     (let (r, d1) = (if is_bye x then insert_pairing e tid rnd (white_id x) None ''bye'' d
                     else insert_pairing e tid rnd (white_id x) (Some (black_id x)) ''pending'' d)
      in case r of Inl err \<Rightarrow> (Inl (''insert_pairing_failed: '' @ err), d1) | Inr i \<Rightarrow> insert_pairings e tid rnd xs d1)"

definition generate_round_pairings :: "db_env \<Rightarrow> int \<Rightarrow> int \<Rightarrow> db \<Rightarrow> manager_result" where
  "generate_round_pairings e tid rnd d =
     (case find_tournament e tid d of
        (None, d1) \<Rightarrow> (Inl ''tournament_not_found'', d1)
      | (Some t, d1) \<Rightarrow>
          let (ps, d2) = get_participants e tid d1
          in if ps = [] then (Inl ''no_participants'', d2)
             else let (gs, d3) = get_pairings e tid d2; pairings = round_pairing t ps gs rnd
                  in if pairings = [] then (Inl ''pair_swiss_round_failed'', d3)
                     else case insert_pairings e tid rnd pairings d3 of
                            (Inl err, d4) \<Rightarrow> (Inl err, d4)
                          | (Inr _, d4) \<Rightarrow>
                              let (done, d5) = recompute_participant_totals e tid d4
                              in if \<not> done then (Inl ''recompute_standings_failed'', d5)
                                 else maybe_advance e tid rnd d5)"

section \<open>The maintenance tick\<close>

definition claimable :: "int \<Rightarrow> int \<Rightarrow> int \<Rightarrow> tables \<Rightarrow> round_row \<Rightarrow> bool" where
  "claimable tid rnd now t x \<longleftrightarrow>
     r_tournament x = tid \<and> r_round x = rnd \<and> r_status x = ''scheduled'' \<and> r_earliest x \<le> now \<and>
     (rnd = 1 \<or> list_ex (\<lambda>y. r_tournament y = tid \<and> r_round y = rnd - 1 \<and> r_status y = ''completed'') (round_rows t))"

definition claim_round :: "db_env \<Rightarrow> int \<Rightarrow> int \<Rightarrow> int \<Rightarrow> db \<Rightarrow> bool option \<times> db" where
  \<comment> \<open>the update that one tick wins: whether it claimed the round\<close>
  "claim_round e tid rnd now d =
     exec_sql e (\<lambda>_ t. Some (list_ex (claimable tid rnd now t) (round_rows t),
       t\<lparr>round_rows := update_where (claimable tid rnd now t) (\<lambda>x. x\<lparr>r_status := ''live'', r_actual := Some now\<rparr>) (round_rows t)\<rparr>)) d"

definition start_due_round :: "db_env \<Rightarrow> int \<Rightarrow> int \<Rightarrow> int \<Rightarrow> db \<Rightarrow> manager_result" where
  "start_due_round e tid rnd now d =
     (case claim_round e tid rnd now d of
        (None, d1) \<Rightarrow> (Inl ''sql'', d1)
      | (Some False, d1) \<Rightarrow> (Inr (), d1)
      | (Some True, d1) \<Rightarrow>
          let (status_set, d2) = set_tournament_status e tid ''in_progress'' d1
          in if \<not> status_set then (Inl ''start_round_state_failed'', d2)
             else let (round_set, d3) = set_tournament_round e tid rnd d2
                  in if \<not> round_set then (Inl ''start_round_state_failed'', d3)
                     else let (existing, d4) = get_pairings_for_round e tid rnd d3
                          in if existing = [] then generate_round_pairings e tid rnd d4 else (Inr (), d4))"

fun adjudicate :: "db_env \<Rightarrow> int list \<Rightarrow> pairing_row list \<Rightarrow> db \<Rightarrow> manager_result" where
  "adjudicate e present [] d = (Inr (), d)"
| "adjudicate e present (g # gs) d =
     (case (if g_result g \<noteq> ''pending'' then None
            else Option.bind (g_black g) (\<lambda>b. no_show_result (g_white g \<in> set present) (b \<in> set present))) of
        None \<Rightarrow> adjudicate e present gs d
      | Some res \<Rightarrow>
          let (done, d1) = set_pairing_result e (g_id g) res ''forfeit'' d
          in if \<not> done then (Inl ''no_show_adjudication_failed'', d1) else adjudicate e present gs d1)"

definition adjudicate_no_shows :: "db_env \<Rightarrow> int \<Rightarrow> int \<Rightarrow> db \<Rightarrow> manager_result" where
  "adjudicate_no_shows e tid rnd d =
     (let (present, d1) = get_round_checkins e tid rnd d; (gs, d2) = get_pairings_for_round e tid rnd d1
      in case adjudicate e present gs d2 of
           (Inl err, d3) \<Rightarrow> (Inl err, d3)
         | (Inr _, d3) \<Rightarrow> maybe_advance e tid rnd d3)"

definition close_registrations :: "db_env \<Rightarrow> int \<Rightarrow> db \<Rightarrow> unit option \<times> db" where
  "close_registrations e now d =
     exec_sql e (\<lambda>_ t. Some ((), t\<lparr>tournament_rows :=
       update_where (\<lambda>r. t_status r = ''registration'' \<and> registration_end r \<le> now)
         (\<lambda>r. r\<lparr>t_open := False, t_status := ''scheduled'',
            t_closed_at := (if t_closed_at r = None then Some now else t_closed_at r)\<rparr>) (tournament_rows t)\<rparr>)) d"

definition deal_first_round :: "db_env \<Rightarrow> int \<Rightarrow> db \<Rightarrow> manager_result" where
  \<comment> \<open>the body of the preview loop, inside its transaction\<close>
  "deal_first_round e tid d =
     (let (first, d1) = get_pairings_for_round e tid 1 d
      in if first \<noteq> [] then (Inr (), d1)
         else let (ps, d2) = get_participants e tid d1
              in if length (filter (\<lambda>p. \<not> p_withdrawn p) ps) \<ge> 2 then generate_round_pairings e tid 1 d2 else (Inr (), d2))"

definition prepare_first_round :: "db_env \<Rightarrow> int \<Rightarrow> db \<Rightarrow> manager_result" where
  \<comment> \<open>one transaction of the preview loop\<close>
  "prepare_first_round e tid d =
     (let (begun, d1) = begin_transaction e d
      in if \<not> begun then (Inl ''sql'', d1)
         else let (locked, d2) = select_rows e (\<lambda>t. ()) d1
              in if locked = None then (Inl ''sql'', rollback_to d d2)
                 else case deal_first_round e tid d2 of
                   (Inl err, d3) \<Rightarrow> (Inl err, rollback_to d d3)
                 | (Inr _, d3) \<Rightarrow>
                     let (done, d4) = commit_transaction e d d3
                     in (if done then Inr () else Inl ''prepare_pairings_failed'', d4))"

fun each_row :: "(int \<times> int \<Rightarrow> db \<Rightarrow> manager_result) \<Rightarrow> (int \<times> int) list \<Rightarrow> db \<Rightarrow> manager_result" where
  \<comment> \<open>the loops of the tick: the first error ends it\<close>
  "each_row f [] d = (Inr (), d)"
| "each_row f (x # xs) d = (case f x d of (Inl err, d1) \<Rightarrow> (Inl err, d1) | (Inr _, d1) \<Rightarrow> each_row f xs d1)"

definition preview_rows :: "int \<Rightarrow> tables \<Rightarrow> (int \<times> int) list" where
  "preview_rows now t = map (\<lambda>r. (t_id r, 1)) (filter (\<lambda>r. t_status r = ''scheduled'' \<and>
     list_ex (\<lambda>x. r_tournament x = t_id r \<and> r_round x = 1 \<and> r_status x = ''scheduled'' \<and> r_earliest x \<le> now + 90) (round_rows t) \<and>
     \<not> list_ex (\<lambda>g. g_tournament g = t_id r \<and> g_round g = 1) (pairing_rows t)) (tournament_rows t))"

definition due_rows :: "int \<Rightarrow> tables \<Rightarrow> (int \<times> int) list" where
  "due_rows now t = map (\<lambda>x. (r_tournament x, r_round x)) (sort_key (\<lambda>x. (r_earliest x, r_tournament x))
     (filter (\<lambda>x. r_status x = ''scheduled'' \<and> r_earliest x \<le> now \<and>
        list_ex (\<lambda>r. t_id r = r_tournament x \<and> (t_status r = ''scheduled'' \<or> t_status r = ''in_progress'')) (tournament_rows t) \<and>
        (r_round x = 1 \<or> list_ex (\<lambda>y. r_tournament y = r_tournament x \<and> r_round y = r_round x - 1 \<and> r_status y = ''completed'')
           (round_rows t))) (round_rows t)))"

definition expired_rows :: "int \<Rightarrow> tables \<Rightarrow> (int \<times> int) list" where
  "expired_rows now t = map (\<lambda>x. (r_tournament x, r_round x)) (filter (\<lambda>x. r_status x = ''live'' \<and> r_closes x \<le> now \<and>
     list_ex (\<lambda>g. g_tournament g = r_tournament x \<and> g_round g = r_round x \<and> g_result g = ''pending'' \<and>
        (case g_black g of None \<Rightarrow> False
         | Some b \<Rightarrow> \<not> List.member (checkins t) (r_tournament x, r_round x, g_white g) \<or>
             \<not> List.member (checkins t) (r_tournament x, r_round x, b))) (pairing_rows t)) (round_rows t))"

definition adjudicate_expired :: "db_env \<Rightarrow> int \<Rightarrow> db \<Rightarrow> manager_result" where
  "adjudicate_expired e now d =
     (case select_rows e (expired_rows now) d of
        (None, d1) \<Rightarrow> (Inl ''sql'', d1)
      | (Some rows, d1) \<Rightarrow> each_row (\<lambda>(tid, rnd). adjudicate_no_shows e tid rnd) (row_order e (steps d1) rows) d1)"

definition start_due :: "db_env \<Rightarrow> int \<Rightarrow> db \<Rightarrow> manager_result" where
  "start_due e now d =
     (case select_rows e (due_rows now) d of
        (None, d1) \<Rightarrow> (Inl ''sql'', d1)
      | (Some rows, d1) \<Rightarrow>
          (case each_row (\<lambda>(tid, rnd). start_due_round e tid rnd now) rows d1 of
             (Inl err, d2) \<Rightarrow> (Inl err, d2)
           | (Inr _, d2) \<Rightarrow> adjudicate_expired e now d2))"

definition prepare_due :: "db_env \<Rightarrow> int \<Rightarrow> db \<Rightarrow> manager_result" where
  "prepare_due e now d =
     (case select_rows e (preview_rows now) d of
        (None, d1) \<Rightarrow> (Inl ''sql'', d1)
      | (Some rows, d1) \<Rightarrow>
          (case each_row (\<lambda>(tid, _). prepare_first_round e tid) (row_order e (steps d1) rows) d1 of
             (Inl err, d2) \<Rightarrow> (Inl err, d2)
           | (Inr _, d2) \<Rightarrow> start_due e now d2))"

definition tournament_tick :: "db_env \<Rightarrow> db \<Rightarrow> manager_result" where
  "tournament_tick e d =
     (let (now, d1) = read_clock e d; (closed, d2) = close_registrations e now d1
      in if closed = None then (Inl ''sql'', d2) else prepare_due e now d2)"

section \<open>Standings\<close>

record standing_row =
  s_rank :: nat
  s_player :: int
  s_elo :: int
  s_score :: rat
  s_buchholz :: rat
  s_whites :: int
  s_bye :: bool
  s_withdrawn :: bool
  s_wins :: nat
  s_draws :: nat

record snapshot =
  sn_tournament :: tournament_row
  sn_participants :: "participant_row list"
  sn_pairings :: "pairing_row list"
  sn_rounds :: "round_row list"
  sn_usernames :: "int \<Rightarrow> string option"
  sn_checkins :: "(int \<times> int) list"

definition read_tournament_snapshot :: "db_env \<Rightarrow> int \<Rightarrow> db \<Rightarrow> snapshot option \<times> db" where
  "read_tournament_snapshot e tid d =
     (let (r, d1) = select_rows e (\<lambda>t. map_option (\<lambda>x. \<lparr>sn_tournament = x,
            sn_participants = sort_key p_player (filter (\<lambda>p. p_tournament p = tid) (participant_rows t)),
            sn_pairings = pairings_of tid t,
            sn_rounds = sort_key r_round (filter (\<lambda>y. r_tournament y = tid) (round_rows t)),
            sn_usernames = map_of (filter (\<lambda>(i, name). i = t_created_by x \<or>
              list_ex (\<lambda>p. p_tournament p = tid \<and> p_player p = i) (participant_rows t)) (player_names t)),
            sn_checkins = sort (map (\<lambda>(a, b, c). (b, c)) (filter (\<lambda>(a, b, c). a = tid) (checkins t)))\<rparr>)
            (find (\<lambda>x. t_id x = tid) (tournament_rows t))) d
      in (Option.bind r id, d1))"

definition score_of :: "participant_row list \<Rightarrow> int \<Rightarrow> rat" where
  \<comment> \<open>the map \<open>score_of\<close>, whose \<open>operator[]\<close> answers 0 for a player it does not hold\<close>
  "score_of ps pid = (case map_of (rev (map (\<lambda>p. (p_player p, p_score p)) ps)) pid of None \<Rightarrow> 0 | Some x \<Rightarrow> x)"

definition buchholz_of :: "participant_row list \<Rightarrow> pairing_row list \<Rightarrow> int \<Rightarrow> rat" where
  "buchholz_of ps gs pid = (\<Sum>g\<leftarrow>filter (\<lambda>g. g_result g \<noteq> ''pending'') gs.
     case g_black g of
       Some b \<Rightarrow> (if g_white g = pid then score_of ps b else 0) + (if b = pid then score_of ps (g_white g) else 0)
     | None \<Rightarrow> if g_white g = pid then score_of ps (g_white g) else 0)"

definition wins_of :: "pairing_row list \<Rightarrow> int \<Rightarrow> nat" where
  "wins_of gs pid = length (filter (\<lambda>g. g_black g \<noteq> None \<and>
     (g_result g = ''1-0'' \<and> g_white g = pid \<or> g_result g = ''0-1'' \<and> g_black g = Some pid)) gs)"

definition draw_count :: "pairing_row list \<Rightarrow> int \<Rightarrow> nat" where
  "draw_count gs pid = (\<Sum>g\<leftarrow>gs. if g_result g = ''1/2-1/2'' \<and> g_black g \<noteq> None
     then (if g_white g = pid then 1 else 0) + (if g_black g = Some pid then 1 else 0) else 0)"

definition reached_round :: "pairing_row list \<Rightarrow> int \<Rightarrow> int" where
  "reached_round gs pid = foldl (\<lambda>m g. if plays_pairing pid g then max m (g_round g) else m) 0 gs"

definition finalist :: "tournament_row \<Rightarrow> pairing_row list \<Rightarrow> int \<Rightarrow> bool" where
  "finalist t gs pid \<longleftrightarrow>
     t_status t = ''completed'' \<and> list_ex (\<lambda>g. g_round g = t_current_round t \<and> went_through pid g) gs"

definition standing_place :: "tournament_row \<Rightarrow> pairing_row list \<Rightarrow> standing_row \<Rightarrow> bool \<times> int \<times> int" where
  "standing_place t gs s =
     (let f = finalist t gs (s_player s)
      in (f, if f then t_current_round t + 1 else reached_round gs (s_player s), if f then int (s_wins s) else 0))"

definition standing_key :: "tournament_row \<Rightarrow> pairing_row list \<Rightarrow> standing_row \<Rightarrow> rat \<times> rat \<times> int \<times> int" where
  \<comment> \<open>the order of the comparison passed to \<open>std::sort\<close>, ascending\<close>
  "standing_key t gs s =
     (if t_format t = ''winners_advance''
      then (let (f, r, k) = standing_place t gs s in (if f then 0 else 1, - of_int r, - k, s_player s))
      else (- s_score s, - s_buchholz s, - s_elo s, s_player s))"

fun assign_ranks :: "(standing_row \<Rightarrow> bool \<times> int \<times> int) \<Rightarrow> bool \<Rightarrow> nat \<Rightarrow> (nat \<times> (bool \<times> int \<times> int)) option \<Rightarrow>
    standing_row list \<Rightarrow> standing_row list" where
  "assign_ranks pl shared i prev [] = []"
| "assign_ranks pl shared i prev (s # ss) =
     (let rank = (case prev of Some (r, q) \<Rightarrow> if shared \<and> pl s = q then r else i + 1 | None \<Rightarrow> i + 1)
      in s\<lparr>s_rank := rank\<rparr> # assign_ranks pl shared (i + 1) (Some (rank, pl s)) ss)"

definition standing_of :: "participant_row list \<Rightarrow> pairing_row list \<Rightarrow> participant_row \<Rightarrow> standing_row" where
  "standing_of ps gs p = \<lparr>s_rank = 0, s_player = p_player p, s_elo = p_elo p, s_score = p_score p,
     s_buchholz = buchholz_of ps gs (p_player p), s_whites = p_whites p, s_bye = p_bye p, s_withdrawn = p_withdrawn p,
     s_wins = wins_of gs (p_player p), s_draws = draw_count gs (p_player p)\<rparr>"

definition standings :: "snapshot \<Rightarrow> standing_row list" where
  "standings sn =
     (let t = sn_tournament sn; ps = sn_participants sn; gs = sn_pairings sn
      in assign_ranks (standing_place t gs) (t_format t = ''winners_advance'') 0 None
           (sort_key (standing_key t gs) (map (standing_of ps gs) ps)))"

definition get_state :: "db_env \<Rightarrow> int \<Rightarrow> db \<Rightarrow> (snapshot \<times> standing_row list) option \<times> db" where
  "get_state e tid d =
     (let (sn, d1) = read_tournament_snapshot e tid d in (map_option (\<lambda>x. (x, standings x)) sn, d1))"

end
