(* ===== verification/TournamentLedger.thy ===== *)
theory TournamentLedger
  imports TournamentManager
begin

text \<open>
  What holds of the tables however the tournaments are run. \<open>advancing\<close>, \<open>dealing\<close>, \<open>recording\<close> and
  \<open>managing\<close> state what a predicate on the tables has to satisfy of the statements of
  \<open>tournament_repo.cpp\<close>; the operations of \<open>tournament_manager.cpp\<close> then keep it. They are interpreted on
  the sequences, the closing of a registration, the invariant of the tables and the standing of recorded results.
\<close>

section \<open>The contracts of the statements\<close>

abbreviation after :: "'a \<times> db \<Rightarrow> tables" where
  "after r \<equiv> tables_of (snd r)"

locale advancing =
  fixes P :: "tables \<Rightarrow> bool"
  assumes status: "P (tables_of d) \<Longrightarrow> s \<noteq> ''registration'' \<Longrightarrow> P (after (set_tournament_status e tid s d))"
    and current: "P (tables_of d) \<Longrightarrow> P (after (set_tournament_round e tid rnd d))"
    and complete: "P (tables_of d) \<Longrightarrow> round_is_complete (pairings_of tid (tables_of d)) rnd \<Longrightarrow>
      P (after (complete_round e tid rnd d))"
    and allocate: "P (tables_of d) \<Longrightarrow> round_is_complete (pairings_of tid (tables_of d)) rnd \<Longrightarrow>
      P (after (allocate_round e tid (rnd + 1) earliest closes d))"

locale dealing = advancing +
  assumes insert: "P (tables_of d) \<Longrightarrow> P (after (insert_pairing e tid rnd w b res d))"
    and recompute: "P (tables_of d) \<Longrightarrow> P (after (recompute_participant_totals e tid d))"
    and rollback: "P (tables_of saved) \<Longrightarrow> P (tables_of d) \<Longrightarrow> P (tables_of (rollback_to saved d))"

locale recording = advancing +
  fixes overridden :: "int set"
  assumes result: "P (tables_of d) \<Longrightarrow> res \<noteq> ''pending'' \<Longrightarrow> P (after (set_pairing_result e gid res source d))"
    and overriding: "P (tables_of d) \<Longrightarrow> res \<noteq> ''pending'' \<Longrightarrow> gid \<in> overridden \<Longrightarrow>
      P (after (audit_and_override_result e gid by res reason d))"

subsection \<open>Operations that keep what the statements keep\<close>

lemma snd_if: "snd (if b then x else y) = (if b then snd x else snd y)"
  by simp

lemma complete_round_pairings: "pairing_rows (after (complete_round e tid rnd d)) = pairing_rows (tables_of d)"
  unfolding complete_round_def split_beta snd_conv Let_def
  by (rule exec_sql_tables [where P = "\<lambda>t. pairing_rows t = pairing_rows (tables_of d)"]) auto

lemma read_pairings:
  "fst (get_pairings e tid d) = [] \<or> fst (get_pairings e tid d) = pairings_of tid (tables_of d)"
  by (simp add: get_pairings_def select_rows_def exec_sql_def Let_def)

context advancing
begin

lemma finish_keeps: "P (tables_of d) \<Longrightarrow> P (after (finish_or_next e tid rnd over d))"
  by (simp add: finish_or_next_def split_beta status current)

lemma advance_keeps:
  assumes "P (tables_of d)" shows "P (after (maybe_advance e tid rnd d))"
proof (cases "fst (find_tournament e tid d)")
  case None
  then show ?thesis using assms by (simp add: maybe_advance_def split_beta db_simps split: prod.split option.split)
next
  case (Some t)
  define d1 where "d1 = snd (find_tournament e tid d)"
  define d2 where "d2 = snd (get_pairings e tid d1)"
  define gs where "gs = fst (get_pairings e tid d1)"
  define d3 where "d3 = snd (complete_round e tid rnd d2)"
  define d4 where "d4 = snd (read_clock e d3)"
  have find: "find_tournament e tid d = (Some t, d1)" using Some by (simp add: d1_def prod_eq_iff)
  have t2: "tables_of d2 = tables_of d" by (simp add: d1_def d2_def db_simps)
  show ?thesis
  proof (cases "round_is_complete gs rnd")
    case False
    then show ?thesis using assms t2 by (simp add: maybe_advance_def find Let_def split_beta gs_def d2_def)
  next
    case True
    then have all: "round_is_complete (pairings_of tid (tables_of d)) rnd"
      using read_pairings [of e tid d1] by (auto simp: gs_def d1_def db_simps round_is_complete_def)
    have t3: "P (tables_of d3)" using complete [of d2 tid rnd e] assms all t2 by (simp add: d3_def)
    have "pairings_of tid (tables_of d3) = pairings_of tid (tables_of d)"
      by (simp add: pairings_of_def d3_def complete_round_pairings t2)
    moreover have t4: "tables_of d4 = tables_of d3" by (simp add: d4_def db_simps)
    ultimately have t5: "P (after (allocate_round e tid (rnd + 1) a c d4))" for a c
      using allocate [of d4 tid rnd] t3 all by simp
    show ?thesis
      using True t3 t5 finish_keeps
      by (simp add: maybe_advance_def find Let_def split_beta snd_if flip: gs_def d2_def d3_def d4_def)
  qed
qed

end

context recording
begin

lemma report_keeps:
  assumes "P (tables_of d)" shows "P (after (report_result e gid res d))"
proof -
  have 1: "P (after (find_pairing e gid d))" using assms by (simp add: db_simps)
  have 2: "P (after (maybe_advance e tid rnd (snd (set_pairing_result e i res src (snd (find_pairing e gid d))))))"
    if "res \<noteq> ''pending''" for tid rnd i src
    by (rule advance_keeps, rule result) (use 1 that in auto)
  have 3: "P (after (set_pairing_result e i res src (snd (find_pairing e gid d))))" if "res \<noteq> ''pending''" for i src
    by (rule result) (use 1 that in auto)
  show ?thesis
  proof (cases "res = ''pending''")
    case True
    then show ?thesis using 1 by (cases "find_pairing e gid d")
        (simp add: report_result_def split_beta snd_if game_result_def split: option.split)
  next
    case False
    then show ?thesis using 1 2 3 by (cases "find_pairing e gid d")
        (auto simp: report_result_def split_beta snd_if split: option.split)
  qed
qed

lemma record_keeps:
  assumes "P (tables_of d)" shows "P (after (record_game_result e gid res d))"
proof -
  have 1: "P (after (find_pairing e gid d))" using assms by (simp add: db_simps)
  have 3: "P (after (set_pairing_result e i res src (snd (find_pairing e gid d))))" if "res \<noteq> ''pending''" for i src
    by (rule result) (use 1 that in auto)
  have 2: "P (after (maybe_advance e tid rnd (snd (set_pairing_result e i res src (snd (find_pairing e gid d))))))"
    if "res \<noteq> ''pending''" for tid rnd i src
    by (rule advance_keeps) (rule 3 [OF that])
  have 4: "P (after (find_pairing e gid (snd (set_pairing_result e i res src (snd (find_pairing e gid d))))))"
    if "res \<noteq> ''pending''" for i src
    using 3 [OF that] by (simp add: db_simps)
  show ?thesis
  proof (cases "game_result res")
    case True
    then have "res \<noteq> ''pending''" by (auto simp: game_result_def)
    then show ?thesis using True 1 2 3 4 by (cases "find_pairing e gid d")
        (auto simp: record_game_result_def split_beta snd_if split: option.split)
  qed (use assms in \<open>simp add: record_game_result_def\<close>)
qed

lemma override_target_tables: "tables_of (snd (override_target e gid d)) = tables_of d"
  by (simp add: override_target_def split_beta db_simps)

lemma override_keeps:
  assumes "P (tables_of d)" "gid \<in> overridden" shows "P (after (override_result e gid by res reason d))"
proof -
  define d1 where "d1 = snd (override_target e gid d)"
  have t1: "tables_of d1 = tables_of d" by (simp add: d1_def override_target_tables)
  have 2: "tables_of (snd (find_tournament e tid d1)) = tables_of d" for tid by (simp add: db_simps t1)
  have 3: "P (after (audit_and_override_result e gid by res reason (snd (find_tournament e tid d1))))"
    if "res \<noteq> ''pending''" for tid
    by (rule overriding) (use assms 2 that in auto)
  have 4: "P (after (maybe_advance e tid rnd (snd (audit_and_override_result e gid by res reason (snd (find_tournament e tid d1))))))"
    if "res \<noteq> ''pending''" for tid rnd
    by (rule advance_keeps) (rule 3 [OF that])
  show ?thesis
    using assms t1 2 3 4
    by (cases "override_target e gid d")
      (auto simp: override_result_def split_beta snd_if game_result_def d1_def Let_def split: option.split)
qed

lemma adjudicate_keeps:
  "P (tables_of d) \<Longrightarrow> P (after (adjudicate e present gs d))"
proof (induction gs arbitrary: d)
  case (Cons g gs)
  have 1: "P (after (set_pairing_result e (g_id g) res src d))" if "no_show_result a b = Some res" for a b res src
    by (rule result [OF Cons.prems]) (use that in \<open>auto simp: no_show_result_def split: if_splits\<close>)
  then have 2: "P (after (adjudicate e present gs (snd (set_pairing_result e (g_id g) res src d))))"
    if "no_show_result a b = Some res" for a b res src
    using Cons.IH that by blast
  show ?case
    using Cons.IH [OF Cons.prems] 1 2 by (auto simp: split_beta snd_if bind_eq_Some_conv split: option.split)
qed simp

lemma no_shows_keep:
  assumes "P (tables_of d)" shows "P (after (adjudicate_no_shows e tid rnd d))"
proof -
  have "P (after (adjudicate e (fst (get_round_checkins e tid rnd d)) (fst (get_pairings_for_round e tid rnd (snd (get_round_checkins e tid rnd d))))
      (snd (get_pairings_for_round e tid rnd (snd (get_round_checkins e tid rnd d))))))" (is "P (after ?r)")
    by (rule adjudicate_keeps) (use assms in \<open>simp add: db_simps\<close>)
  then show ?thesis
    using advance_keeps by (simp add: adjudicate_no_shows_def split_beta Let_def split: prod.split sum.split)
qed

end

context dealing
begin

lemma insert_all_keeps: "P (tables_of d) \<Longrightarrow> P (after (insert_pairings e tid rnd xs d))"
proof (induction xs arbitrary: d)
  case (Cons x xs)
  have "P (after (insert_pairings e tid rnd xs (snd (insert_pairing e tid rnd w b res d))))" for w b res
    using Cons.IH insert Cons.prems by blast
  then show ?case
    using insert Cons.prems by (auto simp: split_beta Let_def split: sum.split prod.split)
qed simp

lemma generate_keeps:
  assumes "P (tables_of d)" shows "P (after (generate_round_pairings e tid rnd d))"
proof -
  define d2 where "d2 = snd (get_participants e tid (snd (find_tournament e tid d)))"
  define d3 where "d3 = snd (get_pairings e tid d2)"
  have t: "tables_of d2 = tables_of d" "tables_of d3 = tables_of d" "P (tables_of d)"
    using assms by (simp_all add: d2_def d3_def db_simps)
  have 1: "P (after (insert_pairings e tid rnd xs d3))" for xs
    using insert_all_keeps t by simp
  then have 2: "P (after (recompute_participant_totals e tid (snd (insert_pairings e tid rnd xs d3))))" for xs
    using recompute by blast
  then have 3: "P (after (maybe_advance e tid rnd (snd (recompute_participant_totals e tid (snd (insert_pairings e tid rnd xs d3))))))" for xs
    using advance_keeps by blast
  show ?thesis
    using 1 2 3 t
    by (cases "find_tournament e tid d")
      (auto simp: generate_round_pairings_def split_beta snd_if d2_def d3_def Let_def db_simps split: option.split sum.split prod.split)
qed

lemma commit_keeps: "P (tables_of saved) \<Longrightarrow> P (tables_of d) \<Longrightarrow> P (after (commit_transaction e saved d))"
  using rollback by (simp add: commit_transaction_def split_beta snd_if db_simps)

lemma deal_first_keeps:
  assumes "P (tables_of d)" shows "P (after (deal_first_round e tid d))"
proof -
  define d1 where "d1 = snd (get_pairings_for_round e tid 1 d)"
  have "P (after (generate_round_pairings e tid 1 (snd (get_participants e tid d1))))"
    by (rule generate_keeps) (use assms in \<open>simp add: d1_def db_simps\<close>)
  then show ?thesis using assms by (simp add: deal_first_round_def split_beta snd_if Let_def db_simps flip: d1_def) (simp add: d1_def db_simps)
qed

lemma prepare_keeps:
  assumes "P (tables_of d)" shows "P (after (prepare_first_round e tid d))"
proof -
  define d2 where "d2 = snd (select_rows e (\<lambda>t. ()) (snd (begin_transaction e d)))"
  have t: "tables_of d2 = tables_of d" by (simp add: d2_def db_simps)
  have r: "P (after (deal_first_round e tid d2))" by (rule deal_first_keeps) (simp add: t assms)
  show ?thesis
    using r commit_keeps [OF assms r] rollback [OF assms] assms t
    by (simp add: prepare_first_round_def split_beta Let_def snd_if db_simps split: sum.split flip: d2_def)
qed

end


section \<open>Running the tournaments\<close>

datatype tournament_call =
    Create_Tournament string int int int int int int int string
  | Join_Tournament int int int
  | Leave_Tournament int int
  | Set_Registration int int bool
  | Start_Tournament int int
  | Check_In int int int
  | Check_Out int int int
  | Report_Result int string
  | Record_Game_Result int string
  | Override_Result int int string string
  | Set_Game int int
  | Set_Replay int int
  | Tick

fun manage :: "db_env \<Rightarrow> tournament_call \<Rightarrow> db \<Rightarrow> db" where
  "manage e (Create_Tournament name rounds base inc by deadline first duration format) d =
     snd (create_tournament e name rounds base inc by deadline first duration format d)"
| "manage e (Join_Tournament tid pid rating) d = snd (tournament_join e tid pid rating d)"
| "manage e (Leave_Tournament tid pid) d = snd (tournament_leave e tid pid d)"
| "manage e (Set_Registration tid by open_it) d = snd (set_registration e tid by open_it d)"
| "manage e (Start_Tournament tid by) d = snd (start_tournament e tid by d)"
| "manage e (Check_In tid rnd pid) d = snd (tournament_check_in e tid rnd pid d)"
| "manage e (Check_Out tid rnd pid) d = remove_checkin e tid rnd pid d"
| "manage e (Report_Result gid res) d = snd (report_result e gid res d)"
| "manage e (Record_Game_Result gid res) d = snd (record_game_result e gid res d)"
| "manage e (Override_Result gid by res reason) d = snd (override_result e gid by res reason d)"
| "manage e (Set_Game gid game) d = snd (set_pairing_game_id e gid game d)"
| "manage e (Set_Replay gid replay) d = snd (set_pairing_replay_game_id e gid replay d)"
| "manage e Tick d = snd (tournament_tick e d)"

definition run_tournaments :: "db_env \<Rightarrow> tournament_call list \<Rightarrow> db \<Rightarrow> db" where
  "run_tournaments e cs d = fold (manage e) cs d"

definition registration_shut :: "int \<Rightarrow> tables \<Rightarrow> bool" where
  "registration_shut tid t \<longleftrightarrow> (\<exists>x \<in> set (tournament_rows t). t_id x = tid \<and> t_status x \<noteq> ''registration'')"

definition overrides :: "tournament_call list \<Rightarrow> int set" where
  "overrides cs = {gid. \<exists>by res reason. Override_Result gid by res reason \<in> set cs}"

subsection \<open>Effects of the statements\<close>

lemma exec_sql_cases:
  "after (exec_sql e f d) = tables_of d \<or> (\<exists>now a t. f now (tables_of d) = Some (a, t) \<and> after (exec_sql e f d) = t)"
  by (auto simp: exec_sql_def Let_def split: option.split)

lemma if_None_Some: "(if b then None else Some x) = Some y \<longleftrightarrow> \<not> b \<and> x = y"
  by simp

lemma with_status_simps [simp]: "t_id (with_status s now r) = t_id r" "t_status (with_status s now r) = s"
  by (simp_all add: with_status_def)

lemma status_effect:
  "after (set_tournament_status e tid s d) = tables_of d \<or>
   (\<exists>now. after (set_tournament_status e tid s d) = (tables_of d)\<lparr>tournament_rows :=
      update_where (\<lambda>r. t_id r = tid) (with_status s now) (tournament_rows (tables_of d))\<rparr>)"
  unfolding set_tournament_status_def affected_parts
  by (rule disjE [OF exec_sql_cases]) auto

lemma current_effect:
  "after (set_tournament_round e tid rnd d) = tables_of d \<or>
   after (set_tournament_round e tid rnd d) =
     (tables_of d)\<lparr>tournament_rows := update_where (\<lambda>r. t_id r = tid) (\<lambda>r. r\<lparr>t_current_round := rnd\<rparr>) (tournament_rows (tables_of d))\<rparr>"
  unfolding set_tournament_round_def affected_parts
  by (rule disjE [OF exec_sql_cases]) (auto split: if_splits)

lemma complete_effect:
  "after (complete_round e tid rnd d) = tables_of d \<or>
   (\<exists>now. after (complete_round e tid rnd d) = (tables_of d)\<lparr>round_rows :=
      update_where (\<lambda>x. r_tournament x = tid \<and> r_round x = rnd \<and> r_status x \<noteq> ''completed'')
        (\<lambda>x. x\<lparr>r_status := ''completed'', r_completed_at := Some now\<rparr>) (round_rows (tables_of d))\<rparr>)"
  unfolding complete_round_def split_beta Let_def snd_conv
  by (rule disjE [OF exec_sql_cases]) auto

lemma allocate_effect:
  "after (allocate_round e tid rnd earliest closes d) = tables_of d \<or>
   after (allocate_round e tid rnd earliest closes d) = (tables_of d)\<lparr>
      tournament_rows := update_where (\<lambda>x. t_id x = tid) (\<lambda>x. x\<lparr>t_rounds := max (t_rounds x) rnd\<rparr>) (tournament_rows (tables_of d)),
      round_rows := round_rows (tables_of d) @ (if list_ex (\<lambda>x. t_id x = tid) (tournament_rows (tables_of d)) \<and>
            \<not> list_ex (\<lambda>x. r_tournament x = tid \<and> r_round x = rnd) (round_rows (tables_of d))
          then [\<lparr>r_tournament = tid, r_round = rnd, r_earliest = earliest, r_actual = None, r_closes = closes,
                 r_completed_at = None, r_status = ''scheduled''\<rparr>] else [])\<rparr>"
  unfolding allocate_round_def split_beta Let_def snd_conv
  by (rule disjE [OF exec_sql_cases]) auto

lemma result_effect:
  "after (set_pairing_result e gid res source d) = tables_of d \<or>
   (\<exists>now n. change_result (\<lambda>g. g_id g = gid \<and> (g_result g = ''pending'' \<or> g_result g = res)) gid res source now (tables_of d) =
      Some (n, after (set_pairing_result e gid res source d)))"
  unfolding set_pairing_result_def affected_parts
  by (rule disjE [OF exec_sql_cases]) auto

lemma override_effect:
  "after (audit_and_override_result e gid by res reason d) = tables_of d \<or>
   (\<exists>now n t log. change_result (\<lambda>g. g_id g = gid) gid res ''override'' now (tables_of d) = Some (n, t) \<and>
      after (audit_and_override_result e gid by res reason d) = t\<lparr>override_log := log\<rparr>)"
  unfolding audit_and_override_result_def affected_parts
proof (rule disjE [OF exec_sql_cases], blast, elim exE conjE, rule disjI2, goal_cases)
  case (1 now a t)
  from 1(1) obtain t1 where "change_result (\<lambda>g. g_id g = gid) gid res ''override'' now (tables_of d) = Some (a, t1)"
    and "t = t1\<lparr>override_log := override_log (tables_of d) @ map (\<lambda>g. (gid, by, g_result g, res, reason))
      (filter (\<lambda>g. g_id g = gid) (pairing_rows (tables_of d)))\<rparr>"
    by (auto simp: Let_def split: if_splits)
  then show ?case using 1(2) by blast
qed

lemma claim_effect:
  "after (claim_round e tid rnd now d) = tables_of d \<or>
   after (claim_round e tid rnd now d) = (tables_of d)\<lparr>round_rows := update_where (claimable tid rnd now (tables_of d))
     (\<lambda>x. x\<lparr>r_status := ''live'', r_actual := Some now\<rparr>) (round_rows (tables_of d))\<rparr>"
  unfolding claim_round_def
  by (rule disjE [OF exec_sql_cases]) auto

lemma insert_effect:
  "after (insert_pairing e tid rnd w b res d) = tables_of d \<or>
   (\<exists>g. after (insert_pairing e tid rnd w b res d) =
      (tables_of d)\<lparr>pairing_seq := pairing_seq (tables_of d) + 1, pairing_rows := pairing_rows (tables_of d) @ [g]\<rparr>)"
  unfolding insert_pairing_def split_beta Let_def snd_conv
proof (rule disjE [OF exec_sql_cases], rule disjI1, assumption, elim exE conjE, rule disjI2, goal_cases)
  case (1 now a t)
  from 1(1) have "t = (tables_of d)\<lparr>pairing_seq := pairing_seq (tables_of d) + 1,
      pairing_rows := pairing_rows (tables_of d) @ [new_pairing (pairing_seq (tables_of d) + 1) tid rnd w b res now]\<rparr>"
    unfolding if_None_Some prod.inject by (elim conjE) (rule sym)
  then show ?case unfolding 1(2) by (rule exI)
qed

lemma recompute_effect:
  "after (recompute_participant_totals e tid d) = tables_of d \<or>
   after (recompute_participant_totals e tid d) = (tables_of d)\<lparr>participant_rows :=
     update_where (\<lambda>p. p_tournament p = tid) (with_totals g_result (pairing_rows (tables_of d))) (participant_rows (tables_of d))\<rparr>"
  unfolding recompute_participant_totals_def split_beta Let_def snd_conv
  by (rule disjE [OF exec_sql_cases]) auto

subsection \<open>The sequences and the closing of a registration\<close>

interpretation seqs: dealing "\<lambda>t. a \<le> tournament_seq t \<and> b \<le> pairing_seq t" for a b
proof (unfold_locales, goal_cases)
  case (1 d s e tid) then show ?case using status_effect [of e tid s d] by auto
next
  case (2 d e tid rnd) then show ?case using current_effect [of e tid rnd d] by auto
next
  case (3 d tid rnd e) then show ?case using complete_effect [of e tid rnd d] by auto
next
  case (4 d tid rnd e earliest closes) then show ?case using allocate_effect [of e tid "rnd + 1" earliest closes d] by auto
next
  case (5 d e tid rnd w b res) then show ?case using insert_effect [of e tid rnd w b res d] by auto
next
  case (6 d e tid) then show ?case using recompute_effect [of e tid d] by auto
qed (simp add: rollback_to_def)

lemma shut_update:
  assumes "registration_shut tid t" "tournament_rows t' = update_where Q f (tournament_rows t)"
    and "\<And>r. t_id (f r) = t_id r" "\<And>r. t_status r \<noteq> ''registration'' \<Longrightarrow> t_status (f r) \<noteq> ''registration''"
  shows "registration_shut tid t'"
proof -
  obtain x where x: "x \<in> set (tournament_rows t)" "t_id x = tid" "t_status x \<noteq> ''registration''"
    using assms(1) by (auto simp: registration_shut_def)
  then have "(if Q x then f x else x) \<in> set (tournament_rows t')" unfolding assms(2) set_update_where by blast
  then show ?thesis unfolding registration_shut_def using x assms(3,4) by (intro bexI [of _ "if Q x then f x else x"]) auto
qed

interpretation shut: dealing "registration_shut tid" for tid
proof (unfold_locales, goal_cases)
  case (1 d s e tid')
  then show ?case using status_effect [of e tid' s d] by (elim disjE exE) (simp, rule shut_update [OF 1(1)], simp, simp_all)
next
  case (2 d e tid' rnd)
  then show ?case using current_effect [of e tid' rnd d] by (elim disjE) (simp, rule shut_update [OF 2(1)], simp, simp_all)
next
  case (3 d tid' rnd e) then show ?case using complete_effect [of e tid' rnd d] by (auto simp: registration_shut_def)
next
  case (4 d tid' rnd e earliest closes)
  then show ?case using allocate_effect [of e tid' "rnd + 1" earliest closes d]
    by (elim disjE) (simp, rule shut_update [OF 4(1)], simp, simp_all)
next
  case (5 d e tid' rnd w b res) then show ?case using insert_effect [of e tid' rnd w b res d] by (auto simp: registration_shut_def)
next
  case (6 d e tid') then show ?case using recompute_effect [of e tid' d] by (auto simp: registration_shut_def)
qed (simp add: rollback_to_def registration_shut_def)

subsection \<open>The contract of the whole manager\<close>

locale managing = recording +
  fixes e :: db_env
  assumes creating: "P (tables_of d) \<Longrightarrow> P (after (create_tournament e name rounds base inc by deadline first duration format d))"
    and joining: "P (tables_of d) \<Longrightarrow> P (after (add_participant e tid pid rating unix d))"
    and leaving: "P (tables_of d) \<Longrightarrow> P (after (remove_participant e tid pid unix d))"
    and registering: "P (tables_of d) \<Longrightarrow> P (after (set_registration_open e tid open_it unix d))"
    and checking_in: "P (tables_of d) \<Longrightarrow> P (after (check_in_player e tid rnd pid unix d))"
    and checking_out: "P (tables_of d) \<Longrightarrow> P (tables_of (remove_checkin e tid rnd pid d))"
    and gaming: "P (tables_of d) \<Longrightarrow> P (after (set_pairing_game_id e gid game d))"
    and replaying: "P (tables_of d) \<Longrightarrow> P (after (set_pairing_replay_game_id e gid replay d))"
    and closing: "P (tables_of d) \<Longrightarrow> P (after (close_registrations e now d))"
    and preparing: "P (tables_of d) \<Longrightarrow> registration_shut tid (tables_of d) \<Longrightarrow> P (after (prepare_first_round e tid d))"
    and starting: "P (tables_of d) \<Longrightarrow> P (after (start_due_round e tid rnd now d))"

lemma each_row_keeps:
  assumes "\<And>x d. x \<in> set xs \<Longrightarrow> Q (tables_of d) \<Longrightarrow> Q (after (f x d))" and "Q (tables_of d)"
  shows "Q (after (each_row f xs d))"
  using assms
proof (induction xs arbitrary: d)
  case (Cons x xs)
  have "Q (after (f x d))" using Cons.prems by simp
  then show ?case using Cons.IH [of "snd (f x d)"] Cons.prems(1) by (simp add: split_beta split: sum.split)
qed simp

lemma eligible_tables: "after (eligible e tid rnd pid d) = tables_of d"
proof -
  obtain t d1 where f: "find_tournament e tid d = (t, d1)" by force
  then have "tables_of d1 = tables_of d" using read_tables(1) [of e tid d] by simp
  then show ?thesis by (simp add: eligible_def f split_beta db_simps split: option.split)
qed

context managing
begin

lemma join_keeps:
  assumes "P (tables_of d)" shows "P (after (tournament_join e tid pid rating d))"
proof -
  obtain t d1 where f: "find_tournament e tid d = (t, d1)" by force
  then have "tables_of d1 = tables_of d" using read_tables(1) [of e tid d] by simp
  then have "P (tables_of d1)" "P (after (read_clock e d1))" "P (after (read_clock e (snd (read_clock e d1))))"
    using assms by (simp_all add: db_simps)
  then show ?thesis
    using joining by (simp add: tournament_join_def f split_beta snd_if Let_def split: option.split)
qed

lemma leave_keeps:
  assumes "P (tables_of d)" shows "P (after (tournament_leave e tid pid d))"
proof -
  obtain t d1 where f: "find_tournament e tid d = (t, d1)" by force
  then have "tables_of d1 = tables_of d" using read_tables(1) [of e tid d] by simp
  then have "P (tables_of d1)" "P (after (read_clock e d1))" "P (after (read_clock e (snd (read_clock e d1))))"
    using assms by (simp_all add: db_simps)
  then show ?thesis
    using leaving by (simp add: tournament_leave_def f split_beta snd_if Let_def split: option.split)
qed

lemma check_in_keeps:
  assumes "P (tables_of d)" shows "P (after (tournament_check_in e tid rnd pid d))"
proof -
  define d2 where "d2 = snd (get_pairings_for_round e tid rnd (snd (eligible e tid rnd pid d)))"
  have "P (after (eligible e tid rnd pid d))" "P (tables_of d2)" "P (after (read_clock e d2))"
    using assms by (simp_all add: d2_def db_simps eligible_tables)
  then show ?thesis
    using assms checking_in by (simp add: tournament_check_in_def split_beta snd_if Let_def flip: d2_def)
qed

lemma apply_keeps: "P (tables_of d) \<Longrightarrow> P (after (apply_registration e tid open_it t d))"
  using registering [of "snd (read_clock e d)" tid open_it "fst (read_clock e d)"]
  by (auto simp: apply_registration_def split_beta snd_if Let_def db_simps split: option.split prod.split)

lemma registration_keeps:
  assumes "P (tables_of d)" shows "P (after (set_registration e tid by open_it d))"
proof -
  define d1 where "d1 = snd (find_tournament e tid d)"
  define d4 where "d4 = snd (get_pairings_for_round e tid 1 (snd (read_clock e (snd (read_clock e d1)))))"
  have t: "tables_of d1 = tables_of d" "tables_of d4 = tables_of d" by (simp_all add: d1_def d4_def db_simps)
  have "P (after (apply_registration e tid o' t' d1))" "P (after (apply_registration e tid o' t' d4))" for o' t'
    using apply_keeps t assms by simp_all
  then show ?thesis using assms t
    by (cases "find_tournament e tid d")
      (auto simp: set_registration_def split_beta snd_if d1_def d4_def db_simps Let_def split: option.split)
qed

lemma start_keeps:
  assumes "P (tables_of d)" shows "P (after (start_tournament e tid by d))"
proof -
  have "P (after (set_registration e tid by False (snd (get_participants e tid (snd (find_tournament e tid d))))))"
    by (rule registration_keeps) (use assms in \<open>simp add: db_simps\<close>)
  moreover have "P (after (find_tournament e tid d))" "P (after (get_participants e tid (snd (find_tournament e tid d))))"
    using assms by (simp_all add: db_simps)
  ultimately show ?thesis
    by (cases "find_tournament e tid d") (auto simp: start_tournament_def split_beta snd_if Let_def split: option.split)
qed

lemma prepare_rows_keep:
  assumes "P (tables_of d)" "\<And>tid rnd. (tid, rnd) \<in> set rows \<Longrightarrow> registration_shut tid (tables_of d)"
  shows "P (after (each_row (\<lambda>(tid, _). prepare_first_round e tid) rows d))"
proof -
  have "P (after (each_row (\<lambda>(tid, _). prepare_first_round e tid) rows d)) \<and>
    (\<forall>tid rnd. (tid, rnd) \<in> set rows \<longrightarrow> registration_shut tid (after (each_row (\<lambda>(tid, _). prepare_first_round e tid) rows d)))"
    by (rule each_row_keeps [where Q = "\<lambda>t. P t \<and> (\<forall>tid rnd. (tid, rnd) \<in> set rows \<longrightarrow> registration_shut tid t)"])
      (use assms preparing shut.prepare_keeps in \<open>auto simp: split_beta\<close>)
  then show ?thesis by simp
qed

lemma expired_keeps:
  assumes "P (tables_of d)" shows "P (after (adjudicate_expired e now d))"
proof -
  obtain rows d1 where f: "select_rows e (expired_rows now) d = (rows, d1)" by force
  then have "P (tables_of d1)" using assms select_tables [of e "expired_rows now" d] by simp
  moreover have "P (after (each_row (\<lambda>(tid, rnd). adjudicate_no_shows e tid rnd) xs d1))" for xs
    by (rule each_row_keeps [where Q = P]) (use calculation in \<open>simp_all add: split_beta no_shows_keep\<close>)
  ultimately show ?thesis by (simp add: adjudicate_expired_def f split: option.split)
qed

lemma due_keeps:
  assumes "P (tables_of d)" shows "P (after (start_due e now d))"
proof -
  obtain rows d1 where f: "select_rows e (due_rows now) d = (rows, d1)" by force
  then have "P (tables_of d1)" using assms select_tables [of e "due_rows now" d] by simp
  moreover have "P (after (each_row (\<lambda>(tid, rnd). start_due_round e tid rnd now) xs d1))" for xs
    by (rule each_row_keeps [where Q = P]) (use calculation in \<open>simp_all add: split_beta starting\<close>)
  ultimately show ?thesis
    using expired_keeps by (simp add: start_due_def f split_beta split: option.split sum.split)
qed

lemma prepare_due_keeps:
  assumes "P (tables_of d)" "\<And>k rows. set (row_order e k rows) = set rows"
  shows "P (after (prepare_due e now d))"
proof -
  obtain rows d1 where f: "select_rows e (preview_rows now) d = (rows, d1)" by force
  then have t1: "tables_of d1 = tables_of d" using select_tables [of e "preview_rows now" d] by simp
  have "registration_shut tid (tables_of d)" if "(tid, rnd) \<in> set (preview_rows now (tables_of d))" for tid rnd
    using that by (force simp: preview_rows_def registration_shut_def)
  moreover have "xs = preview_rows now (tables_of d)" if "rows = Some xs" for xs
    using f that by (auto simp: select_rows_def exec_sql_def Let_def split: if_splits)
  ultimately have "P (after (each_row (\<lambda>(tid, _). prepare_first_round e tid) (row_order e (steps d1) xs) d1))" if "rows = Some xs" for xs
    by (intro prepare_rows_keep) (use that assms t1 in \<open>auto simp: \<close>)
  then show ?thesis
    using due_keeps assms(1) t1 by (simp add: prepare_due_def f split_beta split: option.split sum.split)
qed

lemma tick_keeps:
  assumes "P (tables_of d)" "\<And>k rows. set (row_order e k rows) = set rows"
  shows "P (after (tournament_tick e d))"
proof -
  have "P (after (close_registrations e (fst (read_clock e d)) (snd (read_clock e d))))"
    by (rule closing) (use assms(1) in \<open>simp add: db_simps\<close>)
  then show ?thesis using prepare_due_keeps assms(2) by (simp add: tournament_tick_def split_beta Let_def snd_if)
qed

lemma manage_keeps:
  assumes "P (tables_of d)" "\<And>k rows. set (row_order e k rows) = set rows"
    and "\<And>gid by res reason. c = Override_Result gid by res reason \<Longrightarrow> gid \<in> overridden"
  shows "P (tables_of (manage e c d))"
  using assms
  by (cases c) (simp_all add: creating join_keeps leave_keeps registration_keeps start_keeps check_in_keeps checking_out
      report_keeps record_keeps override_keeps gaming replaying tick_keeps)

lemma run_keeps:
  assumes "P (tables_of d)" "\<And>k rows. set (row_order e k rows) = set rows" "overrides cs \<subseteq> overridden"
  shows "P (tables_of (run_tournaments e cs d))"
  using assms(1,3) unfolding run_tournaments_def
proof (induction cs arbitrary: d)
  case (Cons c cs)
  have "P (tables_of (manage e c d))"
    by (rule manage_keeps [OF Cons.prems(1) assms(2)]) (use Cons.prems(2) in \<open>auto simp: overrides_def\<close>)
  moreover have "overrides cs \<subseteq> overridden" using Cons.prems(2) by (auto simp: overrides_def)
  ultimately show ?case using Cons.IH by simp
qed simp

end

section \<open>Recorded results stand\<close>

definition stands :: "int set \<Rightarrow> pairing_row \<Rightarrow> pairing_row \<Rightarrow> bool" where
  \<comment> \<open>the same pairing later: a result stays recorded, and stays the same unless it is among the overridden\<close>
  "stands ov g g' \<longleftrightarrow>
     g_id g' = g_id g \<and> g_tournament g' = g_tournament g \<and> g_round g' = g_round g \<and> g_white g' = g_white g \<and> g_black g' = g_black g \<and>
     (g_result g \<noteq> ''pending'' \<longrightarrow> g_result g' \<noteq> ''pending'' \<and> (g_id g \<notin> ov \<longrightarrow> g_result g' = g_result g))"

definition all_stand :: "int set \<Rightarrow> tables \<Rightarrow> tables \<Rightarrow> bool" where
  "all_stand ov t t' \<longleftrightarrow> (\<forall>g \<in> set (pairing_rows t). \<exists>g' \<in> set (pairing_rows t'). stands ov g g')"

lemma stands_refl [simp]: "stands ov g g"
  by (simp add: stands_def)

lemma stands_trans: "stands ov a b \<Longrightarrow> stands ov b c \<Longrightarrow> stands ov a c"
  by (auto simp: stands_def)

lemma stand_same: "all_stand ov t0 t \<Longrightarrow> pairing_rows t' = pairing_rows t \<Longrightarrow> all_stand ov t0 t'"
  by (simp add: all_stand_def)

lemma stand_append: "all_stand ov t0 t \<Longrightarrow> pairing_rows t' = pairing_rows t @ gs \<Longrightarrow> all_stand ov t0 t'"
  by (auto simp: all_stand_def)

lemma stand_update:
  assumes "all_stand ov t0 t" "pairing_rows t' = update_where Q f (pairing_rows t)" and "\<And>g. Q g \<Longrightarrow> stands ov g (f g)"
  shows "all_stand ov t0 t'"
  unfolding all_stand_def
proof
  fix g assume "g \<in> set (pairing_rows t0)"
  then obtain h where h: "h \<in> set (pairing_rows t)" "stands ov g h" using assms(1) by (auto simp: all_stand_def)
  then have "(if Q h then f h else h) \<in> set (pairing_rows t')" unfolding assms(2) set_update_where by blast
  moreover have "stands ov g (if Q h then f h else h)" using h(2) assms(3) by (auto intro: stands_trans)
  ultimately show "\<exists>g' \<in> set (pairing_rows t'). stands ov g g'" by blast
qed

lemma change_result_pairings:
  "change_result sel gid res source now t = Some (n, t') \<Longrightarrow>
     pairing_rows t' = update_where sel (\<lambda>g. g\<lparr>g_result := res, g_source := Some source, g_recorded_at := Some now\<rparr>) (pairing_rows t)"
  by (auto simp: change_result_def Let_def split: if_splits)

lemma exec_sql_pairings:
  "(\<And>now a t'. f now (tables_of d) = Some (a, t') \<Longrightarrow> pairing_rows t' = pairing_rows (tables_of d)) \<Longrightarrow>
     pairing_rows (after (exec_sql e f d)) = pairing_rows (tables_of d)"
  by (rule exec_sql_tables [where P = "\<lambda>t. pairing_rows t = pairing_rows (tables_of d)"]) auto

lemma rollback_rows [db_simps]:
  "pairing_rows (tables_of (rollback_to saved d)) = pairing_rows (tables_of saved)"
  "tournament_rows (tables_of (rollback_to saved d)) = tournament_rows (tables_of saved)"
  "participant_rows (tables_of (rollback_to saved d)) = participant_rows (tables_of saved)"
  "round_rows (tables_of (rollback_to saved d)) = round_rows (tables_of saved)"
  by (simp_all add: rollback_to_def)

lemma insert_tournament_pairings:
  "pairing_rows (after (exec_sql e (insert_tournament name rounds base inc by deadline first duration format) d)) = pairing_rows (tables_of d)"
  by (rule exec_sql_pairings) (auto simp: insert_tournament_def Let_def)

definition seqs_kept :: "tables \<Rightarrow> tables \<Rightarrow> bool" where
  "seqs_kept t t' \<longleftrightarrow> tournament_seq t \<le> tournament_seq t' \<and> pairing_seq t \<le> pairing_seq t'"

lemma insert_named_cases:
  assumes "\<And>d'. seqs_kept (tables_of d) (tables_of d') \<Longrightarrow> Q (tables_of (rollback_to saved d'))"
    and "\<And>d'. tables_of d' = tables_of d \<Longrightarrow> \<not> name_taken e name (tables_of d) \<Longrightarrow> Q (after (exec_sql e stmt d'))"
    and "\<And>now t n t'. stmt now t = Some (n, t') \<Longrightarrow> seqs_kept t t'"
  shows "Q (after (insert_named e name stmt saved d))"
proof -
  define d1 where "d1 = snd (select_rows e (\<lambda>t. ()) d)"
  obtain r d2 where f: "select_rows e (name_taken e name) d1 = (r, d2)" by force
  have t1: "tables_of d1 = tables_of d" by (simp add: d1_def db_simps)
  then have t2: "tables_of d2 = tables_of d" using select_tables [of e "name_taken e name" d1] f by simp
  have r: "x = name_taken e name (tables_of d)" if "r = Some x" for x
    using f that t1 by (auto simp: select_rows_def exec_sql_def Let_def split: if_splits)
  obtain q d3 where g: "exec_sql e stmt d2 = (q, d3)" by force
  have s3: "seqs_kept (tables_of d) (tables_of d3)"
    using exec_sql_cases [of e stmt d2] assms(3) g t2 by (auto simp: seqs_kept_def)
  have s: "seqs_kept (tables_of d) (tables_of d1)" "seqs_kept (tables_of d) (tables_of d2)" by (simp_all add: t1 t2 seqs_kept_def)
  have 3: "Q (tables_of d3)" if "r = Some False"
    using assms(2) [OF t2] r [OF that] g by simp
  then have "Q (after (commit_transaction e saved d3))" if "r = Some False"
    using assms(1) s3 that by (simp add: commit_transaction_def split_beta snd_if db_simps)
  then show ?thesis
    using assms(1) s s3 by (simp add: insert_named_def split_beta Let_def snd_if f g flip: d1_def split: option.split)
qed

lemma create_tournament_cases:
  assumes "Q (tables_of d)" "\<And>d'. seqs_kept (tables_of d) (tables_of d') \<Longrightarrow> Q (tables_of (rollback_to d d'))"
    and "\<And>d' rnds dl fs fmt. tables_of d' = tables_of d \<Longrightarrow>
      Q (after (exec_sql e (insert_tournament name rnds base inc by dl fs duration fmt) d'))"
  shows "Q (after (create_tournament e name rounds base inc by deadline first duration format d))"
proof -
  obtain b d1 where f: "begin_transaction e d = (b, d1)" by force
  then have t: "tables_of d1 = tables_of d" using read_tables(7) [of e d] by simp
  have "Q (after (insert_named e name (insert_tournament name rnds base inc by dl fs duration fmt) d d1))" for rnds dl fs fmt
  proof (rule insert_named_cases)
    show "seqs_kept u u'" if "insert_tournament name rnds base inc by dl fs duration fmt now u = Some (n, u')" for now u n u'
      using that by (auto simp: insert_tournament_def Let_def seqs_kept_def)
  qed (use assms(2,3) t in simp_all)
  then show ?thesis using assms(1) t by (simp add: create_tournament_def f Let_def snd_if)
qed

lemma exec_select:
  "tables_of (snd (select_rows e g (snd (exec_sql e f d)))) = after (exec_sql e f d)"
  by (simp add: db_simps)

lemma exec_total:
  "after (exec_sql e (\<lambda>now t. Some (g now t, h t)) d) = tables_of d \<or> after (exec_sql e (\<lambda>now t. Some (g now t, h t)) d) = h (tables_of d)"
  by (rule disjE [OF exec_sql_cases]) auto

lemma join_rows_cases:
  assumes "join_rows tid pid rating unix now t = Some (n, t')"
  shows "t' = t \<or>
     list_ex (\<lambda>r. t_id r = tid \<and> t_status r = ''registration'') (tournament_rows t) \<and> \<not> known_participant tid pid t \<and>
     t' = t\<lparr>participant_rows := participant_rows t @ [new_participant tid pid rating now]\<rparr>"
proof -
  let ?able = "\<lambda>r. t_id r = tid \<and> t_status r = ''registration'' \<and> t_open r \<and> (unix = 0 \<or> registration_end r > unix)"
  have able: "list_ex (\<lambda>r. t_id r = tid \<and> t_status r = ''registration'') (tournament_rows t)"
    if "filter ?able (tournament_rows t) \<noteq> []"
    using that by (auto simp: filter_empty_conv list_ex_iff)
  show ?thesis
  proof (cases "filter ?able (tournament_rows t) = [] \<or> known_participant tid pid t")
    case False
    then show ?thesis using assms able by (simp add: join_rows_def Let_def)
  qed (use assms in \<open>simp add: join_rows_def Let_def\<close>)
qed

lemma add_effect:
  "after (add_participant e tid pid rating unix d) = tables_of d \<or>
   (\<exists>now. list_ex (\<lambda>r. t_id r = tid \<and> t_status r = ''registration'') (tournament_rows (tables_of d)) \<and>
     \<not> known_participant tid pid (tables_of d) \<and> after (add_participant e tid pid rating unix d) =
       (tables_of d)\<lparr>participant_rows := participant_rows (tables_of d) @ [new_participant tid pid rating now]\<rparr>)"
proof -
  let ?f = "join_rows tid pid rating (if unix \<le> 0 then 0 else unix)"
  have "after (add_participant e tid pid rating unix d) = after (exec_sql e ?f d)"
    by (simp add: add_participant_def split_beta Let_def exec_select split: option.split)
  moreover have "after (exec_sql e ?f d) = tables_of d \<or> (\<exists>now n t. ?f now (tables_of d) = Some (n, t) \<and> after (exec_sql e ?f d) = t)"
    by (rule exec_sql_cases)
  ultimately show ?thesis
  proof (elim disjE exE conjE)
    fix now n t
    assume eq: "after (add_participant e tid pid rating unix d) = after (exec_sql e ?f d)" "after (exec_sql e ?f d) = t"
      and "?f now (tables_of d) = Some (n, t)"
    from join_rows_cases [OF this(3)] show ?thesis unfolding eq by blast
  qed simp
qed

lemma remove_effect:
  "after (remove_participant e tid pid unix d) = tables_of d \<or>
   (\<exists>Q. after (remove_participant e tid pid unix d) = (tables_of d)\<lparr>participant_rows := filter Q (participant_rows (tables_of d))\<rparr>)"
proof -
  let ?f = "leave_rows tid pid unix"
  have "after (remove_participant e tid pid unix d) = after (exec_sql e ?f d)"
    by (simp add: remove_participant_def split_beta Let_def exec_select split: option.split)
  moreover have "after (exec_sql e ?f d) = tables_of d \<or> (\<exists>now n t. ?f now (tables_of d) = Some (n, t) \<and> after (exec_sql e ?f d) = t)"
    by (rule exec_sql_cases)
  ultimately show ?thesis by (auto simp: leave_rows_def Let_def)
qed

lemma check_in_effect:
  "after (check_in_player e tid rnd pid unix d) = tables_of d \<or>
   after (check_in_player e tid rnd pid unix d) = (tables_of d)\<lparr>checkins := checkins (tables_of d) @ [(tid, rnd, pid)]\<rparr>"
proof -
  let ?f = "check_in_rows tid rnd pid unix"
  have "after (check_in_player e tid rnd pid unix d) = after (exec_sql e ?f d)"
    by (simp add: check_in_player_def split_beta Let_def exec_select split: option.split)
  moreover have "after (exec_sql e ?f d) = tables_of d \<or> (\<exists>now n t. ?f now (tables_of d) = Some (n, t) \<and> after (exec_sql e ?f d) = t)"
    by (rule exec_sql_cases)
  ultimately show ?thesis by (auto simp: check_in_rows_def Let_def split: if_split_asm)
qed

lemma check_out_effect:
  "tables_of (remove_checkin e tid rnd pid d) = tables_of d \<or>
   tables_of (remove_checkin e tid rnd pid d) = (tables_of d)\<lparr>checkins := filter (\<lambda>c. c \<noteq> (tid, rnd, pid)) (checkins (tables_of d))\<rparr>"
  unfolding remove_checkin_def by (rule disjE [OF exec_sql_cases]) auto

lemma open_effect:
  "after (set_registration_open e tid open_it unix d) = tables_of d \<or>
   after (set_registration_open e tid open_it unix d) = (tables_of d)\<lparr>tournament_rows :=
     update_where (registration_rows tid open_it unix (tables_of d))
       (\<lambda>r. r\<lparr>t_open := open_it, t_closed_at := (if open_it then None else if t_closed_at r = None then Some unix else t_closed_at r),
          t_status := (if open_it then ''registration'' else ''scheduled'')\<rparr>) (tournament_rows (tables_of d))\<rparr>"
  unfolding set_registration_open_def affected_parts by (rule exec_total)

lemma close_effect:
  "after (close_registrations e now d) = tables_of d \<or>
   after (close_registrations e now d) = (tables_of d)\<lparr>tournament_rows :=
     update_where (\<lambda>r. t_status r = ''registration'' \<and> registration_end r \<le> now)
      (\<lambda>r. r\<lparr>t_open := False, t_status := ''scheduled'',
            t_closed_at := (if t_closed_at r = None then Some now else t_closed_at r)\<rparr>) (tournament_rows (tables_of d))\<rparr>"
  unfolding close_registrations_def by (rule exec_total)

lemma game_effect:
  "after (set_pairing_game_id e gid game d) = tables_of d \<or>
   after (set_pairing_game_id e gid game d) = (tables_of d)\<lparr>pairing_rows :=
     update_where (\<lambda>g. g_id g = gid \<and> g_result g = ''pending'') (\<lambda>g. g\<lparr>g_game := Some game\<rparr>) (pairing_rows (tables_of d))\<rparr>"
  unfolding set_pairing_game_id_def affected_parts
  by (rule disjE [OF exec_sql_cases]) (auto simp: game_rows_def Let_def split: if_split_asm)

lemma replay_effect:
  "after (set_pairing_replay_game_id e gid replay d) = tables_of d \<or>
   after (set_pairing_replay_game_id e gid replay d) = (tables_of d)\<lparr>pairing_rows :=
     update_where (\<lambda>g. g_id g = gid \<and> (g_replay g = None \<or> g_replay g = Some replay)) (\<lambda>g. g\<lparr>g_replay := Some replay\<rparr>)
       (pairing_rows (tables_of d))\<rparr>"
  using exec_sql_cases [of e "replay_rows gid replay" d]
  by (auto simp: set_pairing_replay_game_id_def replay_rows_def affected_parts Let_def split: if_split_asm)

interpretation standing: dealing "all_stand ov t0" for ov t0
proof (unfold_locales, goal_cases)
  case (1 d s e tid) then show ?case using status_effect [of e tid s d] by (auto elim: stand_same)
next
  case (2 d e tid rnd) then show ?case using current_effect [of e tid rnd d] by (auto elim: stand_same)
next
  case (3 d tid rnd e) then show ?case using complete_effect [of e tid rnd d] by (auto elim: stand_same)
next
  case (4 d tid rnd e earliest closes)
  then show ?case using allocate_effect [of e tid "rnd + 1" earliest closes d] by (elim disjE) (simp, rule stand_same [OF 4(1)], simp)
next
  case (5 d e tid rnd w b res) then show ?case using insert_effect [of e tid rnd w b res d] by (auto elim: stand_append)
next
  case (6 d e tid) then show ?case using recompute_effect [of e tid d] by (auto elim: stand_same)
next
  case (7 saved d) then show ?case by (rule_tac stand_same [OF 7(1)]) (simp add: rollback_to_def)
qed

lemma claim_pairings: "pairing_rows (after (claim_round e tid rnd now d)) = pairing_rows (tables_of d)"
  using claim_effect [of e tid rnd now d] by auto

lemma start_due_cases:
  assumes "Q (tables_of d)" "Q (after (claim_round e tid rnd now d))"
    and "\<And>d'. Q (tables_of d') \<Longrightarrow> Q (after (set_tournament_status e tid ''in_progress'' d'))"
    and "\<And>d'. Q (tables_of d') \<Longrightarrow> Q (after (set_tournament_round e tid rnd d'))"
    and "\<And>d1 d2 d3 d4. claim_round e tid rnd now d = (Some True, d1) \<Longrightarrow>
      set_tournament_status e tid ''in_progress'' d1 = (True, d2) \<Longrightarrow> set_tournament_round e tid rnd d2 = (True, d3) \<Longrightarrow>
      get_pairings_for_round e tid rnd d3 = ([], d4) \<Longrightarrow> Q (tables_of d4) \<Longrightarrow> Q (after (generate_round_pairings e tid rnd d4))"
  shows "Q (after (start_due_round e tid rnd now d))"
proof -
  obtain c d1 where 1: "claim_round e tid rnd now d = (c, d1)" by force
  obtain s d2 where 2: "set_tournament_status e tid ''in_progress'' d1 = (s, d2)" by force
  obtain r d3 where 3: "set_tournament_round e tid rnd d2 = (r, d3)" by force
  obtain gs d4 where 4: "get_pairings_for_round e tid rnd d3 = (gs, d4)" by force
  have "Q (tables_of d1)" using assms(2) 1 by simp
  moreover have "Q (tables_of d2)" using assms(3) [OF calculation] 2 by simp
  moreover have "Q (tables_of d3)" using assms(4) [OF calculation(2)] 3 by simp
  moreover have "tables_of d4 = tables_of d3" using read_tables(4) [of e tid rnd d3] 4 by simp
  ultimately show ?thesis
    using assms(5) [of d1 d2 d3 d4] 1 2 3 4 by (simp add: start_due_round_def split: option.split bool.split)
qed

interpretation standing: managing "all_stand ov t0" ov e for ov t0 e
proof (unfold_locales, goal_cases)
  case (1 d res e gid source)
  show ?case
    using result_effect [of e gid res source d]
  proof (elim disjE exE)
    fix now n
    assume "change_result (\<lambda>g. g_id g = gid \<and> (g_result g = ''pending'' \<or> g_result g = res)) gid res source now (tables_of d) =
      Some (n, after (set_pairing_result e gid res source d))"
    from change_result_pairings [OF this] show ?thesis
      by (rule stand_update [OF 1(1)]) (use 1(2) in \<open>auto simp: stands_def\<close>)
  qed (use 1 in simp)
next
  case (2 d res gid e who reason)
  show ?case
    using override_effect [of e gid who res reason d]
  proof (elim disjE exE conjE)
    fix now n t log
    assume c: "change_result (\<lambda>g. g_id g = gid) gid res ''override'' now (tables_of d) = Some (n, t)"
      and t: "after (audit_and_override_result e gid who res reason d) = t\<lparr>override_log := log\<rparr>"
    show ?thesis unfolding t
      by (rule stand_update [OF 2(1)], simp add: change_result_pairings [OF c]) (use 2(2,3) in \<open>auto simp: stands_def\<close>)
  qed (use 2 in simp)
next
  case (3 d name rounds base inc who deadline first duration format)
  then show ?case
    by (rule create_tournament_cases)
      (auto intro!: stand_same [OF 3] simp: db_simps insert_tournament_pairings)
next
  case (4 d tid pid rating unix) then show ?case using add_effect [of e tid pid rating unix d] by (auto elim: stand_same)
next
  case (5 d tid pid unix) then show ?case using remove_effect [of e tid pid unix d] by (auto elim: stand_same)
next
  case (6 d tid open_it unix)
  then show ?case using open_effect [of e tid open_it unix d] by (elim disjE) (simp, rule stand_same [OF 6], simp)
next
  case (7 d tid rnd pid unix) then show ?case using check_in_effect [of e tid rnd pid unix d] by (auto elim: stand_same)
next
  case (8 d tid rnd pid) then show ?case using check_out_effect [of e tid rnd pid d] by (auto elim: stand_same)
next
  case (9 d gid game)
  then show ?case using game_effect [of e gid game d]
    by (elim disjE) (simp, rule stand_update [OF 9], simp, simp add: stands_def)
next
  case (10 d gid replay)
  then show ?case using replay_effect [of e gid replay d]
    by (elim disjE) (simp, rule stand_update [OF 10], simp, simp add: stands_def)
next
  case (11 d now)
  then show ?case using close_effect [of e now d] by (elim disjE) (simp, rule stand_same [OF 11], simp)
next
  case (12 d tid) then show ?case by (rule_tac standing.prepare_keeps)
next
  case (13 d tid rnd now)
  then show ?case
    by (rule start_due_cases) (auto intro: standing.status standing.current standing.generate_keeps stand_same [OF 13 claim_pairings])
qed

section \<open>The invariant of the tables\<close>

lemma update_where_image:
  "(\<And>r. h (f r) = h r) \<Longrightarrow> h ` set (update_where Q f rs) = h ` set rs"
  using update_where_keeps [of Q h f rs] by (metis image_set)

lemma tables_ok_update_tournaments:
  assumes "tables_ok t" "\<And>r. t_id (f r) = t_id r"
    and "\<And>r. Q r \<Longrightarrow> t_status (f r) = ''registration'' \<Longrightarrow> t_status r = ''registration'' \<or> (\<forall>g \<in> set (pairing_rows t). g_tournament g \<noteq> t_id r)"
  shows "tables_ok (t\<lparr>tournament_rows := update_where Q f (tournament_rows t)\<rparr>)"
proof -
  have "registering_empty (t\<lparr>tournament_rows := update_where Q f (tournament_rows t)\<rparr>)"
    unfolding registering_empty_def
  proof (intro ballI impI, goal_cases)
    case (1 x g)
    then obtain r where r: "r \<in> set (tournament_rows t)" "x = (if Q r then f r else r)" by (auto simp: set_update_where)
    have "t_status r = ''registration'' \<Longrightarrow> g_tournament g \<noteq> t_id r"
      using assms(1) r(1) 1(3) by (simp add: tables_ok_def registering_empty_def)
    then show ?case using assms(2,3) r(2) 1(2,3) by (cases "Q r") auto
  qed
  then show ?thesis
    using assms(1) update_where_keeps [of Q t_id f] update_where_image [of t_id f Q] assms(2)
    by (simp add: tables_ok_def keys_ok_def ids_ok_def shapes_ok_def totals_ok_def rounds_in_order_def)
qed

lemma tables_ok_rounds:
  assumes "tables_ok t" "\<And>x. r_tournament (f x) = r_tournament x" "\<And>x. r_round (f x) = r_round x"
    and "\<And>x. r_status x = ''completed'' \<Longrightarrow> Q x \<Longrightarrow> r_status (f x) = ''completed''"
    and "\<And>x. x \<in> set (round_rows t) \<Longrightarrow> Q x \<Longrightarrow> r_status (f x) = ''completed'' \<Longrightarrow>
      round_done (pairing_rows t) (r_tournament x) (r_round x)"
  shows "tables_ok (t\<lparr>round_rows := update_where Q f (round_rows t)\<rparr>)"
proof -
  let ?rows = "update_where Q f (round_rows t)"
  have keys: "map (\<lambda>x. (r_tournament x, r_round x)) ?rows = map (\<lambda>x. (r_tournament x, r_round x)) (round_rows t)"
    "(\<lambda>x. (r_tournament x, r_round x)) ` set ?rows = (\<lambda>x. (r_tournament x, r_round x)) ` set (round_rows t)"
    by (rule update_where_keeps, simp add: assms(2,3)) (rule update_where_image, simp add: assms(2,3))
  have decided: "\<forall>x \<in> set ?rows. r_status x = ''completed'' \<longrightarrow> round_done (pairing_rows t) (r_tournament x) (r_round x)"
    using assms(1,5) by (auto simp: set_update_where tables_ok_def rounds_in_order_def assms(2,3) split: if_splits)
  have order: "\<exists>x \<in> set ?rows. r_tournament x = tid \<and> r_round x = n \<and> r_status x = ''completed''"
    if x: "x \<in> set (round_rows t)" "r_tournament x = tid" "r_round x = n" "r_status x = ''completed''" for x tid n
  proof -
    have "(if Q x then f x else x) \<in> set ?rows" using x(1) unfolding set_update_where by blast
    then show ?thesis using x assms(2-4) by (intro bexI [of _ "if Q x then f x else x"]) auto
  qed
  have "rounds_in_order (t\<lparr>round_rows := ?rows\<rparr>)"
    unfolding rounds_in_order_def
  proof (intro conjI)
    show "\<forall>g \<in> set (pairing_rows (t\<lparr>round_rows := ?rows\<rparr>)). g_round g > 1 \<longrightarrow>
        (\<exists>x \<in> set (round_rows (t\<lparr>round_rows := ?rows\<rparr>)). r_tournament x = g_tournament g \<and> r_round x = g_round g - 1 \<and> r_status x = ''completed'')"
    proof (intro ballI impI, goal_cases)
      case (1 g)
      then obtain x where "x \<in> set (round_rows t)" "r_tournament x = g_tournament g" "r_round x = g_round g - 1" "r_status x = ''completed''"
        using assms(1) by (auto simp: tables_ok_def rounds_in_order_def)
      from order [OF this] show ?case by simp
    qed
  qed (use decided in simp)
  then show ?thesis
    using assms(1) keys by (simp add: tables_ok_def keys_ok_def ids_ok_def shapes_ok_def totals_ok_def registering_empty_def)
qed

lemma round_done_update:
  assumes "round_done gs tid rnd" "\<And>g. in_round tid rnd (f g) = in_round tid rnd g"
    and "\<And>g. Q g \<Longrightarrow> g_result g \<noteq> ''pending'' \<Longrightarrow> g_result (f g) \<noteq> ''pending''"
  shows "round_done (update_where Q f gs) tid rnd"
proof -
  obtain g where g: "g \<in> set gs" "in_round tid rnd g" using assms(1) by (auto simp: round_done_def)
  then have "(if Q g then f g else g) \<in> set (update_where Q f gs)" unfolding set_update_where by blast
  moreover have "in_round tid rnd (if Q g then f g else g)" using g(2) assms(2) by simp
  ultimately have "\<exists>g \<in> set (update_where Q f gs). in_round tid rnd g" by blast
  then show ?thesis using assms by (auto simp: round_done_def set_update_where split: if_splits)
qed

lemma seated_map:
  assumes "\<And>g. seats_of (f g) = seats_of g" "\<And>g tid rnd. in_round tid rnd (f g) = in_round tid rnd g"
  shows "seated_once (map f gs) = seated_once gs"
proof -
  have "map seats_of (filter (in_round tid rnd) (map f gs)) = map seats_of (filter (in_round tid rnd) gs)" for tid rnd
    by (induction gs) (simp_all add: assms)
  then show ?thesis by (simp add: seated_once_def)
qed

lemma tables_ok_pairings:
  assumes "tables_ok t"
    and f: "\<And>g. g_id (f g) = g_id g" "\<And>g. g_tournament (f g) = g_tournament g" "\<And>g. g_round (f g) = g_round g"
      "\<And>g. g_white (f g) = g_white g" "\<And>g. g_black (f g) = g_black g"
    and res: "\<And>g. Q g \<Longrightarrow> g \<in> set (pairing_rows t) \<Longrightarrow> result_shape (g_black g) (g_result (f g))"
      "\<And>g. Q g \<Longrightarrow> g_result g \<noteq> ''pending'' \<Longrightarrow> g_result (f g) \<noteq> ''pending''"
    and parts: "map (\<lambda>p. (p_tournament p, p_player p)) ps = map (\<lambda>p. (p_tournament p, p_player p)) (participant_rows t)"
      "\<forall>p \<in> set ps. with_totals g_result (update_where Q f (pairing_rows t)) p = p"
  shows "tables_ok (t\<lparr>pairing_rows := update_where Q f (pairing_rows t), participant_rows := ps\<rparr>)"
proof -
  let ?gs = "update_where Q f (pairing_rows t)"
  have ids: "map g_id ?gs = map g_id (pairing_rows t)" by (rule update_where_keeps) (rule f)
  have rows: "(\<lambda>g. (g_id g, g_tournament g, g_round g)) ` set ?gs = (\<lambda>g. (g_id g, g_tournament g, g_round g)) ` set (pairing_rows t)"
    by (rule update_where_image) (simp add: f)
  have origin: "\<exists>h \<in> set (pairing_rows t). g_tournament h = g_tournament g \<and> g_round h = g_round g" if "g \<in> set ?gs" for g
    using that by (auto simp: set_update_where f)
  have shape: "shapes_ok (t\<lparr>pairing_rows := ?gs, participant_rows := ps\<rparr>)"
    using assms(1) res(1) by (auto simp: set_update_where f tables_ok_def shapes_ok_def split: if_splits)
  have seated: "seated_once ?gs = seated_once (pairing_rows t)"
    unfolding update_where_def by (rule seated_map) (simp_all add: seats_of_def in_round_def f)
  have decided: "round_done ?gs tid rnd" if "round_done (pairing_rows t) tid rnd" for tid rnd
    by (rule round_done_update [OF that]) (simp_all add: in_round_def f res(2))
  have empty: "registering_empty (t\<lparr>pairing_rows := ?gs, participant_rows := ps\<rparr>)"
    using assms(1) origin by (fastforce simp: tables_ok_def registering_empty_def)
  have order: "rounds_in_order (t\<lparr>pairing_rows := ?gs, participant_rows := ps\<rparr>)"
    unfolding rounds_in_order_def
  proof (intro conjI ballI impI, goal_cases)
    case (1 x) then show ?case using assms(1) decided by (simp add: tables_ok_def rounds_in_order_def)
  next
    case (2 g)
    then obtain h where "h \<in> set (pairing_rows t)" "g_tournament h = g_tournament g" "g_round h = g_round g" using origin [of g] by auto
    then show ?case using assms(1) 2(2) by (fastforce simp: tables_ok_def rounds_in_order_def)
  qed
  have "keys_ok (t\<lparr>pairing_rows := ?gs, participant_rows := ps\<rparr>)" "ids_ok (t\<lparr>pairing_rows := ?gs, participant_rows := ps\<rparr>)"
    using assms(1) ids rows parts(1) by (simp_all add: tables_ok_def keys_ok_def ids_ok_def)
  then show ?thesis
    using assms(1) shape seated empty order parts(2) by (simp add: tables_ok_def totals_ok_def)
qed

subsection \<open>The statements keep it\<close>

lemma tables_ok_same:
  "tables_ok t \<Longrightarrow> tables_ok (t\<lparr>checkins := cs\<rparr>)" "tables_ok t \<Longrightarrow> tables_ok (t\<lparr>override_log := entries\<rparr>)"
  by (simp_all add: tables_ok_defs)

lemma round_is_complete_done:
  "round_is_complete (pairings_of tid t) rnd \<longleftrightarrow> round_done (pairing_rows t) tid rnd"
proof -
  have "round_is_complete gs rnd \<longleftrightarrow> (\<exists>g \<in> set gs. g_round g = rnd) \<and> (\<forall>g \<in> set gs. g_round g = rnd \<longrightarrow> g_result g \<noteq> ''pending'')" for gs
    by (simp add: round_is_complete_def list_ex_iff list_all_iff)
  note this [of "pairings_of tid t", unfolded pairings_of_set]
  then show ?thesis unfolding round_done_def in_round_def by blast
qed

lemma tables_ok_new_round:
  assumes "tables_ok t" "\<not> list_ex (\<lambda>y. r_tournament y = r_tournament x \<and> r_round y = r_round x) (round_rows t)"
    and "r_tournament x \<le> tournament_seq t" "r_round x \<ge> 1" "r_status x \<noteq> ''completed''"
  shows "tables_ok (t\<lparr>round_rows := round_rows t @ [x]\<rparr>)"
  using assms by (auto simp: tables_ok_defs list_ex_iff)

lemma status_ok:
  assumes "tables_ok (tables_of d)" "s \<noteq> ''registration''" shows "tables_ok (after (set_tournament_status e tid s d))"
  using status_effect [of e tid s d]
proof (elim disjE exE, goal_cases)
  case (2 now) show ?case unfolding 2 by (rule tables_ok_update_tournaments [OF assms(1)]) (simp_all add: assms(2))
qed (use assms in simp)

lemma current_ok:
  assumes "tables_ok (tables_of d)" shows "tables_ok (after (set_tournament_round e tid rnd d))"
  using current_effect [of e tid rnd d]
proof (elim disjE, goal_cases)
  case 2 show ?case unfolding 2 by (rule tables_ok_update_tournaments [OF assms(1)]) simp_all
qed (use assms in simp)

lemma complete_ok:
  assumes "tables_ok (tables_of d)" "round_is_complete (pairings_of tid (tables_of d)) rnd"
  shows "tables_ok (after (complete_round e tid rnd d))"
  using complete_effect [of e tid rnd d]
proof (elim disjE exE, goal_cases)
  case (2 now)
  show ?case unfolding 2
    by (rule tables_ok_rounds [OF assms(1)]) (use assms(2) in \<open>auto simp: round_is_complete_done\<close>)
qed (use assms in simp)

lemma allocate_ok:
  assumes "tables_ok (tables_of d)" "round_is_complete (pairings_of tid (tables_of d)) rnd"
  shows "tables_ok (after (allocate_round e tid (rnd + 1) earliest closes d))"
  using allocate_effect [of e tid "rnd + 1" earliest closes d]
proof (elim disjE, goal_cases)
  case 2
  let ?t = "(tables_of d)\<lparr>tournament_rows := update_where (\<lambda>x. t_id x = tid) (\<lambda>x. x\<lparr>t_rounds := max (t_rounds x) (rnd + 1)\<rparr>)
      (tournament_rows (tables_of d))\<rparr>"
  have t: "tables_ok ?t" by (rule tables_ok_update_tournaments [OF assms(1)]) simp_all
  obtain g where "g \<in> set (pairing_rows (tables_of d))" "g_round g = rnd" "g_tournament g = tid"
    using assms(2) by (auto simp: round_is_complete_done round_done_def in_round_def)
  then have ids: "rnd \<ge> 1" "tid \<le> tournament_seq (tables_of d)"
    using assms(1) by (auto simp: tables_ok_def ids_ok_def)
  show ?case
    using t ids tables_ok_new_round [OF t, of "\<lparr>r_tournament = tid, r_round = rnd + 1, r_earliest = earliest, r_actual = None,
      r_closes = closes, r_completed_at = None, r_status = ''scheduled''\<rparr>"]
    unfolding 2 by simp
qed (use assms in simp)

lemma change_result_ok:
  assumes "tables_ok t" "change_result sel gid res source now t = Some (n, t')" "res \<noteq> ''pending''"
    and sel: "\<And>g. sel g \<Longrightarrow> g_id g = gid" "\<And>g. g \<in> set (pairing_rows t) \<Longrightarrow> g_id g = gid \<Longrightarrow> \<not> sel g \<Longrightarrow> filter sel (pairing_rows t) = []"
  shows "tables_ok t'"
proof -
  let ?gs = "pairing_rows t" and ?f = "\<lambda>g. g\<lparr>g_result := res, g_source := Some source, g_recorded_at := Some now\<rparr>"
  let ?tids = "map g_tournament (filter sel ?gs)"
  let ?ps = "update_where (\<lambda>p. List.member ?tids (p_tournament p)) (with_totals (overlay gid res) ?gs) (participant_rows t)"
  have shape: "\<not> list_ex (\<lambda>g. \<not> result_shape (g_black g) res) (filter sel ?gs)"
    and t': "t' = t\<lparr>pairing_rows := update_where sel ?f ?gs, participant_rows := ?ps\<rparr>"
    using assms(2) by (auto simp: change_result_def Let_def split: if_split_asm)
  have same: "map (\<lambda>g. (g_white g, g_black g, g_result g)) (filter (\<lambda>g. g_tournament g = k) (update_where sel ?f gs)) =
      map (\<lambda>g. (g_white g, g_black g, r g)) (filter (\<lambda>g. g_tournament g = k) gs)"
    if "\<And>g. g \<in> set gs \<Longrightarrow> g_tournament g = k \<Longrightarrow> r g = (if sel g then res else g_result g)" for k r gs
    using that by (induction gs) (auto simp: update_where_def)
  have totals: "with_totals g_result (update_where sel ?f ?gs) p = with_totals (overlay gid res) ?gs p"
    if "p_tournament p \<in> set ?tids" for p
  proof (rule with_totals_cong, rule same)
    fix g assume "g \<in> set ?gs" "g_tournament g = p_tournament p"
    moreover have "filter sel ?gs \<noteq> []" using that by (auto simp: filter_empty_conv)
    ultimately show "overlay gid res g = (if sel g then res else g_result g)"
      using sel(1) [of g] sel(2) [of g] by (auto simp: overlay_def)
  qed
  have others: "with_totals g_result (update_where sel ?f ?gs) p = with_totals g_result ?gs p"
    if "p_tournament p \<notin> set ?tids" for p
    by (rule with_totals_cong, rule same) (use that in \<open>auto simp: image_iff\<close>)
  have "\<forall>p \<in> set ?ps. with_totals g_result (update_where sel ?f ?gs) p = p"
  proof
    fix p assume "p \<in> set ?ps"
    then obtain q where q: "q \<in> set (participant_rows t)"
      "p = (if p_tournament q \<in> set ?tids then with_totals (overlay gid res) ?gs q else q)"
      by (auto simp: set_update_where)
    have "with_totals g_result ?gs q = q" using assms(1) q(1) by (simp add: tables_ok_def totals_ok_def)
    then show "with_totals g_result (update_where sel ?f ?gs) p = p"
      using q(2) totals [of q] others [of q] by (cases "p_tournament q \<in> set ?tids") auto
  qed
  moreover have "map (\<lambda>p. (p_tournament p, p_player p)) ?ps = map (\<lambda>p. (p_tournament p, p_player p)) (participant_rows t)"
    by (rule update_where_keeps) simp
  ultimately show ?thesis
    unfolding t' by (intro tables_ok_pairings [OF assms(1)]) (use shape assms(3) in \<open>auto simp: list_ex_iff\<close>)
qed

lemma unique_pairing:
  "tables_ok t \<Longrightarrow> g \<in> set (pairing_rows t) \<Longrightarrow> h \<in> set (pairing_rows t) \<Longrightarrow> g_id g = g_id h \<Longrightarrow> g = h"
  by (auto simp: tables_ok_def keys_ok_def distinct_map inj_on_def)

lemma result_ok:
  assumes "tables_ok (tables_of d)" "res \<noteq> ''pending''" shows "tables_ok (after (set_pairing_result e gid res source d))"
  using result_effect [of e gid res source d]
proof (elim disjE exE, goal_cases)
  case (2 now n)
  show ?case
    by (rule change_result_ok [OF assms(1) 2 assms(2)])
      (use unique_pairing [OF assms(1)] in \<open>auto simp: filter_empty_conv\<close>)
qed (use assms in simp)

lemma override_ok:
  assumes "tables_ok (tables_of d)" "res \<noteq> ''pending''" shows "tables_ok (after (audit_and_override_result e gid who res reason d))"
  using override_effect [of e gid who res reason d]
proof (elim disjE exE conjE, goal_cases)
  case (2 now n t entries)
  show ?case unfolding 2(2)
    by (rule tables_ok_same, rule change_result_ok [OF assms(1) 2(1) assms(2)]) auto
qed (use assms in simp)

interpretation books: recording tables_ok UNIV
  by unfold_locales (simp_all add: status_ok current_ok complete_ok allocate_ok result_ok override_ok)

subsection \<open>A dealt round seats nobody twice\<close>

definition replayed :: "pairing_row list \<Rightarrow> int \<Rightarrow> pairing_row \<Rightarrow> bool" where
  \<comment> \<open>a draw of the round before whose players meet again\<close>
  "replayed gs rnd g \<longleftrightarrow> g_round g = rnd - 1 \<and> g_result g = ''1/2-1/2'' \<and>
     (case g_black g of None \<Rightarrow> False
      | Some b \<Rightarrow> draws_of (filter (\<lambda>p. g_round p < rnd) gs) (player_pair (g_white g) b) < 2)"

definition replay_of :: "pairing_row \<Rightarrow> pairing" where
  "replay_of g = \<lparr>white_id = the (g_black g), black_id = g_white g, is_bye = False\<rparr>"

lemma previous_round_parts:
  "fst (previous_round gs rnd) \<subseteq> {p. \<exists>g \<in> set gs. g_round g = rnd - 1 \<and> went_through p g}"
  "fst (snd (previous_round gs rnd)) = set (concat (map seats_of (filter (replayed gs rnd) gs)))"
  "snd (snd (previous_round gs rnd)) = map replay_of (filter (replayed gs rnd) gs)"
proof -
  define step where "step = (\<lambda>(adv :: int set, rep :: int set, forced :: pairing list) (g :: pairing_row).
     if g_round g \<noteq> rnd - 1 then (adv, rep, forced)
     else if g_result g = ''bye'' \<or> g_result g = ''1-0'' then (insert (g_white g) adv, rep, forced)
     else case g_black g of
            None \<Rightarrow> (adv, rep, forced)
          | Some b \<Rightarrow>
              if g_result g = ''0-1'' then (insert b adv, rep, forced)
              else if g_result g = ''1/2-1/2''
              then (let adv1 = insert b (insert (g_white g) adv)
                    in if draws_of (filter (\<lambda>p. g_round p < rnd) gs) (player_pair (g_white g) b) < 2
                       then (adv1, insert b (insert (g_white g) rep),
                             forced @ [\<lparr>white_id = b, black_id = g_white g, is_bye = False\<rparr>])
                       else (adv1, rep, forced))
              else (adv, rep, forced))"
  have adv: "fst (step (adv, rep, forced) g) \<subseteq> adv \<union> {p. g_round g = rnd - 1 \<and> went_through p g}" for adv rep forced g
    by (auto simp: step_def went_through_def Let_def split: option.split)
  have rest: "snd (step (adv, rep, forced) g) = (if replayed gs rnd g then (rep \<union> set (seats_of g), forced @ [replay_of g]) else (rep, forced))"
    for adv rep forced g
    by (auto simp: step_def replayed_def replay_of_def seats_of_def Let_def split: option.split)
  have fold: "fst (foldl step (adv, rep, forced) xs) \<subseteq> adv \<union> {p. \<exists>g \<in> set xs. g_round g = rnd - 1 \<and> went_through p g} \<and>
      snd (foldl step (adv, rep, forced) xs) =
        (rep \<union> set (concat (map seats_of (filter (replayed gs rnd) xs))), forced @ map replay_of (filter (replayed gs rnd) xs))"
    for adv rep forced xs
  proof (induction xs arbitrary: adv rep forced)
    case (Cons g xs)
    obtain adv' rep' forced' where s: "step (adv, rep, forced) g = (adv', rep', forced')" by (metis prod_cases3)
    then show ?case
      using Cons.IH [of adv' rep' forced'] adv [of adv rep forced g] rest [of adv rep forced g]
      by (cases "replayed gs rnd g") auto
  qed simp
  have "previous_round gs rnd = foldl step ({}, {}, []) gs" by (simp add: previous_round_def step_def)
  then show "fst (previous_round gs rnd) \<subseteq> {p. \<exists>g \<in> set gs. g_round g = rnd - 1 \<and> went_through p g}"
    "fst (snd (previous_round gs rnd)) = set (concat (map seats_of (filter (replayed gs rnd) gs)))"
    "snd (snd (previous_round gs rnd)) = map replay_of (filter (replayed gs rnd) gs)"
    using fold [of "{}" "{}" "[]" gs] by auto
qed

lemma replays_seats:
  "mset (concat (map players (map replay_of (filter (replayed gs rnd) xs)))) = mset (concat (map seats_of (filter (replayed gs rnd) xs)))"
  by (induction xs) (auto simp: replayed_def replay_of_def seats_of_def players_def split: option.splits)

lemma distinct_concat_filter:
  "distinct (concat (map h (filter P xs))) \<Longrightarrow> (\<And>x. Q x \<Longrightarrow> P x) \<Longrightarrow> distinct (concat (map h (filter Q xs)))"
proof (induction xs)
  case (Cons x xs)
  have "set (concat (map h (filter Q xs))) \<subseteq> set (concat (map h (filter P xs)))" using Cons.prems(2) by auto
  then show ?case using Cons by (cases "P x") auto
qed simp

lemma round_pairing_seats:
  assumes "distinct (map p_player ps)" "list_all half_points (map to_standing ps)"
    and "distinct (concat (map seats_of (filter (\<lambda>g. g_round g = rnd - 1) gs)))"
  shows "distinct (concat (map players (round_pairing t ps gs rnd)))"
proof -
  have pool: "distinct (concat (map players (pair_swiss_round pool played capped))) \<and>
      set (concat (map players (pair_swiss_round pool played capped))) \<subseteq> player_id ` set pool"
    if "distinct (map player_id pool)" "list_all half_points pool" for pool played capped
    using pair_swiss_players [OF that(2), of played capped] distinct_map_filter [OF that(1), of "\<lambda>p. \<not> withdrawn p"]
    by (metis (no_types, lifting) mset_eq_imp_distinct_iff mset_eq_setD filter_is_subset image_mono list.set_map)
  have ids: "map player_id (map to_standing ps) = map p_player ps" by (simp add: to_standing_def comp_def)
  show ?thesis
  proof (cases "t_format t = ''winners_advance'' \<and> rnd > 1")
    case False
    have "distinct (map player_id (map to_standing ps))" unfolding ids by (rule assms(1))
    from pool [OF this assms(2)] show ?thesis using False by (auto simp: round_pairing_def Let_def)
  next
    case True
    define rep where "rep = fst (snd (previous_round gs rnd))"
    define pool1 where "pool1 = filter (\<lambda>p. player_id p \<in> fst (previous_round gs rnd) \<and> player_id p \<notin> rep) (map to_standing ps)"
    let ?forced = "snd (snd (previous_round gs rnd))"
    let ?capped = "set (filter (\<lambda>q. draws_of gs q \<ge> 2) (drawn_pairs gs))"
    have result: "round_pairing t ps gs rnd = ?forced @ pair_swiss_round pool1 (gather_played gs) ?capped"
      using True by (simp add: round_pairing_def Let_def split_beta pool1_def rep_def)
    have "distinct (concat (map seats_of (filter (replayed gs rnd) gs)))"
      by (rule distinct_concat_filter [OF assms(3)]) (simp add: replayed_def)
    then have forced: "distinct (concat (map players ?forced))" "set (concat (map players ?forced)) = rep"
      using mset_eq_imp_distinct_iff [OF replays_seats] mset_eq_setD [OF replays_seats, of gs rnd gs]
      by (simp_all only: previous_round_parts rep_def)
    have "distinct (map player_id pool1)"
      unfolding pool1_def by (rule distinct_map_filter) (unfold ids, rule assms(1))
    moreover have "list_all half_points pool1" using assms(2) by (auto simp: pool1_def list_all_iff)
    ultimately show ?thesis
      using pool [of pool1 "gather_played gs" ?capped] forced unfolding result by (auto simp: pool1_def)
  qed
qed


definition dealt_rows :: "int \<Rightarrow> int \<Rightarrow> int \<Rightarrow> pairing list \<Rightarrow> pairing_row list \<Rightarrow> bool" where
  \<comment> \<open>the rows that \<open>insert_pairings\<close> adds for a round\<close>
  "dealt_rows tid rnd i xs rows \<longleftrightarrow>
     map seats_of rows = map players xs \<and> map g_id rows = map (\<lambda>k. i + 1 + int k) [0..<length xs] \<and>
     (\<forall>g \<in> set rows. in_round tid rnd g \<and> result_shape (g_black g) (g_result g) \<and>
       (g_result g = ''pending'' \<or> g_result g = ''bye''))"

lemma insert_pairing_succeeds:
  assumes "faultless e" "rnd \<ge> 1" "result_shape b res"
    and "\<not> list_ex (\<lambda>g. in_round tid rnd g \<and> (g_white g = w \<or> b \<noteq> None \<and> g_black g = b)) (pairing_rows (tables_of d))"
  shows "\<exists>now. fst (insert_pairing e tid rnd w b res d) = Inr (pairing_seq (tables_of d) + 1) \<and>
    after (insert_pairing e tid rnd w b res d) = (tables_of d)\<lparr>pairing_seq := pairing_seq (tables_of d) + 1,
      pairing_rows := pairing_rows (tables_of d) @ [new_pairing (pairing_seq (tables_of d) + 1) tid rnd w b res now]\<rparr>"
  using assms
  by (intro exI [of _ "db_now e (steps d)"]) (simp add: insert_pairing_def split_beta db_simps in_round_def Let_def conj_assoc)

lemma insert_pairings_succeed:
  assumes "faultless e" "rnd \<ge> 1"
    and "distinct (concat (map seats_of (filter (in_round tid rnd) (pairing_rows (tables_of d)))) @ concat (map players xs))"
  shows "fst (insert_pairings e tid rnd xs d) = Inr () \<and>
    (\<exists>rows. dealt_rows tid rnd (pairing_seq (tables_of d)) xs rows \<and>
      after (insert_pairings e tid rnd xs d) =
        (tables_of d)\<lparr>pairing_seq := pairing_seq (tables_of d) + int (length xs), pairing_rows := pairing_rows (tables_of d) @ rows\<rparr>)"
  using assms(3)
proof (induction xs arbitrary: d)
  case (Cons x xs)
  let ?b = "if is_bye x then None else Some (black_id x)" and ?res = "if is_bye x then ''bye'' else ''pending''"
  let ?t = "tables_of d"
  have free: "\<not> list_ex (\<lambda>g. in_round tid rnd g \<and> (g_white g = white_id x \<or> ?b \<noteq> None \<and> g_black g = ?b)) (pairing_rows ?t)"
  proof
    assume "list_ex (\<lambda>g. in_round tid rnd g \<and> (g_white g = white_id x \<or> ?b \<noteq> None \<and> g_black g = ?b)) (pairing_rows ?t)"
    then obtain g where g: "g \<in> set (pairing_rows ?t)" "in_round tid rnd g"
      "g_white g = white_id x \<or> \<not> is_bye x \<and> g_black g = Some (black_id x)"
      by (auto simp: list_ex_iff split: if_splits)
    then have "set (seats_of g) \<inter> set (players x) \<noteq> {}" by (auto simp: seats_of_def players_def split: option.splits)
    then show False using g(1,2) Cons.prems by auto
  qed
  obtain d1 i now where 1: "insert_pairing e tid rnd (white_id x) ?b ?res d = (Inr i, d1)" "i = pairing_seq ?t + 1"
    "tables_of d1 = ?t\<lparr>pairing_seq := i, pairing_rows := pairing_rows ?t @ [new_pairing i tid rnd (white_id x) ?b ?res now]\<rparr>"
    using insert_pairing_succeeds [OF assms(1,2) _ free, of ?res] by (cases "insert_pairing e tid rnd (white_id x) ?b ?res d")
      (auto simp: result_shape_def split: if_splits)
  define g where "g = new_pairing i tid rnd (white_id x) ?b ?res now"
  have d1: "tables_of d1 = ?t\<lparr>pairing_seq := i, pairing_rows := pairing_rows ?t @ [g]\<rparr>" unfolding g_def by (rule 1(3))
  have g: "in_round tid rnd g" "seats_of g = players x" "g_id g = i" "result_shape (g_black g) (g_result g)"
    "g_result g = ''pending'' \<or> g_result g = ''bye''"
    by (simp_all add: g_def new_pairing_def in_round_def seats_of_def players_def result_shape_def)
  have "distinct (concat (map seats_of (filter (in_round tid rnd) (pairing_rows (tables_of d1)))) @ concat (map players xs))"
    using Cons.prems by (auto simp: d1 g)
  from Cons.IH [OF this] obtain rows where rows: "fst (insert_pairings e tid rnd xs d1) = Inr ()"
    "dealt_rows tid rnd i xs rows" "after (insert_pairings e tid rnd xs d1) =
      (tables_of d1)\<lparr>pairing_seq := i + int (length xs), pairing_rows := pairing_rows (tables_of d1) @ rows\<rparr>"
    by (auto simp: d1)
  have "dealt_rows tid rnd (pairing_seq ?t) (x # xs) (g # rows)"
    using rows(2) g 1(2) by (simp add: dealt_rows_def map_upt_Suc algebra_simps del: upt_Suc)
  moreover have "insert_pairings e tid rnd (x # xs) d = insert_pairings e tid rnd xs d1"
    using 1(1) by (simp add: Let_def split: if_splits)
  ultimately show ?case
    using rows(1,3) 1(2) d1 by (intro conjI exI [of _ "g # rows"]) simp_all
qed (simp add: dealt_rows_def)

lemma seated_append:
  assumes "seated_once gs" "\<forall>g \<in> set rows. in_round tid rnd g"
    and "distinct (concat (map seats_of (filter (in_round tid rnd) gs)) @ concat (map seats_of rows))"
  shows "seated_once (gs @ rows)"
  unfolding seated_once_def
proof (intro allI)
  fix k n
  show "distinct (concat (map seats_of (filter (in_round k n) (gs @ rows))))"
  proof (cases "k = tid \<and> n = rnd")
    case True
    then have "filter (in_round k n) rows = rows" using assms(2) by simp
    then show ?thesis using assms(3) True by simp
  next
    case False
    then have "filter (in_round k n) rows = []" using assms(2) by (auto simp: filter_empty_conv in_round_def)
    then show ?thesis using assms(1) by (simp add: seated_once_def)
  qed
qed

lemma dealt_ok:
  assumes "tables_ok t" "registration_shut tid t" "rnd \<ge> 1"
    and fresh: "\<forall>g \<in> set (pairing_rows t). \<not> in_round tid rnd g"
    and previous: "rnd > 1 \<Longrightarrow> \<exists>x \<in> set (round_rows t). r_tournament x = tid \<and> r_round x = rnd - 1 \<and> r_status x = ''completed''"
    and rows: "dealt_rows tid rnd (pairing_seq t) xs rows" "distinct (concat (map players xs))"
  shows "tables_ok (t\<lparr>pairing_seq := pairing_seq t + int (length xs), pairing_rows := pairing_rows t @ rows,
    participant_rows := update_where (\<lambda>p. p_tournament p = tid) (with_totals g_result (pairing_rows t @ rows)) (participant_rows t)\<rparr>)"
    (is "tables_ok ?t'")
proof -
  let ?gs = "pairing_rows t"
  obtain x where x: "x \<in> set (tournament_rows t)" "t_id x = tid" "t_status x \<noteq> ''registration''"
    using assms(2) by (auto simp: registration_shut_def)
  have mine: "g_tournament g = tid" "g_round g = rnd" if "g \<in> set rows" for g
    using rows(1) that by (auto simp: dealt_rows_def in_round_def)
  have ids: "\<forall>g \<in> set rows. pairing_seq t < g_id g \<and> g_id g \<le> pairing_seq t + int (length xs)"
  proof
    fix g assume "g \<in> set rows"
    then have "g_id g \<in> set (map (\<lambda>k. pairing_seq t + 1 + int k) [0..<length xs])"
      using rows(1) by (metis dealt_rows_def image_eqI list.set_map)
    then show "pairing_seq t < g_id g \<and> g_id g \<le> pairing_seq t + int (length xs)" by auto
  qed
  have "distinct (map g_id rows)" using rows(1) by (simp add: dealt_rows_def distinct_map inj_on_def)
  then have keys: "keys_ok ?t'"
    using assms(1) ids update_where_keeps [of "\<lambda>p. p_tournament p = tid" "\<lambda>p. (p_tournament p, p_player p)"
      "with_totals g_result (?gs @ rows)" "participant_rows t"]
    by (fastforce simp: tables_ok_def keys_ok_def ids_ok_def)
  have "tid \<le> tournament_seq t" using assms(1) x by (auto simp: tables_ok_def ids_ok_def)
  then have seq: "ids_ok ?t'"
    using assms(1,3) ids mine by (fastforce simp: tables_ok_def ids_ok_def)
  have empty: "registering_empty ?t'"
    unfolding registering_empty_def
  proof (intro ballI impI, goal_cases)
    case (1 y g)
    then show ?case
    proof (cases "g \<in> set ?gs")
      case False
      then have "g_tournament g = tid" using 1 mine by simp
      moreover have "y = x" if "t_id y = tid" using 1(1) that x assms(1) by (auto simp: tables_ok_def keys_ok_def distinct_map inj_on_def)
      ultimately show ?thesis using x 1(2) by auto
    qed (use 1 assms(1) in \<open>simp add: tables_ok_def registering_empty_def\<close>)
  qed
  have shapes: "shapes_ok ?t'" using assms(1) rows(1) by (auto simp: tables_ok_def shapes_ok_def dealt_rows_def)
  have "filter (in_round tid rnd) ?gs = []" using fresh by (simp add: filter_empty_conv)
  moreover have "map seats_of rows = map players xs" using rows(1) by (simp add: dealt_rows_def)
  ultimately have seated: "seated_once (?gs @ rows)"
    using assms(1) rows fresh by (intro seated_append) (auto simp: tables_ok_def dealt_rows_def)
  have totals: "totals_ok ?t'"
    unfolding totals_ok_def
  proof
    fix p assume "p \<in> set (participant_rows ?t')"
    then obtain q where q: "q \<in> set (participant_rows t)"
      "p = (if p_tournament q = tid then with_totals g_result (?gs @ rows) q else q)" by (auto simp: set_update_where)
    have "with_totals g_result (?gs @ rows) q = with_totals g_result ?gs q" if "p_tournament q \<noteq> tid"
      by (rule with_totals_cong) (use that mine in \<open>auto simp: filter_empty_conv\<close>)
    then show "with_totals g_result (pairing_rows ?t') p = p"
      using q assms(1) by (auto simp: tables_ok_def totals_ok_def)
  qed
  have order: "rounds_in_order ?t'"
    unfolding rounds_in_order_def
  proof (intro conjI ballI impI, goal_cases)
    case (1 y)
    then have decided: "round_done ?gs (r_tournament y) (r_round y)" using assms(1) by (simp add: tables_ok_def rounds_in_order_def)
    then have "\<not> (r_tournament y = tid \<and> r_round y = rnd)" using fresh by (auto simp: round_done_def)
    then show ?case using decided mine by (auto simp: round_done_def in_round_def)
  next
    case (2 g)
    then show ?case
      using assms(1) previous mine by (cases "g \<in> set ?gs") (auto simp: tables_ok_def rounds_in_order_def)
  qed
  show ?thesis using keys seq empty shapes seated totals order by (simp add: tables_ok_def)
qed

lemma participants_ready:
  assumes "tables_ok t"
  shows "distinct (map p_player (participants_of tid t))" "list_all half_points (map to_standing (participants_of tid t))"
proof -
  have "distinct (map (\<lambda>p. (p_tournament p, p_player p)) (participant_rows t))" using assms by (simp add: tables_ok_def keys_ok_def)
  then have "distinct (map p_player (filter (\<lambda>p. p_tournament p = tid) (participant_rows t)))"
    by (induction "participant_rows t" arbitrary: t rule: list.induct) (auto simp: distinct_map inj_on_def)
  then show "distinct (map p_player (participants_of tid t))"
    using mset_eq_imp_distinct_iff [of "map p_player (participants_of tid t)" "map p_player (filter (\<lambda>p. p_tournament p = tid) (participant_rows t))"]
    by (simp add: participants_of_mset)
  have "half_points (to_standing p)" if "p \<in> set (participant_rows t)" for p
  proof -
    have "with_totals g_result (pairing_rows t) p = p" using assms that by (simp add: tables_ok_def totals_ok_def)
    from arg_cong [OF this, of p_score] have "p_score p = total_score g_result (pairing_rows t) (p_tournament p) (p_player p)"
      by (simp add: with_totals_def)
    then have "2 * p_score p \<in> \<int>" by (simp add: total_score_halves)
    then show ?thesis by (auto simp: half_points_def to_standing_def elim: Ints_cases)
  qed
  then show "list_all half_points (map to_standing (participants_of tid t))"
    by (auto simp: list_all_iff participants_of_def)
qed

lemma generate_ok:
  assumes "faultless e" "tables_ok (tables_of d)" "registration_shut tid (tables_of d)" "rnd \<ge> 1"
    and "\<forall>g \<in> set (pairing_rows (tables_of d)). \<not> in_round tid rnd g"
    and "rnd > 1 \<Longrightarrow> \<exists>x \<in> set (round_rows (tables_of d)). r_tournament x = tid \<and> r_round x = rnd - 1 \<and> r_status x = ''completed''"
  shows "tables_ok (after (generate_round_pairings e tid rnd d))"
proof -
  let ?t = "tables_of d"
  obtain tr d1 where 1: "find_tournament e tid d = (tr, d1)" by force
  obtain ps d2 where 2: "get_participants e tid d1 = (ps, d2)" by force
  obtain gs d3 where 3: "get_pairings e tid d2 = (gs, d3)" by force
  have t: "tables_of d1 = ?t" "tables_of d2 = ?t" "tables_of d3 = ?t"
    using read_tables(1) [of e tid d] read_tables(2) [of e tid d1] read_tables(3) [of e tid d2] 1 2 3 by simp_all
  have read: "ps = participants_of tid ?t" "gs = pairings_of tid ?t"
    using read_faultless(2) [OF assms(1), of tid d1] read_faultless(3) [OF assms(1), of tid d2] 2 3 t by simp_all
  show ?thesis
  proof (cases tr)
    case None
    then show ?thesis using 1 t assms(2) by (simp add: generate_round_pairings_def)
  next
    case (Some r)
    define xs where "xs = round_pairing r ps gs rnd"
    have "mset (filter (\<lambda>g. g_round g = rnd - 1) gs) = mset (filter (in_round tid (rnd - 1)) (pairing_rows ?t))"
      unfolding read pairings_of_def mset_filter mset_sort filter_filter_mset
      by (rule filter_mset_cong) (auto simp: in_round_def)
    then have "mset (concat (map seats_of (filter (\<lambda>g. g_round g = rnd - 1) gs))) =
        mset (concat (map seats_of (filter (in_round tid (rnd - 1)) (pairing_rows ?t))))"
      by (simp add: mset_seats)
    then have "distinct (concat (map seats_of (filter (\<lambda>g. g_round g = rnd - 1) gs)))"
      using mset_eq_imp_distinct_iff assms(2) unfolding tables_ok_def seated_once_def by blast
    then have seats: "distinct (concat (map players xs))"
      unfolding xs_def read(1) by (rule round_pairing_seats [OF participants_ready [OF assms(2)]])
    have empty: "filter (in_round tid rnd) (pairing_rows ?t) = []" using assms(5) by (simp add: filter_empty_conv)
    obtain rows d4 where 4: "insert_pairings e tid rnd xs d3 = (Inr (), d4)" "dealt_rows tid rnd (pairing_seq ?t) xs rows"
      "tables_of d4 = ?t\<lparr>pairing_seq := pairing_seq ?t + int (length xs), pairing_rows := pairing_rows ?t @ rows\<rparr>"
      using insert_pairings_succeed [OF assms(1,4), of tid d3 xs] seats empty t
      by (cases "insert_pairings e tid rnd xs d3") auto
    obtain ok d5 where 5: "recompute_participant_totals e tid d4 = (ok, d5)" by force
    have 6: "ok" "tables_of d5 = ?t\<lparr>pairing_seq := pairing_seq ?t + int (length xs), pairing_rows := pairing_rows ?t @ rows,
        participant_rows := update_where (\<lambda>p. p_tournament p = tid) (with_totals g_result (pairing_rows ?t @ rows)) (participant_rows ?t)\<rparr>"
      using 5 4(3) assms(1) by (auto simp: recompute_participant_totals_def split_beta db_simps)
    have "tables_ok (tables_of d5)"
      unfolding 6 by (rule dealt_ok [OF assms(2,3,4,5) assms(6) 4(2) seats])
    then have "tables_ok (after (maybe_advance e tid rnd d5))" by (rule books.advance_keeps)
    then show ?thesis
      using 1 2 3 4(1) 5 6(1) Some t assms(2) by (simp add: generate_round_pairings_def xs_def [symmetric] Let_def)
  qed
qed

lemma rollback_ok:
  assumes "tables_ok (tables_of saved)" "tournament_seq (tables_of saved) \<le> tournament_seq (tables_of d)"
    "pairing_seq (tables_of saved) \<le> pairing_seq (tables_of d)"
  shows "tables_ok (tables_of (rollback_to saved d))"
  using assms by (fastforce simp: rollback_to_def tables_ok_defs)

lemma prepare_ok:
  assumes "faultless e" "tables_ok (tables_of d)" "registration_shut tid (tables_of d)"
  shows "tables_ok (after (prepare_first_round e tid d))"
proof -
  define d2 where "d2 = snd (select_rows e (\<lambda>t. ()) (snd (begin_transaction e d)))"
  have t2: "tables_of d2 = tables_of d" by (simp add: d2_def db_simps)
  obtain gs d3 where 3: "get_pairings_for_round e tid 1 d2 = (gs, d3)" by force
  obtain ps d4 where 4: "get_participants e tid d3 = (ps, d4)" by force
  have t: "tables_of d3 = tables_of d" "tables_of d4 = tables_of d"
    using read_tables(4) [of e tid 1 d2] read_tables(2) [of e tid d3] 3 4 t2 by simp_all
  have gs: "gs = round_pairings tid 1 (tables_of d)" using read_faultless(4) [OF assms(1), of tid 1 d2] 3 t2 by simp
  have "tables_ok (after (generate_round_pairings e tid 1 d4))" if "gs = []"
  proof (rule generate_ok [OF assms(1)])
    show "\<forall>g \<in> set (pairing_rows (tables_of d4)). \<not> in_round tid 1 g"
      using that round_pairings_set [of tid 1 "tables_of d"] by (auto simp: gs t)
  qed (use assms t in simp_all)
  then have ok: "tables_ok (after (deal_first_round e tid d2))"
    using assms(2) t by (simp add: deal_first_round_def 3 4 Let_def snd_if)
  have "tournament_seq (tables_of d) \<le> tournament_seq (after (deal_first_round e tid d2)) \<and>
      pairing_seq (tables_of d) \<le> pairing_seq (after (deal_first_round e tid d2))"
    by (rule seqs.deal_first_keeps) (simp add: t2)
  then have rolled: "tables_ok (tables_of (rollback_to d (snd (deal_first_round e tid d2))))"
    using rollback_ok [OF assms(2)] by blast
  have unlocked: "fst (select_rows e (\<lambda>t. ()) d') = Some ()" for d'
    by (simp add: db_simps assms(1))
  have "tables_ok (after (commit_transaction e d (snd (deal_first_round e tid d2))))"
    using ok by (simp add: commit_transaction_def split_beta unlocked db_simps)
  then show ?thesis
    using ok rolled assms(1,2)
    by (simp add: prepare_first_round_def split_beta Let_def snd_if unlocked db_simps split: sum.split flip: d2_def)
qed

lemma claim_ok: "tables_ok (tables_of d) \<Longrightarrow> tables_ok (after (claim_round e tid rnd now d))"
  using claim_effect [of e tid rnd now d]
proof (elim disjE, goal_cases)
  case 2
  show ?case unfolding 2(2)
    by (rule tables_ok_rounds [OF 2(1)]) (auto simp: claimable_def)
qed simp

lemma affected_some:
  assumes "affected (exec_sql e f d) = (True, d')"
  shows "\<exists>now k t. f now (tables_of d) = Some (k, t) \<and> k > 0 \<and> tables_of d' = t"
proof -
  obtain r d1 where x: "exec_sql e f d = (r, d1)" by force
  then have "d1 = d'" and r: "\<exists>k > 0. r = Some k" using assms by (auto simp: affected_def split: option.splits)
  then obtain k where k: "k > 0" "exec_sql e f d = (Some k, d')" using x by blast
  then obtain t where "f (db_now e (steps d)) (tables_of d) = Some (k, t)" "tables_of d' = t"
    by (auto simp: exec_sql_def Let_def split: if_splits option.splits prod.splits)
  then show ?thesis using k(1) by blast
qed

lemma affected_shut:
  assumes "set_tournament_status e tid s d = (True, d')" "s \<noteq> ''registration''"
  shows "registration_shut tid (tables_of d')"
proof -
  obtain now where n: "length (filter (\<lambda>r. t_id r = tid) (tournament_rows (tables_of d))) > 0"
    and d': "tables_of d' = (tables_of d)\<lparr>tournament_rows :=
      update_where (\<lambda>r. t_id r = tid) (with_status s now) (tournament_rows (tables_of d))\<rparr>"
    using affected_some [OF assms(1) [unfolded set_tournament_status_def]] by auto
  from n obtain r where "r \<in> set (tournament_rows (tables_of d))" "t_id r = tid" by (auto simp: filter_empty_conv)
  then show ?thesis
    using assms(2) unfolding d' by (auto simp: registration_shut_def update_where_def intro!: bexI [of _ "with_status s now r"])
qed


lemma start_ok:
  assumes "faultless e" "tables_ok (tables_of d)"
  shows "tables_ok (after (start_due_round e tid rnd now d))"
proof (rule start_due_cases [where Q = tables_ok])
  fix d1 d2 d3 d4
  assume 1: "claim_round e tid rnd now d = (Some True, d1)" and 2: "set_tournament_status e tid ''in_progress'' d1 = (True, d2)"
    and 3: "set_tournament_round e tid rnd d2 = (True, d3)" and 4: "get_pairings_for_round e tid rnd d3 = ([], d4)"
    and ok: "tables_ok (tables_of d4)"
  let ?t = "tables_of d"
  have t4: "tables_of d4 = tables_of d3" using read_tables(4) [of e tid rnd d3] 4 by simp
  have claimed: "list_ex (claimable tid rnd now ?t) (round_rows ?t)" "tables_of d1 = ?t\<lparr>round_rows :=
      update_where (claimable tid rnd now ?t) (\<lambda>x. x\<lparr>r_status := ''live'', r_actual := Some now\<rparr>) (round_rows ?t)\<rparr>"
    using exec_sql_faultless [OF assms(1), of "\<lambda>_ t. Some (list_ex (claimable tid rnd now t) (round_rows t),
       t\<lparr>round_rows := update_where (claimable tid rnd now t) (\<lambda>x. x\<lparr>r_status := ''live'', r_actual := Some now\<rparr>) (round_rows t)\<rparr>)" d] 1
    by (simp_all add: claim_round_def)
  have "round_rows (tables_of d2) = round_rows (tables_of d1)" "round_rows (tables_of d3) = round_rows (tables_of d2)"
    using status_effect [of e tid "''in_progress''" d1] current_effect [of e tid rnd d2] 2 3 by auto
  then have rounds: "round_rows (tables_of d4) = round_rows (tables_of d1)" using t4 by simp
  obtain x where x: "x \<in> set (round_rows ?t)" "claimable tid rnd now ?t x" using claimed(1) by (auto simp: list_ex_iff)
  have "rnd \<ge> 1" using x assms(2) by (auto simp: claimable_def tables_ok_def ids_ok_def)
  have "registration_shut tid (tables_of d2)" by (rule affected_shut [OF 2]) simp
  then have shut: "registration_shut tid (tables_of d4)" using shut.current [of tid d2 e tid rnd] 3 t4 by simp
  have "round_pairings tid rnd (tables_of d3) = []" using read_faultless(4) [OF assms(1), of tid rnd d3] 4 by simp
  then have fresh: "\<forall>g \<in> set (pairing_rows (tables_of d4)). \<not> in_round tid rnd g"
    using round_pairings_set [of tid rnd "tables_of d3"] t4 by auto
  show "tables_ok (after (generate_round_pairings e tid rnd d4))"
  proof (rule generate_ok [OF assms(1) ok shut \<open>rnd \<ge> 1\<close> fresh])
    assume "rnd > 1"
    then obtain y where y: "y \<in> set (round_rows ?t)" "r_tournament y = tid" "r_round y = rnd - 1" "r_status y = ''completed''"
      using x(2) by (auto simp: claimable_def list_ex_iff)
    then have "\<not> claimable tid rnd now ?t y" by (simp add: claimable_def)
    then have "y \<in> set (round_rows (tables_of d1))" using y(1) by (auto simp: claimed(2) set_update_where)
    then show "\<exists>x \<in> set (round_rows (tables_of d4)). r_tournament x = tid \<and> r_round x = rnd - 1 \<and> r_status x = ''completed''"
      using y rounds by auto
  qed
qed (use assms in \<open>auto intro: claim_ok status_ok current_ok\<close>)

lemma tables_ok_insert_tournament:
  assumes "tables_ok t" "insert_tournament name rounds base inc who deadline first duration format now t = Some (new, t')"
  shows "tables_ok t'"
proof -
  have old: "r_tournament x \<noteq> tournament_seq t + 1" if "x \<in> set (round_rows t)" for x
    using assms(1) that by (fastforce simp: tables_ok_def ids_ok_def)
  have old_t: "t_id x \<noteq> tournament_seq t + 1" if "x \<in> set (tournament_rows t)" for x
    using assms(1) that by (fastforce simp: tables_ok_def ids_ok_def)
  have old_g: "g_tournament g \<noteq> tournament_seq t + 1" if "g \<in> set (pairing_rows t)" for g
    using assms(1) that by (fastforce simp: tables_ok_def ids_ok_def)
  have t': "t' = snd (the (insert_tournament name rounds base inc who deadline first duration format now t))"
    using assms(2) by simp
  have keys: "keys_ok t'"
    using assms(1) old old_t old [symmetric] old_t [symmetric] unfolding t'
    by (auto simp: insert_tournament_def Let_def tables_ok_def keys_ok_def distinct_map inj_on_def image_iff)
  have ids: "ids_ok t'"
    using assms(1) unfolding t' by (fastforce simp: insert_tournament_def Let_def tables_ok_def ids_ok_def)
  have empty: "registering_empty t'"
    using assms(1) old_g unfolding t' by (auto simp: insert_tournament_def Let_def tables_ok_def registering_empty_def)
  have order: "rounds_in_order t'"
    using assms(1) unfolding t' by (fastforce simp: insert_tournament_def Let_def tables_ok_def rounds_in_order_def)
  have "pairing_rows t' = pairing_rows t" "participant_rows t' = participant_rows t"
    unfolding t' by (simp_all add: insert_tournament_def Let_def)
  then show ?thesis using assms(1) keys ids empty order by (simp add: tables_ok_def totals_ok_def shapes_ok_def)
qed

lemma tables_ok_new_participant:
  assumes "tables_ok t" "list_ex (\<lambda>r. t_id r = tid \<and> t_status r = ''registration'') (tournament_rows t)"
    and "\<not> known_participant tid pid t"
  shows "tables_ok (t\<lparr>participant_rows := participant_rows t @ [new_participant tid pid rating now]\<rparr>)"
proof -
  have "\<forall>g \<in> set (pairing_rows t). g_tournament g \<noteq> tid"
    using assms(1,2) by (auto simp: tables_ok_def registering_empty_def list_ex_iff)
  then have "with_totals g_result (pairing_rows t) (new_participant tid pid rating now) = new_participant tid pid rating now"
    by (intro with_totals_none) (simp_all add: new_participant_def)
  moreover have "p_tournament (new_participant tid pid rating now) = tid" "p_player (new_participant tid pid rating now) = pid"
    by (simp_all add: new_participant_def)
  ultimately show ?thesis
    using assms(1,3) by (auto simp: tables_ok_defs known_participant_def list_ex_iff)
qed

lemma tables_ok_fewer_participants:
  "tables_ok t \<Longrightarrow> tables_ok (t\<lparr>participant_rows := filter Q (participant_rows t)\<rparr>)"
  by (auto simp: tables_ok_defs distinct_map_filter)

lemma tables_ok_links:
  \<comment> \<open>updates that leave the players and the result of a pairing\<close>
  assumes "tables_ok t" "\<And>g. g_id (f g) = g_id g" "\<And>g. g_tournament (f g) = g_tournament g" "\<And>g. g_round (f g) = g_round g"
    "\<And>g. g_white (f g) = g_white g" "\<And>g. g_black (f g) = g_black g" "\<And>g. g_result (f g) = g_result g"
  shows "tables_ok (t\<lparr>pairing_rows := update_where Q f (pairing_rows t)\<rparr>)"
proof -
  have "map (\<lambda>g. (g_white g, g_black g, g_result g)) (filter (\<lambda>g. g_tournament g = k) (update_where Q f gs)) =
      map (\<lambda>g. (g_white g, g_black g, g_result g)) (filter (\<lambda>g. g_tournament g = k) gs)" for k gs
    by (induction gs) (auto simp: update_where_def assms(2-))
  then have "with_totals g_result (update_where Q f (pairing_rows t)) p = with_totals g_result (pairing_rows t) p" for p
    by (rule with_totals_cong)
  then have "tables_ok (t\<lparr>pairing_rows := update_where Q f (pairing_rows t), participant_rows := participant_rows t\<rparr>)"
    using assms by (intro tables_ok_pairings) (auto simp: tables_ok_def totals_ok_def shapes_ok_def)
  then show ?thesis by simp
qed

interpretation booked: managing "\<lambda>t. faultless e \<longrightarrow> tables_ok t" UNIV e for e
proof (unfold_locales, goal_cases)
  case (1 d s e' tid) then show ?case by (simp add: status_ok)
next
  case (2 d e' tid rnd) then show ?case by (simp add: current_ok)
next
  case (3 d tid rnd e') then show ?case by (simp add: complete_ok)
next
  case (4 d tid rnd e' earliest closes) then show ?case by (simp add: allocate_ok)
next
  case (5 d res e' gid source) then show ?case by (simp add: result_ok)
next
  case (6 d res gid e' who reason) then show ?case by (simp add: override_ok)
next
  case (7 d name rounds base inc who deadline first duration format)
  show ?case
  proof
    assume "faultless e"
    then have ok: "tables_ok (tables_of d)" using 7 by simp
    show "tables_ok (after (create_tournament e name rounds base inc who deadline first duration format d))"
    proof (rule create_tournament_cases [where Q = tables_ok, OF ok])
      show "tables_ok (tables_of (rollback_to d d'))" if "seqs_kept (tables_of d) (tables_of d')" for d'
        using rollback_ok [OF ok] that by (simp add: seqs_kept_def)
      show "tables_ok (after (exec_sql e (insert_tournament name rnds base inc who dl fs duration fmt) d'))"
        if "tables_of d' = tables_of d" for d' rnds dl fs fmt
        by (rule exec_sql_tables) (use that ok tables_ok_insert_tournament in auto)
    qed
  qed
next
  case (8 d tid pid rating unix)
  then show ?case using add_effect [of e tid pid rating unix d] tables_ok_new_participant by auto
next
  case (9 d tid pid unix)
  then show ?case using remove_effect [of e tid pid unix d] tables_ok_fewer_participants by auto
next
  case (10 d tid open_it unix)
  show ?case
    using open_effect [of e tid open_it unix d]
  proof (elim disjE, goal_cases)
    case 2
    show ?case unfolding 2
      using 10 by (auto intro!: tables_ok_update_tournaments simp: registration_rows_def list_ex_iff split: if_splits)
  qed (use 10 in simp)
next
  case (11 d tid rnd pid unix)
  then show ?case using check_in_effect [of e tid rnd pid unix d] by (auto simp: tables_ok_same)
next
  case (12 d tid rnd pid)
  then show ?case using check_out_effect [of e tid rnd pid d] by (auto simp: tables_ok_same)
next
  case (13 d gid game)
  show ?case
    using game_effect [of e gid game d]
  proof (elim disjE, goal_cases)
    case 2 show ?case unfolding 2 using 13 by (auto intro!: tables_ok_links)
  qed (use 13 in simp)
next
  case (14 d gid replay)
  show ?case
    using replay_effect [of e gid replay d]
  proof (elim disjE, goal_cases)
    case 2 show ?case unfolding 2 using 14 by (auto intro!: tables_ok_links)
  qed (use 14 in simp)
next
  case (15 d now)
  show ?case
    using close_effect [of e now d]
  proof (elim disjE, goal_cases)
    case 2
    show ?case unfolding 2 using 15 by (auto intro!: tables_ok_update_tournaments)
  qed (use 15 in simp)
next
  case (16 d tid) then show ?case by (simp add: prepare_ok)
next
  case (17 d tid rnd now) then show ?case by (simp add: start_ok)
qed

end
