(* ===== verification/Tournament.thy ===== *)
theory Tournament
  imports TournamentLedger
begin

text \<open>
  The properties of \<open>src/tournament\<close> as a whole: whatever is asked of the manager, and however the
  statements are refused, recorded results stand; without refusals the totals follow the results and the
  rounds are well dealt. An elimination round seats only those who went through; the standings are ranked.
\<close>

definition orderly :: "db_env \<Rightarrow> bool" where
  \<comment> \<open>a query answers each of its rows, in some order\<close>
  "orderly e \<longleftrightarrow> (\<forall>k rows. set (row_order e k rows) = set rows)"

definition no_tables :: "(int \<times> string) list \<Rightarrow> tables" where
  "no_tables names = \<lparr>tournament_rows = [], participant_rows = [], pairing_rows = [], round_rows = [], checkins = [],
     override_log = [], player_names = names, tournament_seq = 0, pairing_seq = 0\<rparr>"

lemma no_tables_ok: "tables_ok (no_tables names)"
  by (simp add: tables_ok_defs no_tables_def seated_once_def)

lemma run_tables_ok:
  assumes "faultless e" "orderly e" "tables_of d = no_tables names"
  shows "tables_ok (tables_of (run_tournaments e cs d))"
  using booked.run_keeps [of e d cs] assms no_tables_ok by (simp add: orderly_def)

section \<open>Standings\<close>

definition placement_key :: "bool \<times> int \<times> int \<Rightarrow> rat \<times> rat \<times> int" where
  "placement_key = (\<lambda>(f, r, k). (if f then 0 else 1, - of_int r, - k))"

lemma placement_key_inj: "placement_key q = placement_key q' \<longleftrightarrow> q = q'"
  by (cases q; cases q') (auto simp: placement_key_def split: if_splits)

lemma placement_key_less: "placement_key q < placement_key q' \<longleftrightarrow> q > q'"
  by (cases q; cases q') (auto simp: placement_key_def less_prod_def split: if_splits)

lemma assign_ranks_length [simp]: "length (assign_ranks pl shared i prev ss) = length ss"
  by (induction ss arbitrary: i prev) (simp_all add: Let_def)

lemma assign_ranks_rows: "map (\<lambda>s. s\<lparr>s_rank := 0\<rparr>) (assign_ranks pl shared i prev ss) = map (\<lambda>s. s\<lparr>s_rank := 0\<rparr>) ss"
  by (induction ss arbitrary: i prev) (simp_all add: Let_def)

lemma assign_ranks_order: "j < length ss \<Longrightarrow> s_rank (assign_ranks pl False i prev ss ! j) = i + j + 1"
proof (induction ss arbitrary: i prev j)
  case (Cons s ss)
  then show ?case by (cases j) (auto simp: Let_def split: option.split)
qed simp

lemma assign_ranks_shared:
  assumes "sorted (map (\<lambda>s. placement_key (pl s)) (pre @ ss))"
    and "prev = (if pre = [] then None else Some (1 + length (filter (\<lambda>s'. placement_key (pl s') < placement_key (pl (last pre))) (pre @ ss)), pl (last pre)))"
    and "j < length ss"
  shows "s_rank (assign_ranks pl True (length pre) prev ss ! j) =
    1 + length (filter (\<lambda>s'. placement_key (pl s') < placement_key (pl (ss ! j))) (pre @ ss))"
  using assms
proof (induction ss arbitrary: pre prev j)
  case (Cons s ss)
  let ?k = "\<lambda>s. placement_key (pl s)"
  define rank where "rank = (case prev of Some (r, q) \<Rightarrow> if pl s = q then r else length pre + 1 | None \<Rightarrow> length pre + 1)"
  have later: "\<not> ?k s' < ?k s" if "s' \<in> set (s # ss)" for s'
    using Cons.prems(1) that by (auto simp: sorted_append)
  have rank: "rank = 1 + length (filter (\<lambda>s'. ?k s' < ?k s) (pre @ s # ss))"
  proof (cases "pre \<noteq> [] \<and> pl s = pl (last pre)")
    case True
    then show ?thesis by (simp add: rank_def Cons.prems(2))
  next
    case False
    have "?k s' < ?k s" if "s' \<in> set pre" for s'
    proof -
      have "pre \<noteq> []" using that by auto
      then have neq: "?k (last pre) \<noteq> ?k s" using False by (auto simp: placement_key_inj)
      have "?k (last pre) \<le> ?k s" using Cons.prems(1) \<open>pre \<noteq> []\<close> by (auto simp: sorted_append)
      moreover have "?k s' \<le> ?k (last pre)"
        using Cons.prems(1) that by (cases pre rule: rev_cases) (auto simp: sorted_append)
      ultimately show ?thesis using neq by order
    qed
    then have "filter (\<lambda>s'. ?k s' < ?k s) pre = pre" by simp
    moreover have "filter (\<lambda>s'. ?k s' < ?k s) (s # ss) = []" using later by (simp add: filter_empty_conv)
    ultimately show ?thesis using False by (auto simp: rank_def Cons.prems(2))
  qed
  show ?case
  proof (cases j)
    case 0
    then show ?thesis using rank by (cases prev) (auto simp: rank_def Let_def)
  next
    case (Suc j')
    have "s_rank (assign_ranks pl True (length (pre @ [s])) (Some (rank, pl s)) ss ! j') =
        1 + length (filter (\<lambda>s'. ?k s' < ?k (ss ! j')) ((pre @ [s]) @ ss))"
      by (rule Cons.IH) (use Cons.prems(1,3) rank Suc in auto)
    then show ?thesis using Suc by (cases prev) (auto simp: rank_def Let_def)
  qed
qed simp

text \<open>
  The standings list every participant once, in the order of the format (points, Buchholz, rating and number in
  a Swiss tournament; the stage reached in an elimination). A Swiss rank is the position; an elimination rank is one more than the number
  of players placed strictly better, so that players eliminated in the same round share a rank.
\<close>

lemma standings_ranked:
  "mset (map (\<lambda>s. s\<lparr>s_rank := 0\<rparr>) (standings sn)) =
      mset (map (standing_of (sn_participants sn) (sn_pairings sn)) (sn_participants sn)) \<and>
    sorted (map (standing_key (sn_tournament sn) (sn_pairings sn)) (standings sn)) \<and>
    (\<forall>i < length (standings sn). s_rank (standings sn ! i) =
       (if t_format (sn_tournament sn) = ''winners_advance''
        then 1 + length (filter (\<lambda>s. standing_place (sn_tournament sn) (sn_pairings sn) s >
               standing_place (sn_tournament sn) (sn_pairings sn) (standings sn ! i)) (standings sn))
        else i + 1))"
proof -
  define t where "t = sn_tournament sn"
  define gs where "gs = sn_pairings sn"
  let ?rows = "sort_key (standing_key t gs) (map (standing_of (sn_participants sn) gs) (sn_participants sn))"
  let ?shared = "t_format t = ''winners_advance''" and ?pl = "standing_place t gs"
  have st: "standings sn = assign_ranks ?pl ?shared 0 None ?rows" by (simp add: standings_def t_def gs_def Let_def)
  have rankless: "map h (standings sn) = map h ?rows" if "\<And>s. h (s\<lparr>s_rank := 0\<rparr>) = h s" for h :: "standing_row \<Rightarrow> 'z"
    using arg_cong [OF assign_ranks_rows [of ?pl ?shared 0 None ?rows], of "map h"] that by (simp add: st comp_def)
  have pl: "?pl (s\<lparr>s_rank := r\<rparr>) = ?pl s" for s r by (simp add: standing_place_def Let_def)
  have key: "standing_key t gs (s\<lparr>s_rank := r\<rparr>) = standing_key t gs s" for s r by (simp add: standing_key_def pl)
  have "map (\<lambda>s. s\<lparr>s_rank := 0\<rparr>) (standings sn) = map (\<lambda>s. s\<lparr>s_rank := 0\<rparr>) ?rows"
    by (rule rankless) simp
  also have "\<dots> = ?rows"
    by (rule map_idI) (auto simp: standing_of_def)
  finally have perm: "mset (map (\<lambda>s. s\<lparr>s_rank := 0\<rparr>) (standings sn)) = mset (map (standing_of (sn_participants sn) gs) (sn_participants sn))"
    by simp
  have "map (standing_key t gs) (standings sn) = map (standing_key t gs) ?rows" by (rule rankless) (rule key)
  then have sorted: "sorted (map (standing_key t gs) (standings sn))" by simp
  have ranks: "s_rank (standings sn ! i) = (if ?shared then 1 + length (filter (\<lambda>s. ?pl s > ?pl (standings sn ! i)) (standings sn)) else i + 1)"
    if i: "i < length (standings sn)" for i
  proof (cases ?shared)
    case False
    then show ?thesis using i assign_ranks_order [of i ?rows ?pl 0 None] by (simp add: st)
  next
    case True
    have i': "i < length ?rows" using i by (simp add: st)
    have pls: "map ?pl (standings sn) = map ?pl ?rows" by (rule rankless) (rule pl)
    have "map (\<lambda>s. placement_key (?pl s)) ?rows = map (\<lambda>(a, b, c, d). (a, b, c)) (map (standing_key t gs) ?rows)"
      by (simp add: standing_key_def True placement_key_def split_beta Let_def)
    moreover have "sorted (map (\<lambda>(a, b, c, d). (a, b, c)) xs)" if "sorted xs" for xs :: "(rat \<times> rat \<times> int \<times> int) list"
      using that by (induction xs) (auto simp: less_eq_prod_def less_prod_def)
    ultimately have "sorted (map (\<lambda>s. placement_key (?pl s)) ?rows)" by (metis sorted_sort_key)
    then have "s_rank (standings sn ! i) = 1 + length (filter (\<lambda>s. placement_key (?pl s) < placement_key (?pl (?rows ! i))) ?rows)"
      using assign_ranks_shared [of ?pl "[]" ?rows None i] i' True by (simp add: st)
    also have "filter (\<lambda>s. placement_key (?pl s) < placement_key (?pl (?rows ! i))) ?rows = filter (\<lambda>s. ?pl s > ?pl (?rows ! i)) ?rows"
      by (simp add: placement_key_less)
    also have "length \<dots> = length (filter (\<lambda>q. q > ?pl (?rows ! i)) (map ?pl ?rows))" by (simp add: filter_map comp_def)
    also have "?pl (?rows ! i) = ?pl (standings sn ! i)" using pls i i' by (metis nth_map)
    also have "length (filter (\<lambda>q. q > ?pl (standings sn ! i)) (map ?pl ?rows)) = length (filter (\<lambda>s. ?pl s > ?pl (standings sn ! i)) (standings sn))"
      by (simp add: pls [symmetric] filter_map comp_def)
    finally show ?thesis using True by simp
  qed
  show ?thesis using perm sorted ranks by (simp add: t_def gs_def)
qed

section \<open>Records\<close>

text \<open>
  C11. Whatever is asked of the tournaments, and however the statements are refused on the way, every pairing
  stays with its round and its players, a recorded result never becomes undecided again, and it only
  changes when the organiser overrides that very pairing.
\<close>

theorem recorded_results_stand:
  assumes "orderly e" "g \<in> set (pairing_rows (tables_of d))"
  shows "\<exists>g' \<in> set (pairing_rows (tables_of (run_tournaments e cs d))).
    g_id g' = g_id g \<and> g_tournament g' = g_tournament g \<and> g_round g' = g_round g \<and> g_white g' = g_white g \<and> g_black g' = g_black g \<and>
    (g_result g \<noteq> ''pending'' \<longrightarrow> g_result g' \<noteq> ''pending'' \<and> (g_id g \<notin> overrides cs \<longrightarrow> g_result g' = g_result g))"
proof -
  have "all_stand (overrides cs) (tables_of d) (tables_of d)" unfolding all_stand_def by (intro ballI bexI) (rule stands_refl)
  then have "all_stand (overrides cs) (tables_of d) (tables_of (run_tournaments e cs d))"
    by (rule standing.run_keeps) (use assms(1) in \<open>simp_all add: orderly_def\<close>)
  then show ?thesis using assms(2) by (auto simp: all_stand_def stands_def)
qed

text \<open>
  C10. When no statement is refused, the score, the games with white and the bye of every participant are
  at every moment those that follow from the results of his pairings.
\<close>

theorem totals_follow_results:
  assumes "faultless e" "orderly e" "tables_of d = no_tables names"
    and "p \<in> set (participant_rows (tables_of (run_tournaments e cs d)))"
  shows "p_score p = total_score g_result (pairing_rows (tables_of (run_tournaments e cs d))) (p_tournament p) (p_player p) \<and>
    p_whites p = total_whites g_result (pairing_rows (tables_of (run_tournaments e cs d))) (p_tournament p) (p_player p) \<and>
    p_bye p = had_bye g_result (pairing_rows (tables_of (run_tournaments e cs d))) (p_tournament p) (p_player p)"
proof -
  have "with_totals g_result (pairing_rows (tables_of (run_tournaments e cs d))) p = p"
    using run_tables_ok [OF assms(1-3), of cs] assms(4) by (simp add: tables_ok_def totals_ok_def)
  from arg_cong [OF this, of p_score] arg_cong [OF this, of p_whites] arg_cong [OF this, of p_bye]
  show ?thesis by (simp add: with_totals_def)
qed

text \<open>
  C12. When no statement is refused, nobody is seated twice in a round, a round counts as completed only when it
  has pairings and all are decided, and a round after the first is only dealt once the one before is completed.
\<close>

theorem rounds_well_dealt:
  assumes "faultless e" "orderly e" "tables_of d = no_tables names"
  shows "distinct (concat (map seats_of (filter (in_round tid rnd) (pairing_rows (tables_of (run_tournaments e cs d)))))) \<and>
    (\<forall>x \<in> set (round_rows (tables_of (run_tournaments e cs d))). r_status x = ''completed'' \<longrightarrow>
       round_done (pairing_rows (tables_of (run_tournaments e cs d))) (r_tournament x) (r_round x)) \<and>
    (\<forall>g \<in> set (pairing_rows (tables_of (run_tournaments e cs d))). g_round g > 1 \<longrightarrow>
       (\<exists>x \<in> set (round_rows (tables_of (run_tournaments e cs d))).
          r_tournament x = g_tournament g \<and> r_round x = g_round g - 1 \<and> r_status x = ''completed''))"
  using run_tables_ok [OF assms, of cs] unfolding tables_ok_def seated_once_def rounds_in_order_def by blast

section \<open>Elimination rounds\<close>

text \<open>
  A round after the first of an elimination tournament seats only players who won, drew or had a bye in the
  round before, and every pair that drew for the first time there meets again with the colours exchanged.
\<close>

lemma elimination_seats_survivors:
  assumes "t_format t = ''winners_advance''" "rnd > 1" "list_all half_points (map to_standing ps)"
  shows "(\<forall>x \<in> set (round_pairing t ps gs rnd). \<forall>pid \<in> set (players x).
      \<exists>g \<in> set gs. g_round g = rnd - 1 \<and> went_through pid g) \<and>
    (\<forall>g \<in> set gs. g_round g = rnd - 1 \<and> g_result g = ''1/2-1/2'' \<longrightarrow> (\<forall>b. g_black g = Some b \<and>
       draws_of (filter (\<lambda>p. g_round p < rnd) gs) (player_pair (g_white g) b) < 2 \<longrightarrow>
       \<lparr>white_id = b, black_id = g_white g, is_bye = False\<rparr> \<in> set (round_pairing t ps gs rnd)))"
proof -
  let ?prev = "previous_round gs rnd"
  let ?pool = "filter (\<lambda>p. player_id p \<in> fst ?prev \<and> player_id p \<notin> fst (snd ?prev)) (map to_standing ps)"
  let ?capped = "set (filter (\<lambda>q. draws_of gs q \<ge> 2) (drawn_pairs gs))"
  have result: "round_pairing t ps gs rnd = map replay_of (filter (replayed gs rnd) gs) @ pair_swiss_round ?pool (gather_played gs) ?capped"
    using assms(1,2) previous_round_parts(3) [of gs rnd] by (simp add: round_pairing_def Let_def split_beta)
  have "list_all half_points ?pool" using assms(3) by (auto simp: list_all_iff)
  note seats = mset_eq_setD [OF pair_swiss_players [OF this, of "gather_played gs" ?capped]]
  have pool: "pid \<in> fst ?prev" if "x \<in> set (pair_swiss_round ?pool (gather_played gs) ?capped)" "pid \<in> set (players x)" for x pid
  proof -
    have "pid \<in> set (concat (map players (pair_swiss_round ?pool (gather_played gs) ?capped)))" using that by auto
    then show ?thesis unfolding seats by auto
  qed
  have "\<exists>g \<in> set gs. g_round g = rnd - 1 \<and> went_through pid g"
    if x: "x \<in> set (round_pairing t ps gs rnd)" "pid \<in> set (players x)" for x pid
  proof (cases "x \<in> set (pair_swiss_round ?pool (gather_played gs) ?capped)")
    case True
    then show ?thesis using pool x(2) previous_round_parts(1) [of gs rnd] by blast
  next
    case False
    then obtain g where "g \<in> set gs" "replayed gs rnd g" "x = replay_of g" using x(1) by (auto simp: result)
    then show ?thesis using x(2)
      by (intro bexI [of _ g]) (auto simp: replayed_def replay_of_def players_def went_through_def split: option.splits)
  qed
  moreover have "\<lparr>white_id = b, black_id = g_white g, is_bye = False\<rparr> \<in> set (round_pairing t ps gs rnd)"
    if "g \<in> set gs" "g_round g = rnd - 1" "g_result g = ''1/2-1/2''" "g_black g = Some b"
      "draws_of (filter (\<lambda>p. g_round p < rnd) gs) (player_pair (g_white g) b) < 2" for g b
  proof -
    have "replayed gs rnd g" "replay_of g = \<lparr>white_id = b, black_id = g_white g, is_bye = False\<rparr>"
      using that by (simp_all add: replayed_def replay_of_def)
    then show ?thesis using that(1) by (force simp: result)
  qed
  ultimately show ?thesis by blast
qed

section \<open>Overrides\<close>

definition demo_env :: db_env where
  \<comment> \<open>nothing is refused; the registration is open for thirteen steps\<close>
  "demo_env = \<lparr>refused = (\<lambda>_. False), db_now = (\<lambda>_. 0), unix_now = (\<lambda>n. if n < 13 then 0 else 10000),
     row_order = (\<lambda>_ rows. rows), fold_name = (\<lambda>s. s)\<rparr>"

definition demo_calls :: "tournament_call list" where
  "demo_calls = [Create_Tournament ''cup'' 1 300000 0 7 1000 2000 60 ''swiss'', Join_Tournament 1 11 1500, Join_Tournament 1 12 1600, Tick]"

definition demo_db :: db where
  "demo_db = \<lparr>tables_of = no_tables [], steps = 0\<rparr>"



lemma find_tournament_row:
  assumes "tables_ok u" "t \<in> set (tournament_rows u)"
  shows "find (\<lambda>r. t_id r = t_id t) (tournament_rows u) = Some t"
  using assms by (intro find_by_key) (simp_all add: tables_ok_def keys_ok_def)

lemma swiss_advances:
  assumes "faultless e" "tables_ok (tables_of d)" "t \<in> set (tournament_rows (tables_of d))" "t_format t = ''swiss''"
    and "round_done (pairing_rows (tables_of d)) (t_id t) rnd" "1 \<le> rnd" "rnd < t_rounds t"
  shows "fst (maybe_advance e (t_id t) rnd d) = Inr () \<and> tournament_rows (after (maybe_advance e (t_id t) rnd d)) =
    update_where (\<lambda>r. t_id r = t_id t) (\<lambda>r. r\<lparr>t_current_round := rnd + 1\<rparr>) (tournament_rows (tables_of d))"
proof -
  let ?tid = "t_id t"
  obtain tr d1 where 1: "find_tournament e ?tid d = (tr, d1)" by force
  obtain gs d2 where 2: "get_pairings e ?tid d1 = (gs, d2)" by force
  obtain ok d3 where 3: "complete_round e ?tid rnd d2 = (ok, d3)" by force
  have t: "tables_of d1 = tables_of d" "tables_of d2 = tables_of d"
    using read_tables(1) [of e ?tid d] read_tables(3) [of e ?tid d1] 1 2 by simp_all
  have read: "tr = Some t" "gs = pairings_of ?tid (tables_of d)"
    using read_faultless(1) [OF assms(1), of ?tid d] read_faultless(3) [OF assms(1), of ?tid d1] find_tournament_row [OF assms(2,3)] 1 2 t
    by simp_all
  have ok: "ok" using 3 assms(1) by (auto simp: complete_round_def split_beta db_simps)
  have rows: "tournament_rows (tables_of d3) = tournament_rows (tables_of d)"
    using complete_effect [of e ?tid rnd d2] 3 t by auto
  have complete: "round_is_complete gs rnd" unfolding read round_is_complete_done by (rule assms(5))
  have in_range: "\<not> list_ex (\<lambda>r. t_id r = ?tid \<and> \<not> (0 \<le> rnd + 1 \<and> rnd + 1 \<le> t_rounds r)) (tournament_rows (tables_of d3))"
  proof -
    have "r = t" if "r \<in> set (tournament_rows (tables_of d))" "t_id r = ?tid" for r
      using that assms(2,3) by (auto simp: tables_ok_def keys_ok_def distinct_map inj_on_def)
    then show ?thesis using assms(6,7) rows by (force simp: list_ex_iff)
  qed
  have "filter (\<lambda>r. t_id r = ?tid) (tournament_rows (tables_of d3)) \<noteq> []"
    using assms(3) rows by (auto simp: filter_empty_conv)
  then have set: "fst (set_tournament_round e ?tid (rnd + 1) d3)"
    "tournament_rows (after (set_tournament_round e ?tid (rnd + 1) d3)) =
      update_where (\<lambda>r. t_id r = ?tid) (\<lambda>r. r\<lparr>t_current_round := rnd + 1\<rparr>) (tournament_rows (tables_of d))"
    using in_range rows by (simp_all add: set_tournament_round_def exec_sql_faultless [OF assms(1)] affected_parts)
  have "maybe_advance e ?tid rnd d = finish_or_next e ?tid rnd False d3"
    using complete ok 1 2 3 assms(4,7) by (simp add: maybe_advance_def read(1))
  then show ?thesis using set by (simp add: finish_or_next_def split_beta)
qed

text \<open>
  C26. An override in an earlier round of a Swiss tournament sends the tournament back: whatever round it was in, and
  even when it was over, its current round becomes the one after the overridden game.
\<close>

theorem override_moves_round_back:
  assumes "faultless e" "tables_ok (tables_of d)" "t \<in> set (tournament_rows (tables_of d))" "t_format t = ''swiss''"
    and "g \<in> set (pairing_rows (tables_of d))" "g_tournament g = t_id t" "g_black g \<noteq> None" "g_round g < t_rounds t"
    and "\<forall>h \<in> set (pairing_rows (tables_of d)). in_round (t_id t) (g_round g) h \<and> h \<noteq> g \<longrightarrow> g_result h \<noteq> ''pending''"
    and "p \<in> set (participant_rows (tables_of d))" "p_tournament p = t_id t"
    and "game_result res" "btrim reason \<noteq> []"
  shows "fst (override_result e (g_id g) (t_created_by t) res reason d) = Inr () \<and>
    (\<forall>x \<in> set (tournament_rows (after (override_result e (g_id g) (t_created_by t) res reason d))).
       t_id x = t_id t \<longrightarrow> t_current_round x = g_round g + 1)"
proof -
  let ?u = "tables_of d" and ?gid = "g_id g" and ?who = "t_created_by t" and ?f = "\<lambda>now g. g\<lparr>g_result := res, g_source := Some ''override'', g_recorded_at := Some now\<rparr>"
  have res: "res \<noteq> ''pending''" "\<And>b. result_shape (Some b) res" using assms(12) by (auto simp: game_result_def result_shape_def)
  have mine: "filter (\<lambda>h. g_id h = ?gid) (pairing_rows ?u) \<noteq> []" "\<And>h. h \<in> set (pairing_rows ?u) \<Longrightarrow> g_id h = ?gid \<Longrightarrow> h = g"
    using assms(5) unique_pairing [OF assms(2)] by (auto simp: filter_empty_conv)
  have find: "find (\<lambda>h. g_id h = ?gid) (pairing_rows ?u) = Some g"
    using assms(2,5) by (intro find_by_key) (simp_all add: tables_ok_def keys_ok_def)
  obtain target d1 where 1: "override_target e ?gid d = (target, d1)" by force
  have u1: "tables_of d1 = ?u" using books.override_target_tables [of e ?gid d] 1 by simp
  have target: "target = Some (t_id t, g_round g, ?who)"
    using 1 find find_tournament_row [OF assms(2,3)] assms(6)
    by (auto simp: override_target_def split_beta select_faultless [OF assms(1)])
  obtain tr d2 where 2: "find_tournament e (t_id t) d1 = (tr, d2)" by force
  have u2: "tables_of d2 = ?u" "tr = Some t"
    using read_tables(1) [of e "t_id t" d1] read_faultless(1) [OF assms(1), of "t_id t" d1] find_tournament_row [OF assms(2,3)] 2 u1 by simp_all
  obtain ok d3 where 3: "audit_and_override_result e ?gid ?who res reason d2 = (ok, d3)" by force
  have shape: "\<not> list_ex (\<lambda>g. \<not> result_shape (g_black g) res) (filter (\<lambda>h. g_id h = ?gid) (pairing_rows ?u))"
    using assms(7) res(2) by (auto simp: list_ex_iff dest: mine(2))
  have some: "filter (\<lambda>p. List.member (map g_tournament (filter (\<lambda>h. g_id h = ?gid) (pairing_rows ?u))) (p_tournament p)) (participant_rows ?u) \<noteq> []"
    using assms(5,6,10,11) by (auto simp: filter_empty_conv intro!: bexI [of _ p] rev_image_eqI [of g])
  have ok: "ok" and rows: "tournament_rows (tables_of d3) = tournament_rows ?u"
    and pairs: "\<exists>now. pairing_rows (tables_of d3) = update_where (\<lambda>h. g_id h = ?gid) (?f now) (pairing_rows ?u)"
    using 3 some shape assms(13) u2(1)
    by (auto simp: audit_and_override_result_def affected_def exec_sql_def split_beta Let_def assms(1) [unfolded faultless_def] change_result_def
        split: option.splits if_splits)
  then obtain now where pairs: "pairing_rows (tables_of d3) = update_where (\<lambda>h. g_id h = ?gid) (?f now) (pairing_rows ?u)" by blast
  have "tables_ok (tables_of d3)" using override_ok [of d2 res e ?gid ?who reason] assms(2) u2 res(1) 3 by simp
  moreover have "round_done (pairing_rows (tables_of d3)) (t_id t) (g_round g)"
    unfolding round_done_def pairs set_update_where
  proof (intro conjI)
    have "?f now g \<in> (\<lambda>r. if g_id r = ?gid then ?f now r else r) ` set (pairing_rows ?u)"
      using assms(5) by (intro rev_image_eqI [of g]) simp_all
    moreover have "in_round (t_id t) (g_round g) (?f now g)" using assms(6) by (simp add: in_round_def)
    ultimately show "\<exists>h \<in> (\<lambda>r. if g_id r = ?gid then ?f now r else r) ` set (pairing_rows ?u). in_round (t_id t) (g_round g) h"
      by (rule bexI [rotated])
    show "\<forall>h \<in> (\<lambda>r. if g_id r = ?gid then ?f now r else r) ` set (pairing_rows ?u).
        in_round (t_id t) (g_round g) h \<longrightarrow> g_result h \<noteq> ''pending''"
    proof (intro ballI impI)
      fix h assume h: "h \<in> (\<lambda>r. if g_id r = ?gid then ?f now r else r) ` set (pairing_rows ?u)" "in_round (t_id t) (g_round g) h"
      then obtain r where r: "r \<in> set (pairing_rows ?u)" "h = (if g_id r = ?gid then ?f now r else r)" by blast
      show "g_result h \<noteq> ''pending''"
      proof (cases "g_id r = ?gid")
        case False
        then show ?thesis using r h(2) assms(9) by auto
      qed (use r res(1) in simp)
    qed
  qed
  moreover have "1 \<le> g_round g" using assms(2,5) by (auto simp: tables_ok_def ids_ok_def)
  ultimately have adv: "fst (maybe_advance e (t_id t) (g_round g) d3) = Inr ()"
    "tournament_rows (after (maybe_advance e (t_id t) (g_round g) d3)) =
      update_where (\<lambda>r. t_id r = t_id t) (\<lambda>r. r\<lparr>t_current_round := g_round g + 1\<rparr>) (tournament_rows ?u)"
    using swiss_advances [OF assms(1), of d3 t "g_round g"] assms(3,4,8) rows by simp_all
  have "reason \<noteq> []" using assms(13) by (auto simp: btrim_def)
  then have "override_result e ?gid ?who res reason d = maybe_advance e (t_id t) (g_round g) d3"
    using 1 2 3 ok assms(4,12) target u2(2) by (simp add: override_result_def)
  then show ?thesis using adv by (auto simp: set_update_where)
qed

lemma demo_env_ok: "faultless demo_env" "orderly demo_env" "tables_of demo_db = no_tables []"
  by (simp_all add: faultless_def orderly_def demo_env_def demo_db_def)

theorem recorded_results_stand_witness:
  "g_result (hd (pairing_rows (tables_of (run_tournaments demo_env [Report_Result 1 ''1-0'', Tick] (run_tournaments demo_env demo_calls demo_db))))) =
     ''double_forfeit''"
proof -
  define d where "d = run_tournaments demo_env demo_calls demo_db"
  have start: "map (\<lambda>g. (g_id g, g_result g)) (pairing_rows (tables_of d)) = [(1, ''double_forfeit'')]"
    unfolding d_def by code_simp
  then obtain g where g: "pairing_rows (tables_of d) = [g]" "g_result g = ''double_forfeit''" by auto
  have one: "length (pairing_rows (tables_of (run_tournaments demo_env [Report_Result 1 ''1-0'', Tick] d))) = 1"
    unfolding d_def by code_simp
  have "g \<in> set (pairing_rows (tables_of d))" using g by simp
  from recorded_results_stand [OF demo_env_ok(2) this, of "[Report_Result 1 ''1-0'', Tick]"] g one show ?thesis
    unfolding d_def [symmetric]
    by (cases "pairing_rows (tables_of (run_tournaments demo_env [Report_Result 1 ''1-0'', Tick] d))") (auto simp: overrides_def)
qed

theorem totals_follow_results_witness:
  "\<exists>p \<in> set (participant_rows (tables_of (run_tournaments demo_env demo_calls demo_db))). p_player p = 12 \<and> p_whites p = 1 \<and>
     p_whites p = total_whites g_result (pairing_rows (tables_of (run_tournaments demo_env demo_calls demo_db))) (p_tournament p) (p_player p)"
proof -
  have "map (\<lambda>p. (p_player p, p_whites p)) (participant_rows (tables_of (run_tournaments demo_env demo_calls demo_db))) = [(11, 0), (12, 1)]"
    by code_simp
  then obtain p where p: "p \<in> set (participant_rows (tables_of (run_tournaments demo_env demo_calls demo_db)))" "p_player p = 12" "p_whites p = 1"
    by (auto simp: map_eq_Cons_conv intro: that)
  from totals_follow_results [OF demo_env_ok this(1)] p show ?thesis by blast
qed

theorem rounds_well_dealt_witness:
  "distinct (concat (map seats_of (filter (in_round 1 1) (pairing_rows (tables_of (run_tournaments demo_env demo_calls demo_db)))))) \<and>
   map seats_of (pairing_rows (tables_of (run_tournaments demo_env demo_calls demo_db))) = [[12, 11]]"
proof -
  have "map seats_of (pairing_rows (tables_of (run_tournaments demo_env demo_calls demo_db))) = [[12, 11]]" by code_simp
  then show ?thesis using rounds_well_dealt [OF demo_env_ok, of 1 1 demo_calls] by blast
qed

definition demo_cup :: tournament_row where
  "demo_cup = \<lparr>t_id = 1, t_name = ''cup'', t_format = ''winners_advance'', t_rounds = 2, t_current_round = 2, t_base_ms = 300000,
     t_increment_ms = 0, t_status = ''in_progress'', t_deadline = 0, t_first_start = 0, t_duration = 60, t_open = False,
     t_closed_at = None, t_created_by = 7, t_created_at = 0, t_started_at = None, t_completed_at = None\<rparr>"

definition demo_snapshot :: snapshot where
  "demo_snapshot = \<lparr>sn_tournament = demo_cup,
     sn_participants = [new_participant 1 11 1500 0, new_participant 1 12 1600 0, new_participant 1 13 1400 0],
     sn_pairings = [(new_pairing 1 1 1 11 (Some 12) ''pending'' 0)\<lparr>g_result := ''1-0''\<rparr>, new_pairing 2 1 1 13 None ''bye'' 0,
       new_pairing 3 1 2 13 (Some 11) ''pending'' 0],
     sn_rounds = [], sn_usernames = Map.empty, sn_checkins = []\<rparr>"

definition demo_table :: tables where
  "demo_table = (no_tables [])\<lparr>tournament_rows := [demo_cup\<lparr>t_format := ''swiss'', t_rounds := 3, t_current_round := 3, t_status := ''completed''\<rparr>],
     participant_rows := [(new_participant 1 11 1500 0)\<lparr>p_score := 1, p_whites := 1\<rparr>, new_participant 1 12 1600 0],
     pairing_rows := [(new_pairing 1 1 1 11 (Some 12) ''pending'' 0)\<lparr>g_result := ''1-0''\<rparr>],
     tournament_seq := 1, pairing_seq := 1\<rparr>"

theorem override_moves_round_back_witness:
  "map t_current_round (tournament_rows demo_table) = [3] \<and>
   fst (override_result demo_env 1 7 ''0-1'' ''wrong player'' \<lparr>tables_of = demo_table, steps = 0\<rparr>) = Inr () \<and>
   map t_current_round (tournament_rows (after (override_result demo_env 1 7 ''0-1'' ''wrong player'' \<lparr>tables_of = demo_table, steps = 0\<rparr>))) = [2]"
proof -
  let ?d = "\<lparr>tables_of = demo_table, steps = 0\<rparr>"
  define t where "t = demo_cup\<lparr>t_format := ''swiss'', t_rounds := 3, t_current_round := 3, t_status := ''completed''\<rparr>"
  define g where "g = (new_pairing 1 1 1 11 (Some 12) ''pending'' 0)\<lparr>g_result := ''1-0''\<rparr>"
  have tables: "tournament_rows demo_table = [t]" "pairing_rows demo_table = [g]"
    by (simp_all add: demo_table_def t_def g_def)
  have t: "t_id t = 1" "t_created_by t = 7" "t_format t = ''swiss''" "t_rounds t = 3" "t_status t = ''completed''" "t_current_round t = 3"
    by (simp_all add: t_def demo_cup_def)
  have g: "g_id g = 1" "g_tournament g = 1" "g_round g = 1" "g_white g = 11" "g_black g = Some 12" "g_result g = ''1-0''"
    by (simp_all add: g_def new_pairing_def)
  have parts: "p_tournament (new_participant 1 12 1600 0) = 1" "new_participant 1 12 1600 0 \<in> set (participant_rows demo_table)" by (simp_all add: demo_table_def new_participant_def)
  have ok: "tables_ok demo_table"
    by (simp add: tables_ok_defs seated_once_def tables t g in_round_def seats_of_def result_shape_def)
      (simp add: demo_table_def no_tables_def new_participant_def with_totals_def total_score_def total_whites_def had_bye_def
        plays_def points_def g)
  have "fst (override_result demo_env (g_id g) (t_created_by t) ''0-1'' ''wrong player'' ?d) = Inr () \<and>
      (\<forall>x \<in> set (tournament_rows (after (override_result demo_env (g_id g) (t_created_by t) ''0-1'' ''wrong player'' ?d))).
         t_id x = t_id t \<longrightarrow> t_current_round x = g_round g + 1)"
    by (rule override_moves_round_back [OF demo_env_ok(1), where p = "new_participant 1 12 1600 0"])
      (use ok in \<open>simp_all add: tables t g in_round_def parts game_result_def btrim_def\<close>)
  moreover have "map t_id (tournament_rows (after (override_result demo_env 1 7 ''0-1'' ''wrong player'' ?d))) = [1]"
    by code_simp
  ultimately show ?thesis by (auto simp: t g tables map_eq_Cons_conv)
qed

end
