(* ===== verification/WorkerPool.thy ===== *)
theory WorkerPool
  imports Prelude "HOL-Library.Multiset"
begin

text \<open>
  The thread pool (\<open>concurrent/task_queue.h\<close>, \<open>concurrent/thread_pool.cpp\<close>): one queue under a mutex
  with a condition variable, and the workers that take tasks from it.

  What a method does while it holds the mutex is one step; a notification is sent after the mutex
  is released and is a step of its own, so steps of other threads may come between the two. A worker that
  waits on the condition variable goes on when it is notified, or for no reason at all. The steps of the
  threads interleave in any order (\<open>pool_step\<close>). The fields below \<open>phase\<close> of a pool are histories,
  which no step reads. The locale \<open>settling\<close> is the argument by which such a system comes to rest.
\<close>

section \<open>The queue\<close>

record 'a task_queue =
  tasks :: "'a list"
  stopped :: bool

definition new_queue :: "'a task_queue" where
  "new_queue = \<lparr>tasks = [], stopped = False\<rparr>"

definition push :: "'a \<Rightarrow> 'a task_queue \<Rightarrow> 'a task_queue" where
  "push t q = q\<lparr>tasks := tasks q @ [t]\<rparr>"

datatype 'a popped = Wait | Closed | Popped 'a

definition pop :: "'a task_queue \<Rightarrow> 'a popped \<times> 'a task_queue" where
  "pop q = (if \<not> (tasks q \<noteq> [] \<or> stopped q) then (Wait, q)
     else if stopped q \<and> tasks q = [] then (Closed, q)
     else (Popped (hd (tasks q)), q\<lparr>tasks := tl (tasks q)\<rparr>))"

definition stop :: "'a task_queue \<Rightarrow> 'a task_queue" where
  "stop q = q\<lparr>stopped := True\<rparr>"

definition queue_size :: "'a task_queue \<Rightarrow> nat" where
  "queue_size q = length (tasks q)"

section \<open>The pool\<close>

datatype 'a worker =
    Popping
  | Waiting
  | Notified
  | Working 'a
  | Exited

datatype outcome = Returned | Threw_exception | Threw_unknown

datatype phase = Up | Stopping | Joining nat | Down

record 'a thread_pool =
  task_queue :: "'a task_queue"
  workers :: "'a worker list"
  notices :: nat
  phase :: phase
  submitted :: "'a list"
  accepted :: "'a list"
  begun :: "'a list"
  ended :: "('a \<times> outcome) list"

definition thread_count :: "32 word \<Rightarrow> 32 word \<Rightarrow> 32 word" where
  "thread_count num_threads hardware_concurrency =
     (if num_threads = 0 then if hardware_concurrency = 0 then 4 else hardware_concurrency else num_threads)"

definition new_pool :: "32 word \<Rightarrow> 32 word \<Rightarrow> 'a thread_pool" where
  "new_pool num_threads hardware_concurrency =
     \<lparr>task_queue = new_queue, workers = replicate (unat (thread_count num_threads hardware_concurrency)) Popping,
      notices = 0, phase = Up, submitted = [], accepted = [], begun = [], ended = []\<rparr>"

fun after_pop :: "'a popped \<Rightarrow> 'a worker" where
  "after_pop Wait = Waiting"
| "after_pop Closed = Exited"
| "after_pop (Popped t) = Working t"

fun popped_task :: "'a popped \<Rightarrow> 'a list" where
  "popped_task (Popped t) = [t]"
| "popped_task _ = []"

fun wake :: "'a worker \<Rightarrow> 'a worker" where
  "wake Waiting = Notified"
| "wake w = w"

fun after_task :: "outcome \<Rightarrow> 'a worker" where
  "after_task Returned = Popping"
| "after_task Threw_exception = Popping"
| "after_task Threw_unknown = Popping"

definition set_worker :: "nat \<Rightarrow> 'a worker \<Rightarrow> 'a thread_pool \<Rightarrow> 'a thread_pool" where
  "set_worker i w p = p\<lparr>workers := (workers p)[i := w]\<rparr>"

definition worker_pop :: "nat \<Rightarrow> 'a thread_pool \<Rightarrow> 'a thread_pool" where
  "worker_pop i p = (let (r, q) = pop (task_queue p) in
     (set_worker i (after_pop r) p)\<lparr>task_queue := q, begun := begun p @ popped_task r\<rparr>)"

definition worker_done :: "nat \<Rightarrow> 'a \<Rightarrow> outcome \<Rightarrow> 'a thread_pool \<Rightarrow> 'a thread_pool" where
  "worker_done i t c p = (set_worker i (after_task c) p)\<lparr>ended := ended p @ [(t, c)]\<rparr>"

definition submit :: "'a \<Rightarrow> 'a thread_pool \<Rightarrow> 'a thread_pool" where
  "submit t p = p\<lparr>task_queue := push t (task_queue p), notices := Suc (notices p), submitted := submitted p @ [t]\<rparr>"

definition shutdown :: "'a thread_pool \<Rightarrow> 'a thread_pool" where
  "shutdown p = p\<lparr>task_queue := stop (task_queue p), phase := Stopping, accepted := submitted p\<rparr>"

definition notify_all :: "'a thread_pool \<Rightarrow> 'a thread_pool" where
  "notify_all p = p\<lparr>workers := map wake (workers p)\<rparr>"

text \<open>
  The steps of the pool's own threads, and those that come from outside: a submission, the call of
  \<open>shutdown\<close> (by the owner or the destructor), its repetition, which finds no thread to join, and a
  spurious wakeup.
\<close>

inductive pool_step :: "'a thread_pool \<Rightarrow> 'a thread_pool \<Rightarrow> bool" where
  Notify_one: "notices p = Suc n \<Longrightarrow> i < length (workers p) \<Longrightarrow> workers p ! i = Waiting \<Longrightarrow>
    pool_step p (set_worker i Notified (p\<lparr>notices := n\<rparr>))"
| Notify_nobody: "notices p = Suc n \<Longrightarrow> Waiting \<notin> set (workers p) \<Longrightarrow> pool_step p (p\<lparr>notices := n\<rparr>)"
| Pop: "i < length (workers p) \<Longrightarrow> workers p ! i = Popping \<or> workers p ! i = Notified \<Longrightarrow>
    pool_step p (worker_pop i p)"
| Finish: "i < length (workers p) \<Longrightarrow> workers p ! i = Working t \<Longrightarrow> pool_step p (worker_done i t c p)"
| Notify_all: "phase p = Stopping \<Longrightarrow> pool_step p ((notify_all p)\<lparr>phase := Joining 0\<rparr>)"
| Join: "phase p = Joining k \<Longrightarrow> k < length (workers p) \<Longrightarrow> workers p ! k = Exited \<Longrightarrow>
    pool_step p (p\<lparr>phase := Joining (Suc k)\<rparr>)"
| Joined: "phase p = Joining k \<Longrightarrow> k = length (workers p) \<Longrightarrow> pool_step p (p\<lparr>phase := Down\<rparr>)"

inductive outside_step :: "'a thread_pool \<Rightarrow> 'a thread_pool \<Rightarrow> bool" where
  Submit: "outside_step p (submit t p)"
| Shutdown: "phase p = Up \<Longrightarrow> outside_step p (shutdown p)"
| Shutdown_again: "phase p = Down \<Longrightarrow>
    outside_step p (notify_all (p\<lparr>task_queue := stop (task_queue p)\<rparr>))"
| Spurious: "i < length (workers p) \<Longrightarrow> workers p ! i = Waiting \<Longrightarrow> outside_step p (set_worker i Notified p)"

inductive reachable_pool :: "'a thread_pool \<Rightarrow> bool" where
  Start: "reachable_pool (new_pool n hw)"
| Inside: "reachable_pool p \<Longrightarrow> pool_step p p' \<Longrightarrow> reachable_pool p'"
| Outside: "reachable_pool p \<Longrightarrow> outside_step p p' \<Longrightarrow> reachable_pool p'"

inductive_cases pool_stepE: "pool_step p p'"
inductive_cases outside_stepE: "outside_step p p'"

section \<open>Systems that come to rest\<close>

text \<open>
  An invariant that every step keeps, a measure that every step lowers, and a set of states at rest that
  holds those in which no step is left.
\<close>

locale settling =
  fixes step :: "'s \<Rightarrow> 's \<Rightarrow> bool"
    and good :: "'s \<Rightarrow> bool"
    and work :: "'s \<Rightarrow> nat"
    and settled :: "'s \<Rightarrow> bool"
  assumes step_good: "good s \<Longrightarrow> step s s' \<Longrightarrow> good s'"
    and step_work: "good s \<Longrightarrow> step s s' \<Longrightarrow> work s' < work s"
    and stuck_settled: "good s \<Longrightarrow> (\<And>s'. \<not> step s s') \<Longrightarrow> settled s"
begin

lemma run_good: "(step ^^ n) s s' \<Longrightarrow> good s \<Longrightarrow> good s'"
  by (induction n arbitrary: s') (auto intro: step_good)

lemma run_bounded: "(step ^^ n) s s' \<Longrightarrow> good s \<Longrightarrow> n + work s' \<le> work s"
proof (induction n arbitrary: s')
  case (Suc n)
  then obtain t where "(step ^^ n) s t" "step t s'"
    by auto
  then show ?case
    using Suc.IH [of t] step_work [of t s'] run_good [of n s t] Suc.prems(2) by simp
qed simp

lemma run_ends: "good s \<Longrightarrow> \<exists>n s'. (step ^^ n) s s' \<and> (\<forall>t. \<not> step s' t)"
proof (induction "work s" arbitrary: s rule: less_induct)
  case less
  show ?case
  proof (cases "\<exists>t. step s t")
    case True
    then obtain t where t: "step s t" ..
    then obtain n s' where "(step ^^ n) t s'" "\<forall>u. \<not> step s' u"
      using less(1) [OF step_work [OF less(2) t] step_good [OF less(2) t]] by (elim exE conjE)
    then show ?thesis
      using t relpowp_Suc_I2 [of step s t n s'] by blast
  next
    case False
    then show ?thesis
      using relpowp_0_I [of step s] by blast
  qed
qed

lemma run_settles: "good s \<Longrightarrow> (step ^^ n) s s' \<Longrightarrow> (\<And>t. \<not> step s' t) \<Longrightarrow> settled s'"
  using run_good stuck_settled by blast

end

section \<open>The invariants\<close>

lemma weigh_update:
  fixes f :: "'b \<Rightarrow> 'c::comm_monoid_add"
  assumes "i < length xs"
  shows "sum_list (map f (xs[i := x])) + f (xs ! i) = sum_list (map f xs) + f x"
  using assms by (induction xs arbitrary: i) (auto simp: ac_simps split: nat.split)

fun held :: "'a worker \<Rightarrow> 'a multiset" where
  "held (Working t) = {#t#}"
| "held _ = {#}"

fun ready :: "'a worker \<Rightarrow> nat" where
  "ready Popping = 1"
| "ready Notified = 1"
| "ready _ = 0"

definition running_tasks :: "'a thread_pool \<Rightarrow> 'a multiset" where
  "running_tasks p = sum_list (map held (workers p))"

definition ready_workers :: "'a thread_pool \<Rightarrow> nat" where
  "ready_workers p = sum_list (map ready (workers p))"

definition conserved :: "'a thread_pool \<Rightarrow> bool" where
  "conserved p \<longleftrightarrow> submitted p = begun p @ tasks (task_queue p)
     \<and> mset (begun p) = image_mset fst (mset (ended p)) + running_tasks p"

definition heard :: "'a thread_pool \<Rightarrow> bool" where
  "heard p \<longleftrightarrow> (Waiting \<in> set (workers p) \<longrightarrow>
     queue_size (task_queue p) \<le> notices p + ready_workers p \<and> (stopped (task_queue p) \<longrightarrow> phase p = Stopping))"

definition drained :: "'a thread_pool \<Rightarrow> bool" where
  "drained p \<longleftrightarrow> (stopped (task_queue p) \<longleftrightarrow> phase p \<noteq> Up)
     \<and> (phase p \<noteq> Up \<longrightarrow> (\<exists>late. submitted p = accepted p @ late))
     \<and> (Exited \<in> set (workers p) \<longrightarrow> phase p \<noteq> Up \<and> length (accepted p) \<le> length (begun p))
     \<and> (\<forall>k. phase p = Joining k \<longrightarrow> k \<le> length (workers p) \<and> set (take k (workers p)) \<subseteq> {Exited})
     \<and> (phase p = Down \<longrightarrow> set (workers p) \<subseteq> {Exited}) \<and> workers p \<noteq> []"

lemma set_worker_simps [simp]:
  "task_queue (set_worker i w p) = task_queue p" "notices (set_worker i w p) = notices p"
  "phase (set_worker i w p) = phase p" "submitted (set_worker i w p) = submitted p"
  "accepted (set_worker i w p) = accepted p" "begun (set_worker i w p) = begun p"
  "ended (set_worker i w p) = ended p" "workers (set_worker i w p) = (workers p)[i := w]"
  by (simp_all add: set_worker_def)

lemma sums_cong [simp]:
  "running_tasks (p\<lparr>task_queue := q\<rparr>) = running_tasks p" "running_tasks (p\<lparr>notices := n\<rparr>) = running_tasks p"
  "running_tasks (p\<lparr>phase := f\<rparr>) = running_tasks p" "running_tasks (p\<lparr>begun := b\<rparr>) = running_tasks p"
  "running_tasks (p\<lparr>ended := e\<rparr>) = running_tasks p" "running_tasks (p\<lparr>submitted := b\<rparr>) = running_tasks p"
  "running_tasks (p\<lparr>accepted := b\<rparr>) = running_tasks p"
  "ready_workers (p\<lparr>task_queue := q\<rparr>) = ready_workers p" "ready_workers (p\<lparr>notices := n\<rparr>) = ready_workers p"
  "ready_workers (p\<lparr>phase := f\<rparr>) = ready_workers p" "ready_workers (p\<lparr>begun := b\<rparr>) = ready_workers p"
  "ready_workers (p\<lparr>ended := e\<rparr>) = ready_workers p" "ready_workers (p\<lparr>submitted := b\<rparr>) = ready_workers p"
  "ready_workers (p\<lparr>accepted := b\<rparr>) = ready_workers p"
  by (simp_all add: running_tasks_def ready_workers_def)

lemma running_set_worker:
  "i < length (workers p) \<Longrightarrow> running_tasks (set_worker i w p) + held (workers p ! i) = running_tasks p + held w"
  using weigh_update [of i "workers p" held w] by (simp add: running_tasks_def)

lemma ready_set_worker:
  "i < length (workers p) \<Longrightarrow> ready_workers (set_worker i w p) + ready (workers p ! i) = ready_workers p + ready w"
  using weigh_update [of i "workers p" ready w] by (simp add: ready_workers_def)

lemma after_task_Popping [simp]: "after_task c = Popping"
  by (cases c) simp_all

lemma held_wake [simp]: "held (wake w) = held w"
  by (cases w) simp_all

lemma wake_iff [simp]:
  "wake w = Exited \<longleftrightarrow> w = Exited" "wake w \<noteq> Waiting" "Exited = wake w \<longleftrightarrow> w = Exited" "Waiting \<noteq> wake w"
  by (cases w; simp)+

lemma in_set_update:
  assumes "i < length xs" shows "x \<in> set (xs[i := y]) \<Longrightarrow> x = y \<or> x \<in> set xs"
  using set_update_subset_insert [of xs i y] by blast

lemma conserved_step: "pool_step p p' \<Longrightarrow> conserved p \<Longrightarrow> conserved p'"
proof (induction rule: pool_step.induct)
  case (Pop i p)
  then show ?case
    using running_set_worker [of i p Waiting] running_set_worker [of i p Exited]
      running_set_worker [of i p "Working (hd (tasks (task_queue p)))"]
    by (auto simp: conserved_def worker_pop_def pop_def)
next
  case (Finish i p t c)
  then show ?case
    using running_set_worker [of i p Popping] by (simp add: conserved_def worker_done_def)
next
  case (Notify_one p n i)
  then show ?case
    using running_set_worker [of i "p\<lparr>notices := n\<rparr>" Notified] by (simp add: conserved_def)
qed (auto simp: conserved_def notify_all_def running_tasks_def comp_def)
lemma ready_member: "w \<in> set ws \<Longrightarrow> ready w \<le> sum_list (map ready ws)"
  by (induction ws) auto

lemma conserved_outside: "outside_step p p' \<Longrightarrow> conserved p \<Longrightarrow> conserved p'"
proof (induction rule: outside_step.induct)
  case (Spurious i p)
  then show ?case
    using running_set_worker [of i p Notified] by (simp add: conserved_def)
qed (auto simp: conserved_def notify_all_def running_tasks_def comp_def submit_def push_def shutdown_def stop_def)

lemma heard_step: "pool_step p p' \<Longrightarrow> heard p \<Longrightarrow> heard p'"
proof (induction rule: pool_step.induct)
  case (Notify_one p n i)
  have "Waiting \<in> set (workers p)"
    using Notify_one(2,3) nth_mem [of i "workers p"] by simp
  then show ?case
    using Notify_one ready_set_worker [of i "p\<lparr>notices := n\<rparr>" Notified] by (simp add: heard_def)
next
  case (Pop i p)
  show ?case
  proof (cases "tasks (task_queue p) = []")
    case True
    then show ?thesis
      using Pop by (auto simp: heard_def worker_pop_def pop_def queue_size_def dest: in_set_update [OF Pop(1)])
  next
    case False
    then have "set_worker i (Working (hd (tasks (task_queue p)))) p
        \<lparr>task_queue := (task_queue p)\<lparr>tasks := tl (tasks (task_queue p))\<rparr>,
         begun := begun p @ [hd (tasks (task_queue p))]\<rparr> = worker_pop i p"
      by (simp add: worker_pop_def pop_def)
    moreover have "ready_workers (set_worker i (Working (hd (tasks (task_queue p)))) p) + 1 = ready_workers p"
      using Pop ready_set_worker [of i p "Working (hd (tasks (task_queue p)))"] by auto
    moreover have "length (tasks (task_queue p)) = Suc (length (tl (tasks (task_queue p))))"
      using False by simp
    ultimately show ?thesis
      using Pop(3) by (auto simp: heard_def queue_size_def worker_pop_def pop_def False
        dest!: in_set_update [OF Pop(1)])
  qed
next
  case (Finish i p t c)
  then show ?case
    using ready_set_worker [of i p Popping]
    by (auto simp: heard_def worker_done_def dest!: in_set_update [OF Finish(1)])
qed (auto simp: heard_def notify_all_def)

lemma heard_outside: "outside_step p p' \<Longrightarrow> heard p \<Longrightarrow> heard p'"
proof (induction rule: outside_step.induct)
  case (Spurious i p)
  then show ?case
    using ready_set_worker [of i p Notified] by (auto simp: heard_def dest!: in_set_update [OF Spurious(1)])
qed (auto simp: heard_def notify_all_def submit_def push_def shutdown_def stop_def queue_size_def ready_workers_def)

lemma drained_working:
  assumes "drained p" "i < length (workers p)" "workers p ! i \<noteq> Exited"
  shows "phase p \<noteq> Down" "phase p = Joining k \<Longrightarrow> k \<le> i"
proof -
  show "phase p \<noteq> Down"
    using assms nth_mem [of i "workers p"] unfolding drained_def by blast
  show "k \<le> i" if "phase p = Joining k"
  proof (rule ccontr)
    assume "\<not> k \<le> i"
    then have "workers p ! i \<in> set (take k (workers p))"
      using assms(2) by (auto simp: in_set_conv_nth intro!: exI [of _ i])
    then show False
      using assms(1,3) that unfolding drained_def by blast
  qed
qed

lemma drained_set_worker:
  assumes "drained p" "i < length (workers p)" "workers p ! i \<noteq> Exited" "w \<noteq> Exited"
  shows "drained (set_worker i w p)"
proof -
  have "Exited \<in> set ((workers p)[i := w]) \<Longrightarrow> Exited \<in> set (workers p)"
    using assms(4) in_set_update [OF assms(2)] by metis
  moreover have "take k ((workers p)[i := w]) = take k (workers p)" if "phase p = Joining k" for k
    using drained_working(2) [OF assms(1-3) that] by simp
  ultimately show ?thesis
    using assms(1) drained_working(1) [OF assms(1-3)] by (auto simp: drained_def)
qed

lemma drained_cong:
  "drained p \<Longrightarrow> drained (p\<lparr>notices := n\<rparr>)" "drained p \<Longrightarrow> drained (p\<lparr>ended := e\<rparr>)"
  "drained p \<Longrightarrow> drained (p\<lparr>begun := begun p @ b\<rparr>)"
  "drained p \<Longrightarrow> stopped q = stopped (task_queue p) \<Longrightarrow> drained (p\<lparr>task_queue := q\<rparr>)"
  by (auto simp: drained_def)

lemma drained_step: "pool_step p p' \<Longrightarrow> conserved p \<Longrightarrow> drained p \<Longrightarrow> drained p'"
proof (induction rule: pool_step.induct)
  case (Notify_one p n i)
  then show ?case
    using drained_set_worker [of "p\<lparr>notices := n\<rparr>" i Notified] drained_cong(1) [of p n] by simp
next
  case (Pop i p)
  show ?case
  proof (cases "stopped (task_queue p) \<and> tasks (task_queue p) = []")
    case True
    then have "length (accepted p) \<le> length (begun p)" "phase p \<noteq> Up" "phase p \<noteq> Down"
      using Pop drained_working(1) [OF Pop(4,1)] by (auto simp: conserved_def drained_def)
    moreover have "take k ((workers p)[i := Exited]) = take k (workers p)" if "phase p = Joining k" for k
      using drained_working(2) [OF Pop(4,1) _ that] Pop(2) by auto
    ultimately show ?thesis
      using True Pop(4) by (auto simp: drained_def worker_pop_def pop_def)
  next
    case False
    then have "after_pop (fst (pop (task_queue p))) \<noteq> Exited"
        "stopped (snd (pop (task_queue p))) = stopped (task_queue p)"
      by (auto simp: pop_def)
    moreover have "workers p ! i \<noteq> Exited"
      using Pop(2) by auto
    ultimately have "drained (set_worker i (after_pop (fst (pop (task_queue p)))) p
        \<lparr>task_queue := snd (pop (task_queue p))\<rparr>)"
      using drained_cong(4) [OF drained_set_worker [OF Pop(4,1)]] by simp
    from drained_cong(3) [OF this, of "popped_task (fst (pop (task_queue p)))"]
    show ?thesis
      by (simp add: worker_pop_def Let_def split_def)
  qed
next
  case (Finish i p t c)
  then show ?case
    using drained_set_worker [of p i Popping] drained_cong(2) [of "set_worker i Popping p"] by (simp add: worker_done_def)
next
  case (Join p k)
  then show ?case
    by (auto simp: drained_def take_Suc_conv_app_nth)
qed (auto simp: drained_def notify_all_def)

lemma drained_outside: "outside_step p p' \<Longrightarrow> drained p \<Longrightarrow> drained p'"
proof (induction rule: outside_step.induct)
  case (Spurious i p)
  then show ?case
    using drained_set_worker [of p i Notified] by simp
next
  case (Shutdown p)
  then show ?case
    by (auto simp: drained_def shutdown_def stop_def)
next
  case (Shutdown_again p)
  then show ?case
    by (auto simp: drained_def notify_all_def stop_def)
qed (auto simp: drained_def submit_def push_def)

lemma new_pool_ok: "conserved (new_pool n hw)" "heard (new_pool n hw)" "drained (new_pool n hw)"
proof -
  have "unat (thread_count n hw) \<noteq> 0"
    by (auto simp: thread_count_def unat_eq_0)
  then show "drained (new_pool n hw)"
    by (simp add: drained_def new_pool_def new_queue_def)
  have "sum_list (replicate m {#}) = {#}" for m
    by (induction m) auto
  then show "conserved (new_pool n hw)"
    by (simp add: conserved_def new_pool_def new_queue_def running_tasks_def)
  show "heard (new_pool n hw)"
    by (simp add: heard_def new_pool_def)
qed


section \<open>The pool comes to rest\<close>

definition pool_ok :: "'a thread_pool \<Rightarrow> bool" where
  "pool_ok p \<longleftrightarrow> conserved p \<and> heard p \<and> drained p"

fun effort :: "'a worker \<Rightarrow> nat" where
  "effort (Working t) = 3"
| "effort Popping = 1"
| "effort Notified = 1"
| "effort _ = 0"

fun shutdown_work :: "nat \<Rightarrow> phase \<Rightarrow> nat" where
  "shutdown_work n Stopping = 2 * n + 3"
| "shutdown_work n (Joining k) = n - k + 1"
| "shutdown_work n _ = 0"

definition work_left :: "'a thread_pool \<Rightarrow> nat" where
  "work_left p = 3 * queue_size (task_queue p) + 2 * notices p + sum_list (map effort (workers p))
     + shutdown_work (length (workers p)) (phase p)"

definition at_rest :: "'a thread_pool \<Rightarrow> bool" where
  "at_rest p \<longleftrightarrow> notices p = 0 \<and>
     (phase p = Up \<and> tasks (task_queue p) = [] \<and> set (workers p) \<subseteq> {Waiting} \<or> phase p = Down)"

lemma pool_step_ok: "pool_ok p \<Longrightarrow> pool_step p p' \<Longrightarrow> pool_ok p'"
  using conserved_step heard_step drained_step unfolding pool_ok_def by blast

lemma outside_step_ok: "pool_ok p \<Longrightarrow> outside_step p p' \<Longrightarrow> pool_ok p'"
  using conserved_outside heard_outside drained_outside unfolding pool_ok_def by blast

lemma reachable_ok: "reachable_pool p \<Longrightarrow> pool_ok p"
proof (induction rule: reachable_pool.induct)
  case (Start n hw)
  then show ?case
    using new_pool_ok [of n hw] by (simp add: pool_ok_def)
next
  case (Inside p p')
  then show ?case
    using pool_step_ok by blast
next
  case (Outside p p')
  then show ?case
    using outside_step_ok by blast
qed

lemma pool_okD: "pool_ok p \<Longrightarrow> conserved p" "pool_ok p \<Longrightarrow> heard p" "pool_ok p \<Longrightarrow> drained p"
  by (simp_all add: pool_ok_def)

lemma effort_wake: "sum_list (map (effort \<circ> wake) ws) \<le> sum_list (map effort ws) + length ws"
proof (induction ws)
  case (Cons w ws)
  then show ?case
    by (cases w) auto
qed simp

lemma pool_step_work: "pool_step p p' \<Longrightarrow> drained p \<Longrightarrow> work_left p' < work_left p"
proof (induction rule: pool_step.induct)
  case (Notify_one p n i)
  then show ?case
    using weigh_update [of i "workers p" effort Notified] by (simp add: work_left_def)
next
  case (Pop i p)
  let ?w = "after_pop (fst (pop (task_queue p)))"
  have "effort (workers p ! i) = 1"
    using Pop(2) by auto
  moreover have "3 * queue_size (snd (pop (task_queue p))) + effort ?w \<le> 3 * queue_size (task_queue p)"
    by (cases "tasks (task_queue p)") (auto simp: pop_def queue_size_def)
  ultimately show ?case
    using weigh_update [OF Pop(1), of effort ?w] by (simp add: work_left_def worker_pop_def Let_def split_def)
next
  case (Finish i p t c)
  then show ?case
    using weigh_update [of i "workers p" effort Popping] by (simp add: work_left_def worker_done_def)
next
  case (Notify_all p)
  then show ?case
    using effort_wake [of "workers p"] by (simp add: work_left_def notify_all_def)
qed (auto simp: work_left_def)

lemma pool_stuck_at_rest:
  assumes ok: "pool_ok p" and stuck: "\<And>p'. \<not> pool_step p p'"
  shows "at_rest p"
proof -
  have idle: "w = Waiting \<or> w = Exited" if w: "w \<in> set (workers p)" for w
  proof -
    obtain i where i: "i < length (workers p)" "workers p ! i = w"
      using w by (auto simp: in_set_conv_nth)
    show ?thesis
      using stuck pool_step.Pop [OF i(1)] pool_step.Finish [OF i(1)] i(2) by (cases w) auto
  qed
  have quiet: "notices p = 0"
  proof (rule ccontr)
    assume "notices p \<noteq> 0"
    then obtain n where n: "notices p = Suc n"
      using not0_implies_Suc by blast
    then show False
      using stuck pool_step.Notify_nobody [OF n] pool_step.Notify_one [OF n]
      by (metis in_set_conv_nth)
  qed
  have "ready_workers p = 0"
    unfolding ready_workers_def by (auto dest!: idle)
  moreover have "phase p \<noteq> Stopping"
    using stuck pool_step.Notify_all by blast
  ultimately have hear: "Waiting \<in> set (workers p) \<Longrightarrow> tasks (task_queue p) = [] \<and> phase p = Up"
    using ok quiet by (auto simp: pool_ok_def heard_def drained_def queue_size_def)
  show ?thesis
  proof (cases "phase p")
    case Up
    then have "set (workers p) \<subseteq> {Waiting}" "workers p \<noteq> []"
      using idle ok by (auto simp: pool_ok_def drained_def)
    then have "Waiting \<in> set (workers p)"
      by (cases "workers p") auto
    then show ?thesis
      using Up hear quiet \<open>set (workers p) \<subseteq> {Waiting}\<close> by (simp add: at_rest_def)
  next
    case (Joining k)
    then have "k \<le> length (workers p)" "k \<noteq> length (workers p)"
      using ok stuck pool_step.Joined by (auto simp: pool_ok_def drained_def)
    then have k: "k < length (workers p)"
      by simp
    then have "workers p ! k \<noteq> Exited"
      using stuck pool_step.Join [OF Joining] by blast
    then have "Waiting \<in> set (workers p)"
      using k idle nth_mem by metis
    then show ?thesis
      using hear Joining by simp
  qed (use \<open>phase p \<noteq> Stopping\<close> quiet in \<open>simp_all add: at_rest_def\<close>)
qed

interpretation pool: settling pool_step pool_ok work_left at_rest
  by unfold_locales
    (blast intro: pool_step_ok pool_step_work pool_okD pool_stuck_at_rest)+

lemma pool_step_keeps:
  "pool_step p p' \<Longrightarrow> submitted p' = submitted p \<and> accepted p' = accepted p \<and> (phase p' = Up \<longleftrightarrow> phase p = Up)"
  by (induction rule: pool_step.induct) (auto simp: worker_pop_def worker_done_def notify_all_def Let_def split_def)

lemma pool_run_keeps:
  "(pool_step ^^ n) p p' \<Longrightarrow> submitted p' = submitted p \<and> accepted p' = accepted p \<and> (phase p' = Up \<longleftrightarrow> phase p = Up)"
  by (induction n arbitrary: p') (auto dest!: pool_step_keeps)

lemma no_running:
  "set (workers p) \<subseteq> {Waiting, Exited} \<Longrightarrow> running_tasks p = {#}"
proof -
  have "set ws \<subseteq> {Waiting, Exited} \<Longrightarrow> sum_list (map held ws) = {#}" for ws :: "'a worker list"
    by (induction ws) auto
  then show "set (workers p) \<subseteq> {Waiting, Exited} \<Longrightarrow> running_tasks p = {#}"
    by (simp add: running_tasks_def)
qed

lemma down_drained:
  assumes "pool_ok p" "phase p = Down"
  shows "mset (accepted p) \<subseteq># image_mset fst (mset (ended p))"
proof -
  have exited: "set (workers p) \<subseteq> {Exited}" "length (accepted p) \<le> length (begun p)"
    using assms by (cases "workers p"; auto simp: pool_ok_def drained_def)+
  have "\<exists>late. submitted p = accepted p @ late"
    using pool_okD(3) [OF assms(1)] assms(2) unfolding drained_def by simp
  then obtain late where "begun p @ tasks (task_queue p) = accepted p @ late"
    using pool_okD(1) [OF assms(1)] unfolding conserved_def by auto
  then have "\<exists>more. begun p = accepted p @ more"
    using exited(2) by (metis append_eq_append_conv_if append_take_drop_id)
  then have "mset (accepted p) \<subseteq># mset (begun p)"
    by auto
  moreover have "running_tasks p = {#}"
    using exited(1) by (intro no_running) auto
  ultimately show ?thesis
    using assms(1) by (simp add: pool_ok_def conserved_def)
qed

section \<open>Properties\<close>

lemma tasks_run_once_parts:
  assumes "reachable_pool p"
  shows "submitted p = begun p @ tasks (task_queue p)"
    and "mset (begun p) = image_mset fst (mset (ended p)) + running_tasks p"
    and "phase p = Down \<longrightarrow> set (workers p) \<subseteq> {Exited} \<and> mset (accepted p) \<subseteq># image_mset fst (mset (ended p))"
proof -
  note ok = reachable_ok [OF assms]
  show "submitted p = begun p @ tasks (task_queue p)" "mset (begun p) = image_mset fst (mset (ended p)) + running_tasks p"
    using pool_okD(1) [OF ok] by (simp_all add: conserved_def)
  show "phase p = Down \<longrightarrow> set (workers p) \<subseteq> {Exited} \<and> mset (accepted p) \<subseteq># image_mset fst (mset (ended p))"
    using pool_okD(3) [OF ok] down_drained [OF ok] by (simp add: drained_def)
qed

text \<open>
  C27. Whatever the threads do and however their steps interleave, the tasks begin in the order in which
  they were submitted, each once: what was submitted is what has begun followed by what is queued, and what has
  begun is what has ended (by returning or by an exception, which no worker lets through) and what the
  workers are running. When \<open>shutdown\<close> has joined the workers, every task submitted before it
  stopped the queue has ended.
\<close>

theorem tasks_run_once:
  assumes "reachable_pool p"
  shows "submitted p = begun p @ tasks (task_queue p)
    \<and> mset (begun p) = image_mset fst (mset (ended p)) + running_tasks p
    \<and> (phase p = Down \<longrightarrow> set (workers p) \<subseteq> {Exited} \<and> mset (accepted p) \<subseteq># image_mset fst (mset (ended p)))"
  by (intro conjI tasks_run_once_parts [OF assms])

lemma pool_comes_to_rest_parts:
  assumes "reachable_pool p"
  shows "\<exists>n p'. (pool_step ^^ n) p p' \<and> (\<forall>q. \<not> pool_step p' q)"
    and "(pool_step ^^ n) p p' \<Longrightarrow> n \<le> work_left p"
    and "(pool_step ^^ n) p p' \<Longrightarrow> \<forall>q. \<not> pool_step p' q \<Longrightarrow>
      if phase p = Up then image_mset fst (mset (ended p')) = mset (submitted p) \<and> set (workers p') \<subseteq> {Waiting}
      else phase p' = Down \<and> set (workers p') \<subseteq> {Exited} \<and> mset (accepted p) \<subseteq># image_mset fst (mset (ended p'))"
proof -
  note ok = reachable_ok [OF assms]
  show "\<exists>n p'. (pool_step ^^ n) p p' \<and> (\<forall>q. \<not> pool_step p' q)"
    by (rule pool.run_ends [OF ok])
  assume run: "(pool_step ^^ n) p p'"
  then show "n \<le> work_left p"
    using pool.run_bounded [OF run ok] by simp
  assume "\<forall>q. \<not> pool_step p' q"
  then have rest: "at_rest p'"
    using pool.run_settles [OF ok run] by simp
  note ok' = pool.run_good [OF run ok] and keeps = pool_run_keeps [OF run]
  show "if phase p = Up then image_mset fst (mset (ended p')) = mset (submitted p) \<and> set (workers p') \<subseteq> {Waiting}
      else phase p' = Down \<and> set (workers p') \<subseteq> {Exited} \<and> mset (accepted p) \<subseteq># image_mset fst (mset (ended p'))"
  proof (cases "phase p = Up")
    case True
    then have "tasks (task_queue p') = []" "set (workers p') \<subseteq> {Waiting}"
      using rest keeps by (auto simp: at_rest_def)
    then show ?thesis
      using True ok' keeps no_running [of p'] by (auto simp: pool_ok_def conserved_def)
  next
    case False
    then have "phase p' = Down"
      using rest keeps by (auto simp: at_rest_def)
    then show ?thesis
      using False down_drained [OF ok'] ok' keeps by (simp add: pool_ok_def drained_def)
  qed
qed

text \<open>
  C28. No wakeup is lost and no join hangs. From any reachable state, the threads of the pool have at most
  \<open>work_left\<close> steps to do before they come to a stop, if nothing comes from outside, and they can stop
  only when the work is done: before \<open>shutdown\<close> every submitted task has ended exactly once and all workers wait;
  after it all workers have exited, \<open>shutdown\<close> has returned and every task it accepted has ended.
\<close>

theorem pool_comes_to_rest:
  assumes "reachable_pool p"
  shows "(\<exists>n p'. (pool_step ^^ n) p p' \<and> (\<forall>q. \<not> pool_step p' q))
    \<and> (\<forall>n p'. (pool_step ^^ n) p p' \<longrightarrow> n \<le> work_left p \<and> ((\<forall>q. \<not> pool_step p' q) \<longrightarrow>
      (if phase p = Up then image_mset fst (mset (ended p')) = mset (submitted p) \<and> set (workers p') \<subseteq> {Waiting}
       else phase p' = Down \<and> set (workers p') \<subseteq> {Exited} \<and> mset (accepted p) \<subseteq># image_mset fst (mset (ended p')))))"
  using pool_comes_to_rest_parts(1) [OF assms]
  by (intro conjI allI impI) (assumption, erule pool_comes_to_rest_parts(2) [OF assms], erule (1) pool_comes_to_rest_parts(3) [OF assms])

text \<open>
  Two workers, three tasks, and a fourth that comes after \<open>shutdown\<close> was called.
\<close>

definition demo_pool :: "nat thread_pool" where
  "demo_pool = submit 4 (shutdown (submit 3 (submit 2 (submit 1 (new_pool 2 8)))))"

lemma demo_pool_reachable: "reachable_pool demo_pool"
  unfolding demo_pool_def
  by (intro reachable_pool.Outside [OF _ outside_step.Submit] reachable_pool.Outside [OF _ outside_step.Shutdown]
      reachable_pool.Start) (simp add: submit_def new_pool_def)

lemma demo_pool_fields:
  "phase demo_pool = Stopping" "accepted demo_pool = [1, 2, 3]" "submitted demo_pool = [1, 2, 3, 4]"
  by (simp_all add: demo_pool_def submit_def shutdown_def new_pool_def)

lemma tasks_run_once_witness:
  "submitted demo_pool = begun demo_pool @ tasks (task_queue demo_pool) \<and> submitted demo_pool = [1, 2, 3, 4]"
  using tasks_run_once [OF demo_pool_reachable] demo_pool_fields(3) by (elim conjE) (intro conjI)

lemma pool_comes_to_rest_witness:
  "\<exists>n p'. n \<le> work_left demo_pool \<and> (pool_step ^^ n) demo_pool p' \<and> phase p' = Down
     \<and> {#1, 2, 3#} \<subseteq># image_mset fst (mset (ended p'))"
proof -
  obtain n p' where run: "(pool_step ^^ n) demo_pool p'" "\<forall>q. \<not> pool_step p' q"
    using pool_comes_to_rest [OF demo_pool_reachable] by (elim conjE exE)
  have "n \<le> work_left demo_pool \<and> (if phase demo_pool = Up
      then image_mset fst (mset (ended p')) = mset (submitted demo_pool) \<and> set (workers p') \<subseteq> {Waiting}
      else phase p' = Down \<and> set (workers p') \<subseteq> {Exited} \<and> mset (accepted demo_pool) \<subseteq># image_mset fst (mset (ended p')))"
    using pool_comes_to_rest [OF demo_pool_reachable, THEN conjunct2, rule_format, OF run(1)] run(2) by blast
  then show ?thesis
    using run
    by (intro exI [of _ n] exI [of _ p']) (simp add: demo_pool_fields add_mset_commute)
qed

end
