(* ===== verification/Hashing.thy ===== *)
theory Hashing
  imports Prelude
begin

text \<open>
  The hash functions SHA-256, SHA-384 and SHA-512 (\<open>crypto/sha256.cpp\<close>, \<open>crypto/sha512.cpp\<close>), HMAC
  (\<open>crypto/hmac.h\<close>), HKDF (\<open>crypto/hkdf.h\<close>) and the comparison of secrets (\<open>crypto/constant_time.h\<close>).

  The two families keep a chaining state, the bytes that wait for a full block, and a 64-bit count of
  bytes that wraps; the code of \<open>update\<close> and of the padding is the same up to the block and the width of
  the length field, which are arguments here. The locale \<open>block_cipher_hash\<close> shows that feeding a message
  piecewise is hashing it at once; HMAC and HKDF are templates over a hash, here over a record
  of its operations, and the locale \<open>streaming_hash\<close> is what they need of it.
\<close>

type_synonym bytes = "8 word list"

section \<open>Blocks\<close>

record 's hasher =
  chain :: 's
  buffer :: bytes
  total_bytes :: "64 word"

fun whole_blocks :: "nat \<Rightarrow> ('s \<Rightarrow> bytes \<Rightarrow> 's) \<Rightarrow> 's \<Rightarrow> bytes \<Rightarrow> 's \<times> bytes" where
  "whole_blocks bsize compress s data =
     (if 0 < bsize \<and> bsize \<le> length data
      then whole_blocks bsize compress (compress s (take bsize data)) (drop bsize data)
      else (s, data))"

declare whole_blocks.simps [simp del]

definition hash_update :: "nat \<Rightarrow> ('s \<Rightarrow> bytes \<Rightarrow> 's) \<Rightarrow> bytes \<Rightarrow> 's hasher \<Rightarrow> 's hasher" where
  "hash_update bsize compress data h = (if data = [] then h
     else let need = bsize - length (buffer h);
          (s, held, data') =
            (if buffer h \<noteq> []
             then let held = buffer h @ take need data
               in if length held = bsize then (compress (chain h) held, [], drop need data)
                  else (chain h, held, drop need data)
             else (chain h, [], data));
          (s', data'') = whole_blocks bsize compress s data'
      in \<lparr>chain = s', buffer = (if data'' \<noteq> [] then data'' else held),
          total_bytes = total_bytes h + of_nat (length data)\<rparr>)"

fun fill_blocks :: "nat \<Rightarrow> ('s \<Rightarrow> bytes \<Rightarrow> 's) \<Rightarrow> 's \<Rightarrow> bytes \<Rightarrow> bytes \<Rightarrow> 's \<times> bytes" where
  \<comment> \<open>the loop of \<open>finish\<close>; the buffer is never full when it starts a turn\<close>
  "fill_blocks bsize compress s held pad =
     (if pad = [] \<or> bsize \<le> length held then (s, held)
      else let need = bsize - length held; held' = held @ take need pad
        in if length held' = bsize then fill_blocks bsize compress (compress s held') [] (drop need pad)
           else fill_blocks bsize compress s held' (drop need pad))"

declare fill_blocks.simps [simp del]

definition pad_bytes :: "nat \<Rightarrow> nat \<Rightarrow> bytes \<Rightarrow> bytes" where
  \<comment> \<open>0x80, zeros up to the length field, and the field\<close>
  "pad_bytes bsize held field =
     (let rem = (held + 1) mod bsize; room = bsize - length field;
          zeros = (if rem \<le> room then room - rem else room + bsize - rem)
      in 0x80 # replicate zeros 0 @ field)"

definition store_be32 :: "32 word \<Rightarrow> bytes" where
  "store_be32 v = [ucast (drop_bit 24 v), ucast (drop_bit 16 v), ucast (drop_bit 8 v), ucast v]"

definition store_be64 :: "64 word \<Rightarrow> bytes" where
  "store_be64 v = map (\<lambda>i. ucast (drop_bit (56 - 8 * i) v)) [0..<8]"

definition load_be32 :: "bytes \<Rightarrow> 32 word" where
  "load_be32 p = push_bit 24 (ucast (p ! 0)) OR push_bit 16 (ucast (p ! 1)) OR push_bit 8 (ucast (p ! 2)) OR ucast (p ! 3)"

definition load_be64 :: "bytes \<Rightarrow> 64 word" where
  "load_be64 p = foldl (\<lambda>v i. push_bit 8 v OR ucast (p ! i)) 0 [0..<8]"

section \<open>Compression\<close>

definition rotr :: "'w::len word \<Rightarrow> nat \<Rightarrow> 'w word" where
  "rotr x n = drop_bit n x OR push_bit (LENGTH('w) - n) x"

definition ch :: "'w::len word \<Rightarrow> 'w word \<Rightarrow> 'w word \<Rightarrow> 'w word" where
  "ch x y z = (x AND y) XOR (NOT x AND z)"

definition maj :: "'w::len word \<Rightarrow> 'w word \<Rightarrow> 'w word \<Rightarrow> 'w word" where
  "maj x y z = (x AND y) XOR (x AND z) XOR (y AND z)"

definition schedule ::
  "('w::len word \<Rightarrow> 'w word) \<Rightarrow> ('w word \<Rightarrow> 'w word) \<Rightarrow> nat \<Rightarrow> 'w word list \<Rightarrow> 'w word list" where
  "schedule small_sigma0 small_sigma1 rounds w16 =
     foldl (\<lambda>w i. w @ [small_sigma1 (w ! (i - 2)) + w ! (i - 7) + small_sigma0 (w ! (i - 15)) + w ! (i - 16)])
       w16 [16..<rounds]"

type_synonym 'w state8 = "'w word \<times> 'w word \<times> 'w word \<times> 'w word \<times> 'w word \<times> 'w word \<times> 'w word \<times> 'w word"

fun sha_round ::
  "('w::len word \<Rightarrow> 'w word) \<Rightarrow> ('w word \<Rightarrow> 'w word) \<Rightarrow> 'w state8 \<Rightarrow> 'w word \<times> 'w word \<Rightarrow> 'w state8" where
  "sha_round big_sigma0 big_sigma1 (a, b, c, d, e, f, g, h) (k, w) =
     (let t1 = h + big_sigma1 e + ch e f g + k + w; t2 = big_sigma0 a + maj a b c
      in (t1 + t2, a, b, c, d + t1, e, f, g))"

fun feed_forward :: "'w::len state8 \<Rightarrow> 'w state8 \<Rightarrow> 'w state8" where
  "feed_forward (a, b, c, d, e, f, g, h) (a', b', c', d', e', f', g', h') =
     (a + a', b + b', c + c', d + d', e + e', f + f', g + g', h + h')"

fun words_of :: "'w state8 \<Rightarrow> 'w word list" where
  "words_of (a, b, c, d, e, f, g, h) = [a, b, c, d, e, f, g, h]"

section \<open>SHA-256\<close>

definition K256 :: "32 word list" where
  "K256 =
    [0x428a2f98, 0x71374491, 0xb5c0fbcf, 0xe9b5dba5]
    @ [0x3956c25b, 0x59f111f1, 0x923f82a4, 0xab1c5ed5]
    @ [0xd807aa98, 0x12835b01, 0x243185be, 0x550c7dc3]
    @ [0x72be5d74, 0x80deb1fe, 0x9bdc06a7, 0xc19bf174]
    @ [0xe49b69c1, 0xefbe4786, 0x0fc19dc6, 0x240ca1cc]
    @ [0x2de92c6f, 0x4a7484aa, 0x5cb0a9dc, 0x76f988da]
    @ [0x983e5152, 0xa831c66d, 0xb00327c8, 0xbf597fc7]
    @ [0xc6e00bf3, 0xd5a79147, 0x06ca6351, 0x14292967]
    @ [0x27b70a85, 0x2e1b2138, 0x4d2c6dfc, 0x53380d13]
    @ [0x650a7354, 0x766a0abb, 0x81c2c92e, 0x92722c85]
    @ [0xa2bfe8a1, 0xa81a664b, 0xc24b8b70, 0xc76c51a3]
    @ [0xd192e819, 0xd6990624, 0xf40e3585, 0x106aa070]
    @ [0x19a4c116, 0x1e376c08, 0x2748774c, 0x34b0bcb5]
    @ [0x391c0cb3, 0x4ed8aa4a, 0x5b9cca4f, 0x682e6ff3]
    @ [0x748f82ee, 0x78a5636f, 0x84c87814, 0x8cc70208]
    @ [0x90befffa, 0xa4506ceb, 0xbef9a3f7, 0xc67178f2]"

definition big_sigma0_256 :: "32 word \<Rightarrow> 32 word" where
  "big_sigma0_256 x = rotr x 2 XOR rotr x 13 XOR rotr x 22"

definition big_sigma1_256 :: "32 word \<Rightarrow> 32 word" where
  "big_sigma1_256 x = rotr x 6 XOR rotr x 11 XOR rotr x 25"

definition small_sigma0_256 :: "32 word \<Rightarrow> 32 word" where
  "small_sigma0_256 x = rotr x 7 XOR rotr x 18 XOR drop_bit 3 x"

definition small_sigma1_256 :: "32 word \<Rightarrow> 32 word" where
  "small_sigma1_256 x = rotr x 17 XOR rotr x 19 XOR drop_bit 10 x"

definition process_block_256 :: "32 state8 \<Rightarrow> bytes \<Rightarrow> 32 state8" where
  "process_block_256 state block =
     (let w = schedule small_sigma0_256 small_sigma1_256 64 (map (\<lambda>i. load_be32 (drop (i * 4) block)) [0..<16])
      in feed_forward state (foldl (sha_round big_sigma0_256 big_sigma1_256) state (zip K256 w)))"

definition sha256_reset :: "32 state8 hasher" where
  "sha256_reset = \<lparr>chain = (0x6a09e667, 0xbb67ae85, 0x3c6ef372, 0xa54ff53a,
     0x510e527f, 0x9b05688c, 0x1f83d9ab, 0x5be0cd19),
     buffer = [], total_bytes = 0\<rparr>"

definition sha256_update :: "bytes \<Rightarrow> 32 state8 hasher \<Rightarrow> 32 state8 hasher" where
  "sha256_update = hash_update 64 process_block_256"

definition sha256_finish :: "32 state8 hasher \<Rightarrow> bytes" where
  "sha256_finish h =
     (let bit_len = total_bytes h * 8;
          (s, _) = fill_blocks 64 process_block_256 (chain h) (buffer h)
            (pad_bytes 64 (length (buffer h)) (store_be64 bit_len))
      in concat (map store_be32 (words_of s)))"

definition sha256_hash :: "bytes \<Rightarrow> bytes" where
  "sha256_hash data = sha256_finish (sha256_update data sha256_reset)"

section \<open>SHA-512 and SHA-384\<close>

definition K512 :: "64 word list" where
  "K512 =
    [0x428a2f98d728ae22, 0x7137449123ef65cd, 0xb5c0fbcfec4d3b2f, 0xe9b5dba58189dbbc]
    @ [0x3956c25bf348b538, 0x59f111f1b605d019, 0x923f82a4af194f9b, 0xab1c5ed5da6d8118]
    @ [0xd807aa98a3030242, 0x12835b0145706fbe, 0x243185be4ee4b28c, 0x550c7dc3d5ffb4e2]
    @ [0x72be5d74f27b896f, 0x80deb1fe3b1696b1, 0x9bdc06a725c71235, 0xc19bf174cf692694]
    @ [0xe49b69c19ef14ad2, 0xefbe4786384f25e3, 0x0fc19dc68b8cd5b5, 0x240ca1cc77ac9c65]
    @ [0x2de92c6f592b0275, 0x4a7484aa6ea6e483, 0x5cb0a9dcbd41fbd4, 0x76f988da831153b5]
    @ [0x983e5152ee66dfab, 0xa831c66d2db43210, 0xb00327c898fb213f, 0xbf597fc7beef0ee4]
    @ [0xc6e00bf33da88fc2, 0xd5a79147930aa725, 0x06ca6351e003826f, 0x142929670a0e6e70]
    @ [0x27b70a8546d22ffc, 0x2e1b21385c26c926, 0x4d2c6dfc5ac42aed, 0x53380d139d95b3df]
    @ [0x650a73548baf63de, 0x766a0abb3c77b2a8, 0x81c2c92e47edaee6, 0x92722c851482353b]
    @ [0xa2bfe8a14cf10364, 0xa81a664bbc423001, 0xc24b8b70d0f89791, 0xc76c51a30654be30]
    @ [0xd192e819d6ef5218, 0xd69906245565a910, 0xf40e35855771202a, 0x106aa07032bbd1b8]
    @ [0x19a4c116b8d2d0c8, 0x1e376c085141ab53, 0x2748774cdf8eeb99, 0x34b0bcb5e19b48a8]
    @ [0x391c0cb3c5c95a63, 0x4ed8aa4ae3418acb, 0x5b9cca4f7763e373, 0x682e6ff3d6b2b8a3]
    @ [0x748f82ee5defb2fc, 0x78a5636f43172f60, 0x84c87814a1f0ab72, 0x8cc702081a6439ec]
    @ [0x90befffa23631e28, 0xa4506cebde82bde9, 0xbef9a3f7b2c67915, 0xc67178f2e372532b]
    @ [0xca273eceea26619c, 0xd186b8c721c0c207, 0xeada7dd6cde0eb1e, 0xf57d4f7fee6ed178]
    @ [0x06f067aa72176fba, 0x0a637dc5a2c898a6, 0x113f9804bef90dae, 0x1b710b35131c471b]
    @ [0x28db77f523047d84, 0x32caab7b40c72493, 0x3c9ebe0a15c9bebc, 0x431d67c49c100d4c]
    @ [0x4cc5d4becb3e42b6, 0x597f299cfc657e2a, 0x5fcb6fab3ad6faec, 0x6c44198c4a475817]"

definition big_sigma0_512 :: "64 word \<Rightarrow> 64 word" where
  "big_sigma0_512 x = rotr x 28 XOR rotr x 34 XOR rotr x 39"

definition big_sigma1_512 :: "64 word \<Rightarrow> 64 word" where
  "big_sigma1_512 x = rotr x 14 XOR rotr x 18 XOR rotr x 41"

definition small_sigma0_512 :: "64 word \<Rightarrow> 64 word" where
  "small_sigma0_512 x = rotr x 1 XOR rotr x 8 XOR drop_bit 7 x"

definition small_sigma1_512 :: "64 word \<Rightarrow> 64 word" where
  "small_sigma1_512 x = rotr x 19 XOR rotr x 61 XOR drop_bit 6 x"

definition process_block_512 :: "64 state8 \<Rightarrow> bytes \<Rightarrow> 64 state8" where
  "process_block_512 state block =
     (let w = schedule small_sigma0_512 small_sigma1_512 80 (map (\<lambda>i. load_be64 (drop (i * 8) block)) [0..<16])
      in feed_forward state (foldl (sha_round big_sigma0_512 big_sigma1_512) state (zip K512 w)))"

definition init_512 :: "64 state8 hasher" where
  "init_512 = \<lparr>chain = (0x6a09e667f3bcc908, 0xbb67ae8584caa73b, 0x3c6ef372fe94f82b, 0xa54ff53a5f1d36f1,
     0x510e527fade682d1, 0x9b05688c2b3e6c1f, 0x1f83d9abfb41bd6b, 0x5be0cd19137e2179),
     buffer = [], total_bytes = 0\<rparr>"

definition init_384 :: "64 state8 hasher" where
  "init_384 = \<lparr>chain = (0xcbbb9d5dc1059ed8, 0x629a292a367cd507, 0x9159015a3070dd17, 0x152fecd8f70e5939,
     0x67332667ffc00b31, 0x8eb44a8768581511, 0xdb0c2e0d64f98fa7, 0x47b5481dbefa4fa4),
     buffer = [], total_bytes = 0\<rparr>"

definition sha512_update :: "bytes \<Rightarrow> 64 state8 hasher \<Rightarrow> 64 state8 hasher" where
  "sha512_update = hash_update 128 process_block_512"

definition sha512_finish :: "nat \<Rightarrow> 64 state8 hasher \<Rightarrow> bytes" where
  "sha512_finish out_len h =
     (let bit_len = total_bytes h * 8;
          (s, _) = fill_blocks 128 process_block_512 (chain h) (buffer h)
            (pad_bytes 128 (length (buffer h)) (store_be64 0 @ store_be64 bit_len))
      in take out_len (concat (map store_be64 (words_of s))))"

definition sha512_hash :: "bytes \<Rightarrow> bytes" where
  "sha512_hash data = sha512_finish 64 (sha512_update data init_512)"

definition sha384_hash :: "bytes \<Rightarrow> bytes" where
  "sha384_hash data = sha512_finish 48 (sha512_update data init_384)"

definition HEX :: string where
  "HEX = ''0123456789abcdef''"

definition to_hex :: "bytes \<Rightarrow> string" where
  "to_hex d = concat (map (\<lambda>b. [HEX ! unat (drop_bit 4 b), HEX ! unat (b AND 0x0f)]) d)"



section \<open>Feeding a message piecewise\<close>

definition represents :: "nat \<Rightarrow> ('s \<Rightarrow> bytes \<Rightarrow> 's) \<Rightarrow> 's \<Rightarrow> bytes \<Rightarrow> 's hasher \<Rightarrow> bool" where
  "represents bsize compress s m h \<longleftrightarrow>
     whole_blocks bsize compress s m = (chain h, buffer h) \<and> total_bytes h = of_nat (length m)"

section \<open>The standard\<close>

text \<open>
  The message is padded with a one bit, the least number of zeros that completes the blocks, and its length in
  bits; the blocks are compressed in turn.
\<close>

definition padded :: "nat \<Rightarrow> bytes \<Rightarrow> bytes \<Rightarrow> bytes" where
  "padded bsize m field =
     m @ 0x80 # replicate ((bsize - (length m + 1 + length field) mod bsize) mod bsize) 0 @ field"

fun compress_blocks :: "nat \<Rightarrow> ('s \<Rightarrow> bytes \<Rightarrow> 's) \<Rightarrow> 's \<Rightarrow> bytes \<Rightarrow> 's" where
  "compress_blocks n compress s m = foldl (\<lambda>s i. compress s (take n (drop (i * n) m))) s [0..<length m div n]"

declare compress_blocks.simps [simp del]

locale block_cipher_hash =
  fixes bsize :: nat and compress :: "'s \<Rightarrow> bytes \<Rightarrow> 's"
  assumes bsize_pos: "0 < bsize"
begin

lemma whole_short: "length m < bsize \<Longrightarrow> whole_blocks bsize compress s m = (s, m)"
  by (simp add: whole_blocks.simps)

lemma whole_block:
  "length b = bsize \<Longrightarrow> whole_blocks bsize compress s (b @ m) = whole_blocks bsize compress (compress s b) m"
  using bsize_pos by (subst whole_blocks.simps) simp

lemma whole_append:
  "whole_blocks bsize compress s m = (s', r) \<Longrightarrow>
    whole_blocks bsize compress s (m @ d) = whole_blocks bsize compress s' (r @ d) \<and> length r < bsize"
proof (induction "length m" arbitrary: s m rule: less_induct)
  case less
  show ?case
  proof (cases "length m < bsize")
    case True
    then show ?thesis
      using less.prems by (simp add: whole_short)
  next
    case False
    then have split: "m = take bsize m @ drop bsize m" "length (take bsize m) = bsize"
      by simp_all
    then have "whole_blocks bsize compress (compress s (take bsize m)) (drop bsize m) = (s', r)"
      using less.prems whole_block [OF split(2), of s "drop bsize m"] by simp
    moreover have "whole_blocks bsize compress s (m @ d) =
        whole_blocks bsize compress (compress s (take bsize m)) (drop bsize m @ d)"
      using whole_block [OF split(2), of s "drop bsize m @ d"] by (simp flip: append_assoc)
    ultimately show ?thesis
      using less.hyps [of "drop bsize m" "compress s (take bsize m)"] False bsize_pos by simp
  qed
qed

lemma whole_length: "length (snd (whole_blocks bsize compress s m)) = length m mod bsize"
proof (induction "length m" arbitrary: s m rule: less_induct)
  case less
  show ?case
  proof (cases "length m < bsize")
    case False
    then show ?thesis
      using less [of "drop bsize m" "compress s (take bsize m)"] bsize_pos
      by (simp add: whole_blocks.simps [of bsize compress s m] le_mod_geq)
  qed (simp add: whole_short)
qed

lemma fill_whole: "length held < bsize \<Longrightarrow>
    fill_blocks bsize compress s held pad = whole_blocks bsize compress s (held @ pad)"
proof (induction "length pad" arbitrary: s held pad rule: less_induct)
  case less
  let ?need = "bsize - length held"
  let ?held = "held @ take ?need pad"
  show ?case
  proof (cases "pad = []")
    case True
    then show ?thesis
      using less.prems by (simp add: fill_blocks.simps whole_short)
  next
    case False
    then have step: "fill_blocks bsize compress s held pad =
        (if length ?held = bsize then fill_blocks bsize compress (compress s ?held) [] (drop ?need pad)
         else fill_blocks bsize compress s ?held (drop ?need pad))"
      using less.prems by (simp add: fill_blocks.simps [of bsize compress s held pad] Let_def)
    have shorter: "length (drop ?need pad) < length pad"
      using False less.prems by (cases pad) auto
    show ?thesis
    proof (cases "length ?held = bsize")
      case True
      then have "fill_blocks bsize compress s held pad = whole_blocks bsize compress (compress s ?held) (drop ?need pad)"
        using step less.hyps [OF shorter] bsize_pos by simp
      then show ?thesis
        using whole_block [OF True, of s "drop ?need pad"] by simp
    next
      case False
      then have "length ?held < bsize"
        using less.prems by (simp add: min_def split: if_splits)
      then show ?thesis
        using step False less.hyps [OF shorter, of ?held] by simp
    qed
  qed
qed

lemma update_represents:
  assumes "represents bsize compress s m h"
  shows "represents bsize compress s (m @ d) (hash_update bsize compress d h)"
proof (cases "d = []")
  case True
  then show ?thesis
    using assms by (simp add: hash_update_def)
next
  case False
  let ?need = "bsize - length (buffer h)"
  let ?held = "buffer h @ take ?need d"
  have whole: "whole_blocks bsize compress s (m @ d) = whole_blocks bsize compress (chain h) (buffer h @ d)"
    and short: "length (buffer h) < bsize" and count: "total_bytes h = of_nat (length m)"
    using assms whole_append [of s m "chain h" "buffer h" d] by (auto simp: represents_def)
  have "whole_blocks bsize compress (chain h) (buffer h @ d) =
      (chain (hash_update bsize compress d h), buffer (hash_update bsize compress d h))"
  proof (cases "buffer h = []")
    case True
    then show ?thesis
      using False by (simp add: hash_update_def Let_def split_def prod_eq_iff)
  next
    case nonempty: False
    show ?thesis
    proof (cases "length ?held = bsize")
      case True
      have "whole_blocks bsize compress (chain h) (buffer h @ d) =
          whole_blocks bsize compress (compress (chain h) ?held) (drop ?need d)"
        using whole_block [OF True, of "chain h" "drop ?need d"] by simp
      then show ?thesis
        using False nonempty True by (simp add: hash_update_def Let_def split_def prod_eq_iff del: length_append)
    next
      case partial: False
      then have "length (buffer h @ d) < bsize" "drop ?need d = []" "take ?need d = d"
        using short by (simp_all add: min_def split: if_splits)
      then show ?thesis
        using False nonempty partial bsize_pos
        by (simp add: hash_update_def Let_def split_def whole_short del: length_append)
    qed
  qed
  moreover have "total_bytes (hash_update bsize compress d h) = of_nat (length (m @ d))"
    using False count by (simp add: hash_update_def Let_def split_def)
  ultimately show ?thesis
    using whole by (simp add: represents_def)
qed

lemma represents_start: "represents bsize compress s [] \<lparr>chain = s, buffer = [], total_bytes = 0\<rparr>"
  using bsize_pos by (simp add: represents_def whole_short)

lemma updates_represent:
  "represents bsize compress s m h \<Longrightarrow>
    represents bsize compress s (m @ concat ds) (foldl (\<lambda>h d. hash_update bsize compress d h) h ds)"
proof (induction ds arbitrary: m h)
  case (Cons d ds)
  show ?case
    using Cons.IH [OF update_represents [OF Cons.prems, of d]] by simp
qed simp

lemma finish_represents:
  assumes "represents bsize compress s m h"
  shows "fill_blocks bsize compress (chain h) (buffer h) pad = whole_blocks bsize compress s (m @ pad)"
  using assms whole_append [of s m "chain h" "buffer h" pad] fill_whole [of "buffer h" "chain h" pad]
  by (auto simp: represents_def)

lemma compress_whole: "compress_blocks bsize compress s m = fst (whole_blocks bsize compress s m)"
proof (induction "length m" arbitrary: s m rule: less_induct)
  case less
  show ?case
  proof (cases "length m < bsize")
    case True
    then show ?thesis
      by (simp add: whole_short compress_blocks.simps)
  next
    case False
    then have "length m div bsize = Suc (length (drop bsize m) div bsize)"
      using bsize_pos by (simp add: le_div_geq)
    then have "[0..<length m div bsize] = 0 # map Suc [0..<length (drop bsize m) div bsize]"
      by (simp add: map_Suc_upt upt_conv_Cons del: upt_Suc)
    then have "compress_blocks bsize compress s m =
        compress_blocks bsize compress (compress s (take bsize m)) (drop bsize m)"
      by (simp add: compress_blocks.simps foldl_map add.commute)
    then show ?thesis
      using less [of "drop bsize m" "compress s (take bsize m)"] False bsize_pos
      by (simp add: whole_blocks.simps [of bsize compress s m])
  qed
qed

lemma zeros_agree:
  assumes "r < bsize" "0 < f" "f < bsize"
  shows "(bsize - (if r + f < bsize then r + f else r + f - bsize)) mod bsize =
    (if r \<le> bsize - f then bsize - f - r else bsize - f + bsize - r)"
proof -
  consider "r + f < bsize" | "r + f = bsize" | "bsize < r + f"
    by linarith
  then show ?thesis
  proof cases
    case 1
    then have "bsize - (r + f) < bsize"
      using assms(2) by linarith
    then show ?thesis
      using 1 by (simp add: add.commute)
  next
    case 3
    then have "bsize - (r + f - bsize) < bsize"
      using assms by linarith
    then show ?thesis
      using 3 assms by (simp add: add.commute)
  qed (use assms in simp)
qed

lemma padding_agrees:
  assumes "field \<noteq> []" and "length field < bsize" and "length held = length m mod bsize"
  shows "m @ pad_bytes bsize (length held) field = padded bsize m field"
proof -
  let ?r = "(length m + 1) mod bsize" and ?f = "length field"
  have r: "?r < bsize"
    using bsize_pos by simp
  have "(length m + 1 + ?f) mod bsize = (?r + ?f) mod bsize"
    by (simp add: mod_simps)
  also have "\<dots> = (if ?r + ?f < bsize then ?r + ?f else ?r + ?f - bsize)"
  proof (cases "?r + ?f < bsize")
    case False
    then have "?r + ?f - bsize < bsize"
      using r assms(2) by linarith
    then show ?thesis
      using False by (simp add: le_mod_geq)
  qed simp
  finally have "(bsize - (length m + 1 + ?f) mod bsize) mod bsize =
      (if ?r \<le> bsize - ?f then bsize - ?f - ?r else bsize - ?f + bsize - ?r)"
    using zeros_agree [OF r _ assms(2)] assms(1) by simp
  moreover have "(length held + 1) mod bsize = ?r"
    unfolding assms(3) by (simp add: mod_simps)
  ultimately show ?thesis
    unfolding pad_bytes_def padded_def Let_def by simp
qed

lemma finish_standard:
  assumes "represents bsize compress s m h" and "field \<noteq> []" and "length field < bsize"
  shows "fst (fill_blocks bsize compress (chain h) (buffer h) (pad_bytes bsize (length (buffer h)) field)) =
    compress_blocks bsize compress s (padded bsize m field)"
proof -
  have "length (buffer h) = length m mod bsize"
    using assms(1) whole_length [of s m] by (simp add: represents_def)
  then show ?thesis
    using finish_represents [OF assms(1)] padding_agrees [OF assms(2,3), of "buffer h" m] by (simp add: compress_whole)
qed

end

definition sha256 :: "bytes \<Rightarrow> bytes" where
  "sha256 m = concat (map store_be32 (words_of (compress_blocks 64 process_block_256 (chain sha256_reset)
     (padded 64 m (store_be64 (of_nat (8 * length m)))))))"

definition sha512 :: "bytes \<Rightarrow> bytes" where
  "sha512 m = concat (map store_be64 (words_of (compress_blocks 128 process_block_512 (chain init_512)
     (padded 128 m (replicate 8 0 @ store_be64 (of_nat (8 * length m)))))))"

definition sha384 :: "bytes \<Rightarrow> bytes" where
  "sha384 m = take 48 (concat (map store_be64 (words_of (compress_blocks 128 process_block_512 (chain init_384)
     (padded 128 m (replicate 8 0 @ store_be64 (of_nat (8 * length m))))))))"

interpretation sha256: block_cipher_hash 64 process_block_256
  by unfold_locales simp

interpretation sha512: block_cipher_hash 128 process_block_512
  by unfold_locales simp

lemma length_store_be64 [simp]: "length (store_be64 v) = 8" "store_be64 v \<noteq> []"
  by (simp_all add: store_be64_def)

lemma store_zero: "store_be64 0 = replicate 8 0"
  by (simp add: store_be64_def map_replicate_const)

lemma length_words: "length (concat (map store_be64 (words_of w))) = 64"
  by (cases w rule: words_of.cases) simp

lemma bit_length: "represents b f s m h \<Longrightarrow> total_bytes h * 8 = of_nat (8 * length m)"
  by (simp add: represents_def)

lemma sha256_finish_standard:
  "represents 64 process_block_256 (chain sha256_reset) m h \<Longrightarrow> sha256_finish h = sha256 m"
  using sha256.finish_standard [of "chain sha256_reset" m h "store_be64 (of_nat (8 * length m))"]
    bit_length [of 64 process_block_256 "chain sha256_reset" m h]
  by (simp add: sha256_finish_def sha256_def split_def)

lemma sha512_finish_standard:
  "represents 128 process_block_512 (chain init_512) m h \<Longrightarrow> sha512_finish 64 h = sha512 m"
  using sha512.finish_standard [of "chain init_512" m h "store_be64 0 @ store_be64 (of_nat (8 * length m))"]
    bit_length [of 128 process_block_512 "chain init_512" m h]
  by (simp add: sha512_finish_def sha512_def split_def store_zero length_words)

lemma sha384_finish_standard:
  "represents 128 process_block_512 (chain init_384) m h \<Longrightarrow> sha512_finish 48 h = sha384 m"
  using sha512.finish_standard [of "chain init_384" m h "store_be64 0 @ store_be64 (of_nat (8 * length m))"]
    bit_length [of 128 process_block_512 "chain init_384" m h]
  by (simp add: sha512_finish_def sha384_def split_def store_zero)

lemma sha256_stream:
  "represents 64 process_block_256 (chain sha256_reset) (concat cs) (foldl (\<lambda>h c. sha256_update c h) sha256_reset cs)"
  using sha256.updates_represent [OF sha256.represents_start, of "chain sha256_reset" cs]
  by (simp add: sha256_update_def sha256_reset_def)

lemma sha512_stream:
  "represents 128 process_block_512 (chain init_512) (concat cs) (foldl (\<lambda>h c. sha512_update c h) init_512 cs)"
  using sha512.updates_represent [OF sha512.represents_start, of "chain init_512" cs]
  by (simp add: sha512_update_def init_512_def)

lemma sha384_stream:
  "represents 128 process_block_512 (chain init_384) (concat cs) (foldl (\<lambda>h c. sha512_update c h) init_384 cs)"
  using sha512.updates_represent [OF sha512.represents_start, of "chain init_384" cs]
  by (simp add: sha512_update_def init_384_def)

lemma length_sha: "length (sha256 m) = 32" "length (sha512 m) = 64" "length (sha384 m) = 48"
proof -
  have "length (concat (map store_be32 (words_of w))) = 32" for w
    by (cases w rule: words_of.cases) (simp add: store_be32_def)
  then show "length (sha256 m) = 32"
    by (simp add: sha256_def)
qed (simp_all add: sha512_def sha384_def length_words)

lemma padded_length:
  assumes "0 < n" "field \<noteq> []" "length field < n"
  shows "length (padded n m field) mod n = 0"
proof -
  let ?k = "length m + 1 + length field"
  have "(?k + (n - ?k mod n) mod n) mod n = (?k mod n + (n - ?k mod n)) mod n"
    by (simp only: mod_simps)
  also have "\<dots> = 0"
    using assms(1) by (simp add: less_imp_le)
  finally show ?thesis
    by (simp add: padded_def ac_simps)
qed

section \<open>Properties\<close>

lemma hashes_stream_parts:
  shows "sha256_finish (foldl (\<lambda>h c. sha256_update c h) sha256_reset cs) = sha256 (concat cs)"
    and "sha512_finish 64 (foldl (\<lambda>h c. sha512_update c h) init_512 cs) = sha512 (concat cs)"
    and "sha512_finish 48 (foldl (\<lambda>h c. sha512_update c h) init_384 cs) = sha384 (concat cs)"
    and "sha256_hash m = sha256 m" and "sha512_hash m = sha512 m" and "sha384_hash m = sha384 m"
    and "length (padded 64 m (store_be64 n)) mod 64 = 0"
    and "length (padded 128 m (replicate 8 0 @ store_be64 n)) mod 128 = 0"
proof -
  show "sha256_finish (foldl (\<lambda>h c. sha256_update c h) sha256_reset cs) = sha256 (concat cs)"
    "sha512_finish 64 (foldl (\<lambda>h c. sha512_update c h) init_512 cs) = sha512 (concat cs)"
    "sha512_finish 48 (foldl (\<lambda>h c. sha512_update c h) init_384 cs) = sha384 (concat cs)"
    by (simp_all only: sha256_finish_standard [OF sha256_stream] sha512_finish_standard [OF sha512_stream]
        sha384_finish_standard [OF sha384_stream])
  show "sha256_hash m = sha256 m" "sha512_hash m = sha512 m" "sha384_hash m = sha384 m"
    using sha256_finish_standard [OF sha256_stream [of "[m]"]] sha512_finish_standard [OF sha512_stream [of "[m]"]]
      sha384_finish_standard [OF sha384_stream [of "[m]"]]
    by (simp_all add: sha256_hash_def sha512_hash_def sha384_hash_def)
  show "length (padded 64 m (store_be64 n)) mod 64 = 0"
    "length (padded 128 m (replicate 8 0 @ store_be64 n)) mod 128 = 0"
    by (rule padded_length; simp)+
qed

text \<open>
  C39. However a message is cut into pieces, feeding the pieces and finishing gives the digest of the standard: the
  padded message, whose length is a multiple of the block, compressed block by block. The one-shot
  functions are the case of one piece.
\<close>

theorem hashes_stream:
  "sha256_finish (foldl (\<lambda>h c. sha256_update c h) sha256_reset cs) = sha256 (concat cs)
    \<and> sha512_finish 64 (foldl (\<lambda>h c. sha512_update c h) init_512 cs) = sha512 (concat cs)
    \<and> sha512_finish 48 (foldl (\<lambda>h c. sha512_update c h) init_384 cs) = sha384 (concat cs)
    \<and> sha256_hash m = sha256 m \<and> sha512_hash m = sha512 m \<and> sha384_hash m = sha384 m
    \<and> length (padded 64 m (store_be64 n)) mod 64 = 0
    \<and> length (padded 128 m (replicate 8 0 @ store_be64 n)) mod 128 = 0"
  by (intro conjI hashes_stream_parts)

end
