(* ===== verification/Hmac.thy ===== *)
theory Hmac
  imports Hashing
begin

text \<open>
  HMAC (\<open>crypto/hmac.h\<close>) and HKDF (\<open>crypto/hkdf.h\<close>), templates over a hash, and the comparison of secrets
  (\<open>crypto/constant_time.h\<close>). The template parameter is a record of the operations the templates call. The locale
  \<open>streaming_hash\<close> is what they need of it; the three hashes of theory \<open>Hashing\<close> provide it.
\<close>

section \<open>The templates\<close>

record 's hash_type =
  fresh :: 's
  feed :: "bytes \<Rightarrow> 's \<Rightarrow> 's"
  digest :: "'s \<Rightarrow> bytes"
  block_size :: nat
  digest_size :: nat

definition SHA256 :: "32 state8 hasher hash_type" where
  "SHA256 = \<lparr>fresh = sha256_reset, feed = sha256_update, digest = sha256_finish, block_size = 64, digest_size = 32\<rparr>"

definition SHA384 :: "64 state8 hasher hash_type" where
  "SHA384 = \<lparr>fresh = init_384, feed = sha512_update, digest = sha512_finish 48, block_size = 128, digest_size = 48\<rparr>"

definition SHA512 :: "64 state8 hasher hash_type" where
  "SHA512 = \<lparr>fresh = init_512, feed = sha512_update, digest = sha512_finish 64, block_size = 128, digest_size = 64\<rparr>"

definition one_shot :: "'s hash_type \<Rightarrow> bytes \<Rightarrow> bytes" where
  "one_shot ht data = digest ht (feed ht data (fresh ht))"

record 's hmac =
  inner :: 's
  o_key_pad :: bytes

definition k_prime :: "'s hash_type \<Rightarrow> bytes \<Rightarrow> bytes" where
  "k_prime ht key =
     (let k = (if length key > block_size ht then one_shot ht key else key)
      in k @ replicate (block_size ht - length k) 0)"

definition hmac_init :: "'s hash_type \<Rightarrow> bytes \<Rightarrow> 's hmac" where
  "hmac_init ht key = \<lparr>inner = feed ht (map (\<lambda>b. b XOR 0x36) (k_prime ht key)) (fresh ht),
     o_key_pad = map (\<lambda>b. b XOR 0x5c) (k_prime ht key)\<rparr>"

definition hmac_update :: "'s hash_type \<Rightarrow> bytes \<Rightarrow> 's hmac \<Rightarrow> 's hmac" where
  "hmac_update ht data h = h\<lparr>inner := feed ht data (inner h)\<rparr>"

definition hmac_finish :: "'s hash_type \<Rightarrow> 's hmac \<Rightarrow> bytes" where
  "hmac_finish ht h =
     (let inner_digest = digest ht (inner h)
      in digest ht (feed ht inner_digest (feed ht (o_key_pad h) (fresh ht))))"

definition hmac_mac :: "'s hash_type \<Rightarrow> bytes \<Rightarrow> bytes \<Rightarrow> bytes" where
  "hmac_mac ht key data = hmac_finish ht (hmac_update ht data (hmac_init ht key))"

definition constant_time_equals :: "bytes \<Rightarrow> bytes \<Rightarrow> bool" where
  \<comment> \<open>of two ranges of one length\<close>
  "constant_time_equals a b \<longleftrightarrow> foldl (\<lambda>diff (x, y). diff OR (x XOR y)) 0 (zip a b) = 0"

definition constant_time_equals_checked :: "bytes \<Rightarrow> bytes \<Rightarrow> bool" where
  "constant_time_equals_checked a b \<longleftrightarrow> (if length a \<noteq> length b then False else constant_time_equals a b)"

definition hmac_verify :: "'s hash_type \<Rightarrow> bytes \<Rightarrow> bytes \<Rightarrow> bytes \<Rightarrow> bool" where
  "hmac_verify ht key data expected_mac \<longleftrightarrow>
     (if length expected_mac \<noteq> digest_size ht then False
      else constant_time_equals (hmac_mac ht key data) expected_mac)"

definition hkdf_extract :: "'s hash_type \<Rightarrow> bytes \<Rightarrow> bytes \<Rightarrow> bytes" where
  "hkdf_extract ht salt ikm = hmac_mac ht (if salt = [] then replicate (digest_size ht) 0 else salt) ikm"

fun expand_step :: "'s hash_type \<Rightarrow> bytes \<Rightarrow> bytes \<Rightarrow> nat \<Rightarrow> bytes \<times> bytes \<Rightarrow> nat \<Rightarrow> bytes \<times> bytes" where
  "expand_step ht prk info len (t, okm) i =
     (let h = hmac_init ht prk;
          h = (if i > 1 then hmac_update ht t h else h);
          h = (if info \<noteq> [] then hmac_update ht info h else h);
          h = hmac_update ht [of_nat i] h;
          t = hmac_finish ht h
      in (t, okm @ take (min (len - length okm) (digest_size ht)) t))"

definition hkdf_expand :: "'s hash_type \<Rightarrow> bytes \<Rightarrow> bytes \<Rightarrow> nat \<Rightarrow> bytes" where
  "hkdf_expand ht prk info len =
     (if len = 0 then []
      else let n = (len + digest_size ht - 1) div digest_size ht
        in if n > 255 then []
           else snd (foldl (expand_step ht prk info len) ([], []) [1..<n + 1]))"

definition hkdf_derive :: "'s hash_type \<Rightarrow> bytes \<Rightarrow> bytes \<Rightarrow> bytes \<Rightarrow> nat \<Rightarrow> bytes" where
  "hkdf_derive ht salt ikm info len = hkdf_expand ht (hkdf_extract ht salt ikm) info len"

definition expand_label :: "'s hash_type \<Rightarrow> bytes \<Rightarrow> string \<Rightarrow> nat \<Rightarrow> bytes" where
  "expand_label ht prk label len = hkdf_expand ht prk (map of_char label) len"

section \<open>The standards\<close>

definition HMAC :: "(bytes \<Rightarrow> bytes) \<Rightarrow> nat \<Rightarrow> bytes \<Rightarrow> bytes \<Rightarrow> bytes" where
  "HMAC H b key m =
     (let k = (if b < length key then H key else key); k' = k @ replicate (b - length k) 0
      in H (map (\<lambda>x. x XOR 0x5c) k' @ H (map (\<lambda>x. x XOR 0x36) k' @ m)))"

fun okm_block :: "(bytes \<Rightarrow> bytes) \<Rightarrow> bytes \<Rightarrow> nat \<Rightarrow> bytes" where
  "okm_block mac info 0 = []"
| "okm_block mac info (Suc i) = mac (okm_block mac info i @ info @ [of_nat (Suc i)])"

definition HKDF :: "(bytes \<Rightarrow> bytes) \<Rightarrow> bytes \<Rightarrow> nat \<Rightarrow> nat \<Rightarrow> bytes" where
  "HKDF mac info h len = take len (concat (map (okm_block mac info) [1..<Suc ((len + h - 1) div h)]))"

section \<open>Comparing secrets\<close>

lemma accumulated:
  "foldl (\<lambda>diff (x, y). diff OR (x XOR y)) d ps = 0 \<longleftrightarrow> d = (0 :: 8 word) \<and> (\<forall>(x, y) \<in> set ps. x = y)"
proof (induction ps arbitrary: d)
  case (Cons p ps)
  have "d OR (x XOR y) = 0 \<longleftrightarrow> d = 0 \<and> x = y" for x y :: "8 word"
  proof
    assume zero: "d OR (x XOR y) = 0"
    have "bit d n = False \<and> bit x n = bit y n" if "n < LENGTH(8)" for n
      using bit_or_iff [of d "x XOR y" n] that unfolding zero by (auto simp: bit_xor_iff)
    then show "d = 0 \<and> x = y"
      by (auto intro!: bit_word_eqI)
  qed simp
  then show ?case
    using Cons.IH by (auto split: prod.splits)
qed simp

lemma constant_time_equals_iff:
  assumes "length a = length b"
  shows "constant_time_equals a b \<longleftrightarrow> a = b"
proof -
  have "constant_time_equals a b \<longleftrightarrow> (\<forall>(x, y) \<in> set (zip a b). x = y)"
    by (simp only: constant_time_equals_def accumulated simp_thms)
  also have "\<dots> \<longleftrightarrow> a = b"
    using assms by (induction a b rule: list_induct2) auto
  finally show ?thesis .
qed

section \<open>Streaming hashes\<close>

locale streaming_hash =
  fixes ht :: "'s hash_type" and H :: "bytes \<Rightarrow> bytes"
  assumes stream: "digest ht (foldl (\<lambda>s c. feed ht c s) (fresh ht) cs) = H (concat cs)"
    and length_H: "length (H m) = digest_size ht"
    and digest_pos: "0 < digest_size ht"
begin

lemma one_shot_H: "one_shot ht m = H m"
  using stream [of "[m]"] by (simp add: one_shot_def)

lemma hmac_stream:
  "hmac_finish ht (foldl (\<lambda>h c. hmac_update ht c h) (hmac_init ht key) cs) = HMAC H (block_size ht) key (concat cs)"
proof -
  let ?i = "map (\<lambda>b. b XOR 0x36) (k_prime ht key)" and ?o = "map (\<lambda>b. b XOR 0x5c) (k_prime ht key)"
  have "foldl (\<lambda>h c. hmac_update ht c h) h cs = h\<lparr>inner := foldl (\<lambda>s c. feed ht c s) (inner h) cs\<rparr>" for h
    by (induction cs arbitrary: h) (simp_all add: hmac_update_def)
  then have "hmac_finish ht (foldl (\<lambda>h c. hmac_update ht c h) (hmac_init ht key) cs) =
      digest ht (feed ht (digest ht (foldl (\<lambda>s c. feed ht c s) (fresh ht) (?i # cs))) (feed ht ?o (fresh ht)))"
    by (simp add: hmac_finish_def hmac_init_def)
  also have "\<dots> = digest ht (foldl (\<lambda>s c. feed ht c s) (fresh ht) [?o, H (?i @ concat cs)])"
    using stream [of "?i # cs"] by simp
  also have "\<dots> = H (?o @ H (?i @ concat cs))"
    unfolding stream by simp
  finally show ?thesis
    by (simp add: HMAC_def k_prime_def one_shot_H Let_def)
qed

lemma mac_stream: "hmac_mac ht key m = HMAC H (block_size ht) key m"
  using hmac_stream [of key "[m]"] by (simp add: hmac_mac_def)

lemma length_mac: "length (HMAC H b key m) = digest_size ht"
  by (simp add: HMAC_def length_H Let_def)

lemma verify_iff: "hmac_verify ht key m t \<longleftrightarrow> t = HMAC H (block_size ht) key m"
  using constant_time_equals_iff [of "HMAC H (block_size ht) key m" t]
  by (auto simp: hmac_verify_def mac_stream length_mac)

lemma expand_round:
  "(let h = hmac_init ht prk;
        h = (if i > 1 then hmac_update ht t h else h);
        h = (if info \<noteq> [] then hmac_update ht info h else h);
        h = hmac_update ht [b] h
    in hmac_finish ht h) = HMAC H (block_size ht) prk ((if i > 1 then t else []) @ info @ [b])" for i :: nat
  using hmac_stream [of prk "[t, info, [b]]"] hmac_stream [of prk "[t, [b]]"] hmac_stream [of prk "[info, [b]]"]
    hmac_stream [of prk "[[b]]"] by (auto simp: Let_def)

lemma length_okm_block: "0 < i \<Longrightarrow> length (okm_block (HMAC H (block_size ht) prk) info i) = digest_size ht"
  by (cases i) (simp_all add: length_mac)

lemma length_okm_blocks:
  "length (concat (map (okm_block (HMAC H (block_size ht) prk) info) [1..<Suc n])) = n * digest_size ht"
  by (induction n) (simp_all add: length_okm_block length_mac)

lemma expand_rounds:
  "foldl (expand_step ht prk info len) ([], []) [1..<Suc k] =
    (okm_block (HMAC H (block_size ht) prk) info k,
     take len (concat (map (okm_block (HMAC H (block_size ht) prk) info) [1..<Suc k])))"
proof (induction k)
  case (Suc k)
  let ?T = "okm_block (HMAC H (block_size ht) prk) info"
  let ?C = "concat (map ?T [1..<Suc k])"
  have "HMAC H (block_size ht) prk ((if Suc k > 1 then ?T k else []) @ info @ [of_nat (Suc k)]) = ?T (Suc k)"
    by (cases k) simp_all
  moreover have "take len ?C @ take (min (len - length (take len ?C)) (digest_size ht)) (?T (Suc k)) = take len (?C @ ?T (Suc k))"
    using length_okm_block [of "Suc k" prk info] by (simp add: min_def del: okm_block.simps)
  moreover have "[1..<Suc (Suc k)] = [1..<Suc k] @ [Suc k]"
    by simp
  ultimately show ?case
    using expand_round [of prk "Suc k" "?T k" info "of_nat (Suc k)"] Suc.IH
    by (simp only: foldl_append foldl.simps expand_step.simps Let_def map_append concat_append list.map concat.simps append_Nil2)
qed simp

lemma expand_stream:
  "hkdf_expand ht prk info len =
    (if len \<le> 255 * digest_size ht then HKDF (HMAC H (block_size ht) prk) info (digest_size ht) len else [])"
proof -
  let ?n = "(len + digest_size ht - 1) div digest_size ht"
  have "?n \<le> 255 \<longleftrightarrow> len \<le> 255 * digest_size ht"
  proof -
    have "?n < 256 \<longleftrightarrow> len + digest_size ht - 1 < 256 * digest_size ht"
      using digest_pos by (simp add: div_less_iff_less_mult)
    then show ?thesis
      using digest_pos by linarith
  qed
  then show ?thesis
    using expand_rounds [of prk info len ?n]
    by (cases "len = 0") (auto simp: hkdf_expand_def HKDF_def Let_def simp del: upt_Suc)
qed

lemma length_okm:
  assumes "len \<le> 255 * digest_size ht"
  shows "length (hkdf_expand ht prk info len) = len"
proof -
  let ?n = "(len + digest_size ht - 1) div digest_size ht"
  have "len + digest_size ht - 1 < ?n * digest_size ht + digest_size ht"
    using dividend_less_div_times [OF digest_pos, of "len + digest_size ht - 1"] by simp
  then show ?thesis
    using assms length_okm_blocks [of prk info ?n] digest_pos
    unfolding expand_stream HKDF_def by simp
qed

end

interpretation sha256: streaming_hash SHA256 sha256
  by unfold_locales (simp_all add: SHA256_def sha256_stream sha256_finish_standard length_sha)

interpretation sha384: streaming_hash SHA384 sha384
  by unfold_locales (simp_all add: SHA384_def sha384_stream sha384_finish_standard length_sha)

interpretation sha512: streaming_hash SHA512 sha512
  by unfold_locales (simp_all add: SHA512_def sha512_stream sha512_finish_standard length_sha)

lemma sizes [simp]:
  "block_size SHA256 = 64" "block_size SHA384 = 128" "block_size SHA512 = 128"
  "digest_size SHA256 = 32" "digest_size SHA384 = 48" "digest_size SHA512 = 64"
  by (simp_all add: SHA256_def SHA384_def SHA512_def)

section \<open>Properties\<close>

lemma hmac_standard_parts:
  shows "hmac_finish SHA256 (foldl (\<lambda>h c. hmac_update SHA256 c h) (hmac_init SHA256 key) cs) = HMAC sha256 64 key (concat cs)"
    and "hmac_finish SHA384 (foldl (\<lambda>h c. hmac_update SHA384 c h) (hmac_init SHA384 key) cs) = HMAC sha384 128 key (concat cs)"
    and "hmac_finish SHA512 (foldl (\<lambda>h c. hmac_update SHA512 c h) (hmac_init SHA512 key) cs) = HMAC sha512 128 key (concat cs)"
    and "hmac_verify SHA256 key m t \<longleftrightarrow> t = HMAC sha256 64 key m"
    and "hmac_verify SHA384 key m t \<longleftrightarrow> t = HMAC sha384 128 key m"
    and "hmac_verify SHA512 key m t \<longleftrightarrow> t = HMAC sha512 128 key m"
  using sha256.hmac_stream sha384.hmac_stream sha512.hmac_stream
    sha256.verify_iff sha384.verify_iff sha512.verify_iff by simp_all

text \<open>
  C38. The message authentication code of a message fed in pieces is that of RFC 2104 over the standard hashes,
  and \<open>verify\<close> accepts exactly this code: a tag of another length or with any bit
  changed is refused, although the comparison never stops early.
\<close>

theorem hmac_standard:
  "hmac_finish SHA256 (foldl (\<lambda>h c. hmac_update SHA256 c h) (hmac_init SHA256 key) cs) = HMAC sha256 64 key (concat cs)
    \<and> hmac_finish SHA384 (foldl (\<lambda>h c. hmac_update SHA384 c h) (hmac_init SHA384 key) cs) = HMAC sha384 128 key (concat cs)
    \<and> hmac_finish SHA512 (foldl (\<lambda>h c. hmac_update SHA512 c h) (hmac_init SHA512 key) cs) = HMAC sha512 128 key (concat cs)
    \<and> (hmac_verify SHA256 key m t \<longleftrightarrow> t = HMAC sha256 64 key m)
    \<and> (hmac_verify SHA384 key m t \<longleftrightarrow> t = HMAC sha384 128 key m)
    \<and> (hmac_verify SHA512 key m t \<longleftrightarrow> t = HMAC sha512 128 key m)"
  by (intro conjI hmac_standard_parts)

text \<open>
  The expansion of a key is that of RFC 5869: the blocks, each the code of the previous
  block, the label and its number, cut to the length asked for; up to 255 blocks the answer has exactly this length, and
  beyond them, where the number of a block would not fit its byte, it is empty.
\<close>

lemma hkdf_standard:
  shows "hkdf_expand SHA256 prk info len = (if len \<le> 255 * 32 then HKDF (HMAC sha256 64 prk) info 32 len else [])"
    and "hkdf_expand SHA384 prk info len = (if len \<le> 255 * 48 then HKDF (HMAC sha384 128 prk) info 48 len else [])"
    and "length (hkdf_expand SHA256 prk info len) = (if len \<le> 255 * 32 then len else 0)"
    and "length (hkdf_expand SHA384 prk info len) = (if len \<le> 255 * 48 then len else 0)"
  using sha256.expand_stream [of prk info len] sha384.expand_stream [of prk info len]
    sha256.length_okm [of len prk info] sha384.length_okm [of len prk info] by simp_all

end
