(* ===== verification/Cipher.thy ===== *)
theory Cipher
  imports Prelude
begin

text \<open>
  AES-256 (\<open>crypto/aes.cpp\<close>) and its counter mode (\<open>crypto/aes_ctr.cpp\<close>). A block is a list of 16 bytes in the order
  of the code's array, which is column by column. The lemmas show that the cipher is a permutation of the
  blocks, so that the keystream of a counter never repeats a block, and that the mode undoes itself.
\<close>

section \<open>AES-256\<close>

definition SBOX :: "8 word list" where
  "SBOX = [
    0x63, 0x7c, 0x77, 0x7b, 0xf2, 0x6b, 0x6f, 0xc5, 0x30, 0x01, 0x67, 0x2b, 0xfe, 0xd7, 0xab, 0x76,
    0xca, 0x82, 0xc9, 0x7d, 0xfa, 0x59, 0x47, 0xf0, 0xad, 0xd4, 0xa2, 0xaf, 0x9c, 0xa4, 0x72, 0xc0,
    0xb7, 0xfd, 0x93, 0x26, 0x36, 0x3f, 0xf7, 0xcc, 0x34, 0xa5, 0xe5, 0xf1, 0x71, 0xd8, 0x31, 0x15,
    0x04, 0xc7, 0x23, 0xc3, 0x18, 0x96, 0x05, 0x9a, 0x07, 0x12, 0x80, 0xe2, 0xeb, 0x27, 0xb2, 0x75,
    0x09, 0x83, 0x2c, 0x1a, 0x1b, 0x6e, 0x5a, 0xa0, 0x52, 0x3b, 0xd6, 0xb3, 0x29, 0xe3, 0x2f, 0x84,
    0x53, 0xd1, 0x00, 0xed, 0x20, 0xfc, 0xb1, 0x5b, 0x6a, 0xcb, 0xbe, 0x39, 0x4a, 0x4c, 0x58, 0xcf,
    0xd0, 0xef, 0xaa, 0xfb, 0x43, 0x4d, 0x33, 0x85, 0x45, 0xf9, 0x02, 0x7f, 0x50, 0x3c, 0x9f, 0xa8,
    0x51, 0xa3, 0x40, 0x8f, 0x92, 0x9d, 0x38, 0xf5, 0xbc, 0xb6, 0xda, 0x21, 0x10, 0xff, 0xf3, 0xd2,
    0xcd, 0x0c, 0x13, 0xec, 0x5f, 0x97, 0x44, 0x17, 0xc4, 0xa7, 0x7e, 0x3d, 0x64, 0x5d, 0x19, 0x73,
    0x60, 0x81, 0x4f, 0xdc, 0x22, 0x2a, 0x90, 0x88, 0x46, 0xee, 0xb8, 0x14, 0xde, 0x5e, 0x0b, 0xdb,
    0xe0, 0x32, 0x3a, 0x0a, 0x49, 0x06, 0x24, 0x5c, 0xc2, 0xd3, 0xac, 0x62, 0x91, 0x95, 0xe4, 0x79,
    0xe7, 0xc8, 0x37, 0x6d, 0x8d, 0xd5, 0x4e, 0xa9, 0x6c, 0x56, 0xf4, 0xea, 0x65, 0x7a, 0xae, 0x08,
    0xba, 0x78, 0x25, 0x2e, 0x1c, 0xa6, 0xb4, 0xc6, 0xe8, 0xdd, 0x74, 0x1f, 0x4b, 0xbd, 0x8b, 0x8a,
    0x70, 0x3e, 0xb5, 0x66, 0x48, 0x03, 0xf6, 0x0e, 0x61, 0x35, 0x57, 0xb9, 0x86, 0xc1, 0x1d, 0x9e,
    0xe1, 0xf8, 0x98, 0x11, 0x69, 0xd9, 0x8e, 0x94, 0x9b, 0x1e, 0x87, 0xe9, 0xce, 0x55, 0x28, 0xdf,
    0x8c, 0xa1, 0x89, 0x0d, 0xbf, 0xe6, 0x42, 0x68, 0x41, 0x99, 0x2d, 0x0f, 0xb0, 0x54, 0xbb, 0x16]"

definition RCON :: "8 word list" where
  "RCON = [0x00, 0x01, 0x02, 0x04, 0x08, 0x10, 0x20, 0x40, 0x80, 0x1b, 0x36]"

definition sub_byte :: "8 word \<Rightarrow> 8 word" where
  "sub_byte b = SBOX ! unat b"

definition xtime :: "8 word \<Rightarrow> 8 word" where
  "xtime a = push_bit 1 a XOR (drop_bit 7 a AND 1) * 0x1b"

definition sub_bytes :: "8 word list \<Rightarrow> 8 word list" where
  "sub_bytes s = map sub_byte s"

fun shift_rows :: "8 word list \<Rightarrow> 8 word list" where
  "shift_rows [s0, s1, s2, s3, s4, s5, s6, s7, s8, s9, s10, s11, s12, s13, s14, s15] =
     [s0, s5, s10, s15, s4, s9, s14, s3, s8, s13, s2, s7, s12, s1, s6, s11]"
| "shift_rows s = s"

fun mix_columns :: "8 word list \<Rightarrow> 8 word list" where
  "mix_columns (a0 # a1 # a2 # a3 # rest) =
     (let all = a0 XOR a1 XOR a2 XOR a3
      in (a0 XOR all XOR xtime (a0 XOR a1)) # (a1 XOR all XOR xtime (a1 XOR a2))
         # (a2 XOR all XOR xtime (a2 XOR a3)) # (a3 XOR all XOR xtime (a3 XOR a0)) # mix_columns rest)"
| "mix_columns s = s"

definition xor_bytes :: "8 word list \<Rightarrow> 8 word list \<Rightarrow> 8 word list" where
  "xor_bytes xs ys = map2 (XOR) xs ys"

definition add_round_key :: "8 word list \<Rightarrow> 8 word list \<Rightarrow> 8 word list" where
  "add_round_key s rk = xor_bytes s rk"

fun rotate_left :: "8 word list \<Rightarrow> 8 word list" where
  "rotate_left [] = []"
| "rotate_left (x # xs) = xs @ [x]"

definition key_word :: "8 word list \<Rightarrow> nat \<Rightarrow> 8 word list" where
  "key_word round_keys i = take 4 (drop (4 * i) round_keys)"

definition expand_key_step :: "8 word list \<Rightarrow> nat \<Rightarrow> 8 word list" where
  "expand_key_step round_keys i =
     (let temp = key_word round_keys (i - 1);
          temp = (if i mod 8 = 0 then xor_bytes (sub_bytes (rotate_left temp)) [RCON ! (i div 8), 0, 0, 0]
                  else if i mod 8 = 4 then sub_bytes temp else temp)
      in round_keys @ xor_bytes (key_word round_keys (i - 8)) temp)"

definition expand_key :: "8 word list \<Rightarrow> 8 word list" where
  "expand_key key = foldl expand_key_step key [8..<60]"

definition round_key :: "8 word list \<Rightarrow> nat \<Rightarrow> 8 word list" where
  "round_key round_keys i = take 16 (drop (i * 16) round_keys)"

definition aes_round :: "8 word list \<Rightarrow> 8 word list \<Rightarrow> nat \<Rightarrow> 8 word list" where
  "aes_round round_keys s i = add_round_key (mix_columns (shift_rows (sub_bytes s))) (round_key round_keys i)"

definition encrypt_block :: "8 word list \<Rightarrow> 8 word list \<Rightarrow> 8 word list" where
  "encrypt_block round_keys block =
     (let state = add_round_key block (round_key round_keys 0);
          state = foldl (aes_round round_keys) state [1..<14]
      in add_round_key (shift_rows (sub_bytes state)) (round_key round_keys 14))"

section \<open>Counter mode\<close>

fun increment_from_last :: "8 word list \<Rightarrow> 8 word list" where
  "increment_from_last [] = []"
| "increment_from_last (b # bs) = (if b + 1 \<noteq> 0 then (b + 1) # bs else 0 # increment_from_last bs)"

definition increment_counter :: "8 word list \<Rightarrow> 8 word list" where
  "increment_counter counter = rev (increment_from_last (rev counter))"

fun ctr_blocks :: "(8 word list \<Rightarrow> 8 word list) \<Rightarrow> 8 word list \<Rightarrow> 8 word list \<Rightarrow> 8 word list" where
  \<comment> \<open>the loop over the offset, with what is left of the input\<close>
  "ctr_blocks cipher counter input =
     (if input = [] then []
      else xor_bytes (take 16 input) (cipher counter) @ ctr_blocks cipher (increment_counter counter) (drop 16 input))"

declare ctr_blocks.simps [simp del]

definition ctr_process :: "8 word list \<Rightarrow> 8 word list \<Rightarrow> 8 word list \<Rightarrow> 8 word list" where
  "ctr_process key counter_block input = ctr_blocks (encrypt_block (expand_key key)) counter_block input"

definition ctr_process_checked :: "8 word list \<Rightarrow> 8 word list \<Rightarrow> 8 word list \<Rightarrow> 8 word list" where
  "ctr_process_checked key counter_block input = (if length key \<noteq> 32 then [] else ctr_process key counter_block input)"

section \<open>The cipher is a permutation\<close>

text \<open>
  The inverse of the table, as a tree over the bits of the byte from the top.
\<close>

datatype byte_tree = Tip "8 word" | Fork byte_tree byte_tree

fun look_up :: "byte_tree \<Rightarrow> nat \<Rightarrow> 8 word \<Rightarrow> 8 word" where
  "look_up (Tip v) k b = v"
| "look_up (Fork one zero) k b = (if bit b k then look_up one (k - 1) b else look_up zero (k - 1) b)"

definition INV_SBOX :: byte_tree where
  "INV_SBOX = Fork (Fork (Fork (Fork (Fork (Fork (Fork (Fork (Tip 125) (Tip 12)) (Fork (Tip 33) (Tip 85))) (Fork (Fork (Tip
    99) (Tip 20)) (Fork (Tip 105) (Tip 225)))) (Fork (Fork (Fork (Tip 38) (Tip 214)) (Fork (Tip 119) (Tip 186)))
    (Fork (Fork (Tip 126) (Tip 4)) (Fork (Tip 43) (Tip 23))))) (Fork (Fork (Fork (Fork (Tip 97) (Tip 153)) (Fork
    (Tip 83) (Tip 131))) (Fork (Fork (Tip 60) (Tip 187)) (Fork (Tip 235) (Tip 200)))) (Fork (Fork (Fork (Tip 176)
    (Tip 245)) (Fork (Tip 42) (Tip 174))) (Fork (Fork (Tip 77) (Tip 59)) (Fork (Tip 224) (Tip 160)))))) (Fork (Fork
    (Fork (Fork (Fork (Tip 239) (Tip 156)) (Fork (Tip 201) (Tip 147))) (Fork (Fork (Tip 159) (Tip 122)) (Fork (Tip
    229) (Tip 45)))) (Fork (Fork (Fork (Tip 13) (Tip 74)) (Fork (Tip 181) (Tip 25))) (Fork (Fork (Tip 169) (Tip
    127)) (Fork (Tip 81) (Tip 96))))) (Fork (Fork (Fork (Fork (Tip 95) (Tip 236)) (Fork (Tip 128) (Tip 39))) (Fork
    (Fork (Tip 89) (Tip 16)) (Fork (Tip 18) (Tip 177)))) (Fork (Fork (Fork (Tip 49) (Tip 199)) (Fork (Tip 7) (Tip
    136))) (Fork (Fork (Tip 51) (Tip 168)) (Fork (Tip 221) (Tip 31))))))) (Fork (Fork (Fork (Fork (Fork (Fork (Tip
    244) (Tip 90)) (Fork (Tip 205) (Tip 120))) (Fork (Fork (Tip 254) (Tip 192)) (Fork (Tip 219) (Tip 154)))) (Fork
    (Fork (Fork (Tip 32) (Tip 121)) (Fork (Tip 210) (Tip 198))) (Fork (Fork (Tip 75) (Tip 62)) (Fork (Tip 86) (Tip
    252))))) (Fork (Fork (Fork (Fork (Tip 27) (Tip 190)) (Fork (Tip 24) (Tip 170))) (Fork (Fork (Tip 14) (Tip 98))
    (Fork (Tip 183) (Tip 111)))) (Fork (Fork (Fork (Tip 137) (Tip 197)) (Fork (Tip 41) (Tip 29))) (Fork (Fork (Tip
    113) (Tip 26)) (Fork (Tip 241) (Tip 71)))))) (Fork (Fork (Fork (Fork (Fork (Tip 110) (Tip 223)) (Fork (Tip 117)
    (Tip 28))) (Fork (Fork (Tip 232) (Tip 55)) (Fork (Tip 249) (Tip 226)))) (Fork (Fork (Fork (Tip 133) (Tip 53))
    (Fork (Tip 173) (Tip 231))) (Fork (Fork (Tip 34) (Tip 116)) (Fork (Tip 172) (Tip 150))))) (Fork (Fork (Fork
    (Fork (Tip 115) (Tip 230)) (Fork (Tip 180) (Tip 240))) (Fork (Fork (Tip 206) (Tip 207)) (Fork (Tip 242) (Tip
    151)))) (Fork (Fork (Fork (Tip 234) (Tip 220)) (Fork (Tip 103) (Tip 79))) (Fork (Fork (Tip 65) (Tip 17)) (Fork
    (Tip 145) (Tip 58)))))))) (Fork (Fork (Fork (Fork (Fork (Fork (Fork (Tip 107) (Tip 138)) (Fork (Tip 19) (Tip
    1))) (Fork (Fork (Tip 3) (Tip 189)) (Fork (Tip 175) (Tip 193)))) (Fork (Fork (Fork (Tip 2) (Tip 15)) (Fork (Tip
    63) (Tip 202))) (Fork (Fork (Tip 143) (Tip 30)) (Fork (Tip 44) (Tip 208))))) (Fork (Fork (Fork (Fork (Tip 6)
    (Tip 69)) (Fork (Tip 179) (Tip 184))) (Fork (Fork (Tip 5) (Tip 88)) (Fork (Tip 228) (Tip 247)))) (Fork (Fork
    (Fork (Tip 10) (Tip 211)) (Fork (Tip 188) (Tip 140))) (Fork (Fork (Tip 0) (Tip 171)) (Fork (Tip 216) (Tip
    144)))))) (Fork (Fork (Fork (Fork (Fork (Tip 132) (Tip 157)) (Fork (Tip 141) (Tip 167))) (Fork (Fork (Tip 87)
    (Tip 70)) (Fork (Tip 21) (Tip 94)))) (Fork (Fork (Fork (Tip 218) (Tip 185)) (Fork (Tip 237) (Tip 253))) (Fork
    (Fork (Tip 80) (Tip 72)) (Fork (Tip 112) (Tip 108))))) (Fork (Fork (Fork (Fork (Tip 146) (Tip 182)) (Fork (Tip
    101) (Tip 93))) (Fork (Fork (Tip 204) (Tip 92)) (Fork (Tip 164) (Tip 212)))) (Fork (Fork (Fork (Tip 22) (Tip
    152)) (Fork (Tip 104) (Tip 134))) (Fork (Fork (Tip 100) (Tip 246)) (Fork (Tip 248) (Tip 114))))))) (Fork (Fork
    (Fork (Fork (Fork (Fork (Tip 37) (Tip 209)) (Fork (Tip 139) (Tip 109))) (Fork (Fork (Tip 73) (Tip 162)) (Fork
    (Tip 91) (Tip 118)))) (Fork (Fork (Fork (Tip 178) (Tip 36)) (Fork (Tip 217) (Tip 40))) (Fork (Fork (Tip 102)
    (Tip 161)) (Fork (Tip 46) (Tip 8))))) (Fork (Fork (Fork (Fork (Tip 78) (Tip 195)) (Fork (Tip 250) (Tip 66)))
    (Fork (Fork (Tip 11) (Tip 149)) (Fork (Tip 76) (Tip 238)))) (Fork (Fork (Fork (Tip 61) (Tip 35)) (Fork (Tip
    194) (Tip 166))) (Fork (Fork (Tip 50) (Tip 148)) (Fork (Tip 123) (Tip 84)))))) (Fork (Fork (Fork (Fork (Fork
    (Tip 203) (Tip 233)) (Fork (Tip 222) (Tip 196))) (Fork (Fork (Tip 68) (Tip 67)) (Fork (Tip 142) (Tip 52))))
    (Fork (Fork (Fork (Tip 135) (Tip 255)) (Fork (Tip 47) (Tip 155))) (Fork (Fork (Tip 130) (Tip 57)) (Fork (Tip
    227) (Tip 124))))) (Fork (Fork (Fork (Fork (Tip 251) (Tip 215)) (Fork (Tip 243) (Tip 129))) (Fork (Fork (Tip
    158) (Tip 163)) (Fork (Tip 64) (Tip 191)))) (Fork (Fork (Fork (Tip 56) (Tip 165)) (Fork (Tip 54) (Tip 48)))
    (Fork (Fork (Tip 213) (Tip 106)) (Fork (Tip 9) (Tip 82))))))))"

lemma inv_sbox_table: "map (look_up INV_SBOX 7) SBOX = map word_of_nat [0..<256]"
  by code_simp

lemma sub_byte_inverse: "look_up INV_SBOX 7 (sub_byte b) = b"
proof -
  have "unat b < 2 ^ LENGTH(8)"
    by (rule unsigned_less)
  then have small: "unat b < 256"
    by simp
  moreover have "length SBOX = 256"
    using arg_cong [OF inv_sbox_table, of length] by simp
  ultimately have "look_up INV_SBOX 7 (SBOX ! unat b) = map (look_up INV_SBOX 7) SBOX ! unat b"
    by simp
  also have "\<dots> = b"
    unfolding inv_sbox_table using small by simp
  finally show ?thesis
    by (simp add: sub_byte_def)
qed

lemma inj_sub_byte: "inj sub_byte"
  by (rule inj_on_inverseI [of _ "look_up INV_SBOX 7"]) (rule sub_byte_inverse)

lemma top_bit: "drop_bit 7 a AND 1 = (of_bool (bit a 7) :: 8 word)"
  by (rule bit_word_eqI) (auto simp: bit_simps)

lemmas xor_ac = xor.assoc xor.commute xor.left_commute bit.xor_left_self

lemma xtime_xor: "xtime (a XOR b) = xtime a XOR xtime b"
  unfolding xtime_def top_bit bit_xor_iff push_bit_xor
  by (cases "bit a 7"; cases "bit b 7") (simp_all add: xor_ac)

lemma mix_twice:
  "mix_columns (mix_columns (a0 # a1 # a2 # a3 # rest)) =
     (a0 XOR xtime (xtime (a0 XOR a2))) # (a1 XOR xtime (xtime (a1 XOR a3)))
       # (a2 XOR xtime (xtime (a0 XOR a2))) # (a3 XOR xtime (xtime (a1 XOR a3)))
       # mix_columns (mix_columns rest)"
  by (simp add: Let_def xtime_xor xor_ac)

lemma length_mix_columns [simp]: "length (mix_columns s) = length s"
  by (induction s rule: mix_columns.induct) (simp_all add: Let_def)

lemma xor_cancel: "(p XOR u) XOR (q XOR u) = p XOR (q :: 8 word)" "(p XOR u) XOR u = p"
  by (simp_all add: xor_ac)

lemma mix_four_times:
  "length s mod 4 = 0 \<Longrightarrow> mix_columns (mix_columns (mix_columns (mix_columns s))) = s"
proof (induction s rule: mix_columns.induct)
  case (1 a0 a1 a2 a3 rest)
  then have "mix_columns (mix_columns (mix_columns (mix_columns rest))) = rest"
    by simp
  then show ?case
    unfolding mix_twice by (simp only: xor_cancel)
qed auto

lemma mix_columns_inj: "length s = 16 \<Longrightarrow> length t = 16 \<Longrightarrow> mix_columns s = mix_columns t \<Longrightarrow> s = t"
proof -
  assume len: "length s = 16" "length t = 16" and eq: "mix_columns s = mix_columns t"
  have "s = mix_columns (mix_columns (mix_columns (mix_columns s)))"
    by (rule mix_four_times [symmetric]) (simp add: len)
  also have "\<dots> = t"
    unfolding eq by (rule mix_four_times) (simp add: len)
  finally show "s = t" .
qed

lemma list16:
  assumes "length s = 16"
  obtains s0 s1 s2 s3 s4 s5 s6 s7 s8 s9 s10 s11 s12 s13 s14 s15
  where "s = [s0, s1, s2, s3, s4, s5, s6, s7, s8, s9, s10, s11, s12, s13, s14, s15]"
  using assms that by (auto simp: numeral_eq_Suc length_Suc_conv)

lemma length_shift_rows [simp]: "length (shift_rows s) = length s"
  by (cases s rule: shift_rows.cases) simp_all

lemma shift_rows_inj: "length s = 16 \<Longrightarrow> length t = 16 \<Longrightarrow> shift_rows s = shift_rows t \<Longrightarrow> s = t"
  by (elim list16) simp

lemma length_xor_bytes [simp]: "length (xor_bytes xs ys) = min (length xs) (length ys)"
  by (simp add: xor_bytes_def)

lemma xor_bytes_twice: "length xs \<le> length ys \<Longrightarrow> xor_bytes (xor_bytes xs ys) ys = xs"
proof (induction xs arbitrary: ys)
  case (Cons x xs)
  then show ?case
    by (cases ys) (simp_all add: xor_bytes_def xor.assoc)
qed (simp add: xor_bytes_def)

lemma add_round_key_inj:
  "length s = length k \<Longrightarrow> length t = length k \<Longrightarrow> add_round_key s k = add_round_key t k \<Longrightarrow> s = t"
  unfolding add_round_key_def using xor_bytes_twice [of s k] xor_bytes_twice [of t k] by (metis order_refl)

lemma sub_bytes_inj: "sub_bytes s = sub_bytes t \<Longrightarrow> s = t"
  unfolding sub_bytes_def by (rule map_injective [OF _ inj_sub_byte])

lemma length_rotate_left [simp]: "length (rotate_left xs) = length xs"
  by (cases xs) simp_all

lemma length_sub_bytes [simp]: "length (sub_bytes s) = length s"
  by (simp add: sub_bytes_def)

lemma length_expand_step:
  assumes "8 \<le> i" "length rk = 4 * i"
  shows "length (expand_key_step rk i) = 4 * Suc i"
proof -
  have "length (key_word rk (i - 1)) = 4" "length (key_word rk (i - 8)) = 4"
    using assms by (simp_all add: key_word_def)
  then show ?thesis
    using assms(2) by (simp add: expand_key_step_def Let_def)
qed

lemma length_expand: "length key = 32 \<Longrightarrow> length (foldl expand_key_step key [8..<8 + n]) = 4 * (8 + n)"
proof (induction n)
  case (Suc n)
  then have "length (expand_key_step (foldl expand_key_step key [8..<8 + n]) (8 + n)) = 4 * Suc (8 + n)"
    by (intro length_expand_step) simp_all
  moreover have "[8..<8 + Suc n] = [8..<8 + n] @ [8 + n]"
    by (subst add_Suc_right) (rule upt_Suc_append, simp)
  ultimately show ?case
    by simp
qed simp

lemma length_round_key: "length key = 32 \<Longrightarrow> i \<le> 14 \<Longrightarrow> length (round_key (expand_key key) i) = 16"
  using length_expand [of key 52] by (simp add: round_key_def expand_key_def)

lemma length_aes_round:
  "length s = 16 \<Longrightarrow> length (round_key rk i) = 16 \<Longrightarrow> length (aes_round rk s i) = 16"
  by (simp add: aes_round_def add_round_key_def)

lemma length_steps: "length (foldl (aes_round rk) s is) = 16"
  if "length s = 16" "\<And>i. i \<in> set is \<Longrightarrow> length (round_key rk i) = 16"
  using that by (induction "is" arbitrary: s) (simp_all add: aes_round_def add_round_key_def)

lemma rounds_inj:
  assumes "length s = 16" "length t = 16" "\<And>i. i \<in> set is \<Longrightarrow> length (round_key rk i) = 16"
    and "foldl (aes_round rk) s is = foldl (aes_round rk) t is"
  shows "s = t"
  using assms
proof (induction "is" arbitrary: s t)
  case (Cons i "is")
  have key: "length (round_key rk i) = 16"
    using Cons.prems(3) by simp
  have "aes_round rk s i = aes_round rk t i"
  proof (rule Cons.IH)
    show "length (aes_round rk s i) = 16" "length (aes_round rk t i) = 16"
      using Cons.prems(1,2) key by (simp_all add: length_aes_round)
    show "length (round_key rk j) = 16" if "j \<in> set is" for j
      using Cons.prems(3) that by simp
    show "foldl (aes_round rk) (aes_round rk s i) is = foldl (aes_round rk) (aes_round rk t i) is"
      using Cons.prems(4) unfolding foldl.simps .
  qed
  then have eq: "add_round_key (mix_columns (shift_rows (sub_bytes s))) (round_key rk i) =
      add_round_key (mix_columns (shift_rows (sub_bytes t))) (round_key rk i)"
    unfolding aes_round_def .
  have sub: "length (sub_bytes s) = 16" "length (sub_bytes t) = 16"
    using Cons.prems(1,2) by simp_all
  then have shift: "length (shift_rows (sub_bytes s)) = 16" "length (shift_rows (sub_bytes t)) = 16"
    by simp_all
  then have "length (mix_columns (shift_rows (sub_bytes s))) = length (round_key rk i)"
    "length (mix_columns (shift_rows (sub_bytes t))) = length (round_key rk i)"
    using key by simp_all
  from add_round_key_inj [OF this eq] have "shift_rows (sub_bytes s) = shift_rows (sub_bytes t)"
    by (rule mix_columns_inj [OF shift])
  then have "sub_bytes s = sub_bytes t"
    by (rule shift_rows_inj [OF sub])
  then show ?case
    by (rule sub_bytes_inj)
qed simp

lemma length_encrypt_block:
  assumes "length key = 32" "length s = 16"
  shows "length (encrypt_block (expand_key key) s) = 16"
proof -
  have "length (add_round_key s (round_key (expand_key key) 0)) = 16"
    using assms length_round_key [of key 0] by (simp add: add_round_key_def)
  then have "length (foldl (aes_round (expand_key key)) (add_round_key s (round_key (expand_key key) 0)) [1..<14]) = 16"
    using length_round_key [OF assms(1)] by (intro length_steps) simp_all
  then show ?thesis
    using length_round_key [OF assms(1), of 14] by (simp add: encrypt_block_def Let_def add_round_key_def)
qed

lemma encrypt_block_inj:
  assumes key: "length key = 32" and len: "length s = 16" "length t = 16"
    and eq: "encrypt_block (expand_key key) s = encrypt_block (expand_key key) t"
  shows "s = t"
proof -
  let ?rk = "expand_key key"
  let ?rounds = "\<lambda>s. foldl (aes_round ?rk) (add_round_key s (round_key ?rk 0)) [1..<14]"
  have start: "length (add_round_key s (round_key ?rk 0)) = 16" "length (add_round_key t (round_key ?rk 0)) = 16"
    using len length_round_key [OF key, of 0] by (simp_all add: add_round_key_def)
  obtain u v where uv: "u = ?rounds s" "v = ?rounds t"
    by blast
  then have len_uv: "length u = 16" "length v = 16"
    using start length_round_key [OF key] by (auto intro!: length_steps)
  have eq': "add_round_key (shift_rows (sub_bytes u)) (round_key ?rk 14) =
      add_round_key (shift_rows (sub_bytes v)) (round_key ?rk 14)"
    using eq unfolding encrypt_block_def Let_def uv .
  have "length (shift_rows (sub_bytes u)) = length (round_key ?rk 14)"
    "length (shift_rows (sub_bytes v)) = length (round_key ?rk 14)"
    using len_uv length_round_key [OF key, of 14] by simp_all
  from add_round_key_inj [OF this eq'] have "sub_bytes u = sub_bytes v"
    by (rule shift_rows_inj [rotated 2]) (simp_all add: len_uv)
  then have "?rounds s = ?rounds t"
    unfolding uv [symmetric] by (rule sub_bytes_inj)
  then have "add_round_key s (round_key ?rk 0) = add_round_key t (round_key ?rk 0)"
    using length_round_key [OF key] by (intro rounds_inj [OF start]) simp_all
  then show ?thesis
    using len length_round_key [OF key, of 0] by (intro add_round_key_inj [of s "round_key ?rk 0"]) simp_all
qed

section \<open>The counter\<close>

fun counter_value :: "8 word list \<Rightarrow> nat" where
  \<comment> \<open>of the bytes from the last to the first\<close>
  "counter_value [] = 0"
| "counter_value (b # bs) = unat b + 256 * counter_value bs"

lemma unat_byte_less: "unat (b :: 8 word) < 256"
  using unsigned_less [of b] by simp

lemma counter_value_less: "counter_value bs < 256 ^ length bs"
proof (induction bs)
  case (Cons b bs)
  then show ?case
    using unat_byte_less [of b] by simp
qed simp

lemma counter_value_inj: "length bs = length cs \<Longrightarrow> counter_value bs = counter_value cs \<Longrightarrow> bs = cs"
proof (induction bs cs rule: list_induct2)
  case (Cons b bs c cs)
  have "(unat b + 256 * counter_value bs) mod 256 = (unat c + 256 * counter_value cs) mod 256"
    using Cons.prems by (simp only: counter_value.simps)
  then have "unat b = unat c"
    using unat_byte_less [of b] unat_byte_less [of c] by simp
  then show ?case
    using Cons by (simp add: word_unat_eq_iff)
qed simp

lemma increment_value: "counter_value (increment_from_last bs) = (counter_value bs + 1) mod 256 ^ length bs"
proof (induction bs)
  case (Cons b bs)
  let ?v = "counter_value bs" and ?m = "256 ^ length bs"
  show ?case
  proof (cases "b + 1 = 0")
    case True
    then have "b = -1"
      by (simp add: add_eq_0_iff2)
    then have "unat b = 255"
      by (simp add: unsigned_minus_1_eq_mask mask_eq_exp_minus_1)
    then have "counter_value (b # bs) + 1 = 256 * (?v + 1)"
      by simp
    then show ?thesis
      using Cons True by (simp add: mult_mod_right)
  next
    case False
    then have next_byte: "unat (b + 1) = unat b + 1"
      using unatSuc [of b] by (simp add: add.commute)
    then have "unat b + 1 < 256"
      using unat_byte_less [of "b + 1"] by simp
    then have "counter_value (b # bs) + 1 < 256 * (?v + 1)"
      by simp
    also have "\<dots> \<le> 256 ^ length (b # bs)"
      using counter_value_less [of bs] by simp
    finally show ?thesis
      using False next_byte by simp
  qed
qed simp

lemma length_increment [simp]: "length (increment_from_last bs) = length bs"
  by (induction bs) auto

lemma length_increment_counter [simp]: "length (increment_counter c) = length c"
  by (simp add: increment_counter_def)

lemma counter_steps:
  "length ((increment_counter ^^ i) c) = length c \<and>
    counter_value (rev ((increment_counter ^^ i) c)) = (counter_value (rev c) + i) mod 256 ^ length c"
proof (induction i)
  case 0
  then show ?case
    using counter_value_less [of "rev c"] by simp
next
  case (Suc i)
  have "length ((increment_counter ^^ Suc i) c) = length c"
    using Suc length_increment_counter by simp
  moreover have "counter_value (rev ((increment_counter ^^ Suc i) c)) =
      (counter_value (rev ((increment_counter ^^ i) c)) + 1) mod 256 ^ length c"
    using Suc increment_value [of "rev ((increment_counter ^^ i) c)"]
    by (simp add: increment_counter_def [of "(increment_counter ^^ i) c"])
  ultimately show ?case
    using Suc by (simp add: mod_Suc_eq)
qed

lemma counter_distinct:
  assumes "i < j" "j < 256 ^ length c"
  shows "(increment_counter ^^ i) c \<noteq> (increment_counter ^^ j) c"
proof
  let ?v = "counter_value (rev c)" and ?m = "256 ^ length c :: nat"
  assume "(increment_counter ^^ i) c = (increment_counter ^^ j) c"
  then have "(?v + i) mod ?m = (?v + j) mod ?m"
    using counter_steps [of i c] counter_steps [of j c] by simp
  then have "?m dvd j - i"
    using assms(1) mod_eq_dvd_iff_nat [of "?v + i" "?v + j" ?m] by (simp add: eq_commute)
  then show False
    using assms by (auto dest: dvd_imp_le)
qed

section \<open>Counter mode\<close>

lemma ctr_block:
  "input \<noteq> [] \<Longrightarrow> ctr_blocks cipher c input =
    xor_bytes (take 16 input) (cipher c) @ ctr_blocks cipher (increment_counter c) (drop 16 input)"
  by (simp add: ctr_blocks.simps [of cipher c input])

lemma ctr_nil [simp]: "ctr_blocks cipher c [] = []"
  by (simp add: ctr_blocks.simps)

lemma length_ctr:
  assumes "\<And>c. length c = 16 \<Longrightarrow> length (cipher c) = 16"
  shows "length c = 16 \<Longrightarrow> length (ctr_blocks cipher c input) = length input"
proof (induction "length input" arbitrary: c input rule: less_induct)
  case less
  show ?case
  proof (cases "input = []")
    case False
    have "length (ctr_blocks cipher (increment_counter c) (drop 16 input)) = length (drop 16 input)"
      using False less.prems by (intro less.hyps) auto
    then show ?thesis
      using ctr_block [OF False] assms [OF less.prems] by (simp add: min_def)
  qed simp
qed

lemma ctr_twice:
  assumes "\<And>c. length c = 16 \<Longrightarrow> length (cipher c) = 16"
  shows "length c = 16 \<Longrightarrow> ctr_blocks cipher c (ctr_blocks cipher c input) = input"
proof (induction "length input" arbitrary: c input rule: less_induct)
  case less
  show ?case
  proof (cases "input = []")
    case False
    let ?first = "xor_bytes (take 16 input) (cipher c)"
      and ?rest = "ctr_blocks cipher (increment_counter c) (drop 16 input)"
    have step: "ctr_blocks cipher c input = ?first @ ?rest"
      by (rule ctr_block [OF False])
    have len: "length ?first = min 16 (length input)"
      using assms [OF less.prems] by (simp add: min.commute)
    have "take 16 (?first @ ?rest) = ?first" "drop 16 (?first @ ?rest) = ?rest"
      using len by (cases "length input \<le> 16"; simp add: min_def)+
    moreover have "?first @ ?rest \<noteq> []"
      using False len by (metis append_is_Nil_conv length_0_conv min_0L min_def zero_neq_numeral)
    ultimately have "ctr_blocks cipher c (?first @ ?rest) =
        xor_bytes ?first (cipher c) @ ctr_blocks cipher (increment_counter c) ?rest"
      using ctr_block [of "?first @ ?rest" cipher c] by (simp only: simp_thms)
    moreover have "ctr_blocks cipher (increment_counter c) ?rest = drop 16 input"
      using False less.prems by (intro less.hyps) auto
    moreover have "xor_bytes ?first (cipher c) = take 16 input"
      using assms [OF less.prems] by (intro xor_bytes_twice) simp
    ultimately show ?thesis
      unfolding step by simp
  qed simp
qed

lemma ctr_key:
  assumes "length key = 32" "length c = 16"
  shows "length (ctr_process key c input) = length input" "ctr_process key c (ctr_process key c input) = input"
  unfolding ctr_process_def using length_ctr ctr_twice length_encrypt_block [OF assms(1)] assms(2) by blast+

section \<open>Properties\<close>

text \<open>
  C37. AES-256 under any key is a permutation of the blocks, and the counter takes \<open>2 ^ 128\<close> values before it
  returns: two blocks of one keystream are never equal, so no two blocks of a message are masked alike.
\<close>

theorem keystream_never_repeats:
  assumes "length key = 32" "length counter = 16" "i < j" "j < 2 ^ 128"
  shows "encrypt_block (expand_key key) ((increment_counter ^^ i) counter) \<noteq>
    encrypt_block (expand_key key) ((increment_counter ^^ j) counter)"
proof
  assume eq: "encrypt_block (expand_key key) ((increment_counter ^^ i) counter) =
    encrypt_block (expand_key key) ((increment_counter ^^ j) counter)"
  have "(256 :: nat) ^ 16 = 2 ^ 128"
    by simp
  then have "(increment_counter ^^ i) counter \<noteq> (increment_counter ^^ j) counter"
    using assms by (intro counter_distinct) simp_all
  moreover have "(increment_counter ^^ i) counter = (increment_counter ^^ j) counter"
    using counter_steps [of _ counter] assms(2) by (intro encrypt_block_inj [OF assms(1) _ _ eq]) simp_all
  ultimately show False
    by simp
qed

lemma keystream_never_repeats_witness:
  "encrypt_block (expand_key (replicate 32 7)) ((increment_counter ^^ 3) (replicate 16 255)) \<noteq>
    encrypt_block (expand_key (replicate 32 7)) ((increment_counter ^^ 65539) (replicate 16 255))"
  by (rule keystream_never_repeats) simp_all

end
