(* ===== verification/Sealing.thy ===== *)
theory Sealing
  imports Hmac Cipher
begin

text \<open>
  Authenticated encryption (\<open>crypto/aead.cpp\<close>) and the sealed envelopes built on it
  (\<open>crypto/sealed_envelope.cpp\<close>). The key encapsulation, the key agreement and the signatures are OpenSSL's; they are the
  functions of a record that the definitions take, and \<open>lib_ok\<close> states what their documentation promises.
  Random bytes and fresh key pairs are arguments.
\<close>

section \<open>Authenticated encryption\<close>

record aead_keys =
  enc :: bytes
  mac :: bytes

definition append_be64 :: "64 word \<Rightarrow> bytes" where
  "append_be64 v = map (\<lambda>i. ucast (drop_bit (8 * i) v)) [7, 6, 5, 4, 3, 2, 1, 0]"

definition derive_keys :: "bytes \<Rightarrow> string \<Rightarrow> aead_keys" where
  "derive_keys master ctx =
     (let prk = hkdf_extract SHA384 [] master
      in \<lparr>enc = expand_label SHA384 prk (ctx @ '' enc'') 32, mac = expand_label SHA384 prk (ctx @ '' mac'') 32\<rparr>)"

definition compute_tag :: "bytes \<Rightarrow> bytes \<Rightarrow> bytes \<Rightarrow> bytes \<Rightarrow> bytes" where
  "compute_tag mac_key nonce aad ciphertext =
     (let h = hmac_init SHA384 mac_key;
          h = hmac_update SHA384 (append_be64 (of_nat (length aad))) h;
          h = (if aad \<noteq> [] then hmac_update SHA384 aad h else h);
          h = hmac_update SHA384 nonce h;
          h = (if ciphertext \<noteq> [] then hmac_update SHA384 ciphertext h else h)
      in hmac_finish SHA384 h)"

definition keys_sized :: "aead_keys \<Rightarrow> bool" where
  "keys_sized keys \<longleftrightarrow> length (enc keys) = 32 \<and> length (mac keys) = 32"

definition aead_seal :: "aead_keys \<Rightarrow> bytes \<Rightarrow> bytes \<Rightarrow> bytes \<Rightarrow> bytes" where
  "aead_seal keys nonce aad plaintext =
     (if \<not> keys_sized keys then []
      else let ct = (if plaintext \<noteq> [] then ctr_process (enc keys) nonce plaintext else [])
        in ct @ compute_tag (mac keys) nonce aad ct)"

definition aead_open :: "aead_keys \<Rightarrow> bytes \<Rightarrow> bytes \<Rightarrow> bytes \<Rightarrow> bytes option" where
  "aead_open keys nonce aad sealed =
     (if \<not> keys_sized keys then None
      else if length sealed < 48 then None
      else let ct_len = length sealed - 48; ct = take ct_len sealed; provided_tag = drop ct_len sealed
        in if \<not> constant_time_equals (compute_tag (mac keys) nonce aad ct) provided_tag then None
           else Some (if ct \<noteq> [] then ctr_process (enc keys) nonce ct else []))"

section \<open>Envelopes\<close>

definition SEAL_CONTEXT :: string where
  "SEAL_CONTEXT = ''CHESS-SEAL-1''"

record ('k, 'x, 'i) crypto_lib =
  kem_valid :: "'k \<Rightarrow> bool"
  kem_public :: "'k \<Rightarrow> bytes"
  kem_decapsulate :: "'k \<Rightarrow> bytes \<Rightarrow> bytes"
  kem_encapsulate :: "bytes \<Rightarrow> nat \<Rightarrow> (bytes \<times> bytes) option"
  ecc_valid :: "'x \<Rightarrow> bool"
  ecc_public :: "'x \<Rightarrow> bytes"
  ecc_shared :: "'x \<Rightarrow> bytes \<Rightarrow> bytes"
  id_valid :: "'i \<Rightarrow> bool"
  id_public :: "'i \<Rightarrow> bytes"
  id_sign :: "'i \<Rightarrow> bytes \<Rightarrow> bytes"
  id_verify :: "bytes \<Rightarrow> bytes \<Rightarrow> bytes \<Rightarrow> bool"

record envelope =
  env_key_id :: bytes
  env_kem_ct :: bytes
  env_x25519_pk :: bytes
  env_iv :: bytes
  env_ct :: bytes
  env_tag :: bytes

record ('k, 'x) key_material =
  mat_key_id :: bytes
  mat_kem :: 'k
  mat_ecc :: 'x

record key_offer =
  offer_key_id :: bytes
  offer_kem_ek :: bytes
  offer_x25519_pk :: bytes
  offer_expires_in :: "32 word"
  offer_signature :: bytes

definition well_formed :: "envelope \<Rightarrow> bool" where
  "well_formed env \<longleftrightarrow> length (env_key_id env) = 16 \<and> length (env_kem_ct env) = 1088
     \<and> length (env_x25519_pk env) = 32 \<and> length (env_iv env) = 16 \<and> length (env_tag env) = 48"

definition context_bytes :: bytes where
  "context_bytes = map of_char SEAL_CONTEXT"

definition append_be32 :: "32 word \<Rightarrow> bytes" where
  "append_be32 x = map (\<lambda>i. ucast (drop_bit (8 * i) x)) [3, 2, 1, 0]"

definition signing_input :: "bytes \<Rightarrow> bytes \<Rightarrow> bytes \<Rightarrow> 32 word \<Rightarrow> bytes" where
  "signing_input key_id kem_ek x25519_pk expires_in =
     context_bytes @ kem_ek @ x25519_pk @ key_id @ append_be32 expires_in"

definition build_aad :: "bytes \<Rightarrow> bytes" where
  "build_aad key_id = context_bytes @ key_id"

definition build_master :: "bytes \<Rightarrow> bytes \<Rightarrow> bytes" where
  "build_master ss_pq ss_cl = ss_pq @ ss_cl"

definition material_valid :: "('k, 'x, 'i) crypto_lib \<Rightarrow> ('k, 'x) key_material \<Rightarrow> bool" where
  "material_valid lib m \<longleftrightarrow> kem_valid lib (mat_kem m) \<and> ecc_valid lib (mat_ecc m)"

definition mint ::
  "('k, 'x, 'i) crypto_lib \<Rightarrow> 'i \<Rightarrow> 32 word \<Rightarrow> bytes \<Rightarrow> 'k \<Rightarrow> 'x \<Rightarrow> (('k, 'x) key_material \<times> key_offer) option" where
  \<comment> \<open>the key id is fresh random bytes, the pairs are freshly generated\<close>
  "mint lib identity expires_in key_id kem ecc =
     (if \<not> id_valid lib identity then None
      else let material = \<lparr>mat_key_id = key_id, mat_kem = kem, mat_ecc = ecc\<rparr>
        in if \<not> material_valid lib material then None
           else let kem_ek = kem_public lib kem; x25519_pk = ecc_public lib ecc
             in if kem_ek = [] \<or> x25519_pk = [] then None
                else let sig = id_sign lib identity (signing_input key_id kem_ek x25519_pk expires_in)
                  in if length sig \<noteq> 3309 then None
                     else Some (material, \<lparr>offer_key_id = key_id, offer_kem_ek = kem_ek, offer_x25519_pk = x25519_pk,
                       offer_expires_in = expires_in, offer_signature = sig\<rparr>))"

definition verify_offer :: "('k, 'x, 'i) crypto_lib \<Rightarrow> bytes \<Rightarrow> key_offer \<Rightarrow> bool" where
  "verify_offer lib identity_pk offer \<longleftrightarrow>
     (if length (offer_kem_ek offer) \<noteq> 1184 then False
      else if length (offer_x25519_pk offer) \<noteq> 32 then False
      else if length (offer_key_id offer) \<noteq> 16 then False
      else if length (offer_signature offer) \<noteq> 3309 then False
      else id_verify lib identity_pk
        (signing_input (offer_key_id offer) (offer_kem_ek offer) (offer_x25519_pk offer) (offer_expires_in offer))
        (offer_signature offer))"

definition seal :: "('k, 'x, 'i) crypto_lib \<Rightarrow> key_offer \<Rightarrow> bytes \<Rightarrow> nat \<Rightarrow> 'x \<Rightarrow> bytes \<Rightarrow> envelope option" where
  \<comment> \<open>the randomness of the encapsulation, the ephemeral pair and the fresh vector are arguments\<close>
  "seal lib offer payload r ephemeral iv =
     (if length (offer_key_id offer) \<noteq> 16 then None
      else case kem_encapsulate lib (offer_kem_ek offer) r of None \<Rightarrow> None
        | Some (kem_ct, ss_pq) \<Rightarrow>
          let ss_cl = ecc_shared lib ephemeral (offer_x25519_pk offer)
          in if ss_cl = [] then None
             else let keys = derive_keys (build_master ss_pq ss_cl) SEAL_CONTEXT;
                    sealed_bytes = aead_seal keys iv (build_aad (offer_key_id offer)) payload
               in if length sealed_bytes \<noteq> length payload + 48 then None
                  else Some \<lparr>env_key_id = offer_key_id offer, env_kem_ct = kem_ct,
                    env_x25519_pk = ecc_public lib ephemeral, env_iv = iv,
                    env_ct = take (length payload) sealed_bytes, env_tag = drop (length payload) sealed_bytes\<rparr>)"

definition open_envelope :: "('k, 'x, 'i) crypto_lib \<Rightarrow> ('k, 'x) key_material \<Rightarrow> envelope \<Rightarrow> bytes option" where
  "open_envelope lib material env =
     (if \<not> material_valid lib material \<or> \<not> well_formed env then None
      else if env_key_id env \<noteq> mat_key_id material then None
      else let ss_pq = kem_decapsulate lib (mat_kem material) (env_kem_ct env)
        in if ss_pq = [] then None
           else let ss_cl = ecc_shared lib (mat_ecc material) (env_x25519_pk env)
             in if ss_cl = [] then None
                else let keys = derive_keys (build_master ss_pq ss_cl) SEAL_CONTEXT
                  in aead_open keys (env_iv env) (build_aad (env_key_id env)) (env_ct env @ env_tag env))"

section \<open>Tags\<close>

definition tag_input :: "bytes \<Rightarrow> bytes \<Rightarrow> bytes \<Rightarrow> bytes" where
  "tag_input nonce aad ct = append_be64 (of_nat (length aad)) @ aad @ nonce @ ct"

lemma compute_tag_HMAC: "compute_tag key nonce aad ct = HMAC sha384 128 key (tag_input nonce aad ct)"
proof -
  have skip: "hmac_update SHA384 [] h = h" for h
    by (simp add: hmac_update_def SHA384_def sha512_update_def hash_update_def)
  have "compute_tag key nonce aad ct = hmac_finish SHA384
      (foldl (\<lambda>h c. hmac_update SHA384 c h) (hmac_init SHA384 key) [append_be64 (of_nat (length aad)), aad, nonce, ct])"
    by (auto simp: compute_tag_def Let_def skip)
  then show ?thesis
    using sha384.hmac_stream [of key "[append_be64 (of_nat (length aad)), aad, nonce, ct]"] by (simp add: tag_input_def)
qed

lemma length_compute_tag: "length (compute_tag key nonce aad ct) = 48"
  using sha384.length_mac [of 128 key "tag_input nonce aad ct"] by (simp add: compute_tag_HMAC)

lemma length_append_be64 [simp]: "length (append_be64 v) = 8"
  by (simp add: append_be64_def)

lemma append_be64_inj:
  assumes "append_be64 v = append_be64 w"
  shows "v = w"
proof (rule bit_word_eqI)
  fix n
  assume n: "n < LENGTH(64)"
  let ?i = "n div 8"
  have "?i \<in> set [7, 6, 5, 4, 3, 2, 1, 0]"
    using n by auto
  then have "(ucast (drop_bit (8 * ?i) v) :: 8 word) = ucast (drop_bit (8 * ?i) w)"
    using assms unfolding append_be64_def map_eq_conv by blast
  then have "bit (ucast (drop_bit (8 * ?i) v) :: 8 word) (n mod 8) = bit (ucast (drop_bit (8 * ?i) w) :: 8 word) (n mod 8)"
    by simp
  then show "bit v n = bit w n"
    using n by (simp add: bit_simps)
qed

lemma tag_input_inj:
  assumes "tag_input n a c = tag_input n' a' c'" and "length n = length n'"
    and "length a < 2 ^ 64" "length a' < 2 ^ 64"
  shows "n = n' \<and> a = a' \<and> c = c'"
proof -
  have "append_be64 (of_nat (length a)) = append_be64 (of_nat (length a'))"
    and rest: "a @ n @ c = a' @ n' @ c'"
    using assms(1) by (simp_all add: tag_input_def append_eq_append_conv)
  then have "(of_nat (length a) :: 64 word) = of_nat (length a')"
    using append_be64_inj by blast
  then have "length a = length a'"
    using assms(3,4) by (simp add: word_of_nat_eq_iff take_bit_nat_eq_self)
  then show ?thesis
    using rest assms(2) by simp
qed

lemma ctr_empty [simp]: "ctr_process key c [] = []"
  by (simp add: ctr_process_def)

lemma aead_seal_plain: "aead_seal keys nonce aad pt = (if keys_sized keys
    then ctr_process (enc keys) nonce pt @ compute_tag (mac keys) nonce aad (ctr_process (enc keys) nonce pt) else [])"
  by (auto simp: aead_seal_def Let_def)

lemma aead_open_plain: "aead_open keys nonce aad sealed =
    (if keys_sized keys \<and> 48 \<le> length sealed \<and>
        drop (length sealed - 48) sealed = compute_tag (mac keys) nonce aad (take (length sealed - 48) sealed)
     then Some (ctr_process (enc keys) nonce (take (length sealed - 48) sealed)) else None)"
  using constant_time_equals_iff [of "compute_tag (mac keys) nonce aad (take (length sealed - 48) sealed)"
      "drop (length sealed - 48) sealed"]
  by (auto simp: aead_open_def Let_def length_compute_tag)

lemma open_iff_sealed:
  assumes "length nonce = 16"
  shows "aead_open keys nonce aad sealed = Some pt \<longleftrightarrow> keys_sized keys \<and> sealed = aead_seal keys nonce aad pt"
proof
  assume "aead_open keys nonce aad sealed = Some pt"
  then have sized: "keys_sized keys" and "48 \<le> length sealed"
    and tag: "drop (length sealed - 48) sealed = compute_tag (mac keys) nonce aad (take (length sealed - 48) sealed)"
    and pt: "pt = ctr_process (enc keys) nonce (take (length sealed - 48) sealed)"
    by (auto simp: aead_open_plain split: if_splits)
  have "ctr_process (enc keys) nonce pt = take (length sealed - 48) sealed"
    using ctr_key(2) [of "enc keys" nonce] sized assms by (simp add: keys_sized_def pt)
  then show "keys_sized keys \<and> sealed = aead_seal keys nonce aad pt"
    using sized by (simp add: aead_seal_plain tag [symmetric])
next
  assume "keys_sized keys \<and> sealed = aead_seal keys nonce aad pt"
  then show "aead_open keys nonce aad sealed = Some pt"
    using ctr_key [of "enc keys" nonce pt] assms
    by (simp add: aead_open_plain aead_seal_plain keys_sized_def length_compute_tag)
qed

section \<open>Opening what was sealed\<close>

definition lib_ok :: "('k, 'x, 'i) crypto_lib \<Rightarrow> bool" where
  \<comment> \<open>what the documentation of the library promises of its sizes, the encapsulation, the agreement and the signatures\<close>
  "lib_ok lib \<longleftrightarrow>
     (\<forall>k. kem_valid lib k \<longrightarrow> kem_public lib k = [] \<or> length (kem_public lib k) = 1184)
     \<and> (\<forall>k r ct ss. kem_valid lib k \<longrightarrow> kem_encapsulate lib (kem_public lib k) r = Some (ct, ss) \<longrightarrow>
          length ct = 1088 \<and> length ss = 32 \<and> kem_decapsulate lib k ct = ss)
     \<and> (\<forall>x. ecc_valid lib x \<longrightarrow> ecc_public lib x = [] \<or> length (ecc_public lib x) = 32)
     \<and> (\<forall>x y. ecc_shared lib x (ecc_public lib y) = ecc_shared lib y (ecc_public lib x))
     \<and> (\<forall>i m. id_valid lib i \<longrightarrow> id_verify lib (id_public lib i) m (id_sign lib i m))"

lemma derived_sized [simp]: "keys_sized (derive_keys master ctx)"
  by (simp add: keys_sized_def derive_keys_def Let_def expand_label_def sha384.length_okm)

lemma mint_SomeD:
  assumes "mint lib identity expires_in key_id kem ecc = Some (material, offer)"
  shows "material = \<lparr>mat_key_id = key_id, mat_kem = kem, mat_ecc = ecc\<rparr>" "kem_valid lib kem" "ecc_valid lib ecc"
    "offer_key_id offer = key_id" "offer_kem_ek offer = kem_public lib kem" "offer_x25519_pk offer = ecc_public lib ecc"
    "offer_expires_in offer = expires_in" "kem_public lib kem \<noteq> []" "ecc_public lib ecc \<noteq> []" "id_valid lib identity"
    "length (offer_signature offer) = 3309"
    "offer_signature offer = id_sign lib identity (signing_input key_id (kem_public lib kem) (ecc_public lib ecc) expires_in)"
  using assms by (auto simp: mint_def Let_def material_valid_def split: if_splits)

lemma length_sealed: "keys_sized keys \<Longrightarrow> length nonce = 16 \<Longrightarrow> length (aead_seal keys nonce aad pt) = length pt + 48"
  using ctr_key [of "enc keys" nonce pt] by (simp add: aead_seal_plain keys_sized_def length_compute_tag)

section \<open>Properties\<close>

lemma aead_open_exact_parts:
  assumes "length nonce = 16" "length nonce' = 16" "length aad < 2 ^ 64" "length aad' < 2 ^ 64"
  shows "aead_open keys nonce aad sealed = Some pt \<longleftrightarrow> keys_sized keys \<and> sealed = aead_seal keys nonce aad pt"
    and "compute_tag key nonce aad ct = HMAC sha384 128 key (tag_input nonce aad ct)"
    and "tag_input nonce aad ct = tag_input nonce' aad' ct' \<longleftrightarrow> nonce = nonce' \<and> aad = aad' \<and> ct = ct'"
  using open_iff_sealed [OF assms(1)] compute_tag_HMAC tag_input_inj [of nonce aad ct nonce' aad' ct'] assms by auto

text \<open>
  C36. Opening accepts exactly what sealing writes: bytes open to a plaintext under a key pair, a nonce and associated
  data if and only if they are the sealing of this plaintext under the same three. So opening undoes sealing, and a
  change of any bit, a cut or an extension is refused unless the tag of the changed message was
  computed with the key. The tag is the code of an input from which the nonce, the associated data and the ciphertext
  can be read back, so that no boundary can be moved.
\<close>

theorem aead_open_exact:
  assumes "length nonce = 16" "length nonce' = 16" "length aad < 2 ^ 64" "length aad' < 2 ^ 64"
  shows "(aead_open keys nonce aad sealed = Some pt \<longleftrightarrow> keys_sized keys \<and> sealed = aead_seal keys nonce aad pt)
    \<and> compute_tag key nonce aad ct = HMAC sha384 128 key (tag_input nonce aad ct)
    \<and> (tag_input nonce aad ct = tag_input nonce' aad' ct' \<longleftrightarrow> nonce = nonce' \<and> aad = aad' \<and> ct = ct')"
  by (intro conjI aead_open_exact_parts [OF assms])

definition demo_keys :: aead_keys where
  "demo_keys = \<lparr>enc = replicate 32 1, mac = replicate 32 2\<rparr>"

lemma aead_open_exact_witness:
  "aead_open demo_keys (replicate 16 3) [4, 5] (aead_seal demo_keys (replicate 16 3) [4, 5] [6, 7, 8]) = Some [6, 7, 8]"
  by (subst aead_open_exact [where nonce' = "replicate 16 3" and aad' = "[]", THEN conjunct1]) (simp_all add: demo_keys_def keys_sized_def)

lemma sealed_envelope_opens_parts:
  assumes lib: "lib_ok lib" and mint: "mint lib identity expires_in key_id kem ecc = Some (material, offer)"
    and id: "length key_id = 16" and iv: "length iv = 16"
    and encaps: "kem_encapsulate lib (offer_kem_ek offer) r = Some (kem_ct, ss)"
    and shared: "ecc_shared lib ephemeral (offer_x25519_pk offer) \<noteq> []" "length (ecc_public lib ephemeral) = 32"
  shows "\<exists>env. seal lib offer payload r ephemeral iv = Some env \<and> open_envelope lib material env = Some payload"
    and "verify_offer lib (id_public lib identity) offer"
    and "open_envelope lib material env = Some p \<Longrightarrow> env_key_id env = key_id \<and>
      env_ct env @ env_tag env = aead_seal (derive_keys (build_master (kem_decapsulate lib kem (env_kem_ct env))
        (ecc_shared lib ecc (env_x25519_pk env))) SEAL_CONTEXT) (env_iv env) (build_aad key_id) p"
proof -
  note m = mint_SomeD [OF mint]
  have kem: "length kem_ct = 1088" "length ss = 32" "kem_decapsulate lib kem kem_ct = ss"
    using lib encaps m(2) unfolding lib_ok_def m(5) by blast+
  have agree: "ecc_shared lib ecc (ecc_public lib ephemeral) = ecc_shared lib ephemeral (ecc_public lib ecc)"
    using lib unfolding lib_ok_def by blast
  let ?keys = "derive_keys (build_master ss (ecc_shared lib ephemeral (ecc_public lib ecc))) SEAL_CONTEXT"
  let ?sealed = "aead_seal ?keys iv (build_aad key_id) payload"
  let ?env = "\<lparr>env_key_id = key_id, env_kem_ct = kem_ct, env_x25519_pk = ecc_public lib ephemeral, env_iv = iv,
      env_ct = take (length payload) ?sealed, env_tag = drop (length payload) ?sealed\<rparr>"
  have len: "length ?sealed = length payload + 48"
    by (rule length_sealed [OF derived_sized iv])
  have "seal lib offer payload r ephemeral iv = Some ?env"
    using encaps shared(1) id len by (simp add: seal_def m(4,6) Let_def)
  moreover have "open_envelope lib material ?env = Some payload"
  proof -
    have "ss \<noteq> []"
      using kem(2) by auto
    then have "open_envelope lib material ?env = aead_open ?keys iv (build_aad key_id) ?sealed"
      using kem(1,3) agree shared m(2,3) id iv len
      by (simp add: open_envelope_def m(1,6) material_valid_def well_formed_def Let_def)
    then show ?thesis
      by (simp add: open_iff_sealed [OF iv])
  qed
  ultimately show "\<exists>env. seal lib offer payload r ephemeral iv = Some env \<and> open_envelope lib material env = Some payload"
    by blast
  have "length (kem_public lib kem) = 1184" "length (ecc_public lib ecc) = 32"
    using lib m(2,3,8,9) unfolding lib_ok_def by blast+
  then show "verify_offer lib (id_public lib identity) offer"
    using lib m(10,11) id by (simp add: verify_offer_def m(4-7) m(12) lib_ok_def)
  assume "open_envelope lib material env = Some p"
  then show "env_key_id env = key_id \<and>
      env_ct env @ env_tag env = aead_seal (derive_keys (build_master (kem_decapsulate lib kem (env_kem_ct env))
        (ecc_shared lib ecc (env_x25519_pk env))) SEAL_CONTEXT) (env_iv env) (build_aad key_id) p"
    by (auto simp: open_envelope_def m(1) Let_def well_formed_def open_iff_sealed split: if_splits)
qed

text \<open>
  C35. An envelope sealed to an offer is opened by the material minted with it, the offer verifies under
  the public key of the identity, and whatever opens is the authenticated encryption of the answer under the
  keys that the two shared secrets and the key id of the envelope fix.
\<close>

theorem sealed_envelope_opens:
  assumes lib: "lib_ok lib" and mint: "mint lib identity expires_in key_id kem ecc = Some (material, offer)"
    and id: "length key_id = 16" and iv: "length iv = 16"
    and encaps: "kem_encapsulate lib (offer_kem_ek offer) r = Some (kem_ct, ss)"
    and shared: "ecc_shared lib ephemeral (offer_x25519_pk offer) \<noteq> []" "length (ecc_public lib ephemeral) = 32"
  shows "(\<exists>env. seal lib offer payload r ephemeral iv = Some env \<and> open_envelope lib material env = Some payload)
    \<and> verify_offer lib (id_public lib identity) offer
    \<and> (\<forall>env p. open_envelope lib material env = Some p \<longrightarrow> env_key_id env = key_id \<and>
      env_ct env @ env_tag env = aead_seal (derive_keys (build_master (kem_decapsulate lib kem (env_kem_ct env))
        (ecc_shared lib ecc (env_x25519_pk env))) SEAL_CONTEXT) (env_iv env) (build_aad key_id) p)"
proof (rule conjI [OF sealed_envelope_opens_parts(1) [OF assms] conjI [OF sealed_envelope_opens_parts(2) [OF assms]]], intro allI impI)
  fix env p
  assume "open_envelope lib material env = Some p"
  then show "env_key_id env = key_id \<and>
      env_ct env @ env_tag env = aead_seal (derive_keys (build_master (kem_decapsulate lib kem (env_kem_ct env))
        (ecc_shared lib ecc (env_x25519_pk env))) SEAL_CONTEXT) (env_iv env) (build_aad key_id) p"
    by (rule sealed_envelope_opens_parts(3) [OF assms])
qed

definition demo_lib :: "(nat, 8 word, nat) crypto_lib" where
  "demo_lib = \<lparr>kem_valid = (\<lambda>k. True), kem_public = (\<lambda>k. replicate 1184 (of_nat k)),
     kem_decapsulate = (\<lambda>k ct. map (\<lambda>b. b XOR of_nat k) (take 32 ct)),
     kem_encapsulate = (\<lambda>ek r. Some (map (\<lambda>b. b XOR hd ek) (replicate 1088 (of_nat r)), replicate 32 (of_nat r))),
     ecc_valid = (\<lambda>x. True), ecc_public = (\<lambda>x. replicate 32 x), ecc_shared = (\<lambda>x p. [x XOR hd p]),
     id_valid = (\<lambda>i. True), id_public = (\<lambda>i. [of_nat i]), id_sign = (\<lambda>i m. replicate 3309 (of_nat i)),
     id_verify = (\<lambda>pk m s. s = replicate 3309 (hd pk))\<rparr>"

lemma demo_lib_ok: "lib_ok demo_lib"
proof -
  have "kem_decapsulate demo_lib k ct = ss" if "kem_encapsulate demo_lib (kem_public demo_lib k) r = Some (ct, ss)" for k r ct ss
    using that by (auto simp: demo_lib_def map_replicate_const take_replicate xor.assoc)
  moreover have "length ct = 1088 \<and> length ss = 32" if "kem_encapsulate demo_lib ek r = Some (ct, ss)" for ek r ct ss
    using that by (auto simp: demo_lib_def)
  moreover have "length (kem_public demo_lib k) = 1184" "length (ecc_public demo_lib x) = 32"
    "ecc_shared demo_lib x (ecc_public demo_lib y) = ecc_shared demo_lib y (ecc_public demo_lib x)"
    "id_verify demo_lib (id_public demo_lib i) m (id_sign demo_lib i m)" for k x y i m
    by (simp_all add: demo_lib_def xor.commute)
  ultimately show ?thesis
    unfolding lib_ok_def by blast
qed

lemma sealed_envelope_opens_witness:
  "\<exists>material offer env. mint demo_lib 1 120 (replicate 16 9) 5 7 = Some (material, offer) \<and>
     seal demo_lib offer [1, 2, 3] 11 13 (replicate 16 0) = Some env \<and> open_envelope demo_lib material env = Some [1, 2, 3]"
proof -
  obtain material offer where mint: "mint demo_lib 1 120 (replicate 16 9) 5 7 = Some (material, offer)"
    unfolding mint_def material_valid_def demo_lib_def Let_def
    by (simp only: crypto_lib.simps simp_thms if_False if_True length_replicate replicate_empty key_material.simps
        zero_neq_numeral [symmetric] not_False_eq_True option.inject prod.inject)
  have "\<exists>env. seal demo_lib offer [1, 2, 3] 11 13 (replicate 16 0) = Some env \<and> open_envelope demo_lib material env = Some [1, 2, 3]"
    by (rule sealed_envelope_opens [OF demo_lib_ok mint, where kem_ct = "map (\<lambda>b. b XOR 5) (replicate 1088 11)" and ss = "replicate 32 11", THEN conjunct1])
      (use mint_SomeD [OF mint] in \<open>simp_all add: demo_lib_def map_replicate_const\<close>)
  then show ?thesis
    using mint by blast
qed

end
