(* ===== verification/Base64.thy ===== *)
theory Base64
  imports Prelude
begin

text \<open>
  The two base64 codecs (\<open>crypto/base64.cpp\<close>): standard base64 with padding and base64url without, both with
  strict decoders. The accumulator of the decoder is a 32-bit word that is never reset, so its old bits are
  shifted out at the top. The locale \<open>alphabet\<close> holds what the codecs need of their 64 characters.
\<close>

section \<open>The codecs\<close>

definition ALPHABET :: string where
  "ALPHABET = ''ABCDEFGHIJKLMNOPQRSTUVWXYZabcdefghijklmnopqrstuvwxyz0123456789+/''"

definition URL_ALPHABET :: string where
  "URL_ALPHABET = ''ABCDEFGHIJKLMNOPQRSTUVWXYZabcdefghijklmnopqrstuvwxyz0123456789-_''"

definition reverse_table :: "string \<Rightarrow> char \<Rightarrow> int" where
  "reverse_table al = foldl (\<lambda>v i. v(al ! i := int i)) (\<lambda>_. -1) [0..<64]"

definition group :: "8 word \<Rightarrow> 8 word \<Rightarrow> 8 word \<Rightarrow> 32 word" where
  "group a b c = push_bit 16 (ucast a) OR push_bit 8 (ucast b) OR ucast c"

definition digit :: "string \<Rightarrow> 32 word \<Rightarrow> nat \<Rightarrow> char" where
  "digit al v k = al ! unat (drop_bit k v AND 0x3F)"

fun encode_base64 :: "8 word list \<Rightarrow> string" where
  "encode_base64 (a # b # c # rest) =
     (let v = group a b c
      in digit ALPHABET v 18 # digit ALPHABET v 12 # digit ALPHABET v 6 # digit ALPHABET v 0 # encode_base64 rest)"
| "encode_base64 [a, b] =
     (let v = group a b 0 in [digit ALPHABET v 18, digit ALPHABET v 12, digit ALPHABET v 6, CHR ''=''])"
| "encode_base64 [a] = (let v = group a 0 0 in [digit ALPHABET v 18, digit ALPHABET v 12, CHR ''='', CHR ''=''])"
| "encode_base64 [] = []"

fun encode_base64url :: "8 word list \<Rightarrow> string" where
  "encode_base64url (a # b # c # rest) =
     (let v = group a b c
      in digit URL_ALPHABET v 18 # digit URL_ALPHABET v 12 # digit URL_ALPHABET v 6 # digit URL_ALPHABET v 0
           # encode_base64url rest)"
| "encode_base64url [a, b] =
     (let v = group a b 0 in [digit URL_ALPHABET v 18, digit URL_ALPHABET v 12, digit URL_ALPHABET v 6])"
| "encode_base64url [a] = (let v = group a 0 0 in [digit URL_ALPHABET v 18, digit URL_ALPHABET v 12])"
| "encode_base64url [] = []"

text \<open>
  The loop of the decoders and the test of the bits it leaves, from an accumulator, the number of its bits
  that are pending, and the bytes so far.
\<close>

fun decode_digits :: "string \<Rightarrow> 32 word \<Rightarrow> nat \<Rightarrow> 8 word list \<Rightarrow> string \<Rightarrow> 8 word list option" where
  "decode_digits al acc bits out [] = (if bits > 0 \<and> acc AND mask bits \<noteq> 0 then None else Some out)"
| "decode_digits al acc bits out (c # cs) =
     (let d = reverse_table al c
      in if d < 0 then None
         else let acc' = push_bit 6 acc OR word_of_int d
           in if bits + 6 \<ge> 8
              then decode_digits al acc' (bits + 6 - 8) (out @ [ucast (drop_bit (bits + 6 - 8) acc' AND 0xFF)]) cs
              else decode_digits al acc' (bits + 6) out cs)"

definition check_length :: "nat \<Rightarrow> 8 word list option \<Rightarrow> 8 word list option" where
  "check_length expected_len r = (case r of None \<Rightarrow> None
     | Some out \<Rightarrow> if expected_len \<noteq> 0 \<and> length out \<noteq> expected_len then None else Some out)"

definition trailing_pad :: "string \<Rightarrow> nat" where
  "trailing_pad text = (if text ! (length text - 1) = CHR ''=''
     then if 2 \<le> length text \<and> text ! (length text - 2) = CHR ''='' then 2 else 1 else 0)"

definition decode_base64 :: "string \<Rightarrow> nat \<Rightarrow> 8 word list option" where
  "decode_base64 text expected_len =
     (if text = [] then (if expected_len = 0 then Some [] else None)
      else if length text mod 4 \<noteq> 0 then None
      else check_length expected_len (decode_digits ALPHABET 0 0 [] (take (length text - trailing_pad text) text)))"

definition decode_base64url :: "string \<Rightarrow> nat \<Rightarrow> 8 word list option" where
  "decode_base64url text expected_len =
     (if text = [] then (if expected_len = 0 then Some [] else None)
      else if length text mod 4 = 1 then None
      else check_length expected_len (decode_digits URL_ALPHABET 0 0 [] text))"

section \<open>Alphabets\<close>

fun encode_plain :: "string \<Rightarrow> 8 word list \<Rightarrow> string" where
  "encode_plain al (a # b # c # rest) =
     (let v = group a b c in digit al v 18 # digit al v 12 # digit al v 6 # digit al v 0 # encode_plain al rest)"
| "encode_plain al [a, b] = (let v = group a b 0 in [digit al v 18, digit al v 12, digit al v 6])"
| "encode_plain al [a] = (let v = group a 0 0 in [digit al v 18, digit al v 12])"
| "encode_plain al [] = []"

definition six :: "32 word \<Rightarrow> bool" where
  "six d \<longleftrightarrow> d AND 0x3F = d"

definition bytes3 :: "32 word \<Rightarrow> 32 word \<Rightarrow> 32 word \<Rightarrow> 32 word \<Rightarrow> 8 word list" where
  "bytes3 p q r s =
     [ucast (push_bit 2 p OR drop_bit 4 q), ucast (push_bit 4 q OR drop_bit 2 r), ucast (push_bit 6 r OR s)]"

lemma lt8: "n < 8 \<Longrightarrow> n = 0 \<or> n = 1 \<or> n = 2 \<or> n = 3 \<or> n = 4 \<or> n = 5 \<or> n = 6 \<or> n = (7::nat)"
  by auto

lemma six_bits: "six d \<Longrightarrow> 6 \<le> n \<Longrightarrow> \<not> bit d n"
proof -
  assume "six d" "6 \<le> n"
  then have "bit d n = bit (d AND mask 6) n"
    by (simp add: six_def mask_eq_exp_minus_1)
  then show ?thesis
    using \<open>6 \<le> n\<close> by (simp add: bit_and_iff bit_mask_iff)
qed

lemma sixI: "(\<And>n. 6 \<le> n \<Longrightarrow> \<not> bit d n) \<Longrightarrow> six d"
proof -
  assume high: "\<And>n. 6 \<le> n \<Longrightarrow> \<not> bit d n"
  have "d AND mask 6 = d"
    using high by (intro bit_eqI) (auto simp: bit_and_iff bit_mask_iff not_le [symmetric])
  then show ?thesis
    by (simp add: six_def mask_eq_exp_minus_1)
qed

lemma six_less: "six d \<longleftrightarrow> d < 64"
proof -
  have "d AND 0x3F = take_bit 6 d"
    by (simp add: take_bit_eq_mask mask_eq_exp_minus_1)
  then show ?thesis
    by (simp add: six_def word_unat_eq_iff unsigned_take_bit_eq take_bit_nat_eq_self_iff word_less_nat_alt)
qed

lemma first_byte:
  assumes "six p" "six q"
  shows "ucast (drop_bit 4 (push_bit 6 (push_bit 6 acc OR p) OR q) AND 0xFF :: 32 word) =
    (ucast (push_bit 2 p OR drop_bit 4 q) :: 8 word)"
proof (rule bit_word_eqI)
  fix n
  assume "n < LENGTH(8)"
  then show "bit (ucast (drop_bit 4 (push_bit 6 (push_bit 6 acc OR p) OR q) AND 0xFF :: 32 word) :: 8 word) n =
      bit (ucast (push_bit 2 p OR drop_bit 4 q) :: 8 word) n"
    using six_bits [OF assms(1)] six_bits [OF assms(2)] lt8 [of n]
    by (auto simp: bit_simps)
qed

lemma second_byte:
  assumes "six q" "six r"
  shows "ucast (drop_bit 2 (push_bit 6 (push_bit 6 acc OR q) OR r) AND 0xFF :: 32 word) =
    (ucast (push_bit 4 q OR drop_bit 2 r) :: 8 word)"
proof (rule bit_word_eqI)
  fix n
  assume "n < LENGTH(8)"
  then show "bit (ucast (drop_bit 2 (push_bit 6 (push_bit 6 acc OR q) OR r) AND 0xFF :: 32 word) :: 8 word) n =
      bit (ucast (push_bit 4 q OR drop_bit 2 r) :: 8 word) n"
    using six_bits [OF assms(1)] six_bits [OF assms(2)] lt8 [of n]
    by (auto simp: bit_simps)
qed

lemma third_byte:
  assumes "six r" "six s"
  shows "ucast ((push_bit 6 (push_bit 6 acc OR r) OR s) AND 0xFF :: 32 word) = (ucast (push_bit 6 r OR s) :: 8 word)"
proof (rule bit_word_eqI)
  fix n
  assume "n < LENGTH(8)"
  then show "bit (ucast ((push_bit 6 (push_bit 6 acc OR r) OR s) AND 0xFF :: 32 word) :: 8 word) n =
      bit (ucast (push_bit 6 r OR s) :: 8 word) n"
    using six_bits [OF assms(1)] six_bits [OF assms(2)] lt8 [of n]
    by (auto simp: bit_simps)
qed

lemma byte_high [simp]: "8 \<le> n \<Longrightarrow> \<not> bit (a :: 8 word) n"
  using bit_imp_le_length [of a n] by auto

lemma small_numbers: "Suc (Suc 0) = 2" "Suc (Suc (Suc 0)) = 3"
  by simp_all

lemma six_and [simp]: "six (d AND 0x3F)"
  by (simp add: six_def and.assoc)

lemma bytes3_group:
  "bytes3 (drop_bit 18 (group a b c) AND 0x3F) (drop_bit 12 (group a b c) AND 0x3F)
     (drop_bit 6 (group a b c) AND 0x3F) (drop_bit 0 (group a b c) AND 0x3F) = [a, b, c]"
proof -
  have "(ucast (push_bit 2 (drop_bit 18 (group a b c) AND 0x3F) OR drop_bit 4 (drop_bit 12 (group a b c) AND 0x3F)) :: 8 word) = a"
  proof (rule bit_word_eqI)
    fix n
    assume "n < LENGTH(8)"
    then have "n < 8"
      by simp
    then show "bit (ucast (push_bit 2 (drop_bit 18 (group a b c) AND 0x3F) OR drop_bit 4 (drop_bit 12 (group a b c) AND 0x3F)) :: 8 word) n = bit a n"
      using lt8 [OF \<open>n < 8\<close>] by (elim disjE) (auto simp: group_def bit_simps small_numbers)
  qed
  moreover have "(ucast (push_bit 4 (drop_bit 12 (group a b c) AND 0x3F) OR drop_bit 2 (drop_bit 6 (group a b c) AND 0x3F)) :: 8 word) = b"
  proof (rule bit_word_eqI)
    fix n
    assume "n < LENGTH(8)"
    then have "n < 8"
      by simp
    then show "bit (ucast (push_bit 4 (drop_bit 12 (group a b c) AND 0x3F) OR drop_bit 2 (drop_bit 6 (group a b c) AND 0x3F)) :: 8 word) n = bit b n"
      using lt8 [OF \<open>n < 8\<close>] by (elim disjE) (auto simp: group_def bit_simps small_numbers)
  qed
  moreover have "(ucast (push_bit 6 (drop_bit 6 (group a b c) AND 0x3F) OR (drop_bit 0 (group a b c) AND 0x3F)) :: 8 word) = c"
  proof (rule bit_word_eqI)
    fix n
    assume "n < LENGTH(8)"
    then have "n < 8"
      by simp
    then show "bit (ucast (push_bit 6 (drop_bit 6 (group a b c) AND 0x3F) OR (drop_bit 0 (group a b c) AND 0x3F)) :: 8 word) n = bit c n"
      using lt8 [OF \<open>n < 8\<close>] by (elim disjE) (auto simp: group_def bit_simps small_numbers)
  qed
  ultimately show ?thesis
    by (simp add: bytes3_def)
qed

lemma lt6: "n < 6 \<Longrightarrow> n = 0 \<or> n = 1 \<or> n = 2 \<or> n = 3 \<or> n = 4 \<or> n = (5::nat)"
  by auto

lemma six_eqI:
  assumes "six x" "six y" and "\<And>n. n < 6 \<Longrightarrow> bit x n = bit y n"
  shows "x = y"
proof (rule bit_word_eqI)
  show "bit x n = bit y n" for n
    using six_bits [OF assms(1), of n] six_bits [OF assms(2), of n] assms(3) [of n] by (cases "n < 6") auto
qed

lemma group_bytes3:
  assumes "six p" "six q" "six r" "six s" and "bytes3 p q r s = [a, b, c]"
  shows "drop_bit 18 (group a b c) AND 0x3F = p" "drop_bit 12 (group a b c) AND 0x3F = q"
    "drop_bit 6 (group a b c) AND 0x3F = r" "drop_bit 0 (group a b c) AND 0x3F = s"
proof -
  note high = six_bits [OF assms(1)] six_bits [OF assms(2)] six_bits [OF assms(3)] six_bits [OF assms(4)]
  have abc: "a = ucast (push_bit 2 p OR drop_bit 4 q)" "b = ucast (push_bit 4 q OR drop_bit 2 r)"
      "c = ucast (push_bit 6 r OR s)"
    using assms(5) by (simp_all add: bytes3_def)
  show "drop_bit 18 (group a b c) AND 0x3F = p"
  proof (rule six_eqI [OF six_and assms(1)])
    show "bit (drop_bit 18 (group a b c) AND 0x3F) n = bit p n" if "n < 6" for n
      using lt6 [OF that] by (elim disjE) (simp_all add: group_def abc bit_simps high small_numbers)
  qed
  show "drop_bit 12 (group a b c) AND 0x3F = q"
  proof (rule six_eqI [OF six_and assms(2)])
    show "bit (drop_bit 12 (group a b c) AND 0x3F) n = bit q n" if "n < 6" for n
      using lt6 [OF that] by (elim disjE) (simp_all add: group_def abc bit_simps high small_numbers)
  qed
  show "drop_bit 6 (group a b c) AND 0x3F = r"
  proof (rule six_eqI [OF six_and assms(3)])
    show "bit (drop_bit 6 (group a b c) AND 0x3F) n = bit r n" if "n < 6" for n
      using lt6 [OF that] by (elim disjE) (simp_all add: group_def abc bit_simps high small_numbers)
  qed
  show "drop_bit 0 (group a b c) AND 0x3F = s"
  proof (rule six_eqI [OF six_and assms(4)])
    show "bit (drop_bit 0 (group a b c) AND 0x3F) n = bit s n" if "n < 6" for n
      using lt6 [OF that] by (elim disjE) (simp_all add: group_def abc bit_simps high small_numbers)
  qed
qed

lemma leftover_4: "six q \<Longrightarrow> (push_bit 6 acc OR q) AND mask 4 = q AND mask 4"
  by (intro bit_word_eqI) (auto simp: bit_simps)

lemma leftover_2: "six q \<Longrightarrow> (push_bit 6 acc OR q) AND mask 2 = q AND mask 2"
  by (intro bit_word_eqI) (auto simp: bit_simps)

lemma six_zero [simp]: "six 0"
  by (simp add: six_def)

lemma six_mask [simp]: "six ((d AND 0x3F) AND mask n)"
  by (simp add: six_def and.assoc and.commute and.left_commute)

lemma group_tails:
  "drop_bit 0 (group a b 0) AND 0x3F = 0" "(drop_bit 6 (group a b 0) AND 0x3F) AND mask 2 = 0"
  "drop_bit 6 (group a 0 0) AND 0x3F = 0" "(drop_bit 12 (group a 0 0) AND 0x3F) AND mask 4 = 0"
proof -
  show "drop_bit 0 (group a b 0) AND 0x3F = 0"
  proof (rule six_eqI [OF six_and six_zero])
    show "bit (drop_bit 0 (group a b 0) AND 0x3F) n = bit 0 n" if "n < 6" for n
      using lt6 [OF that] by (elim disjE) (simp_all add: group_def bit_simps small_numbers)
  qed
  show "(drop_bit 6 (group a b 0) AND 0x3F) AND mask 2 = 0"
  proof (rule six_eqI [OF six_mask six_zero])
    show "bit ((drop_bit 6 (group a b 0) AND 0x3F) AND mask 2) n = bit 0 n" if "n < 6" for n
      using lt6 [OF that] by (elim disjE) (simp_all add: group_def bit_simps small_numbers)
  qed
  show "drop_bit 6 (group a 0 0) AND 0x3F = 0"
  proof (rule six_eqI [OF six_and six_zero])
    show "bit (drop_bit 6 (group a 0 0) AND 0x3F) n = bit 0 n" if "n < 6" for n
      using lt6 [OF that] by (elim disjE) (simp_all add: group_def bit_simps small_numbers)
  qed
  show "(drop_bit 12 (group a 0 0) AND 0x3F) AND mask 4 = 0"
  proof (rule six_eqI [OF six_mask six_zero])
    show "bit ((drop_bit 12 (group a 0 0) AND 0x3F) AND mask 4) n = bit 0 n" if "n < 6" for n
      using lt6 [OF that] by (elim disjE) (simp_all add: group_def bit_simps small_numbers)
  qed
qed

lemma mask_bits: "r AND mask k = 0 \<Longrightarrow> n < k \<Longrightarrow> k \<le> 32 \<Longrightarrow> \<not> bit (r :: 32 word) n"
proof
  assume "r AND mask k = 0" "n < k" "k \<le> 32" "bit r n"
  then have "bit (r AND mask k) n"
    unfolding bit_and_iff bit_mask_iff by simp
  then show False
    using \<open>r AND mask k = 0\<close> by simp
qed

lemma no_leftover_2: "r AND mask 2 = 0 \<Longrightarrow> ucast (push_bit 6 (r :: 32 word)) = (0 :: 8 word)"
  by (rule bit_word_eqI) (auto simp: bit_simps mask_bits)

lemma no_leftover_4: "q AND mask 4 = 0 \<Longrightarrow> ucast (push_bit 4 (q :: 32 word)) = (0 :: 8 word)"
  by (rule bit_word_eqI) (auto simp: bit_simps mask_bits)

locale alphabet =
  fixes al :: string
  assumes length_al: "length al = 64" and distinct_al: "distinct al"
begin

lemma reverse_upto:
  assumes "n \<le> 64"
  shows "foldl (\<lambda>v i. v(al ! i := int i)) (\<lambda>_. -1) [0..<n] c = d \<longleftrightarrow>
    (\<exists>i<n. al ! i = c \<and> d = int i) \<or> (\<forall>i<n. al ! i \<noteq> c) \<and> d = -1"
  using assms
proof (induction n)
  case (Suc n)
  have "al ! i \<noteq> al ! n" if "i < n" for i
    using that Suc.prems length_al distinct_al by (simp add: nth_eq_iff_index_eq)
  then show ?case
    using Suc by (auto simp: less_Suc_eq)
qed auto

lemma reverse_digit: "i < 64 \<Longrightarrow> reverse_table al (al ! i) = int i"
  using reverse_upto [of 64 "al ! i" "int i"] by (auto simp: reverse_table_def)

lemma reverse_cases:
  obtains "reverse_table al c = -1" "c \<notin> set al"
  | d where "six d" "reverse_table al c = uint d" "al ! unat d = c"
proof (cases "\<exists>i<64. al ! i = c")
  case True
  then obtain i where i: "i < 64" "al ! i = c"
    by blast
  let ?d = "of_nat i :: 32 word"
  have d: "unat ?d = i"
    using i(1) by (simp add: unsigned_of_nat take_bit_nat_eq_self)
  then have "six ?d"
    using i(1) by (simp add: six_less word_less_nat_alt)
  moreover have "reverse_table al c = uint ?d"
    using reverse_digit [OF i(1)] i(2) d by (simp only: uint_nat)
  ultimately show ?thesis
    using that(2) [of ?d] i d by simp
next
  case False
  then have "c \<notin> set al"
    using length_al by (metis in_set_conv_nth)
  moreover have "reverse_table al c = -1"
    unfolding reverse_table_def using reverse_upto [of 64 c "-1"] False by blast
  ultimately show ?thesis
    using that(1) by blast
qed

lemma reverse_of_digit [simp]: "reverse_table al (digit al v k) = uint (drop_bit k v AND 0x3F)"
proof -
  have "unat (drop_bit k v AND 0x3F) < 64"
    using word_and_le1 [of "drop_bit k v" "0x3F"] by (simp add: word_le_nat_alt)
  then show ?thesis
    using reverse_digit [of "unat (drop_bit k v AND 0x3F)"] by (simp add: digit_def)
qed

lemma decode_digit:
  assumes "reverse_table al c = uint d"
  shows "decode_digits al acc bits out (c # cs) = (let acc' = push_bit 6 acc OR d in
    if bits + 6 \<ge> 8
    then decode_digits al acc' (bits + 6 - 8) (out @ [ucast (drop_bit (bits + 6 - 8) acc' AND 0xFF)]) cs
    else decode_digits al acc' (bits + 6) out cs)"
  using assms by (simp add: Let_def)

lemma decode_2:
  assumes "six p" "six q" "reverse_table al c1 = uint p" "reverse_table al c2 = uint q"
  shows "decode_digits al acc 0 out (c1 # c2 # cs) =
    decode_digits al (push_bit 6 (push_bit 6 acc OR p) OR q) 4 (out @ [ucast (push_bit 2 p OR drop_bit 4 q)]) cs"
  using first_byte [OF assms(1,2), of acc]
  by (simp add: decode_digit [OF assms(3)] decode_digit [OF assms(4)] Let_def del: decode_digits.simps)

lemma decode_3:
  assumes "six q" "six r" "reverse_table al c = uint r"
  shows "decode_digits al (push_bit 6 acc OR q) 4 out (c # cs) =
    decode_digits al (push_bit 6 (push_bit 6 acc OR q) OR r) 2 (out @ [ucast (push_bit 4 q OR drop_bit 2 r)]) cs"
  using second_byte [OF assms(1,2), of acc]
  by (simp add: decode_digit [OF assms(3)] Let_def del: decode_digits.simps)

lemma decode_4:
  assumes "six r" "six s" "reverse_table al c = uint s"
  shows "decode_digits al (push_bit 6 acc OR r) 2 out (c # cs) =
    decode_digits al (push_bit 6 (push_bit 6 acc OR r) OR s) 0 (out @ [ucast (push_bit 6 r OR s)]) cs"
  using third_byte [OF assms(1,2), of acc]
  by (simp add: decode_digit [OF assms(3)] Let_def del: decode_digits.simps)

lemma decode_group:
  assumes "six p" "six q" "six r" "six s"
    and "reverse_table al c1 = uint p" "reverse_table al c2 = uint q" "reverse_table al c3 = uint r"
    and "reverse_table al c4 = uint s"
  shows "\<exists>acc'. decode_digits al acc 0 out (c1 # c2 # c3 # c4 # cs) =
    decode_digits al acc' 0 (out @ bytes3 p q r s) cs"
  unfolding decode_2 [OF assms(1,2,5,6)] decode_3 [OF assms(2,3,7)] decode_4 [OF assms(3,4,8)] bytes3_def
  by (simp only: append.assoc append.simps) blast

lemma bytes3_prefix:
  "ucast (push_bit 2 (drop_bit 18 (group a b c) AND 0x3F) OR drop_bit 4 (drop_bit 12 (group a b c) AND 0x3F)) = a"
  "ucast (push_bit 4 (drop_bit 12 (group a b c) AND 0x3F) OR drop_bit 2 (drop_bit 6 (group a b c) AND 0x3F)) = b"
  using bytes3_group [of a b c] by (simp_all add: bytes3_def)

lemma decode_encode_plain: "decode_digits al acc 0 out (encode_plain al ds) = Some (out @ ds)"
proof (induction ds arbitrary: acc out rule: encode_base64.induct)
  case (1 a b c rest)
  obtain acc' where "decode_digits al acc 0 out (encode_plain al (a # b # c # rest)) =
      decode_digits al acc' 0 (out @ [a, b, c]) (encode_plain al rest)"
    using decode_group [OF six_and six_and six_and six_and reverse_of_digit reverse_of_digit reverse_of_digit reverse_of_digit]
    unfolding encode_plain.simps Let_def bytes3_group [of a b c, symmetric] by blast
  then show ?case
    using 1 by simp
next
  case (2 a b)
  show ?case
    unfolding encode_plain.simps Let_def decode_2 [OF six_and six_and reverse_of_digit reverse_of_digit]
      decode_3 [OF six_and six_and reverse_of_digit] decode_digits.simps(1) leftover_2 [OF six_and]
      group_tails bytes3_prefix by simp
next
  case (3 a)
  show ?case
    unfolding encode_plain.simps Let_def decode_2 [OF six_and six_and reverse_of_digit reverse_of_digit]
      decode_digits.simps(1) leftover_4 [OF six_and] group_tails bytes3_prefix by simp
qed simp

lemma six_nth: "six d \<Longrightarrow> al ! unat d \<in> set al"
  by (simp add: six_less length_al word_less_nat_alt)

lemma decode_valid: "decode_digits al acc bits out cs = Some bs \<Longrightarrow> set cs \<subseteq> set al"
proof (induction cs arbitrary: acc bits out)
  case (Cons c cs)
  then show ?case
    by (cases rule: reverse_cases [of c]) (auto simp: Let_def six_nth split: if_splits)
qed simp

lemma valid_digit:
  assumes "c \<in> set al"
  obtains d where "six d" "reverse_table al c = uint d" "al ! unat d = c"
  using assms by (cases rule: reverse_cases [of c]) auto

lemma digit_of_six: "drop_bit k v AND 0x3F = d \<Longrightarrow> digit al v k = al ! unat d"
  by (simp add: digit_def)

fun quads :: "'b list \<Rightarrow> nat" where
  "quads (a # b # c # d # rest) = Suc (quads rest)"
| "quads [a, b, c] = 0"
| "quads [a, b] = 0"
| "quads [a] = 0"
| "quads [] = 0"

lemma decode_plain:
  "decode_digits al acc 0 out cs = Some bs \<Longrightarrow> length cs mod 4 \<noteq> 1 \<Longrightarrow>
    \<exists>ds. bs = out @ ds \<and> cs = encode_plain al ds"
proof (induction cs arbitrary: acc out rule: quads.induct)
  case (1 c1 c2 c3 c4 rest)
  have "c1 \<in> set al" "c2 \<in> set al" "c3 \<in> set al" "c4 \<in> set al"
    using decode_valid [OF 1(2)] by auto
  then obtain p q r s where six: "six p" "six q" "six r" "six s"
    and rev: "reverse_table al c1 = uint p" "reverse_table al c2 = uint q" "reverse_table al c3 = uint r"
      "reverse_table al c4 = uint s"
    and at: "al ! unat p = c1" "al ! unat q = c2" "al ! unat r = c3" "al ! unat s = c4"
    using valid_digit by metis
  obtain a b c where abc: "bytes3 p q r s = [a, b, c]"
    by (simp add: bytes3_def)
  obtain acc' where "decode_digits al acc' 0 (out @ [a, b, c]) rest = Some bs"
    using decode_group [OF six rev, of acc out rest] 1(2) abc by auto
  moreover have "length rest mod 4 \<noteq> 1"
    using 1(3) by simp
  ultimately obtain ds where "bs = out @ a # b # c # ds" "rest = encode_plain al ds"
    using 1(1) [of acc' "out @ [a, b, c]"] by auto
  then show ?case
    using group_bytes3 [OF six abc] at
    by (intro exI [of _ "a # b # c # ds"]) (simp add: Let_def digit_of_six)
next
  case (2 c1 c2 c3)
  have "c1 \<in> set al" "c2 \<in> set al" "c3 \<in> set al"
    using decode_valid [OF 2(1)] by auto
  then obtain p q r where six: "six p" "six q" "six r"
    and rev: "reverse_table al c1 = uint p" "reverse_table al c2 = uint q" "reverse_table al c3 = uint r"
    and at: "al ! unat p = c1" "al ! unat q = c2" "al ! unat r = c3"
    using valid_digit by metis
  let ?bytes = "[ucast (push_bit 2 p OR drop_bit 4 q), ucast (push_bit 4 q OR drop_bit 2 r)] :: 8 word list"
  have "(if r AND mask 2 \<noteq> 0 then None else Some (out @ ?bytes)) = Some bs"
    using 2(1) unfolding decode_2 [OF six(1,2) rev(1,2)] decode_3 [OF six(2,3) rev(3)] decode_digits.simps(1)
      leftover_2 [OF six(3)] by (simp split: if_splits)
  then have bs: "r AND mask 2 = 0" "bs = out @ ?bytes"
    by (simp_all split: if_splits)
  have "bytes3 p q r 0 = ?bytes @ [0]"
    using no_leftover_2 [OF bs(1)] by (simp add: bytes3_def)
  then have "bytes3 p q r 0 = [?bytes ! 0, ?bytes ! 1, 0]"
    by simp
  from group_bytes3 [OF six six_zero this] show ?case
    using at bs(2) by (intro exI [of _ ?bytes]) (simp add: Let_def digit_of_six)
next
  case (3 c1 c2)
  have "c1 \<in> set al" "c2 \<in> set al"
    using decode_valid [OF 3(1)] by auto
  then obtain p q where six: "six p" "six q"
    and rev: "reverse_table al c1 = uint p" "reverse_table al c2 = uint q"
    and at: "al ! unat p = c1" "al ! unat q = c2"
    using valid_digit by metis
  let ?byte = "ucast (push_bit 2 p OR drop_bit 4 q) :: 8 word"
  have "(if q AND mask 4 \<noteq> 0 then None else Some (out @ [?byte])) = Some bs"
    using 3(1) unfolding decode_2 [OF six(1,2) rev(1,2)] decode_digits.simps(1) leftover_4 [OF six(2)] by (simp split: if_splits)
  then have bs: "q AND mask 4 = 0" "bs = out @ [?byte]"
    by (simp_all split: if_splits)
  have "bytes3 p q 0 0 = [?byte, 0, 0]"
    using no_leftover_4 [OF bs(1)] by (simp add: bytes3_def)
  from group_bytes3 [OF six six_zero six_zero this] show ?case
    using at bs(2) by (intro exI [of _ "[?byte]"]) (simp add: Let_def digit_of_six)
qed auto

lemma decode_iff:
  "length cs mod 4 \<noteq> 1 \<Longrightarrow> decode_digits al acc 0 [] cs = Some bs \<longleftrightarrow> cs = encode_plain al bs"
  using decode_plain [of acc "[]" cs bs] decode_encode_plain [of acc "[]" bs] by auto

end

section \<open>Strict decoding\<close>

interpretation standard: alphabet ALPHABET
  by unfold_locales (simp_all add: ALPHABET_def)

interpretation url: alphabet URL_ALPHABET
  by unfold_locales (simp_all add: URL_ALPHABET_def)

lemma encode_base64url_plain: "encode_base64url ds = encode_plain URL_ALPHABET ds"
  by (induction ds rule: encode_base64url.induct) (simp_all add: Let_def)

definition padding :: "nat \<Rightarrow> string" where
  "padding n = (if n mod 3 = 0 then '''' else if n mod 3 = 1 then ''=='' else ''='')"

lemma encode_base64_plain: "encode_base64 ds = encode_plain ALPHABET ds @ padding (length ds)"
  by (induction ds rule: encode_base64.induct) (simp_all add: Let_def padding_def)

lemma length_encode_plain:
  "length (encode_plain al ds) mod 4 = (if length ds mod 3 = 0 then 0 else length ds mod 3 + 1)"
  by (induction ds rule: encode_base64.induct) (auto simp: Let_def)

lemma length_encode_base64: "length (encode_base64 ds) mod 4 = 0"
  by (induction ds rule: encode_base64.induct) (auto simp: Let_def)

lemma encode_plain_empty [simp]: "encode_plain al ds = [] \<longleftrightarrow> ds = []" "[] = encode_plain al ds \<longleftrightarrow> ds = []"
  by (cases ds rule: encode_base64.cases; simp add: Let_def)+

lemma equals_not_digit: "CHR ''='' \<notin> set (encode_plain ALPHABET ds)"
  using standard.decode_valid [OF standard.decode_encode_plain [of 0 "[]" ds]] by (auto simp: ALPHABET_def)

lemma trailing_pad_encoded:
  assumes "ds \<noteq> []"
  shows "trailing_pad (encode_plain ALPHABET ds @ padding (length ds)) = length (padding (length ds))"
proof -
  let ?e = "encode_plain ALPHABET ds"
  have "?e ! (length ?e - 1) \<noteq> CHR ''=''"
    using equals_not_digit [of ds] assms nth_mem [of "length ?e - 1" ?e] by fastforce
  then show ?thesis
    using assms by (cases "length ds mod 3 = 0"; cases "length ds mod 3 = 1")
      (simp_all add: padding_def trailing_pad_def nth_append Suc_leI)
qed

lemma trailing_pad_text:
  assumes "text \<noteq> []" "length text mod 4 = 0"
  shows "drop (length text - trailing_pad text) text = replicate (trailing_pad text) CHR ''=''" "trailing_pad text \<le> 2"
    "trailing_pad text \<le> length text"
proof -
  obtain front c d where parts: "text = front @ [c, d]"
  proof (cases "text" rule: rev_cases)
    case (snoc ys d)
    then show thesis
      using assms(2) that by (cases ys rule: rev_cases) auto
  qed (use assms in simp)
  show "drop (length text - trailing_pad text) text = replicate (trailing_pad text) CHR ''=''"
    "trailing_pad text \<le> 2" "trailing_pad text \<le> length text"
    by (auto simp: parts trailing_pad_def nth_append numeral_2_eq_2)
qed

lemma mod_sub_4:
  assumes "n mod 4 = 0" "k \<le> 2" "k \<le> n"
  shows "k = 0 \<and> (n - k) mod 4 = 0 \<or> k = 1 \<and> (n - k) mod 4 = 3 \<or> k = 2 \<and> (n - k) mod 4 = (2 :: nat)"
proof -
  obtain m where m: "n = 4 * m"
    using assms(1) by auto
  show ?thesis
  proof (cases m)
    case 0
    then show ?thesis
      using assms(3) m by simp
  next
    case (Suc l)
    then have "n = 4 * l + 4"
      using m by simp
    moreover have "k = 0 \<or> k = 1 \<or> k = 2"
      using assms(2) by auto
    ultimately show ?thesis
      by (elim disjE) (simp_all add: mod_Suc)
  qed
qed

lemma check_length_Some:
  "check_length n r = Some bs \<longleftrightarrow> r = Some bs \<and> (n = 0 \<or> n = length bs)"
  by (auto simp: check_length_def split: option.splits if_splits)

lemma decode_standard:
  assumes "text \<noteq> []" "length text mod 4 = 0"
  shows "decode_digits ALPHABET 0 0 [] (take (length text - trailing_pad text) text) = Some bs \<longleftrightarrow>
    text = encode_base64 bs"
proof
  let ?body = "take (length text - trailing_pad text) text"
  note tail = trailing_pad_text [OF assms]
  assume "decode_digits ALPHABET 0 0 [] ?body = Some bs"
  moreover have "length ?body mod 4 \<noteq> 1"
    using mod_sub_4 [OF assms(2) tail(2,3)] by auto
  ultimately have body: "?body = encode_plain ALPHABET bs"
    using standard.decode_iff by blast
  have "(length text - trailing_pad text) mod 4 = (if length bs mod 3 = 0 then 0 else length bs mod 3 + 1)"
    using length_encode_plain [of ALPHABET bs] unfolding body [symmetric] by simp
  then have "padding (length bs) = replicate (trailing_pad text) CHR ''=''"
    using mod_sub_4 [OF assms(2) tail(2,3)]
    by (auto simp: padding_def numeral_2_eq_2 split: if_splits)
  then show "text = encode_base64 bs"
    unfolding encode_base64_plain body [symmetric] tail(1) [symmetric] by simp
next
  assume enc: "text = encode_base64 bs"
  then have "bs \<noteq> []"
    using assms(1) by auto
  have "take (length text - trailing_pad text) text = encode_plain ALPHABET bs"
    unfolding enc encode_base64_plain trailing_pad_encoded [OF \<open>bs \<noteq> []\<close>] by simp
  then show "decode_digits ALPHABET 0 0 [] (take (length text - trailing_pad text) text) = Some bs"
    using standard.decode_encode_plain [of 0 "[]" bs] by simp
qed

lemma decode_base64_iff: "decode_base64 text n = Some bs \<longleftrightarrow> text = encode_base64 bs \<and> (n = 0 \<or> n = length bs)"
proof (cases "text = [] \<or> length text mod 4 \<noteq> 0")
  case True
  then show ?thesis
    using length_encode_base64 [of bs] by (cases bs) (auto simp: decode_base64_def encode_base64_plain padding_def)
next
  case False
  then show ?thesis
    using decode_standard [of "text" bs] by (simp add: decode_base64_def check_length_Some)
qed

lemma decode_base64url_iff: "decode_base64url text n = Some bs \<longleftrightarrow> text = encode_base64url bs \<and> (n = 0 \<or> n = length bs)"
proof (cases "text = [] \<or> length text mod 4 = 1")
  case True
  then show ?thesis
    using length_encode_plain [of URL_ALPHABET bs]
    by (cases "bs = []") (auto simp: decode_base64url_def encode_base64url_plain split: if_splits)
next
  case False
  then show ?thesis
    by (simp add: decode_base64url_def check_length_Some url.decode_iff encode_base64url_plain)
qed

section \<open>Properties\<close>

text \<open>
  C40. The decoders accept exactly what the encoders write: a text decodes to some bytes if and only if it is
  the encoding of these bytes and their number is the expected one, if one is given. So decoding undoes
  encoding, no two texts decode to the same bytes, and every other text (blanks, misplaced or missing
  padding, stray low bits, a wrong length) is refused.
\<close>

theorem base64_strict:
  "(decode_base64 text n = Some bs \<longleftrightarrow> text = encode_base64 bs \<and> (n = 0 \<or> n = length bs))
    \<and> (decode_base64url text n = Some bs \<longleftrightarrow> text = encode_base64url bs \<and> (n = 0 \<or> n = length bs))"
  by (intro conjI decode_base64_iff decode_base64url_iff)

end
