(* ===== verification/Json.thy ===== *)
theory Json
  imports Prelude
begin

text \<open>
  The functions of the JSON library (nlohmann::json) that the sealed requests and the tokens call, as a record that their
  definitions take, and the readings of a message that they share.
\<close>

record 'j json_lib =
  parse :: "string \<Rightarrow> 'j option"
  is_object :: "'j \<Rightarrow> bool"
  field :: "'j \<Rightarrow> string \<Rightarrow> 'j option"
  as_string :: "'j \<Rightarrow> string option"
  as_integer :: "'j \<Rightarrow> int option"
  erase_field :: "'j \<Rightarrow> string \<Rightarrow> 'j"
  dump :: "'j \<Rightarrow> string"
  dump_string :: "string \<Rightarrow> string"
  make_object :: "(string \<times> 'j) list \<Rightarrow> 'j"
  make_string :: "string \<Rightarrow> 'j"
  make_integer :: "int \<Rightarrow> 'j"

definition text_of :: "8 word list \<Rightarrow> string" where
  "text_of b = map (\<lambda>x. char_of (unat x)) b"

definition bytes_of :: "string \<Rightarrow> 8 word list" where
  "bytes_of s = map of_char s"

definition object_of :: "'j json_lib \<Rightarrow> string \<Rightarrow> 'j option" where
  "object_of js t = Option.bind (parse js t) (\<lambda>j. if is_object js j then Some j else None)"

definition string_field :: "'j json_lib \<Rightarrow> 'j \<Rightarrow> string \<Rightarrow> string option" where
  "string_field js obj f = Option.bind (field js obj f) (as_string js)"

definition integer_field :: "'j json_lib \<Rightarrow> 'j \<Rightarrow> string \<Rightarrow> int option" where
  "integer_field js obj f = Option.bind (field js obj f) (as_integer js)"

lemma char_of_byte [simp]: "char_of (unat (of_char c :: 8 word)) = c"
proof -
  have "unat (of_char c :: 8 word) = unat (of_nat (of_char c) :: 8 word)"
    by (simp only: of_nat_of_char)
  also have "\<dots> = of_char c"
    by (simp only: unat_of_nat) (simp add: byte_of_less)
  finally show ?thesis
    by simp
qed

lemma byte_of_char_of [simp]: "of_char (char_of (unat b)) = (b :: 8 word)"
proof -
  have "of_char (char_of (unat b)) = (of_nat (of_char (char_of (unat b))) :: 8 word)"
    by (simp only: of_nat_of_char)
  also have "\<dots> = of_nat (unat b mod 256)"
    by (simp only: of_char_of)
  also have "\<dots> = b"
    using unsigned_less [where ?'a = nat, of b] by simp
  finally show ?thesis .
qed

lemma text_of_bytes_of [simp]: "text_of (bytes_of s) = s"
  by (induction s) (simp_all add: text_of_def bytes_of_def)

lemma bytes_of_text_of [simp]: "bytes_of (text_of b) = b"
  by (induction b) (simp_all add: text_of_def bytes_of_def)

end
