(* ===== verification/SealedKeys.thy ===== *)
theory SealedKeys
  imports Sealing Base64 Json "HOL-Library.Multiset"
begin

text \<open>
  The store of one-time keys (\<open>crypto/sealed_key_store.cpp\<close>) and the registry of the requests that must come
  sealed (\<open>crypto/sealed_registry.cpp\<close>). Times are in nanoseconds. \<open>issue\<close> checks the caps, leaves the lock to mint a key, and
  takes the lock again to check once more and to file it; what other threads do meanwhile is an
  argument, and in the runs of a store the two halves are steps of their own. JSON is the library's (theory \<open>Json\<close>).
\<close>

section \<open>The store\<close>

record 'm entry =
  entry_material :: 'm
  entry_expires_at :: int
  entry_ip :: string

record 'm key_store =
  ttl_seconds :: "32 word"
  max_per_ip :: nat
  max_total :: nat
  entries :: "(bytes \<times> 'm entry) list"
  per_ip :: "string \<rightharpoonup> nat"

definition new_key_store :: "32 word \<Rightarrow> nat \<Rightarrow> nat \<Rightarrow> 'm key_store" where
  "new_key_store ttl ips overall =
     \<lparr>ttl_seconds = ttl, max_per_ip = ips, max_total = overall, entries = [], per_ip = Map.empty\<rparr>"

definition release_ip :: "string \<Rightarrow> (string \<rightharpoonup> nat) \<Rightarrow> (string \<rightharpoonup> nat)" where
  "release_ip ip m = (case m ip of None \<Rightarrow> m
     | Some n \<Rightarrow> if n - 1 = 0 then m(ip := None) else m(ip \<mapsto> n - 1))"

fun sweep_entry :: "int \<Rightarrow> (bytes \<times> 'm entry) list \<times> (string \<rightharpoonup> nat) \<times> nat \<Rightarrow> bytes \<times> 'm entry \<Rightarrow>
    (bytes \<times> 'm entry) list \<times> (string \<rightharpoonup> nat) \<times> nat" where
  "sweep_entry now (kept, ips, removed) (kid, e) =
     (if now \<ge> entry_expires_at e then (kept, release_ip (entry_ip e) ips, Suc removed)
      else (kept @ [(kid, e)], ips, removed))"

definition sweep_locked :: "int \<Rightarrow> 'm key_store \<Rightarrow> nat \<times> 'm key_store" where
  "sweep_locked now s =
     (let (kept, ips, removed) = foldl (sweep_entry now) ([], per_ip s, 0) (entries s)
      in (removed, s\<lparr>entries := kept, per_ip := ips\<rparr>))"

definition erase_locked :: "bytes \<Rightarrow> 'm key_store \<Rightarrow> 'm key_store" where
  "erase_locked kid s = (case map_of (entries s) kid of None \<Rightarrow> s
     | Some e \<Rightarrow> s\<lparr>entries := filter (\<lambda>(i, _). i \<noteq> kid) (entries s), per_ip := release_ip (entry_ip e) (per_ip s)\<rparr>)"

definition over_cap :: "string \<Rightarrow> 'm key_store \<Rightarrow> bool" where
  "over_cap ip s \<longleftrightarrow> (if length (entries s) \<ge> max_total s then True
     else case per_ip s ip of None \<Rightarrow> False | Some n \<Rightarrow> n \<ge> max_per_ip s)"

definition admit :: "int \<Rightarrow> string \<Rightarrow> 'm key_store \<Rightarrow> bool \<times> 'm key_store" where
  "admit now ip s = (let (_, s) = sweep_locked now s in (\<not> over_cap ip s, s))"

definition nanoseconds :: "32 word \<Rightarrow> int" where
  "nanoseconds seconds = uint seconds * 10 ^ 9"

definition file_key :: "int \<Rightarrow> string \<Rightarrow> bytes \<Rightarrow> 'm \<Rightarrow> 'm key_store \<Rightarrow> bool \<times> 'm key_store" where
  \<comment> \<open>\<open>emplace\<close> leaves an entry of the same id as it is; the count goes up all the same\<close>
  "file_key now ip kid material s =
     (if over_cap ip s then (False, s)
      else let e = \<lparr>entry_material = material, entry_expires_at = now + nanoseconds (ttl_seconds s), entry_ip = ip\<rparr>
        in (True, s\<lparr>entries := (if map_of (entries s) kid = None then entries s @ [(kid, e)] else entries s),
              per_ip := (per_ip s)(ip \<mapsto> (case per_ip s ip of None \<Rightarrow> 0 | Some n \<Rightarrow> n) + 1)\<rparr>))"

definition issue ::
  "('k, 'x, 'i) crypto_lib \<Rightarrow> 'i \<Rightarrow> string \<Rightarrow> bytes \<Rightarrow> 'k \<Rightarrow> 'x \<Rightarrow> int \<Rightarrow> int
     \<Rightarrow> (('k, 'x) key_material key_store \<Rightarrow> ('k, 'x) key_material key_store)
     \<Rightarrow> ('k, 'x) key_material key_store \<Rightarrow> key_offer option \<times> ('k, 'x) key_material key_store" where
  "issue lib identity ip key_id kem ecc now now' meanwhile s =
     (let (ok, s) = admit now ip s
      in if \<not> ok then (None, s)
         else case mint lib identity (ttl_seconds s) key_id kem ecc of None \<Rightarrow> (None, meanwhile s)
           | Some (material, offer) \<Rightarrow>
             let (ok, s) = file_key now' ip (offer_key_id offer) material (meanwhile s)
             in (if ok then Some offer else None, s))"

definition consume :: "int \<Rightarrow> bytes \<Rightarrow> 'm key_store \<Rightarrow> 'm option \<times> 'm key_store" where
  "consume now key_id s =
     (if length key_id \<noteq> 16 then (None, s)
      else case map_of (entries s) key_id of None \<Rightarrow> (None, s)
        | Some e \<Rightarrow>
          let expired = (now \<ge> entry_expires_at e); s = erase_locked key_id s
          in (if expired then None else Some (entry_material e), s))"

definition outstanding_for :: "string \<Rightarrow> 'm key_store \<Rightarrow> nat" where
  "outstanding_for ip s = (case per_ip s ip of None \<Rightarrow> 0 | Some n \<Rightarrow> n)"

text \<open>
  The runs of a store, with the keys filed so far (id, material, expiry) and the keys handed out so far (and when).
\<close>

inductive store_run ::
  "32 word \<Rightarrow> nat \<Rightarrow> nat \<Rightarrow> 'm key_store \<Rightarrow> (bytes \<times> 'm \<times> int) list \<Rightarrow> (bytes \<times> 'm \<times> int \<times> int) list \<Rightarrow> bool"
  for ttl ips overall where
  Start: "store_run ttl ips overall (new_key_store ttl ips overall) [] []"
| Admit: "store_run ttl ips overall s filed used \<Longrightarrow> admit now ip s = (ok, s') \<Longrightarrow> store_run ttl ips overall s' filed used"
| Sweep: "store_run ttl ips overall s filed used \<Longrightarrow> sweep_locked now s = (n, s') \<Longrightarrow> store_run ttl ips overall s' filed used"
| File: "store_run ttl ips overall s filed used \<Longrightarrow> file_key now ip kid material s = (True, s') \<Longrightarrow>
    store_run ttl ips overall s' (filed @ [(kid, material, now + nanoseconds ttl)]) used"
| Refuse: "store_run ttl ips overall s filed used \<Longrightarrow> file_key now ip kid material s = (False, s') \<Longrightarrow>
    store_run ttl ips overall s' filed used"
| Use: "store_run ttl ips overall s filed used \<Longrightarrow> map_of (entries s) kid = Some e \<Longrightarrow>
    consume now kid s = (Some material, s') \<Longrightarrow>
    store_run ttl ips overall s' filed (used @ [(kid, material, entry_expires_at e, now)])"
| Miss: "store_run ttl ips overall s filed used \<Longrightarrow> consume now kid s = (None, s') \<Longrightarrow> store_run ttl ips overall s' filed used"

section \<open>The invariant\<close>

definition held_by :: "string \<Rightarrow> (bytes \<times> 'm entry) list \<Rightarrow> nat" where
  "held_by ip es = length (filter (\<lambda>(_, e). entry_ip e = ip) es)"

definition ticket :: "bytes \<times> 'm entry \<Rightarrow> bytes \<times> 'm \<times> int" where
  "ticket p = (fst p, entry_material (snd p), entry_expires_at (snd p))"

definition ips_ok :: "nat \<Rightarrow> (bytes \<times> 'm entry) list \<Rightarrow> (string \<rightharpoonup> nat) \<Rightarrow> bool" where
  "ips_ok most es ips \<longleftrightarrow> (\<forall>ip. held_by ip es \<le> (case ips ip of None \<Rightarrow> 0 | Some n \<Rightarrow> n))
     \<and> (\<forall>ip n. ips ip = Some n \<longrightarrow> n \<le> max 1 most)"

definition store_ok ::
  "32 word \<Rightarrow> nat \<Rightarrow> nat \<Rightarrow> 'm key_store \<Rightarrow> (bytes \<times> 'm \<times> int) list \<Rightarrow> (bytes \<times> 'm \<times> int \<times> int) list \<Rightarrow> bool" where
  "store_ok ttl ips overall s filed used \<longleftrightarrow>
     ttl_seconds s = ttl \<and> max_per_ip s = ips \<and> max_total s = overall
     \<and> distinct (map fst (entries s)) \<and> length (entries s) \<le> overall \<and> ips_ok ips (entries s) (per_ip s)
     \<and> mset (map ticket (entries s)) + mset (map (\<lambda>(kid, m, expiry, now). (kid, m, expiry)) used) \<subseteq># mset filed
     \<and> (\<forall>(kid, m, expiry, now) \<in> set used. now < expiry)"

lemma held_by_Nil [simp]: "held_by ip [] = 0"
  by (simp add: held_by_def)

lemma held_by_append [simp]: "held_by ip (es @ [(kid, e)]) = held_by ip es + (if entry_ip e = ip then 1 else 0)"
  by (simp add: held_by_def)

lemma held_by_Cons [simp]: "held_by ip ((kid, e) # es) = (if entry_ip e = ip then 1 else 0) + held_by ip es"
  by (simp add: held_by_def)

lemma ips_ok_release:
  assumes "ips_ok most es ips" and "\<And>ip. held_by ip es' + (if entry_ip e = ip then 1 else 0) \<le> held_by ip es"
  shows "ips_ok most es' (release_ip (entry_ip e) ips)"
proof -
  let ?i = "entry_ip e"
  have held: "held_by ip es' + (if ?i = ip then 1 else 0) \<le> (case ips ip of None \<Rightarrow> 0 | Some n \<Rightarrow> n)" for ip
    using assms(1) assms(2) [of ip] le_trans unfolding ips_ok_def by blast
  have most: "n \<le> max 1 most" if "ips ip = Some n" for ip n
    using assms(1) that unfolding ips_ok_def by blast
  obtain n where n: "ips ?i = Some n" "0 < n"
    using held [of ?i] by (cases "ips ?i") auto
  have "held_by ip es' \<le> (case release_ip ?i ips ip of None \<Rightarrow> 0 | Some n \<Rightarrow> n)" for ip
    using held [of ip] n by (cases "ip = ?i") (auto simp: release_ip_def)
  moreover have "k \<le> max 1 most" if "release_ip ?i ips ip = Some k" for ip k
    using that most [of ip] most [OF n(1)] n by (auto simp: release_ip_def split: if_splits)
  ultimately show ?thesis
    unfolding ips_ok_def by blast
qed

lemma held_by_appends [simp]: "held_by ip (es @ fs) = held_by ip es + held_by ip fs"
  by (simp add: held_by_def)

lemma sweep_entries:
  "ips_ok most (kept @ es) ips \<Longrightarrow> foldl (sweep_entry now) (kept, ips, n) es = (kept', ips', n') \<Longrightarrow>
    ips_ok most kept' ips' \<and> kept' = kept @ filter (\<lambda>(kid, e). now < entry_expires_at e) es"
proof (induction es arbitrary: kept ips n)
  case (Cons p es)
  obtain kid e where p: "p = (kid, e)"
    by (cases p)
  show ?case
  proof (cases "now \<ge> entry_expires_at e")
    case True
    have "ips_ok most (kept @ es) (release_ip (entry_ip e) ips)"
      using Cons.prems(1) by (rule ips_ok_release) (simp add: p)
    moreover have "foldl (sweep_entry now) (kept, release_ip (entry_ip e) ips, Suc n) es = (kept', ips', n')"
      using Cons.prems(2) True by (simp add: p)
    ultimately have "ips_ok most kept' ips' \<and> kept' = kept @ filter (\<lambda>(kid, e). now < entry_expires_at e) es"
      by (rule Cons.IH)
    moreover have "filter (\<lambda>(kid, e). now < entry_expires_at e) (p # es) = filter (\<lambda>(kid, e). now < entry_expires_at e) es"
      using True by (simp add: p)
    ultimately show ?thesis
      by (elim conjE) (simp only: simp_thms)
  next
    case False
    have "ips_ok most ((kept @ [(kid, e)]) @ es) ips"
      using Cons.prems(1) by (simp add: p)
    moreover have "foldl (sweep_entry now) (kept @ [(kid, e)], ips, n) es = (kept', ips', n')"
      using Cons.prems(2) False by (simp add: p)
    ultimately have "ips_ok most kept' ips' \<and>
        kept' = (kept @ [(kid, e)]) @ filter (\<lambda>(kid, e). now < entry_expires_at e) es"
      by (rule Cons.IH)
    moreover have "filter (\<lambda>(kid, e). now < entry_expires_at e) (p # es) =
        (kid, e) # filter (\<lambda>(kid, e). now < entry_expires_at e) es"
      using False by (simp add: p)
    ultimately show ?thesis
      by (elim conjE) (simp only: append.assoc append.simps simp_thms)
  qed
qed simp

lemma sweep_fields:
  assumes "sweep_locked now s = (n, s')" and "ips_ok most (entries s) (per_ip s)"
  shows "ips_ok most (entries s') (per_ip s')" "entries s' = filter (\<lambda>(kid, e). now < entry_expires_at e) (entries s)"
    "ttl_seconds s' = ttl_seconds s" "max_per_ip s' = max_per_ip s" "max_total s' = max_total s"
proof -
  obtain kept ips k where fold: "foldl (sweep_entry now) ([], per_ip s, 0) (entries s) = (kept, ips, k)"
    by (cases "foldl (sweep_entry now) ([], per_ip s, 0) (entries s)")
  have s': "s' = s\<lparr>entries := kept, per_ip := ips\<rparr>"
    using assms(1) by (simp add: sweep_locked_def fold)
  show "ips_ok most (entries s') (per_ip s')" "entries s' = filter (\<lambda>(kid, e). now < entry_expires_at e) (entries s)"
    "ttl_seconds s' = ttl_seconds s" "max_per_ip s' = max_per_ip s" "max_total s' = max_total s"
    using sweep_entries [of most "[]" "entries s" "per_ip s" now 0 kept ips k] fold assms(2) unfolding s' by fastforce+
qed

lemma store_ok_fewer:
  assumes "store_ok ttl ips overall s filed used"
    and "entries s' = filter P (entries s)" and "ips_ok ips (entries s') (per_ip s')"
    and "ttl_seconds s' = ttl_seconds s" "max_per_ip s' = max_per_ip s" "max_total s' = max_total s"
  shows "store_ok ttl ips overall s' filed used"
proof -
  have "mset (map ticket (filter P (entries s))) \<subseteq># mset (map ticket (entries s))"
    by (simp add: image_mset_subseteq_mono)
  then have fewer: "mset (map ticket (entries s')) + X \<subseteq># mset (map ticket (entries s)) + X" for X
    by (simp add: assms(2))
  have "mset (map ticket (entries s')) + mset (map (\<lambda>(kid, m, expiry, now). (kid, m, expiry)) used) \<subseteq># mset filed"
    using assms(1) by (intro subset_mset.order_trans [OF fewer]) (simp add: store_ok_def)
  moreover have "distinct (map fst (entries s'))" "length (entries s') \<le> overall"
    using assms(1) le_trans [OF length_filter_le [of P "entries s"]]
    by (auto simp: store_ok_def assms(2) distinct_map_filter)
  ultimately show ?thesis
    using assms(1,3-6) unfolding store_ok_def by simp
qed

lemma sweep_ok:
  assumes "store_ok ttl ips overall s filed used" and "sweep_locked now s = (n, s')"
  shows "store_ok ttl ips overall s' filed used"
proof -
  have "ips_ok ips (entries s) (per_ip s)"
    using assms(1) by (simp add: store_ok_def)
  note f = sweep_fields [OF assms(2) this]
  show ?thesis
    by (rule store_ok_fewer [OF assms(1) f(2,1,3-5)])
qed

lemma file_fields:
  assumes "file_key now ip kid material s = (True, s')"
  defines "e \<equiv> \<lparr>entry_material = material, entry_expires_at = now + nanoseconds (ttl_seconds s), entry_ip = ip\<rparr>"
  shows "length (entries s) < max_total s" "\<And>n. per_ip s ip = Some n \<Longrightarrow> n < max_per_ip s"
    "entries s' = entries s @ [(kid, e)] \<and> kid \<notin> fst ` set (entries s) \<or> entries s' = entries s"
    "per_ip s' = (per_ip s)(ip \<mapsto> outstanding_for ip s + 1)"
    "ttl_seconds s' = ttl_seconds s" "max_per_ip s' = max_per_ip s" "max_total s' = max_total s"
  using assms(1) unfolding e_def
  by (auto simp: file_key_def over_cap_def outstanding_for_def Let_def map_of_eq_None_iff split: if_splits option.splits)

lemma file_ok:
  assumes ok: "store_ok ttl ips overall s filed used" and filing: "file_key now ip kid material s = (True, s')"
  shows "store_ok ttl ips overall s' (filed @ [(kid, material, now + nanoseconds ttl)]) used"
proof -
  let ?e = "\<lparr>entry_material = material, entry_expires_at = now + nanoseconds (ttl_seconds s), entry_ip = ip\<rparr>"
  note f = file_fields [OF filing]
  have same: "ttl_seconds s = ttl" "max_per_ip s = ips" "max_total s = overall" "ips_ok ips (entries s) (per_ip s)"
    using ok by (simp_all add: store_ok_def)
  have held: "held_by i (entries s') \<le> held_by i (entries s) + (if i = ip then 1 else 0)" for i
    using f(3) by auto
  have "held_by i (entries s') \<le> (case per_ip s' i of None \<Rightarrow> 0 | Some n \<Rightarrow> n)" for i
  proof (cases "i = ip")
    case True
    have "held_by ip (entries s) \<le> outstanding_for ip s"
      using same(4) unfolding ips_ok_def outstanding_for_def by blast
    then show ?thesis
      using held [of i] True by (simp add: f(4))
  next
    case False
    have "held_by i (entries s) \<le> (case per_ip s i of None \<Rightarrow> 0 | Some n \<Rightarrow> n)"
      using same(4) unfolding ips_ok_def by blast
    then show ?thesis
      using held [of i] False by (simp add: f(4))
  qed
  moreover have "n \<le> max 1 ips" if "per_ip s' i = Some n" for i n
  proof (cases "i = ip")
    case True
    then show ?thesis
      using that f(2) same(2) by (cases "per_ip s ip") (auto simp: f(4) outstanding_for_def)
  next
    case False
    then have "per_ip s i = Some n"
      using that by (simp add: f(4))
    then show ?thesis
      using same(4) unfolding ips_ok_def by blast
  qed
  ultimately have "ips_ok ips (entries s') (per_ip s')"
    unfolding ips_ok_def by blast
  moreover have "mset (map ticket (entries s')) + mset (map (\<lambda>(i, m, expiry, now). (i, m, expiry)) used) \<subseteq>#
      mset (filed @ [(kid, material, now + nanoseconds ttl)])"
  proof -
    have before: "mset (map ticket (entries s)) + mset (map (\<lambda>(i, m, expiry, now). (i, m, expiry)) used) \<subseteq># mset filed"
      using ok by (simp add: store_ok_def)
    from f(3) show ?thesis
    proof (elim disjE conjE)
      assume "entries s' = entries s"
      then show ?thesis
        using subset_mset.order_trans [OF before, of "mset (filed @ [(kid, material, now + nanoseconds ttl)])"] by simp
    next
      assume new: "entries s' = entries s @ [(kid, ?e)]"
      have "ticket (kid, ?e) = (kid, material, now + nanoseconds ttl)"
        by (simp add: ticket_def same(1))
      then show ?thesis
        using before by (simp add: new)
    qed
  qed
  moreover have "distinct (map fst (entries s'))" "length (entries s') \<le> overall"
    using f(1,3) ok same(3) by (auto simp: store_ok_def)
  ultimately show ?thesis
    using ok f(5-7) unfolding store_ok_def by simp
qed

lemma filter_one:
  "distinct (map fst es) \<Longrightarrow> map_of es kid = Some e \<Longrightarrow>
    mset es = add_mset (kid, e) (mset (filter (\<lambda>(i, _). i \<noteq> kid) es))"
proof (induction es)
  case (Cons p es)
  show ?case
  proof (cases "fst p = kid")
    case True
    have "filter (\<lambda>(i, _). i \<noteq> kid) es = es"
    proof (rule filter_True, clarify)
      fix b
      assume "(kid, b) \<in> set es"
      then have "kid \<in> fst ` set es"
        by force
      then show False
        using Cons.prems(1) True by simp
    qed
    then show ?thesis
      using True Cons.prems(2) by (cases p) simp
  next
    case False
    then show ?thesis
      using Cons by (cases p) simp
  qed
qed simp

lemma held_by_size: "held_by ip es = size (filter_mset (\<lambda>(_, e). entry_ip e = ip) (mset es))"
  unfolding held_by_def mset_filter [symmetric] size_mset ..

lemma held_by_mset: "mset es = add_mset (kid, e) (mset fs) \<Longrightarrow>
    held_by ip es = held_by ip fs + (if entry_ip e = ip then 1 else 0)"
  by (simp add: held_by_size)

lemma erase_fields:
  assumes "distinct (map fst (entries s))" "map_of (entries s) kid = Some e" "ips_ok most (entries s) (per_ip s)"
  shows "ips_ok most (entries (erase_locked kid s)) (per_ip (erase_locked kid s))"
    "mset (entries s) = add_mset (kid, e) (mset (entries (erase_locked kid s)))"
    "entries (erase_locked kid s) = filter (\<lambda>(i, _). i \<noteq> kid) (entries s)"
    "ttl_seconds (erase_locked kid s) = ttl_seconds s" "max_per_ip (erase_locked kid s) = max_per_ip s"
    "max_total (erase_locked kid s) = max_total s"
proof -
  show "entries (erase_locked kid s) = filter (\<lambda>(i, _). i \<noteq> kid) (entries s)"
    "ttl_seconds (erase_locked kid s) = ttl_seconds s" "max_per_ip (erase_locked kid s) = max_per_ip s"
    "max_total (erase_locked kid s) = max_total s"
    using assms(2) by (simp_all add: erase_locked_def)
  show one: "mset (entries s) = add_mset (kid, e) (mset (entries (erase_locked kid s)))"
    using filter_one [OF assms(1,2)] assms(2) by (simp add: erase_locked_def)
  show "ips_ok most (entries (erase_locked kid s)) (per_ip (erase_locked kid s))"
    using ips_ok_release [OF assms(3), of "entries (erase_locked kid s)" e] held_by_mset [OF one] assms(2)
    by (simp add: erase_locked_def)
qed

lemma erase_ok:
  assumes ok: "store_ok ttl ips overall s filed used" and e: "map_of (entries s) kid = Some e"
  shows "store_ok ttl ips overall (erase_locked kid s) filed used"
proof -
  have "distinct (map fst (entries s))" "ips_ok ips (entries s) (per_ip s)"
    using ok by (simp_all add: store_ok_def)
  note f = erase_fields [OF this(1) e this(2)]
  show ?thesis
    by (rule store_ok_fewer [OF ok f(3,1,4-6)])
qed

lemma use_ok:
  assumes ok: "store_ok ttl ips overall s filed used" and e: "map_of (entries s) kid = Some e"
    and use: "consume now kid s = (Some material, s')"
  shows "store_ok ttl ips overall s' filed (used @ [(kid, material, entry_expires_at e, now)])"
proof -
  have s': "s' = erase_locked kid s" "material = entry_material e" "now < entry_expires_at e"
    using use e by (auto simp: consume_def Let_def split: if_splits)
  have "distinct (map fst (entries s))" "ips_ok ips (entries s) (per_ip s)"
    using ok by (simp_all add: store_ok_def)
  note f = erase_fields [OF this(1) e this(2)]
  have "mset (map ticket (entries s)) = add_mset (kid, material, entry_expires_at e) (mset (map ticket (entries s')))"
    using arg_cong [OF f(2), of "image_mset ticket"] by (simp add: s' ticket_def)
  then have "mset (map ticket (entries s')) + mset (map (\<lambda>(i, m, expiry, now). (i, m, expiry))
      (used @ [(kid, material, entry_expires_at e, now)])) \<subseteq># mset filed"
    using ok by (simp add: store_ok_def)
  then show ?thesis
    using erase_ok [OF ok e] s'(1,3) unfolding store_ok_def by auto
qed

lemma miss_ok:
  assumes ok: "store_ok ttl ips overall s filed used" and miss: "consume now kid s = (None, s')"
  shows "store_ok ttl ips overall s' filed used"
proof (cases "s' = s")
  case False
  then obtain e where "map_of (entries s) kid = Some e" "s' = erase_locked kid s"
    using miss by (auto simp: consume_def Let_def split: if_splits option.splits)
  then show ?thesis
    using erase_ok [OF ok] by simp
qed (use ok in simp)

lemma run_store_ok: "store_run ttl ips overall s filed used \<Longrightarrow> store_ok ttl ips overall s filed used"
proof (induction rule: store_run.induct)
  case Start
  then show ?case
    by (simp add: store_ok_def new_key_store_def ips_ok_def held_by_def)
next
  case (Admit s filed used now ip ok s')
  then show ?case
    using sweep_ok [of ttl ips overall s filed used now] by (auto simp: admit_def split: prod.splits)
next
  case (Refuse s filed used now ip kid material s')
  then show ?case
    by (auto simp: file_key_def Let_def split: if_splits)
qed (auto intro: sweep_ok file_ok use_ok miss_ok)

section \<open>The registry\<close>

datatype sealed_outcome = NotSealed | Opened string | Rejected

definition read_b64 :: "'j json_lib \<Rightarrow> 'j \<Rightarrow> string \<Rightarrow> nat \<Rightarrow> bytes option" where
  "read_b64 js obj f expected_len = Option.bind (string_field js obj f) (\<lambda>t. decode_base64 t expected_len)"

definition read_envelope :: "'j json_lib \<Rightarrow> 'j \<Rightarrow> envelope option" where
  "read_envelope js s =
     Option.bind (read_b64 js s ''key_id'' 16) (\<lambda>kid.
     Option.bind (read_b64 js s ''kem_ct'' 1088) (\<lambda>kem_ct.
     Option.bind (read_b64 js s ''x25519_pk'' 32) (\<lambda>x25519_pk.
     Option.bind (read_b64 js s ''iv'' 16) (\<lambda>iv.
     Option.bind (read_b64 js s ''tag'' 48) (\<lambda>tag.
     Option.bind (read_b64 js s ''ct'' 0) (\<lambda>ct.
       Some \<lparr>env_key_id = kid, env_kem_ct = kem_ct, env_x25519_pk = x25519_pk, env_iv = iv, env_ct = ct,
         env_tag = tag\<rparr>))))))"

definition auth_types :: "string list" where
  "auth_types = [''login'', ''register'', ''google_auth'', ''request_password_reset'', ''reset_password'',
     ''verify_email'', ''set_recovery_email'', ''link_google'']"

definition message_envelope :: "'j json_lib \<Rightarrow> string \<Rightarrow> envelope option" where
  "message_envelope js message = Option.bind (object_of js message) (\<lambda>root.
     Option.bind (field js root ''sealed'') (\<lambda>j. if is_object js j then read_envelope js j else None))"

definition type_allowed :: "'j json_lib \<Rightarrow> string \<Rightarrow> 'j \<Rightarrow> bool" where
  "type_allowed js kind body = (case field js body ''type'' of
       None \<Rightarrow> kind \<notin> set auth_types
     | Some j \<Rightarrow> as_string js j = Some kind)"

definition rewritten :: "'j json_lib \<Rightarrow> string \<Rightarrow> 'j \<Rightarrow> string" where
  "rewritten js kind body =
     (let dumped = dump js (erase_field js body ''type'')
      in ''{'' @ [CHR 34] @ ''type'' @ [CHR 34] @ '':'' @ dump_string js kind
         @ (if length dumped > 2 then '','' @ tl dumped else ''}''))"

definition inspect ::
  "('k, 'x, 'i) crypto_lib \<Rightarrow> 'j json_lib \<Rightarrow> string list \<Rightarrow> string \<Rightarrow> string \<Rightarrow> int
     \<Rightarrow> ('k, 'x) key_material key_store \<Rightarrow> sealed_outcome \<times> ('k, 'x) key_material key_store" where
  "inspect lib js required kind message now s =
     (if kind \<notin> set required then (NotSealed, s)
      else case message_envelope js message of None \<Rightarrow> (Rejected, s)
      | Some env \<Rightarrow>
        (case consume now (env_key_id env) s of (None, s) \<Rightarrow> (Rejected, s)
         | (Some material, s) \<Rightarrow>
           (case open_envelope lib material env of None \<Rightarrow> (Rejected, s)
            | Some payload \<Rightarrow>
              (case object_of js (text_of payload) of None \<Rightarrow> (Rejected, s)
               | Some body \<Rightarrow> if type_allowed js kind body then (Opened (rewritten js kind body), s) else (Rejected, s)))))"

definition member :: "string \<Rightarrow> string \<Rightarrow> string" where
  \<comment> \<open>a member of a JSON object whose value is text without escapes\<close>
  "member name value = [CHR 34] @ name @ [CHR 34] @ '':'' @ [CHR 34] @ value @ [CHR 34]"

definition require_sealed :: "string \<Rightarrow> string list \<Rightarrow> string list" where
  "require_sealed kind required = List.insert kind required"

definition offer_text :: "bytes \<Rightarrow> key_offer \<Rightarrow> string" where
  "offer_text identity_pk offer =
     ''{'' @ member ''type'' ''seal_key''
     @ '','' @ member ''identity_pk'' (encode_base64 identity_pk)
     @ '','' @ member ''key_id'' (encode_base64 (offer_key_id offer))
     @ '','' @ member ''kem_ek'' (encode_base64 (offer_kem_ek offer))
     @ '','' @ member ''x25519_pk'' (encode_base64 (offer_x25519_pk offer))
     @ '','' @ [CHR 34] @ ''expires_in'' @ [CHR 34] @ '':'' @ dec_nat (unat (offer_expires_in offer))
     @ '','' @ member ''signature'' (encode_base64 (offer_signature offer)) @ ''}''"

definition handle_seal_request ::
  "('k, 'x, 'i) crypto_lib \<Rightarrow> 'i \<Rightarrow> string \<Rightarrow> bytes \<Rightarrow> 'k \<Rightarrow> 'x \<Rightarrow> int \<Rightarrow> int
     \<Rightarrow> (('k, 'x) key_material key_store \<Rightarrow> ('k, 'x) key_material key_store)
     \<Rightarrow> ('k, 'x) key_material key_store \<Rightarrow> string \<times> ('k, 'x) key_material key_store" where
  "handle_seal_request lib identity ip key_id kem ecc now now' meanwhile s =
     (case issue lib identity ip key_id kem ecc now now' meanwhile s of
        (None, s) \<Rightarrow> ('''', s)
      | (Some offer, s) \<Rightarrow> (offer_text (id_public lib identity) offer, s))"

section \<open>Properties\<close>

lemma sealed_keys_used_once_parts:
  assumes "store_run ttl ips overall s filed used"
  shows "mset (map (\<lambda>(i, m, expiry, now). (i, m, expiry)) used) \<subseteq># mset filed"
    and "\<forall>(i, m, expiry, now) \<in> set used. now < expiry"
    and "distinct (map fst (entries s))" and "length (entries s) \<le> overall" and "held_by ip (entries s) \<le> max 1 ips"
proof -
  have ok: "store_ok ttl ips overall s filed used"
    by (rule run_store_ok [OF assms])
  then have "mset (map ticket (entries s)) + mset (map (\<lambda>(i, m, expiry, now). (i, m, expiry)) used) \<subseteq># mset filed"
    by (simp add: store_ok_def)
  then show "mset (map (\<lambda>(i, m, expiry, now). (i, m, expiry)) used) \<subseteq># mset filed"
    by (rule subset_mset.order_trans [rotated]) simp
  show "\<forall>(i, m, expiry, now) \<in> set used. now < expiry" "distinct (map fst (entries s))" "length (entries s) \<le> overall"
    using ok by (simp_all add: store_ok_def)
  have "ips_ok ips (entries s) (per_ip s)"
    using ok by (simp add: store_ok_def)
  then have "held_by ip (entries s) \<le> (case per_ip s ip of None \<Rightarrow> 0 | Some n \<Rightarrow> n)"
    "\<And>n. per_ip s ip = Some n \<Longrightarrow> n \<le> max 1 ips"
    unfolding ips_ok_def by blast+
  then show "held_by ip (entries s) \<le> max 1 ips"
    by (cases "per_ip s ip") auto
qed

text \<open>
  C33. A one-time key is used once. In every run of a store, the keys handed out are, with their multiplicity, among
  those filed, each before its expiry; ids in the store are distinct, the store never holds more than
  its cap, and no address has more outstanding keys than its cap (one, if the cap is zero).
\<close>

theorem sealed_keys_used_once:
  assumes "store_run ttl ips overall s filed used"
  shows "mset (map (\<lambda>(i, m, expiry, now). (i, m, expiry)) used) \<subseteq># mset filed
    \<and> (\<forall>(i, m, expiry, now) \<in> set used. now < expiry)
    \<and> distinct (map fst (entries s)) \<and> length (entries s) \<le> overall \<and> (\<forall>ip. held_by ip (entries s) \<le> max 1 ips)"
  by (intro conjI allI sealed_keys_used_once_parts [OF assms])

lemma decoded_length: "decode_base64 t n = Some bs \<Longrightarrow> n \<noteq> 0 \<Longrightarrow> length bs = n"
  by (auto simp: decode_base64_iff)

lemma message_key_id: "message_envelope js message = Some env \<Longrightarrow> length (env_key_id env) = 16"
  by (auto simp: message_envelope_def read_envelope_def read_b64_def bind_eq_Some_conv decoded_length split: if_splits)

lemma consume_gone:
  assumes "consume now kid s = (r, s')" "length kid = 16"
  shows "map_of (entries s') kid = None"
  using assms by (auto simp: consume_def erase_locked_def Let_def map_of_eq_None_iff split: option.splits)

lemma consume_SomeD: "consume now kid s = (Some material, s') \<Longrightarrow>
    \<exists>e. map_of (entries s) kid = Some e \<and> now < entry_expires_at e \<and> material = entry_material e"
  by (auto simp: consume_def Let_def split: option.splits if_splits)

lemma required_messages_sealed_parts:
  assumes "kind \<in> set required" and "inspect lib js required kind message now s = (outcome, s')"
  shows "outcome = Rejected \<or> (\<exists>env e payload body. message_envelope js message = Some env
      \<and> map_of (entries s) (env_key_id env) = Some e \<and> now < entry_expires_at e
      \<and> open_envelope lib (entry_material e) env = Some payload
      \<and> object_of js (text_of payload) = Some body \<and> type_allowed js kind body
      \<and> outcome = Opened (rewritten js kind body))"
    and "message_envelope js message = Some env \<Longrightarrow> map_of (entries s') (env_key_id env) = None"
proof -
  show "outcome = Rejected \<or> (\<exists>env e payload body. message_envelope js message = Some env
      \<and> map_of (entries s) (env_key_id env) = Some e \<and> now < entry_expires_at e
      \<and> open_envelope lib (entry_material e) env = Some payload
      \<and> object_of js (text_of payload) = Some body \<and> type_allowed js kind body
      \<and> outcome = Opened (rewritten js kind body))"
  proof (cases "outcome = Rejected")
    case False
    then obtain env material t payload body where
      found: "message_envelope js message = Some env" "consume now (env_key_id env) s = (Some material, t)"
        "open_envelope lib material env = Some payload" "object_of js (text_of payload) = Some body"
        "type_allowed js kind body" "outcome = Opened (rewritten js kind body)"
      using assms by (auto simp: inspect_def split: option.splits if_splits prod.splits)
    then show ?thesis
      using consume_SomeD [OF found(2)] by blast
  qed simp
  assume env: "message_envelope js message = Some env"
  have "s' = snd (consume now (env_key_id env) s)"
    using assms env by (auto simp: inspect_def split: option.splits if_splits prod.splits)
  then show "map_of (entries s') (env_key_id env) = None"
    using consume_gone [of now "env_key_id env" s] message_key_id [OF env] by (metis prod.collapse)
qed

text \<open>
  C34. There is no way around the envelope. A message of a type that must come sealed is never passed on as it is; it is
  passed on rewritten only if it carries an envelope under a key of the store that has not expired, which
  opens with this key to a JSON object that does not name another type, and the key that a message names is gone from
  the store afterwards, whatever the outcome.
\<close>

theorem required_messages_sealed:
  assumes "kind \<in> set required" and "inspect lib js required kind message now s = (outcome, s')"
  shows "(outcome = Rejected \<or> (\<exists>env e payload body. message_envelope js message = Some env
      \<and> map_of (entries s) (env_key_id env) = Some e \<and> now < entry_expires_at e
      \<and> open_envelope lib (entry_material e) env = Some payload
      \<and> object_of js (text_of payload) = Some body \<and> type_allowed js kind body
      \<and> outcome = Opened (rewritten js kind body)))
    \<and> (\<forall>env. message_envelope js message = Some env \<longrightarrow> map_of (entries s') (env_key_id env) = None)"
  by (intro conjI allI impI required_messages_sealed_parts [OF assms])

definition demo_store :: "(nat, 8 word) key_material key_store" where
  "demo_store = snd (file_key 0 ''10.0.0.1'' (replicate 16 0) \<lparr>mat_key_id = replicate 16 0, mat_kem = 5, mat_ecc = 7\<rparr>
     (new_key_store 120 8 4096))"

definition demo_json :: "string json_lib" where
  \<comment> \<open>every object has every field of an envelope of zeros\<close>
  "demo_json = \<lparr>parse = Some, is_object = (\<lambda>j. True),
     field = (\<lambda>j f. Some (encode_base64 (replicate (if f = ''kem_ct'' then 1088 else if f = ''x25519_pk'' then 32
       else if f = ''tag'' then 48 else 16) 0))),
     as_string = Some, as_integer = (\<lambda>j. None), erase_field = (\<lambda>j f. j), dump = (\<lambda>j. j), dump_string = (\<lambda>s. s),
     make_object = (\<lambda>fs. ''''), make_string = (\<lambda>s. s), make_integer = (\<lambda>i. '''')\<rparr>"

lemma decode_encoded: "n = 0 \<or> n = length bs \<Longrightarrow> decode_base64 (encode_base64 bs) n = Some bs"
  by (simp add: decode_base64_iff)

lemma demo_envelope: "\<exists>env. message_envelope demo_json m = Some env \<and> env_key_id env = replicate 16 0"
  by (simp add: message_envelope_def object_of_def read_envelope_def read_b64_def string_field_def demo_json_def
      decode_encoded)

lemma demo_store_run: "store_run 120 8 4096 demo_store
    [(replicate 16 0, \<lparr>mat_key_id = replicate 16 0, mat_kem = 5, mat_ecc = 7\<rparr>, 120 * 10 ^ 9)] []"
proof -
  let ?m = "\<lparr>mat_key_id = replicate 16 0, mat_kem = 5, mat_ecc = 7\<rparr>"
  have "file_key 0 ''10.0.0.1'' (replicate 16 0) ?m (new_key_store 120 8 4096) = (True, demo_store)"
    by (simp add: demo_store_def file_key_def over_cap_def new_key_store_def Let_def)
  from store_run.File [OF store_run.Start this] show ?thesis
    by (simp add: nanoseconds_def)
qed

lemma demo_store_entries: "\<exists>e. map_of (entries demo_store) (replicate 16 0) = Some e \<and> entry_expires_at e = 120 * 10 ^ 9
    \<and> entry_material e = \<lparr>mat_key_id = replicate 16 0, mat_kem = 5, mat_ecc = 7\<rparr>"
  by (simp add: demo_store_def file_key_def over_cap_def new_key_store_def Let_def nanoseconds_def)

lemma sealed_keys_used_once_witness:
  "\<exists>s used. length used = 1 \<and> store_run 120 8 4096 s
      [(replicate 16 0, \<lparr>mat_key_id = replicate 16 0, mat_kem = (5 :: nat), mat_ecc = (7 :: 8 word)\<rparr>, 120 * 10 ^ 9)] used
    \<and> mset (map (\<lambda>(i, m, expiry, now). (i, m, expiry)) used) \<subseteq>#
      {#(replicate 16 0, \<lparr>mat_key_id = replicate 16 0, mat_kem = 5, mat_ecc = 7\<rparr>, 120 * 10 ^ 9)#}"
proof -
  let ?m = "\<lparr>mat_key_id = replicate 16 0, mat_kem = 5 :: nat, mat_ecc = 7 :: 8 word\<rparr>"
  obtain e where e: "map_of (entries demo_store) (replicate 16 0) = Some e" "entry_expires_at e = 120 * 10 ^ 9"
    "entry_material e = ?m"
    using demo_store_entries by blast
  obtain s' where "consume 5 (replicate 16 0) demo_store = (Some ?m, s')"
    using e by (simp add: consume_def Let_def)
  from store_run.Use [OF demo_store_run e(1) this]
  have run: "store_run 120 8 4096 s' [(replicate 16 0, ?m, 120 * 10 ^ 9)] [(replicate 16 0, ?m, 120 * 10 ^ 9, 5)]"
    by (simp add: e(2))
  then show ?thesis
    using sealed_keys_used_once [OF run, THEN conjunct1] by (intro exI [of _ s'] exI [of _ "[(replicate 16 0, ?m, 120 * 10 ^ 9, 5)]"]) simp
qed

lemma required_messages_sealed_witness:
  "map_of (entries demo_store) (replicate 16 0) \<noteq> None
    \<and> map_of (entries (snd (inspect demo_lib demo_json [''login''] ''login'' ''forged'' 5 demo_store))) (replicate 16 0) = None"
proof -
  obtain env where env: "message_envelope demo_json ''forged'' = Some env" "env_key_id env = replicate 16 0"
    using demo_envelope by blast
  obtain outcome s' where i: "inspect demo_lib demo_json [''login''] ''login'' ''forged'' 5 demo_store = (outcome, s')"
    by (cases "inspect demo_lib demo_json [''login''] ''login'' ''forged'' 5 demo_store")
  have "map_of (entries s') (env_key_id env) = None"
    using required_messages_sealed [OF _ i, THEN conjunct2, rule_format, OF _ env(1)] by simp
  then show ?thesis
    using demo_store_entries env(2) i by auto
qed

end
