(* ===== verification/Tokens.thy ===== *)
theory Tokens
  imports Hmac Base64 Json
begin

text \<open>
  Access tokens and refresh tokens (\<open>auth/token.cpp\<close>): JSON Web Tokens signed with HMAC-SHA-384 and opaque random
  tokens of which the server keeps the hash. The bytes of the random generator are arguments, JSON is the library's
  (theory \<open>Json\<close>). A signer is its key; an invalid signer has the empty one. Seconds and ids are 64-bit in the code and integers
  here. A failing \<open>verify_access\<close> is \<open>None\<close>; the code then leaves default claims in its output.
\<close>

section \<open>Tokens\<close>

record access_claims =
  player_id :: int
  username :: string
  token_epoch :: int
  issued_at :: int
  expires_at :: int

definition ACCESS_TOKEN_TTL_SECONDS :: int where
  "ACCESS_TOKEN_TTL_SECONDS = 15 * 60"

definition REFRESH_TOKEN_TTL_SECONDS :: int where
  "REFRESH_TOKEN_TTL_SECONDS = 30 * 24 * 60 * 60"

definition HS384_HEADER_JSON :: string where
  \<open>HS384_HEADER_JSON = ''{"alg":"HS384","typ":"JWT"}''\<close>

definition sign_bytes :: "bytes \<Rightarrow> string \<Rightarrow> string \<Rightarrow> bytes" where
  "sign_bytes key header_b64 payload_b64 =
     (let h = hmac_init SHA384 key;
          h = hmac_update SHA384 (bytes_of header_b64) h;
          h = hmac_update SHA384 (bytes_of ''.'') h;
          h = hmac_update SHA384 (bytes_of payload_b64) h
      in hmac_finish SHA384 h)"

definition from_key :: "bytes \<Rightarrow> bytes" where
  "from_key key = (if length key \<noteq> 32 then [] else key)"

definition from_env :: "string option \<Rightarrow> bytes \<times> string" where
  \<comment> \<open>the signer and the error\<close>
  "from_env value = (case value of None \<Rightarrow> ([], ''JWT_SIGNING_KEY is not set'')
     | Some v \<Rightarrow> if v = [] then ([], ''JWT_SIGNING_KEY is not set'')
       else case decode_base64 v 32 of None \<Rightarrow> ([], ''JWT_SIGNING_KEY is not exactly 32 bytes of base64'')
         | Some raw \<Rightarrow> (raw, ''''))"

definition valid_signer :: "bytes \<Rightarrow> bool" where
  "valid_signer key \<longleftrightarrow> length key = 32"

definition claims_json :: "'j json_lib \<Rightarrow> access_claims \<Rightarrow> 'j" where
  "claims_json js c = make_object js
     [(''sub'', make_integer js (player_id c)), (''username'', make_string js (username c)),
      (''epoch'', make_integer js (token_epoch c)), (''iat'', make_integer js (issued_at c)),
      (''exp'', make_integer js (expires_at c))]"

definition issue_access :: "'j json_lib \<Rightarrow> bytes \<Rightarrow> access_claims \<Rightarrow> string" where
  "issue_access js key c =
     (if \<not> valid_signer key then ''''
      else let header_b64 = encode_base64url (bytes_of HS384_HEADER_JSON);
               payload_b64 = encode_base64url (bytes_of (dump js (claims_json js c)));
               sig_b64 = encode_base64url (sign_bytes key header_b64 payload_b64)
        in header_b64 @ ''.'' @ payload_b64 @ ''.'' @ sig_b64)"

definition find_dot :: "string \<Rightarrow> nat \<Rightarrow> nat option" where
  "find_dot s k =
     (let n = k + length (takeWhile (\<lambda>c. c \<noteq> CHR ''.'') (drop k s)) in if n < length s then Some n else None)"

definition split_jwt :: "string \<Rightarrow> (string \<times> string \<times> string) option" where
  "split_jwt jwt = (case find_dot jwt 0 of None \<Rightarrow> None
     | Some d1 \<Rightarrow> case find_dot jwt (d1 + 1) of None \<Rightarrow> None
     | Some d2 \<Rightarrow> if find_dot jwt (d2 + 1) \<noteq> None then None
       else let header_b64 = take d1 jwt; payload_b64 = take (d2 - d1 - 1) (drop (d1 + 1) jwt); sig_b64 = drop (d2 + 1) jwt
         in if header_b64 = [] \<or> payload_b64 = [] \<or> sig_b64 = [] then None
            else Some (header_b64, payload_b64, sig_b64))"

definition read_claims :: "'j json_lib \<Rightarrow> 'j \<Rightarrow> access_claims option" where
  "read_claims js payload =
     Option.bind (integer_field js payload ''sub'') (\<lambda>sub.
     Option.bind (string_field js payload ''username'') (\<lambda>name.
     Option.bind (integer_field js payload ''epoch'') (\<lambda>epoch64.
     Option.bind (integer_field js payload ''iat'') (\<lambda>iat.
     Option.bind (integer_field js payload ''exp'') (\<lambda>exp.
       if epoch64 < 0 \<or> epoch64 > 2147483647 then None
       else Some \<lparr>player_id = sub, username = name, token_epoch = epoch64, issued_at = iat, expires_at = exp\<rparr>)))))"

definition verify_access :: "'j json_lib \<Rightarrow> bytes \<Rightarrow> string \<Rightarrow> int \<Rightarrow> access_claims option" where
  "verify_access js key jwt now_unix =
     (if \<not> valid_signer key then None
      else case split_jwt jwt of None \<Rightarrow> None
     | Some (header_b64, payload_b64, sig_b64) \<Rightarrow>
      case decode_base64url header_b64 0 of None \<Rightarrow> None
     | Some header \<Rightarrow> if text_of header \<noteq> HS384_HEADER_JSON then None
      else case decode_base64url sig_b64 48 of None \<Rightarrow> None
     | Some sig \<Rightarrow> if \<not> constant_time_equals (sign_bytes key header_b64 payload_b64) sig then None
      else case decode_base64url payload_b64 0 of None \<Rightarrow> None
     | Some payload \<Rightarrow> case object_of js (text_of payload) of None \<Rightarrow> None
     | Some j \<Rightarrow> case read_claims js j of None \<Rightarrow> None
     | Some c \<Rightarrow> if now_unix < issued_at c - 60 then None else if now_unix \<ge> expires_at c then None else Some c)"

definition mint_refresh_token :: "bytes \<Rightarrow> string" where
  \<comment> \<open>of 32 random bytes\<close>
  "mint_refresh_token random = encode_base64url random"

definition refresh_token_hash :: "string \<Rightarrow> string" where
  "refresh_token_hash token = to_hex (sha384_hash (bytes_of token))"

definition new_uuid_v4 :: "bytes \<Rightarrow> string" where
  \<comment> \<open>of 16 random bytes\<close>
  "new_uuid_v4 random =
     (let b = random[6 := (random ! 6 AND 0x0F) OR 0x40];
          b = b[8 := (b ! 8 AND 0x3F) OR 0x80];
          hex = (\<lambda>i n. to_hex (take n (drop i b)))
      in hex 0 4 @ ''-'' @ hex 4 2 @ ''-'' @ hex 6 2 @ ''-'' @ hex 8 2 @ ''-'' @ hex 10 6)"

section \<open>The parts of a token\<close>

lemma find_dot_Some:
  "find_dot s k = Some d \<longleftrightarrow> (\<exists>a r. drop k s = a @ CHR ''.'' # r \<and> CHR ''.'' \<notin> set a \<and> d = k + length a)"
proof
  assume "find_dot s k = Some d"
  then have d: "d = k + length (takeWhile (\<lambda>c. c \<noteq> CHR ''.'') (drop k s))" "d < length s"
    by (auto simp: find_dot_def Let_def split: if_splits)
  let ?a = "takeWhile (\<lambda>c. c \<noteq> CHR ''.'') (drop k s)" and ?b = "dropWhile (\<lambda>c. c \<noteq> CHR ''.'') (drop k s)"
  have parts: "drop k s = ?a @ ?b"
    by simp
  have "length ?a < length (drop k s)"
    using d by simp
  then have "?b \<noteq> []"
    by (simp add: dropWhile_eq_drop del: length_drop drop_drop)
  then obtain x t where x: "?b = x # t"
    by (cases ?b) auto
  moreover have "x = CHR ''.''"
    using hd_dropWhile [of "\<lambda>c. c \<noteq> CHR ''.''" "drop k s"] by (simp only: x) simp
  ultimately have "drop k s = ?a @ CHR ''.'' # t"
    using parts by (simp only:)
  moreover have "CHR ''.'' \<notin> set ?a"
    by (auto dest: set_takeWhileD)
  ultimately show "\<exists>a r. drop k s = a @ CHR ''.'' # r \<and> CHR ''.'' \<notin> set a \<and> d = k + length a"
    using d(1) by blast
next
  assume "\<exists>a r. drop k s = a @ CHR ''.'' # r \<and> CHR ''.'' \<notin> set a \<and> d = k + length a"
  then obtain a r where a: "drop k s = a @ CHR ''.'' # r" "CHR ''.'' \<notin> set a" "d = k + length a"
    by blast
  have "takeWhile (\<lambda>c. c \<noteq> CHR ''.'') (drop k s) = a"
    using a(2) unfolding a(1) by (induction a) auto
  moreover have "length s - k = length a + Suc (length r)"
    using arg_cong [OF a(1), of length] by simp
  ultimately show "find_dot s k = Some d"
    by (simp add: find_dot_def a(3) Let_def)
qed

lemma find_dot_None: "find_dot s k = None \<longleftrightarrow> CHR ''.'' \<notin> set (drop k s)"
proof -
  have "(\<exists>d. find_dot s k = Some d) \<longleftrightarrow> CHR ''.'' \<in> set (drop k s)"
  proof
    assume "\<exists>d. find_dot s k = Some d"
    then obtain a r where "drop k s = a @ CHR ''.'' # r"
      unfolding find_dot_Some by blast
    then show "CHR ''.'' \<in> set (drop k s)"
      by simp
  next
    assume "CHR ''.'' \<in> set (drop k s)"
    then show "\<exists>d. find_dot s k = Some d"
      unfolding find_dot_Some by (blast dest: split_list_first)
  qed
  then show ?thesis
    by (cases "find_dot s k") auto
qed

lemma split_jwt_Some:
  "split_jwt jwt = Some (h, p, s) \<longleftrightarrow>
     jwt = h @ ''.'' @ p @ ''.'' @ s \<and> CHR ''.'' \<notin> set (h @ p @ s) \<and> h \<noteq> [] \<and> p \<noteq> [] \<and> s \<noteq> []"
proof
  assume split: "split_jwt jwt = Some (h, p, s)"
  then obtain d1 d2 where d: "find_dot jwt 0 = Some d1" "find_dot jwt (d1 + 1) = Some d2" "find_dot jwt (d2 + 1) = None"
    and hps: "h = take d1 jwt" "p = take (d2 - d1 - 1) (drop (d1 + 1) jwt)" "s = drop (d2 + 1) jwt"
      "h \<noteq> []" "p \<noteq> []" "s \<noteq> []"
    by (auto simp: split_jwt_def Let_def split: option.splits if_splits)
  obtain a r where a: "jwt = a @ CHR ''.'' # r" "CHR ''.'' \<notin> set a" "d1 = length a"
    using d(1) unfolding find_dot_Some by auto
  obtain b t where b: "r = b @ CHR ''.'' # t" "CHR ''.'' \<notin> set b" "d2 = length a + 1 + length b"
    using d(2) unfolding find_dot_Some by (auto simp: a)
  have "CHR ''.'' \<notin> set t"
    using d(3) unfolding find_dot_None by (simp add: a b)
  then show "jwt = h @ ''.'' @ p @ ''.'' @ s \<and> CHR ''.'' \<notin> set (h @ p @ s) \<and> h \<noteq> [] \<and> p \<noteq> [] \<and> s \<noteq> []"
    using hps a b by simp
next
  assume jwt: "jwt = h @ ''.'' @ p @ ''.'' @ s \<and> CHR ''.'' \<notin> set (h @ p @ s) \<and> h \<noteq> [] \<and> p \<noteq> [] \<and> s \<noteq> []"
  then have "find_dot jwt 0 = Some (length h)" "find_dot jwt (length h + 1) = Some (length h + 1 + length p)"
    unfolding find_dot_Some by auto
  moreover have "find_dot jwt (length h + 1 + length p + 1) = None"
    unfolding find_dot_None using jwt by simp
  ultimately show "split_jwt jwt = Some (h, p, s)"
    using jwt by (simp add: split_jwt_def)
qed

section \<open>Signatures and encodings\<close>

lemma bytes_of_append [simp]: "bytes_of (s @ t) = bytes_of s @ bytes_of t"
  by (simp add: bytes_of_def)

definition hmac_sha384 :: "bytes \<Rightarrow> bytes \<Rightarrow> bytes" where
  "hmac_sha384 key m = HMAC sha384 128 key m"

lemma sign_bytes_mac: "sign_bytes key h p = hmac_sha384 key (bytes_of (h @ ''.'' @ p))"
  using sha384.hmac_stream [of key "[bytes_of h, bytes_of ''.'', bytes_of p]"]
  by (simp add: sign_bytes_def hmac_sha384_def SHA384_def [THEN arg_cong, of block_size] bytes_of_def Let_def)

lemma length_hmac_sha384: "length (hmac_sha384 key m) = 48"
  using sha384.length_mac [of 128 key m] by (simp add: hmac_sha384_def SHA384_def)

lemma no_dot_encoded: "CHR ''.'' \<notin> set (encode_base64url bs)"
  using url.decode_valid [OF url.decode_encode_plain [of 0 "[]" bs]]
  by (auto simp: encode_base64url_plain URL_ALPHABET_def)

lemma encode_empty [simp]: "encode_base64url bs = [] \<longleftrightarrow> bs = []"
  by (simp add: encode_base64url_plain)

lemma header_not_empty: "bytes_of HS384_HEADER_JSON \<noteq> []"
  by (simp add: bytes_of_def HS384_HEADER_JSON_def)

lemma text_of_iff: "text_of b = s \<longleftrightarrow> b = bytes_of s"
  by auto

definition token_text :: "bytes \<Rightarrow> bytes \<Rightarrow> string" where
  \<comment> \<open>the token of a payload\<close>
  "token_text key payload =
     (let signed = encode_base64url (bytes_of HS384_HEADER_JSON) @ ''.'' @ encode_base64url payload
      in signed @ ''.'' @ encode_base64url (hmac_sha384 key (bytes_of signed)))"

definition in_time :: "int \<Rightarrow> access_claims \<Rightarrow> bool" where
  "in_time now c \<longleftrightarrow> issued_at c - 60 \<le> now \<and> now < expires_at c"

lemma issue_token_text: "valid_signer key \<Longrightarrow> issue_access js key c = token_text key (bytes_of (dump js (claims_json js c)))"
  by (simp add: issue_access_def token_text_def sign_bytes_mac Let_def)

lemma split_token_text:
  assumes "payload \<noteq> []"
  shows "split_jwt (token_text key payload) = Some (encode_base64url (bytes_of HS384_HEADER_JSON),
     encode_base64url payload, encode_base64url (hmac_sha384 key (bytes_of
       (encode_base64url (bytes_of HS384_HEADER_JSON) @ ''.'' @ encode_base64url payload))))"
proof -
  have "hmac_sha384 key m \<noteq> []" for m
    using length_hmac_sha384 [of key m] by auto
  then show ?thesis
    using assms header_not_empty by (simp add: split_jwt_Some token_text_def no_dot_encoded Let_def)
qed

lemma verify_access_iff:
  "verify_access js key jwt now = Some c \<longleftrightarrow> valid_signer key \<and> in_time now c \<and> (\<exists>payload j. payload \<noteq> []
     \<and> jwt = token_text key payload \<and> object_of js (text_of payload) = Some j \<and> read_claims js j = Some c)"
proof
  assume "verify_access js key jwt now = Some c"
  then obtain h p s header sig payload j where v: "valid_signer key" "split_jwt jwt = Some (h, p, s)"
    "decode_base64url h 0 = Some header" "text_of header = HS384_HEADER_JSON" "decode_base64url s 48 = Some sig"
    "constant_time_equals (sign_bytes key h p) sig" "decode_base64url p 0 = Some payload"
    "object_of js (text_of payload) = Some j" "read_claims js j = Some c" "in_time now c"
    by (auto simp: verify_access_def in_time_def split: option.splits prod.splits if_splits)
  have enc: "h = encode_base64url (bytes_of HS384_HEADER_JSON)" "p = encode_base64url payload" "s = encode_base64url sig"
    "length sig = 48"
    using v(3-5,7) by (auto simp: decode_base64url_iff text_of_iff)
  have "sig = sign_bytes key h p"
    using v(6) constant_time_equals_iff [of "sign_bytes key h p" sig] enc(4) by (simp add: sign_bytes_mac length_hmac_sha384)
  then have "jwt = token_text key payload" "payload \<noteq> []"
    using v(2) unfolding split_jwt_Some by (auto simp: enc(1-3) token_text_def sign_bytes_mac Let_def)
  then show "valid_signer key \<and> in_time now c \<and> (\<exists>payload j. payload \<noteq> [] \<and> jwt = token_text key payload
      \<and> object_of js (text_of payload) = Some j \<and> read_claims js j = Some c)"
    using v by blast
next
  assume "valid_signer key \<and> in_time now c \<and> (\<exists>payload j. payload \<noteq> [] \<and> jwt = token_text key payload
      \<and> object_of js (text_of payload) = Some j \<and> read_claims js j = Some c)"
  then obtain payload j where p: "valid_signer key" "in_time now c" "payload \<noteq> []" "jwt = token_text key payload"
    "object_of js (text_of payload) = Some j" "read_claims js j = Some c"
    by blast
  have decoded: "decode_base64url (encode_base64url bs) n = Some bs" if "n = 0 \<or> n = length bs" for bs n
    using that by (simp add: decode_base64url_iff)
  show "verify_access js key jwt now = Some c"
    using p(1,2,5,6) unfolding verify_access_def p(4) split_token_text [OF p(3)]
    by (simp add: decoded length_hmac_sha384 sign_bytes_mac constant_time_equals_iff in_time_def)
qed

section \<open>Identifiers\<close>

lemma length_to_hex: "length (to_hex bs) = 2 * length bs"
  by (induction bs) (simp_all add: to_hex_def)

lemma uuid_shape:
  assumes "length random = 16"
  shows "length (new_uuid_v4 random) = 36" "new_uuid_v4 random ! 14 = CHR ''4''"
proof -
  show "length (new_uuid_v4 random) = 36"
    using assms by (simp add: new_uuid_v4_def Let_def length_to_hex)
  obtain a0 a1 a2 a3 a4 a5 a6 a7 r where random: "random = [a0, a1, a2, a3, a4, a5, a6, a7] @ r"
    using assms by (auto simp: eval_nat_numeral length_Suc_conv)
  have update: "([a0, a1, a2, a3, a4, a5, a6, a7] @ r)[6 := x] = [a0, a1, a2, a3, a4, a5, x, a7] @ r" for x
    by (simp add: eval_nat_numeral)
  have update8: "([a0, a1, a2, a3, a4, a5, x, a7] @ r)[8 := y] = [a0, a1, a2, a3, a4, a5, x, a7] @ r[0 := y]" for x y
    by (simp add: eval_nat_numeral)
  let ?x = "(a6 AND 0x0F) OR 0x40"
  have "drop_bit 4 ?x = (4 :: 8 word)"
    by (rule bit_word_eqI) (auto simp: bit_simps)
  then have "to_hex [?x, a7] ! 0 = CHR ''4''"
    by (simp only: to_hex_def list.map concat.simps append.simps nth_Cons_0) (simp add: HEX_def)
  then show "new_uuid_v4 random ! 14 = CHR ''4''"
    by (simp add: new_uuid_v4_def Let_def random update update8 nth_append length_to_hex)
qed

section \<open>Properties\<close>

text \<open>
  C32. A token is accepted exactly when it is a token of this server. For a key of 32 bytes, \<open>verify_access\<close> returns some
  claims if and only if the text is the fixed HS384 header and a non-empty payload, both in base64url, followed by the
  HMAC-SHA-384 of exactly these characters under the key, the payload is a JSON object whose five claims have their types,
  and the time is at most 60 seconds before the token was issued and before it expires. No other header, algorithm, encoding,
  number of parts or signature passes.
\<close>

theorem access_tokens_exact:
  "verify_access js key jwt now = Some c \<longleftrightarrow> length key = 32 \<and> in_time now c \<and> (\<exists>payload j. payload \<noteq> []
     \<and> jwt = token_text key payload \<and> object_of js (text_of payload) = Some j \<and> read_claims js j = Some c)"
  unfolding verify_access_iff valid_signer_def by (rule refl)

definition json_reads_back :: "'j json_lib \<Rightarrow> (string \<times> 'j) list \<Rightarrow> bool" where
  \<comment> \<open>documented of the library: an object that is written and parsed is an object with the same members\<close>
  "json_reads_back js ms \<longleftrightarrow> dump js (make_object js ms) \<noteq> '''' \<and>
     (\<exists>j. object_of js (dump js (make_object js ms)) = Some j \<and> field js j = map_of ms)"

definition json_values :: "'j json_lib \<Rightarrow> bool" where
  "json_values js \<longleftrightarrow> (\<forall>s. as_string js (make_string js s) = Some s) \<and> (\<forall>i. as_integer js (make_integer js i) = Some i)"

text \<open>
  What the server issues, it accepts: with a JSON library that reads back what it wrote, a token issued for some claims
  with a non-negative 32-bit epoch is verified, to the same claims, from a minute before its issue until it expires, and
  at no other time.
\<close>

lemma issued_tokens_verify:
  assumes "json_values js"
    and "json_reads_back js [(''sub'', make_integer js (player_id c)), (''username'', make_string js (username c)),
      (''epoch'', make_integer js (token_epoch c)), (''iat'', make_integer js (issued_at c)),
      (''exp'', make_integer js (expires_at c))]"
    and "length key = 32" and "0 \<le> token_epoch c" and "token_epoch c \<le> 2147483647"
  shows "verify_access js key (issue_access js key c) now = (if in_time now c then Some c else None)"
proof -
  let ?text = "dump js (claims_json js c)"
  obtain j where j: "?text \<noteq> ''''" "object_of js ?text = Some j"
    "field js j = map_of [(''sub'', make_integer js (player_id c)), (''username'', make_string js (username c)),
      (''epoch'', make_integer js (token_epoch c)), (''iat'', make_integer js (issued_at c)),
      (''exp'', make_integer js (expires_at c))]"
    using assms(2) unfolding json_reads_back_def claims_json_def by blast
  have read: "read_claims js j = Some c"
    using assms(1,4,5) by (simp add: read_claims_def integer_field_def string_field_def j(3) json_values_def)
  have valid: "valid_signer key"
    using assms(3) by (simp add: valid_signer_def)
  have "bytes_of ?text \<noteq> []"
    using j(1) by (simp add: bytes_of_def)
  have same: "payload = bytes_of ?text" if "token_text key (bytes_of ?text) = token_text key payload" "payload \<noteq> []" for payload
  proof -
    have "encode_base64url payload = encode_base64url (bytes_of ?text)"
      using split_token_text [OF that(2), of key] split_token_text [OF \<open>bytes_of ?text \<noteq> []\<close>, of key] that(1) by simp
    then show ?thesis
      using decode_base64url_iff [of "encode_base64url payload" 0 payload]
        decode_base64url_iff [of "encode_base64url payload" 0 "bytes_of ?text"] by simp
  qed
  have "verify_access js key (issue_access js key c) now = Some d \<longleftrightarrow> in_time now c \<and> d = c" for d
    unfolding verify_access_iff issue_token_text [OF valid]
    using valid read j(2) same \<open>bytes_of ?text \<noteq> []\<close> by fastforce
  then show ?thesis
    by (cases "verify_access js key (issue_access js key c) now") (auto split: if_splits)
qed

datatype demo_value = Text string | Number int | Members "(string \<times> demo_value) list"

definition demo_members :: "(string \<times> demo_value) list" where
  "demo_members = [(''sub'', Number 7), (''username'', Text ''adi''), (''epoch'', Number 2), (''iat'', Number 1000),
     (''exp'', Number 1900)]"

definition demo_tokens_json :: "demo_value json_lib" where
  \<comment> \<open>one object, written as a pair of braces\<close>
  "demo_tokens_json = \<lparr>parse = (\<lambda>t. if t = ''{}'' then Some (Members demo_members) else None),
     is_object = (\<lambda>j. case j of Members ms \<Rightarrow> True | _ \<Rightarrow> False),
     field = (\<lambda>j. case j of Members ms \<Rightarrow> map_of ms | _ \<Rightarrow> Map.empty),
     as_string = (\<lambda>j. case j of Text s \<Rightarrow> Some s | _ \<Rightarrow> None), as_integer = (\<lambda>j. case j of Number i \<Rightarrow> Some i | _ \<Rightarrow> None),
     erase_field = (\<lambda>j f. j), dump = (\<lambda>j. ''{}''), dump_string = (\<lambda>s. s), make_object = Members, make_string = Text,
     make_integer = Number\<rparr>"

end
