(* ===== verification/Sessions.thy ===== *)
theory Sessions
  imports Tokens
begin

text \<open>
  Sessions (\<open>auth/session.cpp\<close>): refresh tokens that rotate in families, sign-out and the gate of the access tokens.
  The database is the rows of the table of sessions (\<open>storage/schema_phase7.sql\<close>) and the columns of the players that
  are read here. A call runs each of its SQL statements at most once; \<open>up\<close> says which of them succeed, and an insertion also fails
  when its hash is taken or its player is missing. A transaction that does not commit leaves the database as it
  was. Random bytes are arguments.
\<close>

section \<open>Rows and statements\<close>

record session_row =
  token_hash :: string
  session_player :: int
  family_id :: string
  rotated :: bool
  session_expires :: int
  rotated_at :: "int option"

record account =
  account_name :: string
  account_epoch :: int

record auth_db =
  sessions :: "session_row list"
  players :: "int \<rightharpoonup> account"

datatype sql = Begin | Select_Session | Delete_Family | Supersede | Delete_Session | Select_Player | Mark | Insert | Commit
  | Delete_Player | Bump_Epoch

definition insert_session :: "string \<Rightarrow> int \<Rightarrow> string \<Rightarrow> int \<Rightarrow> auth_db \<Rightarrow> auth_db option" where
  "insert_session hash player family expires db =
     (if hash \<in> token_hash ` set (sessions db) \<or> players db player = None then None
      else Some (db\<lparr>sessions := sessions db @
        [\<lparr>token_hash = hash, session_player = player, family_id = family, rotated = False, session_expires = expires,
          rotated_at = None\<rparr>]\<rparr>))"

definition delete_sessions :: "(session_row \<Rightarrow> bool) \<Rightarrow> auth_db \<Rightarrow> auth_db" where
  "delete_sessions P db = db\<lparr>sessions := filter (\<lambda>r. \<not> P r) (sessions db)\<rparr>"

definition update_sessions :: "(session_row \<Rightarrow> bool) \<Rightarrow> (session_row \<Rightarrow> session_row) \<Rightarrow> auth_db \<Rightarrow> auth_db" where
  "update_sessions P f db = db\<lparr>sessions := map (\<lambda>r. if P r then f r else r) (sessions db)\<rparr>"

section \<open>Operations\<close>

record session_tokens =
  access_token :: string
  refresh_token :: string
  access_expires_in :: int
  tokens_issued_at :: int
  tokens_expires_at :: int
  tokens_ok :: bool

definition no_tokens :: session_tokens where
  "no_tokens = \<lparr>access_token = '''', refresh_token = '''', access_expires_in = 0, tokens_issued_at = 0,
     tokens_expires_at = 0, tokens_ok = False\<rparr>"

definition build_pair ::
  "'j json_lib \<Rightarrow> bytes \<Rightarrow> bytes \<Rightarrow> int \<Rightarrow> string \<Rightarrow> int \<Rightarrow> int \<Rightarrow> session_tokens" where
  "build_pair js signer random player name epoch now_unix =
     (let c = \<lparr>player_id = player, username = name, token_epoch = epoch, issued_at = now_unix,
            expires_at = now_unix + ACCESS_TOKEN_TTL_SECONDS\<rparr>
      in \<lparr>access_token = issue_access js signer c, refresh_token = mint_refresh_token random,
          access_expires_in = ACCESS_TOKEN_TTL_SECONDS, tokens_issued_at = issued_at c, tokens_expires_at = expires_at c,
          tokens_ok = False\<rparr>)"

definition issue_session ::
  "'j json_lib \<Rightarrow> bytes \<Rightarrow> (sql \<Rightarrow> bool) \<Rightarrow> bytes \<Rightarrow> bytes \<Rightarrow> int \<Rightarrow> string \<Rightarrow> int \<Rightarrow> int \<Rightarrow> auth_db
     \<Rightarrow> session_tokens \<times> auth_db" where
  "issue_session js signer up random uuid player name epoch now_unix db =
     (let t = build_pair js signer random player name epoch now_unix
      in if access_token t = '''' \<or> refresh_token t = '''' then (t, db)
         else let family = new_uuid_v4 uuid; hash = refresh_token_hash (refresh_token t);
                  expires = now_unix + REFRESH_TOKEN_TTL_SECONDS
           in if \<not> up Insert then (no_tokens, db)
              else case insert_session hash player family expires db of None \<Rightarrow> (no_tokens, db)
                | Some db' \<Rightarrow> (t\<lparr>tokens_ok := True\<rparr>, db'))"

datatype refresh_outcome = RefreshOk | InvalidOrRevoked | DatabaseError

definition REFRESH_REUSE_GRACE_SECONDS :: int where
  "REFRESH_REUSE_GRACE_SECONDS = 10"

definition transport_retry :: "int \<Rightarrow> session_row \<Rightarrow> bool" where
  "transport_retry now_unix r =
     (let at = (case rotated_at r of None \<Rightarrow> 0 | Some t \<Rightarrow> t)
      in at > 0 \<and> now_unix \<ge> at \<and> now_unix - at \<le> REFRESH_REUSE_GRACE_SECONDS)"

definition commit_deletion :: "(sql \<Rightarrow> bool) \<Rightarrow> sql \<Rightarrow> auth_db \<Rightarrow> auth_db \<Rightarrow> session_tokens \<times> refresh_outcome \<times> auth_db" where
  "commit_deletion up statement db db' =
     (if \<not> up statement \<or> \<not> up Commit then (no_tokens, DatabaseError, db) else (no_tokens, InvalidOrRevoked, db'))"

definition superseded :: "int \<Rightarrow> session_row \<Rightarrow> auth_db \<Rightarrow> auth_db" where
  "superseded now_unix r db = (if rotated r then update_sessions (\<lambda>x. family_id x = family_id r \<and> \<not> rotated x)
     (\<lambda>x. x\<lparr>rotated := True, rotated_at := Some now_unix\<rparr>) db else db)"

definition marked :: "int \<Rightarrow> session_row \<Rightarrow> auth_db \<Rightarrow> auth_db" where
  "marked now_unix r db = update_sessions (\<lambda>x. token_hash x = token_hash r)
     (\<lambda>x. x\<lparr>rotated := True, rotated_at := (case rotated_at x of None \<Rightarrow> Some now_unix | Some t \<Rightarrow> Some t)\<rparr>) db"

definition rotate_session ::
  "'j json_lib \<Rightarrow> bytes \<Rightarrow> (sql \<Rightarrow> bool) \<Rightarrow> bytes \<Rightarrow> session_row \<Rightarrow> account \<Rightarrow> int \<Rightarrow> auth_db \<Rightarrow> auth_db
     \<Rightarrow> session_tokens \<times> refresh_outcome \<times> auth_db" where
  \<comment> \<open>\<open>db\<close> is the database before the transaction, \<open>db1\<close> what the transaction has made of it\<close>
  "rotate_session js signer up random r p now_unix db db1 =
     (let fresh = build_pair js signer random (session_player r) (account_name p) (account_epoch p) now_unix
      in if access_token fresh = '''' \<or> refresh_token fresh = '''' then (no_tokens, DatabaseError, db)
         else let new_hash = refresh_token_hash (refresh_token fresh); new_exp = now_unix + REFRESH_TOKEN_TTL_SECONDS
           in if \<not> up Mark then (no_tokens, DatabaseError, db)
              else let db2 = marked now_unix r db1
                in if \<not> up Insert then (no_tokens, DatabaseError, db)
                   else case insert_session new_hash (session_player r) (family_id r) new_exp db2 of
                       None \<Rightarrow> (no_tokens, DatabaseError, db)
                     | Some db3 \<Rightarrow> if \<not> up Commit then (no_tokens, DatabaseError, db)
                       else (fresh\<lparr>tokens_ok := True\<rparr>, RefreshOk, db3))"

definition refresh_session ::
  "'j json_lib \<Rightarrow> bytes \<Rightarrow> (sql \<Rightarrow> bool) \<Rightarrow> bytes \<Rightarrow> string \<Rightarrow> int \<Rightarrow> auth_db \<Rightarrow> session_tokens \<times> refresh_outcome \<times> auth_db" where
  "refresh_session js signer up random token now_unix db =
     (if token = '''' then (no_tokens, InvalidOrRevoked, db)
      else let hash = refresh_token_hash token
        in if \<not> up Begin then (no_tokens, DatabaseError, db)
           else if \<not> up Select_Session then (no_tokens, DatabaseError, db)
           else case find (\<lambda>r. token_hash r = hash) (sessions db) of None \<Rightarrow> (no_tokens, InvalidOrRevoked, db)
             | Some r \<Rightarrow>
               if rotated r \<and> \<not> transport_retry now_unix r
               then commit_deletion up Delete_Family db (delete_sessions (\<lambda>x. family_id x = family_id r) db)
               else if rotated r \<and> \<not> up Supersede then (no_tokens, DatabaseError, db)
               else let db1 = superseded now_unix r db
                 in if session_expires r \<le> now_unix
                    then commit_deletion up Delete_Session db (delete_sessions (\<lambda>x. token_hash x = hash) db1)
                    else if \<not> up Select_Player then (no_tokens, DatabaseError, db)
                    else case players db1 (session_player r) of
                        None \<Rightarrow> commit_deletion up Delete_Family db (delete_sessions (\<lambda>x. family_id x = family_id r) db1)
                      | Some p \<Rightarrow> rotate_session js signer up random r p now_unix db db1)"

definition logout :: "(sql \<Rightarrow> bool) \<Rightarrow> string \<Rightarrow> auth_db \<Rightarrow> auth_db" where
  "logout up token db =
     (if token = '''' then db
      else let hash = refresh_token_hash token
        in if up Delete_Family
           then delete_sessions (\<lambda>x. family_id x \<in> family_id ` {y \<in> set (sessions db). token_hash y = hash}) db
           else db)"

definition logout_all :: "(sql \<Rightarrow> bool) \<Rightarrow> int \<Rightarrow> auth_db \<Rightarrow> bool \<times> auth_db" where
  "logout_all up player db =
     (if \<not> up Delete_Player then (False, db)
      else let db1 = delete_sessions (\<lambda>x. session_player x = player) db
        in if \<not> up Bump_Epoch then (False, db1)
           else (True, db1\<lparr>players := (case players db1 player of None \<Rightarrow> players db1
             | Some p \<Rightarrow> (players db1)(player \<mapsto> p\<lparr>account_epoch := account_epoch p + 1\<rparr>))\<rparr>))"

definition current_token_epoch :: "(sql \<Rightarrow> bool) \<Rightarrow> int \<Rightarrow> auth_db \<Rightarrow> int" where
  "current_token_epoch up player db =
     (if \<not> up Select_Player then -1 else case players db player of None \<Rightarrow> -1 | Some p \<Rightarrow> account_epoch p)"

datatype gate_outcome = GateOk access_claims | RejectedBadToken | RejectedExpired | RejectedRevoked | RejectedUnknownUser

definition authorize_access_token :: "'j json_lib \<Rightarrow> bytes \<Rightarrow> (sql \<Rightarrow> bool) \<Rightarrow> string \<Rightarrow> int \<Rightarrow> auth_db \<Rightarrow> gate_outcome" where
  "authorize_access_token js signer up jwt now_unix db =
     (case verify_access js signer jwt now_unix of None \<Rightarrow> RejectedBadToken
        | Some c \<Rightarrow> let current = current_token_epoch up (player_id c) db
          in if current < 0 then RejectedUnknownUser else if current \<noteq> token_epoch c then RejectedRevoked else GateOk c)"

text \<open>
  The runs of the sessions. A new family has an id that is not in use (of 122 random bits); the players change
  elsewhere, and the rows of a deleted player go with it (\<open>ON DELETE CASCADE\<close>).
\<close>

inductive session_run :: "'j json_lib \<Rightarrow> bytes \<Rightarrow> auth_db \<Rightarrow> bool" for js signer where
  Start: "session_run js signer \<lparr>sessions = [], players = ps\<rparr>"
| Issue: "session_run js signer db \<Longrightarrow> new_uuid_v4 uuid \<notin> family_id ` set (sessions db) \<Longrightarrow>
    issue_session js signer up random uuid player name epoch now_unix db = (t, db') \<Longrightarrow> session_run js signer db'"
| Refresh: "session_run js signer db \<Longrightarrow> refresh_session js signer up random token now_unix db = (t, outcome, db') \<Longrightarrow>
    session_run js signer db'"
| Logout: "session_run js signer db \<Longrightarrow> session_run js signer (logout up token db)"
| LogoutAll: "session_run js signer db \<Longrightarrow> logout_all up player db = (ok, db') \<Longrightarrow> session_run js signer db'"
| Players: "session_run js signer db \<Longrightarrow>
    session_run js signer (delete_sessions (\<lambda>r. ps (session_player r) = None) (db\<lparr>players := ps\<rparr>))"

section \<open>Families\<close>

definition live :: "string \<Rightarrow> session_row list \<Rightarrow> session_row list" where
  "live family rs = filter (\<lambda>r. family_id r = family \<and> \<not> rotated r) rs"

definition families_ok :: "auth_db \<Rightarrow> bool" where
  "families_ok db \<longleftrightarrow> distinct (map token_hash (sessions db))
     \<and> (\<forall>family. length (live family (sessions db)) \<le> 1)
     \<and> (\<forall>r \<in> set (sessions db). rotated r \<longleftrightarrow> rotated_at r \<noteq> None)
     \<and> (\<forall>r \<in> set (sessions db). \<forall>x \<in> set (sessions db). family_id r = family_id x \<longrightarrow> session_player r = session_player x)
     \<and> (\<forall>r \<in> set (sessions db). players db (session_player r) \<noteq> None)"

lemma live_append [simp]: "live family (rs @ xs) = live family rs @ live family xs"
  by (simp add: live_def)

lemma live_single [simp]: "live family [r] = (if family_id r = family \<and> \<not> rotated r then [r] else [])"
  by (simp add: live_def)

lemma live_filter: "length (live family (filter P rs)) \<le> length (live family rs)"
  by (induction rs) (auto simp: live_def)

lemma families_okI:
  assumes "distinct (map token_hash (sessions db))" "\<And>family. length (live family (sessions db)) \<le> 1"
    "\<And>r. r \<in> set (sessions db) \<Longrightarrow> (rotated r \<longleftrightarrow> rotated_at r \<noteq> None) \<and> players db (session_player r) \<noteq> None"
    "\<And>r x. r \<in> set (sessions db) \<Longrightarrow> x \<in> set (sessions db) \<Longrightarrow> family_id r = family_id x \<Longrightarrow> session_player r = session_player x"
  shows "families_ok db"
  using assms unfolding families_ok_def by blast

lemma families_okD:
  assumes "families_ok db"
  shows "distinct (map token_hash (sessions db))" "length (live family (sessions db)) \<le> 1"
    "r \<in> set (sessions db) \<Longrightarrow> (rotated r \<longleftrightarrow> rotated_at r \<noteq> None) \<and> players db (session_player r) \<noteq> None"
    "r \<in> set (sessions db) \<Longrightarrow> x \<in> set (sessions db) \<Longrightarrow> family_id r = family_id x \<Longrightarrow> session_player r = session_player x"
  using assms unfolding families_ok_def by blast+

lemma families_ok_delete:
  assumes "families_ok db"
  shows "families_ok (delete_sessions P db)"
proof (rule families_okI)
  show "distinct (map token_hash (sessions (delete_sessions P db)))"
    using families_okD(1) [OF assms] by (simp add: delete_sessions_def distinct_map_filter)
  show "length (live family (sessions (delete_sessions P db))) \<le> 1" for family
    using le_trans [OF live_filter families_okD(2) [OF assms]] by (simp add: delete_sessions_def)
  show "(rotated r \<longleftrightarrow> rotated_at r \<noteq> None) \<and> players (delete_sessions P db) (session_player r) \<noteq> None"
    if "r \<in> set (sessions (delete_sessions P db))" for r
    using families_okD(3) [OF assms, of r] that by (simp add: delete_sessions_def)
  show "session_player r = session_player x" if "r \<in> set (sessions (delete_sessions P db))"
    "x \<in> set (sessions (delete_sessions P db))" "family_id r = family_id x" for r x
    using families_okD(4) [OF assms, of r x] that by (simp add: delete_sessions_def)
qed

definition rotation :: "(session_row \<Rightarrow> session_row) \<Rightarrow> bool" where
  \<comment> \<open>an update that rotates the rows it is applied to\<close>
  "rotation f \<longleftrightarrow> (\<forall>r. token_hash (f r) = token_hash r \<and> session_player (f r) = session_player r
     \<and> family_id (f r) = family_id r \<and> rotated (f r) \<and> rotated_at (f r) \<noteq> None)"

lemma rotationD:
  assumes "rotation f"
  shows "token_hash (f r) = token_hash r" "session_player (f r) = session_player r" "family_id (f r) = family_id r"
    "rotated (f r)" "rotated_at (f r) \<noteq> None"
  using assms by (simp_all add: rotation_def)

lemma live_update: "rotation f \<Longrightarrow> live family (map (\<lambda>r. if P r then f r else r) rs) = live family (filter (\<lambda>r. \<not> P r) rs)"
  by (induction rs) (auto simp: live_def rotationD)

lemma families_ok_update:
  assumes "families_ok db" "rotation f"
  shows "families_ok (update_sessions P f db)"
proof (rule families_okI)
  have "map token_hash (sessions (update_sessions P f db)) = map token_hash (sessions db)"
    by (simp add: update_sessions_def rotationD [OF assms(2)])
  then show "distinct (map token_hash (sessions (update_sessions P f db)))"
    using families_okD(1) [OF assms(1)] by (simp only:)
  show "length (live family (sessions (update_sessions P f db))) \<le> 1" for family
    using le_trans [OF live_filter families_okD(2) [OF assms(1)]] by (simp add: update_sessions_def live_update [OF assms(2)])
  have row: "\<exists>r0 \<in> set (sessions db). (r = r0 \<or> r = f r0)" if "r \<in> set (sessions (update_sessions P f db))" for r
    using that by (auto simp: update_sessions_def)
  show "(rotated r \<longleftrightarrow> rotated_at r \<noteq> None) \<and> players (update_sessions P f db) (session_player r) \<noteq> None"
    if r: "r \<in> set (sessions (update_sessions P f db))" for r
  proof -
    obtain r0 where "r0 \<in> set (sessions db)" "r = r0 \<or> r = f r0"
      using row [OF r] by blast
    then show ?thesis
      using families_okD(3) [OF assms(1), of r0] rotationD [OF assms(2), of r0] by (auto simp: update_sessions_def)
  qed
  show "session_player r = session_player x" if rx: "r \<in> set (sessions (update_sessions P f db))"
    "x \<in> set (sessions (update_sessions P f db))" "family_id r = family_id x" for r x
  proof -
    obtain r0 x0 where "r0 \<in> set (sessions db)" "r = r0 \<or> r = f r0" "x0 \<in> set (sessions db)" "x = x0 \<or> x = f x0"
      using row [OF rx(1)] row [OF rx(2)] by blast
    then show ?thesis
      using families_okD(4) [OF assms(1), of r0 x0] rx(3) rotationD [OF assms(2), of r0] rotationD [OF assms(2), of x0]
      by auto
  qed
qed

lemma families_ok_insert:
  assumes "families_ok db" "insert_session hash player family expires db = Some db'" "live family (sessions db) = []"
    and same: "\<And>r. r \<in> set (sessions db) \<Longrightarrow> family_id r = family \<Longrightarrow> session_player r = player"
  shows "families_ok db'"
proof -
  let ?r = "\<lparr>token_hash = hash, session_player = player, family_id = family, rotated = False, session_expires = expires,
    rotated_at = None\<rparr>"
  have new: "hash \<notin> token_hash ` set (sessions db)" "players db player \<noteq> None" and db': "db' = db\<lparr>sessions := sessions db @ [?r]\<rparr>"
    using assms(2) by (simp_all add: insert_session_def split: if_splits)
  show ?thesis
  proof (rule families_okI)
    show "distinct (map token_hash (sessions db'))"
      using families_okD(1) [OF assms(1)] new(1) by (simp add: db')
    show "length (live f (sessions db')) \<le> 1" for f
      using families_okD(2) [OF assms(1), of f] assms(3) by (cases "f = family") (simp_all add: db')
    show "(rotated r \<longleftrightarrow> rotated_at r \<noteq> None) \<and> players db' (session_player r) \<noteq> None" if "r \<in> set (sessions db')" for r
      using families_okD(3) [OF assms(1), of r] new(2) that by (auto simp: db')
    show "session_player r = session_player x"
      if "r \<in> set (sessions db')" "x \<in> set (sessions db')" "family_id r = family_id x" for r x
      using families_okD(4) [OF assms(1), of r x] same that by (auto simp: db')
  qed
qed

section \<open>Every operation keeps the families\<close>

lemma families_ok_players:
  assumes "families_ok db" "sessions db' = sessions db" "\<And>i. players db i \<noteq> None \<Longrightarrow> players db' i \<noteq> None"
  shows "families_ok db'"
proof (rule families_okI)
  show "distinct (map token_hash (sessions db'))" "\<And>family. length (live family (sessions db')) \<le> 1"
    using families_okD(1,2) [OF assms(1)] by (simp_all only: assms(2))
  show "(rotated r \<longleftrightarrow> rotated_at r \<noteq> None) \<and> players db' (session_player r) \<noteq> None" if r: "r \<in> set (sessions db')" for r
    using families_okD(3) [OF assms(1), of r] assms(3) [of "session_player r"] r assms(2) by simp
  show "session_player r = session_player x" if rx: "r \<in> set (sessions db')" "x \<in> set (sessions db')" "family_id r = family_id x" for r x
    using families_okD(4) [OF assms(1), of r x] rx assms(2) by simp
qed

lemma rotation_supersede: "rotation (\<lambda>x. x\<lparr>rotated := True, rotated_at := Some now_unix\<rparr>)"
  by (simp add: rotation_def)

lemma rotation_mark:
  "rotation (\<lambda>x. x\<lparr>rotated := True, rotated_at := (case rotated_at x of None \<Rightarrow> Some now_unix | Some t \<Rightarrow> Some t)\<rparr>)"
  by (simp add: rotation_def split: option.splits)

lemma insert_sessions: "insert_session hash player family expires db = Some db' \<Longrightarrow> sessions db' = sessions db @
    [\<lparr>token_hash = hash, session_player = player, family_id = family, rotated = False, session_expires = expires,
      rotated_at = None\<rparr>] \<and> players db' = players db"
  by (auto simp: insert_session_def split: if_splits)

lemma update_players [simp]: "players (update_sessions P f db) = players db"
  by (simp add: update_sessions_def)

lemma delete_players [simp]: "players (delete_sessions P db) = players db"
  by (simp add: delete_sessions_def)

lemma sole_live: "families_ok db \<Longrightarrow> r \<in> set (sessions db) \<Longrightarrow> \<not> rotated r \<Longrightarrow> x \<in> set (sessions db) \<Longrightarrow> \<not> rotated x \<Longrightarrow>
    family_id x = family_id r \<Longrightarrow> x = r"
proof -
  assume ok: "families_ok db" and rx: "r \<in> set (sessions db)" "\<not> rotated r" "x \<in> set (sessions db)" "\<not> rotated x"
    "family_id x = family_id r"
  have "r \<in> set (live (family_id r) (sessions db))" "x \<in> set (live (family_id r) (sessions db))"
    using rx by (auto simp: live_def)
  then show "x = r"
    using families_okD(2) [OF ok, of "family_id r"] by (cases "live (family_id r) (sessions db)") auto
qed

lemma superseded_ok: "families_ok db \<Longrightarrow> families_ok (superseded now_unix r db)"
  by (simp add: superseded_def families_ok_update rotation_supersede)

lemma superseded_players [simp]: "players (superseded now_unix r db) = players db"
  by (simp add: superseded_def)

lemma marked_ok: "families_ok db \<Longrightarrow> families_ok (marked now_unix r db)"
  unfolding marked_def by (rule families_ok_update [OF _ rotation_mark])

lemma none_live:
  assumes "families_ok db" "r \<in> set (sessions db)"
  shows "live (family_id r) (sessions (marked now_unix r (superseded now_unix r db))) = []"
proof -
  have "x \<notin> set (live (family_id r) (filter (\<lambda>x. token_hash x \<noteq> token_hash r) (sessions (superseded now_unix r db))))" for x
    using sole_live [OF assms, of x] by (auto simp: live_def superseded_def update_sessions_def)
  then have "live (family_id r) (filter (\<lambda>x. token_hash x \<noteq> token_hash r) (sessions (superseded now_unix r db))) = []"
    by (metis last_in_set)
  then show ?thesis
    using live_update [OF rotation_mark] by (simp add: marked_def update_sessions_def)
qed

lemma same_keys:
  "map (\<lambda>r. (token_hash r, session_player r, family_id r)) (sessions (marked now_unix r (superseded now_unix r db))) =
    map (\<lambda>r. (token_hash r, session_player r, family_id r)) (sessions db)"
  by (simp add: marked_def superseded_def update_sessions_def)

lemma other_families:
  "filter (\<lambda>x. family_id x \<noteq> family_id r) (sessions (superseded now_unix r db)) =
    filter (\<lambda>x. family_id x \<noteq> family_id r) (sessions db)"
proof -
  have "filter (\<lambda>x. family_id x \<noteq> f) (map (\<lambda>x. if family_id x = f \<and> \<not> rotated x
      then x\<lparr>rotated := True, rotated_at := Some now_unix\<rparr> else x) rs) = filter (\<lambda>x. family_id x \<noteq> f) rs" for f and rs :: "session_row list"
    by (induction rs) simp_all
  then show ?thesis
    by (simp add: superseded_def update_sessions_def)
qed

lemma other_families_marked:
  assumes "distinct (map token_hash (sessions db))" "\<exists>r0 \<in> set (sessions db). token_hash r0 = token_hash r \<and> family_id r0 = family_id r"
  shows "filter (\<lambda>x. family_id x \<noteq> family_id r) (sessions (marked now_unix r db)) =
    filter (\<lambda>x. family_id x \<noteq> family_id r) (sessions db)"
proof -
  have same: "family_id x = family_id r" if "x \<in> set (sessions db)" "token_hash x = token_hash r" for x
    using assms that by (metis distinct_map inj_onD)
  have "filter (\<lambda>x. family_id x \<noteq> f) (map (\<lambda>x. if token_hash x = h then g x else x) rs) = filter (\<lambda>x. family_id x \<noteq> f) rs"
    if "\<forall>x \<in> set rs. token_hash x = h \<longrightarrow> family_id x = f" "\<And>x. family_id (g x) = family_id x" for f h and rs :: "session_row list" and g
    using that by (induction rs) auto
  then show ?thesis
    using same by (simp add: marked_def update_sessions_def)
qed

section \<open>The outcomes of a refresh\<close>

lemma rotate_session_cases:
  assumes "rotate_session js signer up random r p now_unix db db1 = (t, outcome, db')"
  obtains "outcome = DatabaseError" "db' = db" "\<not> tokens_ok t"
  | "outcome = RefreshOk" "insert_session (refresh_token_hash (refresh_token t)) (session_player r) (family_id r)
      (now_unix + REFRESH_TOKEN_TTL_SECONDS) (marked now_unix r db1) = Some db'"
    "t = (build_pair js signer random (session_player r) (account_name p) (account_epoch p) now_unix)\<lparr>tokens_ok := True\<rparr>"
    "access_token t \<noteq> ''''"
  using assms unfolding rotate_session_def
  by (auto simp: Let_def no_tokens_def split: if_splits option.splits)

lemma commit_deletion_cases:
  assumes "commit_deletion up statement db0 db1 = (t, outcome, db')"
  obtains "outcome = DatabaseError" "db' = db0" "\<not> tokens_ok t"
  | "outcome = InvalidOrRevoked" "db' = db1" "\<not> tokens_ok t"
  using assms by (auto simp: commit_deletion_def no_tokens_def split: if_splits)

lemma refresh_session_cases:
  assumes "refresh_session js signer up random token now_unix db = (t, outcome, db')"
  obtains (nothing) "outcome \<noteq> RefreshOk" "db' = db" "\<not> tokens_ok t"
      "outcome = InvalidOrRevoked \<Longrightarrow> token = '''' \<or> (\<forall>r \<in> set (sessions db). token_hash r \<noteq> refresh_token_hash token)"
  | (revoked) r where "r \<in> set (sessions db)" "token_hash r = refresh_token_hash token"
      "rotated r \<and> \<not> transport_retry now_unix r \<or> players db (session_player r) = None" "outcome = InvalidOrRevoked"
      "\<exists>db1. db1 \<in> {db, superseded now_unix r db} \<and> db' = delete_sessions (\<lambda>x. family_id x = family_id r) db1"
      "\<not> tokens_ok t"
  | (expired) r where "r \<in> set (sessions db)" "token_hash r = refresh_token_hash token"
      "rotated r \<Longrightarrow> transport_retry now_unix r" "session_expires r \<le> now_unix" "outcome = InvalidOrRevoked"
      "db' = delete_sessions (\<lambda>x. token_hash x = token_hash r) (superseded now_unix r db)" "\<not> tokens_ok t"
  | (rotated) r p where "r \<in> set (sessions db)" "token_hash r = refresh_token_hash token"
      "rotated r \<Longrightarrow> transport_retry now_unix r" "now_unix < session_expires r" "outcome = RefreshOk"
      "players db (session_player r) = Some p"
      "insert_session (refresh_token_hash (refresh_token t)) (session_player r) (family_id r)
        (now_unix + REFRESH_TOKEN_TTL_SECONDS) (marked now_unix r (superseded now_unix r db)) = Some db'"
      "t = (build_pair js signer random (session_player r) (account_name p) (account_epoch p) now_unix)\<lparr>tokens_ok := True\<rparr>"
      "access_token t \<noteq> ''''"
proof -
  let ?h = "refresh_token_hash token"
  show thesis
  proof (cases "token = '''' \<or> \<not> up Begin \<or> \<not> up Select_Session \<or> find (\<lambda>r. token_hash r = ?h) (sessions db) = None")
    case True
    have "outcome \<noteq> RefreshOk \<and> db' = db \<and> \<not> tokens_ok t
        \<and> (outcome = InvalidOrRevoked \<longrightarrow> token = '''' \<or> (\<forall>r \<in> set (sessions db). token_hash r \<noteq> ?h))"
      using True
    proof (elim disjE)
      assume "find (\<lambda>r. token_hash r = ?h) (sessions db) = None"
      moreover from this have "\<forall>r \<in> set (sessions db). token_hash r \<noteq> ?h"
        by (auto simp: find_None_iff)
      ultimately show ?thesis
        using assms by (auto simp: refresh_session_def Let_def no_tokens_def split: if_splits)
    qed (use assms in \<open>auto simp: refresh_session_def Let_def no_tokens_def split: if_splits\<close>)
    then show ?thesis
      by (intro that(1)) blast+
  next
    case False
    then obtain r where r: "find (\<lambda>r. token_hash r = ?h) (sessions db) = Some r" "token \<noteq> ''''" "up Begin" "up Select_Session"
      by blast
    then have found: "r \<in> set (sessions db)" "token_hash r = ?h"
      by (auto simp: find_Some_iff)
    have step: "refresh_session js signer up random token now_unix db =
      (if rotated r \<and> \<not> transport_retry now_unix r
       then commit_deletion up Delete_Family db (delete_sessions (\<lambda>x. family_id x = family_id r) db)
       else if rotated r \<and> \<not> up Supersede then (no_tokens, DatabaseError, db)
       else if session_expires r \<le> now_unix
         then commit_deletion up Delete_Session db (delete_sessions (\<lambda>x. token_hash x = ?h) (superseded now_unix r db))
       else if \<not> up Select_Player then (no_tokens, DatabaseError, db)
       else case players db (session_player r) of
           None \<Rightarrow> commit_deletion up Delete_Family db (delete_sessions (\<lambda>x. family_id x = family_id r) (superseded now_unix r db))
         | Some p \<Rightarrow> rotate_session js signer up random r p now_unix db (superseded now_unix r db))"
      using r by (simp only: refresh_session_def Let_def option.case superseded_players simp_thms if_True if_False)
    consider (reuse) "rotated r \<and> \<not> transport_retry now_unix r"
      | (expiry) "rotated r \<longrightarrow> transport_retry now_unix r" "rotated r \<longrightarrow> up Supersede" "session_expires r \<le> now_unix"
      | (missing) "rotated r \<longrightarrow> transport_retry now_unix r" "rotated r \<longrightarrow> up Supersede" "now_unix < session_expires r"
        "up Select_Player" "players db (session_player r) = None"
      | (rotate) p where "rotated r \<longrightarrow> transport_retry now_unix r" "rotated r \<longrightarrow> up Supersede" "now_unix < session_expires r"
        "up Select_Player" "players db (session_player r) = Some p"
      | (failure) "\<not> (rotated r \<and> \<not> transport_retry now_unix r)"
        "rotated r \<and> \<not> up Supersede \<or> \<not> session_expires r \<le> now_unix \<and> \<not> up Select_Player"
      by force
    then show thesis
    proof cases
      case reuse
      then have "commit_deletion up Delete_Family db (delete_sessions (\<lambda>x. family_id x = family_id r) db) = (t, outcome, db')"
        using assms unfolding step by simp
      then show ?thesis
        by (cases rule: commit_deletion_cases) (use that(1) in simp, use that(2) found reuse in blast)
    next
      case expiry
      then have "commit_deletion up Delete_Session db (delete_sessions (\<lambda>x. token_hash x = ?h) (superseded now_unix r db)) =
          (t, outcome, db')"
        using assms unfolding step by auto
      then show ?thesis
        by (cases rule: commit_deletion_cases) (use that(1) in simp, use that(3) found expiry in simp)
    next
      case missing
      then have "commit_deletion up Delete_Family db (delete_sessions (\<lambda>x. family_id x = family_id r) (superseded now_unix r db)) =
          (t, outcome, db')"
        using assms unfolding step by auto
      then show ?thesis
        by (cases rule: commit_deletion_cases) (use that(1) in simp, use that(2) found missing in blast)
    next
      case (rotate p)
      then have "rotate_session js signer up random r p now_unix db (superseded now_unix r db) = (t, outcome, db')"
        using assms unfolding step by auto
      then show ?thesis
        by (cases rule: rotate_session_cases) (use that(1) in simp, use that(4) found rotate in blast)
    next
      case failure
      then have "(t, outcome, db') = (no_tokens, DatabaseError, db)"
        using assms unfolding step by (cases "rotated r \<and> \<not> up Supersede") (simp_all add: if_not_P)
      then show ?thesis
        using that(1) by (simp add: no_tokens_def)
    qed
  qed
qed

lemma refresh_families_ok:
  assumes "families_ok db" "refresh_session js signer up random token now_unix db = (t, outcome, db')"
  shows "families_ok db'"
  using assms(2)
proof (cases rule: refresh_session_cases)
  case nothing
  then show ?thesis
    using assms(1) by simp
next
  case (revoked r)
  then show ?thesis
    using families_ok_delete [OF superseded_ok [OF assms(1)]] families_ok_delete [OF assms(1)] by blast
next
  case (expired r)
  then show ?thesis
    using families_ok_delete [OF superseded_ok [OF assms(1)]] by simp
next
  case (rotated r p)
  have same: "session_player x = session_player r"
    if x: "x \<in> set (sessions (marked now_unix r (superseded now_unix r db)))" "family_id x = family_id r" for x
  proof -
    have "(token_hash x, session_player x, family_id x) \<in> set (map (\<lambda>r. (token_hash r, session_player r, family_id r))
        (sessions (marked now_unix r (superseded now_unix r db))))"
      using x(1) by simp
    then have "\<exists>y \<in> set (sessions db). session_player y = session_player x \<and> family_id y = family_id x"
      unfolding same_keys by auto
    then show ?thesis
      using families_okD(4) [OF assms(1)] rotated(1) x(2) by metis
  qed
  show ?thesis
    by (rule families_ok_insert [OF marked_ok [OF superseded_ok [OF assms(1)]] rotated(7) none_live [OF assms(1) rotated(1)] same])
qed

lemma issue_families_ok:
  assumes "families_ok db" "new_uuid_v4 uuid \<notin> family_id ` set (sessions db)"
    "issue_session js signer up random uuid player name epoch now_unix db = (t, db')"
  shows "families_ok db'"
proof -
  let ?f = "new_uuid_v4 uuid"
  consider "db' = db" | hash expires where "insert_session hash player ?f expires db = Some db'"
    using assms(3) by (auto simp: issue_session_def Let_def split: if_splits option.splits)
  then show ?thesis
  proof cases
    case 2
    moreover have "live ?f (sessions db) = []"
      using assms(2) by (force simp: live_def filter_empty_conv)
    ultimately show ?thesis
      using assms(2) by (intro families_ok_insert [OF assms(1)]) force+
  qed (simp add: assms(1))
qed

lemma logout_all_families_ok:
  assumes "families_ok db" "logout_all up player db = (ok, db')"
  shows "families_ok db'"
proof -
  let ?db1 = "delete_sessions (\<lambda>x. session_player x = player) db"
  have "families_ok ?db1"
    by (rule families_ok_delete [OF assms(1)])
  moreover have "db' = db \<or> sessions db' = sessions ?db1 \<and> (\<forall>i. players ?db1 i \<noteq> None \<longrightarrow> players db' i \<noteq> None)"
    using assms(2) by (auto simp: logout_all_def Let_def split: if_splits option.splits)
  ultimately show ?thesis
    using assms(1) families_ok_players [of ?db1 db'] by blast
qed

lemma cascade_families_ok:
  assumes "families_ok db"
  shows "families_ok (delete_sessions (\<lambda>r. ps (session_player r) = None) (db\<lparr>players := ps\<rparr>))"
    (is "families_ok ?db")
proof -
  have ok: "families_ok (delete_sessions (\<lambda>r. ps (session_player r) = None) db)"
    by (rule families_ok_delete [OF assms])
  show ?thesis
  proof (rule families_okI)
    show "distinct (map token_hash (sessions ?db))" "\<And>family. length (live family (sessions ?db)) \<le> 1"
      using families_okD(1,2) [OF ok] by (simp_all add: delete_sessions_def)
    show "(rotated r \<longleftrightarrow> rotated_at r \<noteq> None) \<and> players ?db (session_player r) \<noteq> None" if r: "r \<in> set (sessions ?db)" for r
      using families_okD(3) [OF ok, of r] r by (simp add: delete_sessions_def)
    show "session_player r = session_player x" if rx: "r \<in> set (sessions ?db)" "x \<in> set (sessions ?db)" "family_id r = family_id x" for r x
      using families_okD(4) [OF ok, of r x] rx by (simp add: delete_sessions_def)
  qed
qed

lemma run_families_ok: "session_run js signer db \<Longrightarrow> families_ok db"
proof (induction rule: session_run.induct)
  case (Start ps)
  show ?case
    by (rule families_okI) (simp_all add: live_def)
next
  case (Logout db up token)
  then show ?case
    by (simp add: logout_def Let_def families_ok_delete)
qed (blast intro: refresh_families_ok issue_families_ok logout_all_families_ok cascade_families_ok)+

section \<open>Properties\<close>

lemma one_live_token_per_family_parts:
  assumes "session_run js signer db"
  shows "distinct (map token_hash (sessions db))" and "length (filter (\<lambda>r. family_id r = family \<and> \<not> rotated r) (sessions db)) \<le> 1"
    and "r \<in> set (sessions db) \<Longrightarrow> players db (session_player r) \<noteq> None"
    and "r \<in> set (sessions db) \<Longrightarrow> x \<in> set (sessions db) \<Longrightarrow> family_id r = family_id x \<Longrightarrow> session_player r = session_player x"
proof -
  note ok = run_families_ok [OF assms]
  show "distinct (map token_hash (sessions db))" "length (filter (\<lambda>r. family_id r = family \<and> \<not> rotated r) (sessions db)) \<le> 1"
    using families_okD(1,2) [OF ok] by (simp_all add: live_def)
  show "r \<in> set (sessions db) \<Longrightarrow> players db (session_player r) \<noteq> None"
    using families_okD(3) [OF ok, of r] by (rule conjunct2)
  show "r \<in> set (sessions db) \<Longrightarrow> x \<in> set (sessions db) \<Longrightarrow> family_id r = family_id x \<Longrightarrow> session_player r = session_player x"
    by (rule families_okD(4) [OF ok])
qed

text \<open>
  C30. In every run of the sessions, hashes are unique, every family of refresh tokens belongs to one existing player, and it has at most
  one token that has not been rotated: whatever logins, refreshes (with failing statements), sign-outs and changes of players come in which order,
  a login never leads to two usable successors.
\<close>

theorem one_live_token_per_family:
  assumes "session_run js signer db"
  shows "distinct (map token_hash (sessions db))
    \<and> (\<forall>family. length (filter (\<lambda>r. family_id r = family \<and> \<not> rotated r) (sessions db)) \<le> 1)
    \<and> (\<forall>r \<in> set (sessions db). players db (session_player r) \<noteq> None)
    \<and> (\<forall>r \<in> set (sessions db). \<forall>x \<in> set (sessions db). family_id r = family_id x \<longrightarrow> session_player r = session_player x)"
  by (intro conjI allI ballI impI one_live_token_per_family_parts [OF assms])

lemma delete_family_others:
  "filter (\<lambda>x. family_id x \<noteq> f) (sessions (delete_sessions (\<lambda>x. family_id x = f) db)) = filter (\<lambda>x. family_id x \<noteq> f) (sessions db)"
  by (simp add: delete_sessions_def)

lemma delete_row_others:
  assumes "distinct (map token_hash (sessions db))" "\<exists>r0 \<in> set (sessions db). token_hash r0 = h \<and> family_id r0 = f"
  shows "filter (\<lambda>x. family_id x \<noteq> f) (sessions (delete_sessions (\<lambda>x. token_hash x = h) db)) = filter (\<lambda>x. family_id x \<noteq> f) (sessions db)"
proof -
  have "family_id x = f" if "x \<in> set (sessions db)" "token_hash x = h" for x
    using assms that by (metis distinct_map inj_onD)
  then show ?thesis
    by (auto simp: delete_sessions_def intro: filter_cong)
qed

lemma superseded_row:
  assumes "r \<in> set (sessions db)"
  shows "\<exists>r0 \<in> set (sessions (superseded now_unix r db)). token_hash r0 = token_hash r \<and> family_id r0 = family_id r"
  using assms by (force simp: superseded_def update_sessions_def)

lemma refresh_rotates_or_revokes_parts:
  assumes "session_run js signer db" and "r \<in> set (sessions db)" and "token_hash r = refresh_token_hash token"
    and "refresh_session js signer up random token now_unix db = (t, outcome, db')"
  shows "outcome = RefreshOk \<Longrightarrow> now_unix < session_expires r \<and> (rotated r \<longrightarrow> transport_retry now_unix r)
      \<and> map token_hash (filter (\<lambda>x. family_id x = family_id r \<and> \<not> rotated x) (sessions db')) = [refresh_token_hash (refresh_token t)]"
    and "rotated r \<and> \<not> transport_retry now_unix r \<and> token \<noteq> '''' \<Longrightarrow>
      outcome = InvalidOrRevoked \<and> (\<forall>x \<in> set (sessions db'). family_id x \<noteq> family_id r) \<or> outcome = DatabaseError"
    and "outcome = DatabaseError \<Longrightarrow> db' = db"
    and "filter (\<lambda>x. family_id x \<noteq> family_id r) (sessions db') = filter (\<lambda>x. family_id x \<noteq> family_id r) (sessions db)"
proof -
  note ok = run_families_ok [OF assms(1)]
  have r': "r' = r" if "r' \<in> set (sessions db)" "token_hash r' = refresh_token_hash token" for r'
    using families_okD(1) [OF ok] assms(2,3) that by (metis distinct_map inj_onD)
  let ?goal = "(outcome = RefreshOk \<longrightarrow> now_unix < session_expires r \<and> (rotated r \<longrightarrow> transport_retry now_unix r)
      \<and> map token_hash (live (family_id r) (sessions db')) = [refresh_token_hash (refresh_token t)])
    \<and> (rotated r \<and> \<not> transport_retry now_unix r \<and> token \<noteq> '''' \<longrightarrow>
      outcome = InvalidOrRevoked \<and> (\<forall>x \<in> set (sessions db'). family_id x \<noteq> family_id r) \<or> outcome = DatabaseError)
    \<and> (outcome = DatabaseError \<longrightarrow> db' = db)
    \<and> filter (\<lambda>x. family_id x \<noteq> family_id r) (sessions db') = filter (\<lambda>x. family_id x \<noteq> family_id r) (sessions db)"
  from assms(4) have ?goal
  proof (cases rule: refresh_session_cases)
    case nothing
    then show ?thesis
      using assms(2,3) by (cases outcome) auto
  next
    case (revoked r')
    then obtain db1 where db1: "db1 \<in> {db, superseded now_unix r db}" "db' = delete_sessions (\<lambda>x. family_id x = family_id r) db1"
      using r' [OF revoked(1,2)] by auto
    then have "filter (\<lambda>x. family_id x \<noteq> family_id r) (sessions db') = filter (\<lambda>x. family_id x \<noteq> family_id r) (sessions db)"
      using delete_family_others [of "family_id r" db1] other_families [of r now_unix db] by auto
    then show ?thesis
      using revoked(4) db1(2) by (simp add: delete_sessions_def)
  next
    case (expired r')
    have "filter (\<lambda>x. family_id x \<noteq> family_id r)
        (sessions (delete_sessions (\<lambda>x. token_hash x = token_hash r) (superseded now_unix r db))) =
        filter (\<lambda>x. family_id x \<noteq> family_id r) (sessions (superseded now_unix r db))"
      by (rule delete_row_others [OF families_okD(1) [OF superseded_ok [OF ok]] superseded_row [OF assms(2)]])
    then have "filter (\<lambda>x. family_id x \<noteq> family_id r) (sessions db') = filter (\<lambda>x. family_id x \<noteq> family_id r) (sessions db)"
      using other_families [of r now_unix db] expired(6) r' [OF expired(1,2)] by simp
    then show ?thesis
      using expired(3,5) r' [OF expired(1,2)] by auto
  next
    case (rotated r' p)
    then have same: "r' = r"
      using r' by blast
    note new = insert_sessions [OF rotated(7) [unfolded same]]
    have "live (family_id r) (sessions db') =
        [\<lparr>token_hash = refresh_token_hash (refresh_token t), session_player = session_player r, family_id = family_id r, rotated = False,
          session_expires = now_unix + REFRESH_TOKEN_TTL_SECONDS, rotated_at = None\<rparr>]"
      using new none_live [OF ok assms(2), of now_unix] by simp
    moreover have "filter (\<lambda>x. family_id x \<noteq> family_id r) (sessions (marked now_unix r (superseded now_unix r db))) =
        filter (\<lambda>x. family_id x \<noteq> family_id r) (sessions (superseded now_unix r db))"
      by (rule other_families_marked [OF families_okD(1) [OF superseded_ok [OF ok]] superseded_row [OF assms(2)]])
    then have "filter (\<lambda>x. family_id x \<noteq> family_id r) (sessions db') = filter (\<lambda>x. family_id x \<noteq> family_id r) (sessions db)"
      using new other_families [of r now_unix db] by simp
    ultimately show ?thesis
      using rotated(3-5) same by simp
  qed
  then show "outcome = RefreshOk \<Longrightarrow> now_unix < session_expires r \<and> (rotated r \<longrightarrow> transport_retry now_unix r)
      \<and> map token_hash (filter (\<lambda>x. family_id x = family_id r \<and> \<not> rotated x) (sessions db')) = [refresh_token_hash (refresh_token t)]"
    "rotated r \<and> \<not> transport_retry now_unix r \<and> token \<noteq> '''' \<Longrightarrow>
      outcome = InvalidOrRevoked \<and> (\<forall>x \<in> set (sessions db'). family_id x \<noteq> family_id r) \<or> outcome = DatabaseError"
    "outcome = DatabaseError \<Longrightarrow> db' = db"
    "filter (\<lambda>x. family_id x \<noteq> family_id r) (sessions db') = filter (\<lambda>x. family_id x \<noteq> family_id r) (sessions db)"
    unfolding live_def by blast+
qed

text \<open>
  C29. A refresh rotates the token or revokes. Of a token that is in the table: the exchange succeeds only if the token has not expired
  and was not rotated before, or was rotated at most ten seconds ago; the token is then rotated, and the new token is the only
  one of its family that is not. A token rotated earlier is never exchanged, and unless the database fails its whole family is
  deleted. A failing database changes nothing, and no outcome touches another family.
\<close>

theorem refresh_rotates_or_revokes:
  assumes "session_run js signer db" and "r \<in> set (sessions db)" and "token_hash r = refresh_token_hash token"
    and "refresh_session js signer up random token now_unix db = (t, outcome, db')"
  shows "(outcome = RefreshOk \<longrightarrow> now_unix < session_expires r \<and> (rotated r \<longrightarrow> transport_retry now_unix r)
      \<and> map token_hash (filter (\<lambda>x. family_id x = family_id r \<and> \<not> rotated x) (sessions db')) = [refresh_token_hash (refresh_token t)])
    \<and> (rotated r \<and> \<not> transport_retry now_unix r \<and> token \<noteq> '''' \<longrightarrow>
      outcome = InvalidOrRevoked \<and> (\<forall>x \<in> set (sessions db'). family_id x \<noteq> family_id r) \<or> outcome = DatabaseError)
    \<and> (outcome = DatabaseError \<longrightarrow> db' = db)
    \<and> filter (\<lambda>x. family_id x \<noteq> family_id r) (sessions db') = filter (\<lambda>x. family_id x \<noteq> family_id r) (sessions db)"
proof -
  note p = refresh_rotates_or_revokes_parts [OF assms]
  show ?thesis
    by (intro conjI, use p(1) in blast, use p(2) in blast, use p(3) in blast, rule p(4))
qed

lemma signed_out_everywhere_parts:
  assumes "logout_all up player db = (True, db')" and "players db player = Some p"
  shows "r \<in> set (sessions db') \<Longrightarrow> session_player r \<noteq> player"
    and "authorize_access_token js signer up' jwt now_unix db' = GateOk c \<Longrightarrow> player_id c = player \<Longrightarrow>
      token_epoch c = account_epoch p + 1 \<and> verify_access js signer jwt now_unix = Some c"
proof -
  have db': "db' = delete_sessions (\<lambda>x. session_player x = player) db
      \<lparr>players := (players db)(player \<mapsto> p\<lparr>account_epoch := account_epoch p + 1\<rparr>)\<rparr>"
    using assms by (simp add: logout_all_def Let_def split: if_splits)
  show "r \<in> set (sessions db') \<Longrightarrow> session_player r \<noteq> player"
    by (simp add: db' delete_sessions_def)
  show "authorize_access_token js signer up' jwt now_unix db' = GateOk c \<Longrightarrow> player_id c = player \<Longrightarrow>
      token_epoch c = account_epoch p + 1 \<and> verify_access js signer jwt now_unix = Some c"
    by (auto simp: authorize_access_token_def current_token_epoch_def db' Let_def split: option.splits if_splits)
qed

text \<open>
  C31. Signing out everywhere is at once. After a \<open>logout_all\<close> that succeeds, the player has no session, so that no refresh token of his
  is exchanged, and the gate passes an access token of his only if it carries the new epoch: every token issued with the
  old one is refused, whatever its signature and times.
\<close>

theorem signed_out_everywhere:
  assumes "logout_all up player db = (True, db')" and "players db player = Some p"
  shows "(\<forall>r \<in> set (sessions db'). session_player r \<noteq> player)
    \<and> (\<forall>up' jwt now_unix c. authorize_access_token js signer up' jwt now_unix db' = GateOk c \<longrightarrow> player_id c = player \<longrightarrow>
      token_epoch c = account_epoch p + 1 \<and> verify_access js signer jwt now_unix = Some c)"
  using signed_out_everywhere_parts [OF assms] by blast

section \<open>A session\<close>

definition demo_bytes :: "8 word \<Rightarrow> bytes" where
  "demo_bytes b = replicate 32 b"

definition demo_players :: "int \<rightharpoonup> account" where
  "demo_players = [7 \<mapsto> \<lparr>account_name = ''adi'', account_epoch = 2\<rparr>]"

definition demo_row :: session_row where
  "demo_row = \<lparr>token_hash = refresh_token_hash (mint_refresh_token (demo_bytes 1)), session_player = 7,
     family_id = new_uuid_v4 (demo_bytes 0), rotated = False, session_expires = 2593000, rotated_at = None\<rparr>"

definition demo_db :: auth_db where
  "demo_db = \<lparr>sessions = [demo_row], players = demo_players\<rparr>"

lemma demo_not_empty: "mint_refresh_token (demo_bytes b) \<noteq> ''''"
  unfolding mint_refresh_token_def encode_empty by (simp add: demo_bytes_def)

lemma demo_session_run: "session_run demo_tokens_json (demo_bytes 1) demo_db"
proof -
  let ?t = "build_pair demo_tokens_json (demo_bytes 1) (demo_bytes 1) 7 ''adi'' 2 1000"
  have t: "access_token ?t \<noteq> ''''" "refresh_token ?t = mint_refresh_token (demo_bytes 1)"
    by (simp_all add: build_pair_def issue_access_def valid_signer_def Let_def demo_bytes_def)
  have row: "insert_session (refresh_token_hash (mint_refresh_token (demo_bytes 1))) 7 (new_uuid_v4 (demo_bytes 0)) 2593000
      \<lparr>sessions = [], players = demo_players\<rparr> = Some demo_db"
    by (simp add: insert_session_def demo_players_def demo_row_def demo_db_def)
  have "issue_session demo_tokens_json (demo_bytes 1) (\<lambda>s. True) (demo_bytes 1) (demo_bytes 0) 7 ''adi'' 2 1000
      \<lparr>sessions = [], players = demo_players\<rparr> = (?t\<lparr>tokens_ok := True\<rparr>, demo_db)"
    using t row demo_not_empty by (simp add: issue_session_def Let_def REFRESH_TOKEN_TTL_SECONDS_def)
  from session_run.Issue [OF session_run.Start _ this] show ?thesis
    by simp
qed

lemma one_live_token_per_family_witness:
  "\<exists>db. session_run demo_tokens_json (demo_bytes 1) db \<and> sessions db = [demo_row]
    \<and> length (filter (\<lambda>r. family_id r = family_id demo_row \<and> \<not> rotated r) (sessions db)) \<le> 1"
proof (intro exI conjI)
  show "session_run demo_tokens_json (demo_bytes 1) demo_db"
    by (rule demo_session_run)
  show "sessions demo_db = [demo_row]"
    by (simp add: demo_db_def)
  show "length (filter (\<lambda>r. family_id r = family_id demo_row \<and> \<not> rotated r) (sessions demo_db)) \<le> 1"
    by (rule one_live_token_per_family [OF demo_session_run, THEN conjunct2, THEN conjunct1, rule_format])
qed

lemma refresh_rotates_or_revokes_witness:
  "\<exists>t outcome db'. refresh_session demo_tokens_json (demo_bytes 1) (\<lambda>s. True) (demo_bytes 2) (mint_refresh_token (demo_bytes 1))
      2000 demo_db = (t, outcome, db')
    \<and> (outcome = DatabaseError \<longrightarrow> db' = demo_db)
    \<and> (outcome = RefreshOk \<longrightarrow> map token_hash (filter (\<lambda>x. family_id x = family_id demo_row \<and> \<not> rotated x) (sessions db')) =
        [refresh_token_hash (refresh_token t)])"
proof -
  obtain t outcome db' where run: "refresh_session demo_tokens_json (demo_bytes 1) (\<lambda>s. True) (demo_bytes 2)
      (mint_refresh_token (demo_bytes 1)) 2000 demo_db = (t, outcome, db')"
    using prod_cases3 by blast
  have row: "demo_row \<in> set (sessions demo_db)" "token_hash demo_row = refresh_token_hash (mint_refresh_token (demo_bytes 1))"
    unfolding demo_db_def demo_row_def by (simp_all only: auth_db.select_convs session_row.select_convs list.set insert_iff simp_thms)
  have ok: "outcome = RefreshOk \<longrightarrow> map token_hash (filter (\<lambda>x. family_id x = family_id demo_row \<and> \<not> rotated x) (sessions db')) =
      [refresh_token_hash (refresh_token t)]"
    using refresh_rotates_or_revokes [OF demo_session_run row run, THEN conjunct1] by blast
  have error: "outcome = DatabaseError \<longrightarrow> db' = demo_db"
    using refresh_rotates_or_revokes [OF demo_session_run row run, THEN conjunct2, THEN conjunct2, THEN conjunct1] by blast
  show ?thesis
    by (rule exI, rule exI, rule exI, rule conjI [OF run conjI [OF error ok]])
qed

lemma signed_out_everywhere_witness:
  "\<exists>db'. logout_all (\<lambda>s. True) 7 demo_db = (True, db') \<and> demo_row \<notin> set (sessions db')
    \<and> (\<forall>c. authorize_access_token demo_tokens_json (demo_bytes 1) (\<lambda>s. True) (issue_access demo_tokens_json (demo_bytes 1)
          \<lparr>player_id = 7, username = ''adi'', token_epoch = 2, issued_at = 1000, expires_at = 1900\<rparr>) 1500 db' = GateOk c \<longrightarrow>
        player_id c = 7 \<longrightarrow> token_epoch c = 3)"
proof -
  obtain db' where out: "logout_all (\<lambda>s. True) 7 demo_db = (True, db')"
    by (simp add: logout_all_def Let_def)
  have p: "players demo_db 7 = Some \<lparr>account_name = ''adi'', account_epoch = 2\<rparr>"
    by (simp add: demo_players_def demo_db_def)
  show ?thesis
  proof (intro exI conjI allI impI)
    show "logout_all (\<lambda>s. True) 7 demo_db = (True, db')"
      by (rule out)
    show "demo_row \<notin> set (sessions db')"
      using bspec [OF signed_out_everywhere [OF out p, THEN conjunct1], of demo_row] by (auto simp: demo_row_def)
    show "token_epoch c = 3" if gate: "authorize_access_token demo_tokens_json (demo_bytes 1) (\<lambda>s. True)
        (issue_access demo_tokens_json (demo_bytes 1)
          \<lparr>player_id = 7, username = ''adi'', token_epoch = 2, issued_at = 1000, expires_at = 1900\<rparr>) 1500 db' = GateOk c"
      "player_id c = 7" for c
      using signed_out_everywhere [OF out p, THEN conjunct2, rule_format, OF gate] by (simp only: account.simps)
  qed
qed

end
