(* ===== verification/Spec2Isabelle.thy ===== *)
theory Spec2Isabelle
  imports GameplayService EngineExact Tournament WorkerPool SealedKeys Sessions
begin

text \<open>
  The chess server of \<open>src/src\<close>: the rules of chess, the search engine, the games of two players or of
  a player and the computer, the service that serves their requests, the tournaments, the worker threads, and the sessions and
  cryptography of the accounts.

  \<^bold>\<open>The program.\<close> A request reaches \<open>application/gameplay_service.cpp\<close> with the socket and the
  identity of its caller. The service looks the game up in the registry (\<open>game/room_manager.cpp\<close>),
  calls the room (\<open>game/game_room.cpp\<close>), and sends frames to the caller, the opponent and the spectators.
  Players without a game wait in the matchmaker (\<open>game/matchmaker.cpp\<close>), which opens rooms for pairs
  of them. A room asks the rules (\<open>chess/move_gen.cpp\<close> over \<open>chess/board.cpp\<close>) whether a move is
  legal and what it leads to; in a computer game the service asks \<open>game/ai_player.cpp\<close>, and it the
  engine (\<open>chess/engine.cpp\<close> with \<open>chess/evaluator.cpp\<close> and \<open>chess/transposition_table.cpp\<close>), for the
  reply. \<open>tournament/swiss.cpp\<close> pairs the rounds of a tournament. Requests run on the threads of
  \<open>concurrent/thread_pool.cpp\<close>; a caller is known by an access token (\<open>auth/token.cpp\<close>, \<open>auth/session.cpp\<close>), and requests
  with secrets come in sealed envelopes (\<open>crypto/sealed_registry.cpp\<close>).

  \<^bold>\<open>The theories\<close>, each with the source it models and what its lemmas show:
  \<^item> \<open>Types\<close> (\<open>core/types.h\<close>, \<open>chess/move.h\<close>): squares and masks as 8-bit words, pieces, moves, their text.
  \<^item> \<open>Zobrist\<close> (\<open>chess/zobrist.cpp\<close>): the generator at 64 bits and its 793 keys, which are distinct.
  \<^item> \<open>Board\<close>, \<open>MakeUndo\<close>, \<open>MoveGen\<close>, \<open>Rules\<close> (\<open>chess/board.cpp\<close>, \<open>chess/move_gen.cpp\<close>): the mailbox board, attack
    detection, making and taking back moves, generation, the end of the game. Taking back restores
    the board, the incremental key is the key from scratch, the legal moves are exactly the
    pseudo-legal ones that leave the king safe. \<open>MakeUndo\<close> is the contract of a game tree walked in
    place, as a locale; \<open>Rules\<close> interprets it, and \<open>perft\<close> and the engine rest on its facts.
  \<^item> \<open>Fen\<close>, \<open>Notation\<close> (\<open>chess/board.cpp\<close>, \<open>chess/notation.cpp\<close>): FEN, SAN and PGN, with their round trips.
  \<^item> \<open>Evaluator\<close> (\<open>chess/evaluator.cpp\<close>): all terms; the score is colour blind and below the mate scores.
  \<^item> \<open>LossyCache\<close>, \<open>TranspositionTable\<close> (\<open>chess/transposition_table.cpp\<close>): the contract of a cache that may
    forget but not invent, as a locale, and the table that provides it.
  \<^item> \<open>Engine\<close>, \<open>EngineExact\<close> (\<open>chess/engine.cpp\<close>): the search under arbitrary clocks, tables and orders of
    ties always answers a legal move; uninterrupted, quiescence is plain minimax within its window.
  \<^item> \<open>Refinement\<close>, \<open>GameRoom\<close> (\<open>game/game_room.cpp\<close>): a contract of machines that refine an abstract one,
    as a locale; the room with its seats, clocks, offers and listeners refines the abstract game.
  \<^item> \<open>AiPlayer\<close> (\<open>game/ai_player.cpp\<close>, \<open>chess/engine_move_selector.cpp\<close>): the computer's answer is accepted.
  \<^item> \<open>Tables\<close>, \<open>RoomManager\<close>, \<open>Matchmaker\<close> (\<open>game/room_manager.cpp\<close>, \<open>game/matchmaker.cpp\<close>): the registry and
    the queue over hash maps of any iteration order; every registered room is reachable, and the
    sweep is fair and loses nobody.
  \<^item> \<open>GameplayService\<close> (\<open>application/gameplay_service.cpp\<close>): every request, the disconnection and the sweep;
    rooms stay reachable, and boards change only by moves of their players.
  \<^item> \<open>Swiss\<close> (\<open>tournament/swiss.cpp\<close>): the branch-and-bound pairing answers a best round.
  \<^item> \<open>TournamentStore\<close>, \<open>TournamentManager\<close> (\<open>tournament/tournament_repo.cpp\<close>, \<open>tournament/tournament_manager.cpp\<close>): the tables
    with their SQL statements as functions on rows, any of which may be refused, and the life of a tournament.
  \<^item> \<open>TournamentLedger\<close>, \<open>Tournament\<close>: the contracts of the statements as locales, which the operations of
    the manager then keep; interpreted on the invariant of the tables (totals follow the results, nobody is
    seated twice, rounds are in order) and on the standing of recorded results. The standings are ranked.
  \<^item> \<open>WorkerPool\<close> (\<open>concurrent/task_queue.h\<close>, \<open>concurrent/thread_pool.cpp\<close>): the queue and the worker threads as a step relation;
    tasks run once and in order under every interleaving, and the pool comes to rest (a locale of relations with
    a measure, interpreted on the pool).
  \<^item> \<open>Base64\<close> (\<open>crypto/base64.cpp\<close>): the decoders accept exactly what the encoders write, for any alphabet (a locale)
    and the two of the code.
  \<^item> \<open>Hashing\<close>, \<open>Hmac\<close> (\<open>crypto/sha256.cpp\<close>, \<open>crypto/sha512.cpp\<close>, \<open>crypto/hmac.h\<close>, \<open>crypto/hkdf.h\<close>, \<open>crypto/constant_time.h\<close>): the
    streaming hashes, HMAC and HKDF are those of the standards; the contract of a streaming hash is a locale.
  \<^item> \<open>Cipher\<close>, \<open>Sealing\<close> (\<open>crypto/aes.cpp\<close>, \<open>crypto/aes_ctr.cpp\<close>, \<open>crypto/aead.cpp\<close>, \<open>crypto/sealed_envelope.cpp\<close>): AES-256 in counter mode,
    authenticated encryption and envelopes, which open exactly when they were sealed.
  \<^item> \<open>Json\<close>, \<open>SealedKeys\<close> (\<open>crypto/sealed_key_store.cpp\<close>, \<open>crypto/sealed_registry.cpp\<close>): one-time keys are used once, and nothing gets
    around the envelope of a sealed type. \<open>Json\<close> holds the functions of the JSON library as a parameter.
  \<^item> \<open>Tokens\<close>, \<open>Sessions\<close> (\<open>auth/token.cpp\<close>, \<open>auth/session.cpp\<close>): the accepted access tokens are exactly the signed ones; refresh
    tokens rotate, their reuse revokes the family, and signing out everywhere is at once.

  \<^bold>\<open>Conventions.\<close> A method is a function from its arguments and the state to its result, its outputs
  and the new state. A mutex serialises the calls of an object, so a run is a sequence of calls; what a room
  does with its events after a call is part of the call (\<open>drain\<close>). Machine integers are words where the code relies on
  their width (squares, masks, keys, room ids, table indices, depths) and \<open>int\<close> elsewhere; there the
  code has \<open>int\<close> values whose overflow would be undefined behaviour (clocks in milliseconds, ratings, scores;
  the scores are bounded by \<open>evaluate_below_mate\<close>). Clock reads, fresh identifiers, the stop
  flag, the order \<open>std::sort\<close> gives to equal elements and the order of hash maps are arguments, which the properties quantify over.

  \<^bold>\<open>Bounds.\<close> The sliding loops carry 8 units of fuel, and \<open>ray_fuel_enough\<close> shows that more changes
  nothing. Quiescence stops at ply 64 by itself (\<open>quiescence_rec\<close>). The size loop of the table runs at most
  64 times, the width of its counter. Every other loop of the model is structural or has a measure.

  The counter of AES has 16 bytes and the loops over bytes, blocks and rounds are over lists. The steps of the thread pool
  are bounded by \<open>work_left\<close>.

  \<^bold>\<open>Not modelled.\<close> The network loop and the frames of web sockets, the request handlers, which turn JSON text (nlohmann::json) into calls,
  the key exchange and signatures of OpenSSL (parameters of \<open>Sealing\<close>), passwords, mail, external identities, the rate limiter,
  the anti-cheat report and logging; the SQL of games and players is text for PostgreSQL. Timing and the wiping of secrets have no
  counterpart in the model.
\<close>

end
